(* ===== verification/Sdskv_Prelude.thy ===== *)
theory Sdskv_Prelude
  imports Main "HOL-Library.Word" "HOL-Library.Monad_Syntax"
begin

text \<open>
  Shared vocabulary of the SDSKV development: the machine types of the C and C++ sources, bounded
  reads and writes of byte buffers, the in-memory representation of \<open>hg_size_t\<close> arrays, and
  the generic lemmas on them that the component theories use.

  \<^item> \<open>byte\<close> is \<open>char\<close>, \<open>bulk\<close> is \<open>ds_bulk_t\<close> (\<open>std::vector<char>\<close>, bulk.h),
    \<open>int32\<close> is \<open>int32_t\<close> (every \<open>ret\<close> field), \<open>db_id\<close> is \<open>sdskv_database_id_t\<close>.
  \<^item> A computation of type \<open>'a option\<close> yields \<open>None\<close> where the source has no defined result: it reads
    or writes outside a buffer, or it loops forever.
  \<^item> Sizes (\<open>hg_size_t\<close>, \<open>size_t\<close>) are \<open>nat\<close>; where they are stored in a buffer they are the eight
    little-endian bytes of a 64-bit word.
\<close>

section \<open>Machine types\<close>

type_synonym byte = "8 word"
type_synonym bulk = "byte list"
type_synonym int32 = "32 word"
type_synonym db_id = "64 word"
type_synonym hg_return = "32 word"

abbreviation (input) hg_success :: hg_return where
  "hg_success \<equiv> 0"

named_theorems buffer_simps \<open>reads and writes of byte buffers at known offsets\<close>

section \<open>Bounded buffer access\<close>

text \<open>The bytes \<open>[off, off + n)\<close> of a buffer; undefined when the range leaves the buffer.\<close>

definition buf_slice :: "'a list \<Rightarrow> nat \<Rightarrow> nat \<Rightarrow> 'a list option" where
  "buf_slice xs off n = (if off + n \<le> length xs then Some (take n (drop off xs)) else None)"

text \<open>\<open>xs[i]\<close>; undefined outside the array.\<close>

definition arr :: "'a list \<Rightarrow> nat \<Rightarrow> 'a option" where
  "arr xs i = (if i < length xs then Some (xs ! i) else None)"

text \<open>\<open>memcpy\<close> into a buffer; undefined when the range leaves the buffer.\<close>

definition overwrite :: "'a list \<Rightarrow> nat \<Rightarrow> 'a list \<Rightarrow> 'a list option" where
  "overwrite xs off ys =
     (if off + length ys \<le> length xs
      then Some (take off xs @ ys @ drop (off + length ys) xs) else None)"

lemma arr_length [simp]: "arr (xs @ x # ys) (length xs) = Some x"
  by (simp add: arr_def)

lemma arr_nth [simp]: "i < length xs \<Longrightarrow> arr xs i = Some (xs ! i)"
  by (simp add: arr_def)

lemma arr_map [simp]: "arr (map f xs) i = map_option f (arr xs i)"
  by (simp add: arr_def)

lemma buf_slice_append [buffer_simps]:
  "length a = off \<Longrightarrow> length b = n \<Longrightarrow> buf_slice (a @ b @ c) off n = Some b"
  by (auto simp: buf_slice_def)

lemma buf_slice_0_append [buffer_simps]: "length b = n \<Longrightarrow> buf_slice (b @ c) 0 n = Some b"
  by (auto simp: buf_slice_def)

lemma buf_slice_0_all [buffer_simps]: "length b = n \<Longrightarrow> buf_slice b 0 n = Some b"
  by (auto simp: buf_slice_def)

lemma buf_slice_length: "buf_slice xs off n = Some ys \<Longrightarrow> length ys = n"
  by (auto simp: buf_slice_def split: if_splits)

lemma overwrite_append [buffer_simps]:
  "length a = off \<Longrightarrow> length b = length b' \<Longrightarrow> overwrite (a @ b @ c) off b' = Some (a @ b' @ c)"
  by (auto simp: overwrite_def)

lemma overwrite_length: "overwrite xs off ys = Some zs \<Longrightarrow> length zs = length xs"
  by (auto simp: overwrite_def split: if_splits)

lemma overwrite_defined: "off + length ys \<le> length xs \<Longrightarrow> overwrite xs off ys \<noteq> None"
  by (simp add: overwrite_def)

lemma buf_slice_overwrite_same [buffer_simps]:
  "overwrite xs off ys = Some zs \<Longrightarrow> buf_slice zs off (length ys) = Some ys"
  by (auto simp: overwrite_def buf_slice_def split: if_splits)

section \<open>Arrays of sizes in memory\<close>

text \<open>Arithmetic on \<open>hg_size_t\<close>, \<open>size_t\<close> and \<open>uint64_t\<close>.\<close>

definition wrap64 :: "nat \<Rightarrow> nat" where
  "wrap64 n = n mod 2 ^ 64"

lemma wrap64_small [simp]: "n < 2 ^ 64 \<Longrightarrow> wrap64 n = n"
  by (simp add: wrap64_def)

text \<open>The \<open>k\<close> low bytes of a number, least significant first, and the number they denote.\<close>

primrec le_bytes :: "nat \<Rightarrow> nat \<Rightarrow> byte list" where
  "le_bytes 0 n = []"
| "le_bytes (Suc k) n = word_of_nat (n mod 256) # le_bytes k (n div 256)"

primrec le_nat :: "byte list \<Rightarrow> nat" where
  "le_nat [] = 0"
| "le_nat (b # bs) = unat b + 256 * le_nat bs"

definition enc_size :: "nat \<Rightarrow> byte list" where
  "enc_size n = le_bytes 8 n"

definition enc_sizes :: "nat list \<Rightarrow> byte list" where
  "enc_sizes ns = concat (map enc_size ns)"

text \<open>\<open>(hg_size_t*)buffer\<close>: the first \<open>num\<close> sizes stored at the start of a buffer.\<close>

fun read_sizes :: "byte list \<Rightarrow> nat \<Rightarrow> nat list option" where
  "read_sizes buf 0 = Some []"
| "read_sizes buf (Suc num) =
     (if length buf < 8 then None
      else map_option ((#) (le_nat (take 8 buf))) (read_sizes (drop 8 buf) num))"

lemma length_le_bytes [simp]: "length (le_bytes k n) = k"
  by (induction k arbitrary: n) auto

lemma le_nat_le_bytes: "n < 256 ^ k \<Longrightarrow> le_nat (le_bytes k n) = n"
proof (induction k arbitrary: n)
  case (Suc k)
  then have "n div 256 < 256 ^ k"
    by (simp add: less_mult_imp_div_less mult.commute)
  moreover have "unat (word_of_nat (n mod 256) :: byte) = n mod 256"
    by (simp add: unat_of_nat)
  ultimately show ?case
    using Suc.IH [of "n div 256"] by simp
qed simp

lemma length_enc_size [simp]: "length (enc_size n) = 8"
  by (simp add: enc_size_def)

lemma le_nat_enc_size: "n < 2 ^ 64 \<Longrightarrow> le_nat (enc_size n) = n"
  using le_nat_le_bytes [of n 8] by (simp add: enc_size_def)

lemma length_enc_sizes [simp]: "length (enc_sizes ns) = 8 * length ns"
  by (induction ns) (auto simp: enc_sizes_def)

lemma enc_sizes_Nil [simp]: "enc_sizes [] = []"
  by (simp add: enc_sizes_def)

lemma enc_sizes_Cons [simp]: "enc_sizes (n # ns) = enc_size n @ enc_sizes ns"
  by (simp add: enc_sizes_def)

lemma enc_sizes_append [simp]: "enc_sizes (ms @ ns) = enc_sizes ms @ enc_sizes ns"
  by (simp add: enc_sizes_def)

lemma read_sizes_enc_sizes [buffer_simps]:
  "\<forall>n\<in>set ns. n < 2 ^ 64 \<Longrightarrow> num = length ns \<Longrightarrow> read_sizes (enc_sizes ns @ rest) num = Some ns"
proof (induction ns arbitrary: num)
  case (Cons n ns)
  then show ?case by (simp add: le_nat_enc_size)
qed simp

lemma read_sizes_enc_sizes' [buffer_simps]:
  "\<forall>n\<in>set ns. n < 2 ^ 64 \<Longrightarrow> num = length ns \<Longrightarrow> read_sizes (enc_sizes ns) num = Some ns"
  using read_sizes_enc_sizes [of ns num "[]"] by simp

lemma read_sizes_length: "read_sizes buf num = Some ns \<Longrightarrow> length ns = num"
  by (induction num arbitrary: buf ns) (auto split: if_splits)

lemma read_sizes_None: "read_sizes buf num = None \<longleftrightarrow> length buf < 8 * num"
  by (induction num arbitrary: buf) auto

text \<open>Concatenated items of known sizes, as the packed RPCs ship them.\<close>

fun unpack :: "'a list \<Rightarrow> nat list \<Rightarrow> 'a list list option" where
  "unpack buf [] = Some []"
| "unpack buf (n # ns) =
     (if length buf < n then None
      else map_option ((#) (take n buf)) (unpack (drop n buf) ns))"

lemma unpack_concat [buffer_simps]: "unpack (concat xss @ rest) (map length xss) = Some xss"
  by (induction xss) auto

lemma unpack_sound: "unpack buf ns = Some xss \<Longrightarrow> map length xss = ns \<and> (\<exists>rest. buf = concat xss @ rest)"
proof (induction ns arbitrary: buf xss)
  case (Cons n ns)
  then obtain ys where ys: "unpack (drop n buf) ns = Some ys" "xss = take n buf # ys" "n \<le> length buf"
    by (auto split: if_splits)
  from Cons.IH [OF ys(1)] obtain rest where "map length ys = ns" "drop n buf = concat ys @ rest"
    by blast
  with ys show ?case by (metis append_assoc append_take_drop_id concat.simps(2) length_take list.simps(9) min_absorb2)
qed simp

end
