(* ===== verification/Sdskv_Common.thy ===== *)
theory Sdskv_Common
  imports Sdskv_Prelude
begin

unbundle bit_operations_syntax

text \<open>
  The codes shared by client and server: include/sdskv-common.h (database types, return values and
  the macros that pack Mercury and Argobots errors into an \<open>int32_t\<close>) and the exception class
  of include/sdskv-common.hpp that turns a code into a message.
\<close>

section \<open>Database types and return values\<close>

datatype sdskv_db_type_t =
  KVDB_MAP | KVDB_NULL | KVDB_BWTREE | KVDB_LEVELDB | KVDB_BERKELEYDB | KVDB_FORWARDDB

definition SDSKV_DATABASE_ID_INVALID :: db_id where
  "SDSKV_DATABASE_ID_INVALID = 0"

definition SDSKV_KEEP_ORIGINAL :: int32 where
  "SDSKV_KEEP_ORIGINAL = 0"

definition SDSKV_REMOVE_ORIGINAL :: int32 where
  "SDSKV_REMOVE_ORIGINAL = 1"

datatype sdskv_return_t =
  SDSKV_SUCCESS | SDSKV_ERR_ALLOCATION | SDSKV_ERR_INVALID_ARG | SDSKV_ERR_PR_EXISTS
| SDSKV_ERR_DB_CREATE | SDSKV_ERR_DB_NAME | SDSKV_ERR_UNKNOWN_DB | SDSKV_ERR_UNKNOWN_PR
| SDSKV_ERR_PUT | SDSKV_ERR_UNKNOWN_KEY | SDSKV_ERR_SIZE | SDSKV_ERR_ERASE | SDSKV_ERR_MIGRATION
| SDSKV_OP_NOT_IMPL | SDSKV_ERR_COMP_FUNC | SDSKV_ERR_REMI | SDSKV_ERR_KEYEXISTS
| SDSKV_ERR_CONFIG | SDSKV_ERR_MAX

text \<open>The value the C enumeration gives a constant, as stored in an \<open>int32_t\<close>.\<close>

primrec rc :: "sdskv_return_t \<Rightarrow> int32" where
  "rc SDSKV_SUCCESS = 0"
| "rc SDSKV_ERR_ALLOCATION = 1"
| "rc SDSKV_ERR_INVALID_ARG = 2"
| "rc SDSKV_ERR_PR_EXISTS = 3"
| "rc SDSKV_ERR_DB_CREATE = 4"
| "rc SDSKV_ERR_DB_NAME = 5"
| "rc SDSKV_ERR_UNKNOWN_DB = 6"
| "rc SDSKV_ERR_UNKNOWN_PR = 7"
| "rc SDSKV_ERR_PUT = 8"
| "rc SDSKV_ERR_UNKNOWN_KEY = 9"
| "rc SDSKV_ERR_SIZE = 10"
| "rc SDSKV_ERR_ERASE = 11"
| "rc SDSKV_ERR_MIGRATION = 12"
| "rc SDSKV_OP_NOT_IMPL = 13"
| "rc SDSKV_ERR_COMP_FUNC = 14"
| "rc SDSKV_ERR_REMI = 15"
| "rc SDSKV_ERR_KEYEXISTS = 16"
| "rc SDSKV_ERR_CONFIG = 17"
| "rc SDSKV_ERR_MAX = 18"

definition sdskv_error_messages :: "string list" where
  "sdskv_error_messages =
     [''Success'', ''Allocation error'', ''Invalid argument'', ''Provide id already used'',
      ''Could not create database'', ''Invalid database name'', ''Invalid database id'',
      ''Invalid provider id'', ''Error writing in the database'', ''Unknown key'',
      ''Provided buffer size too small'', ''Error erasing from the database'', ''Migration error'',
      ''Function not implemented'', ''Invalid comparison function'', ''REMI error'',
      ''Key exists'', ''Bad configuration'', ''End of range for valid error codes'']"

section \<open>Packing of Mercury and Argobots errors\<close>

text \<open>\<open>>>\<close> on \<open>int\<close> is the arithmetic shift; \<open>0b11111111 << 24\<close> sets the top byte of the \<open>int\<close>.\<close>

definition SDSKV_MAKE_HG_ERROR :: "hg_return \<Rightarrow> int32" where
  "SDSKV_MAKE_HG_ERROR hg_err = push_bit 24 hg_err"

definition SDSKV_MAKE_ABT_ERROR :: "int32 \<Rightarrow> int32" where
  "SDSKV_MAKE_ABT_ERROR abt_err = push_bit 16 abt_err"

definition SDSKV_GET_HG_ERROR :: "int32 \<Rightarrow> int32" where
  "SDSKV_GET_HG_ERROR err = signed_drop_bit 24 (err AND push_bit 24 255)"

definition SDSKV_GET_ABT_ERROR :: "int32 \<Rightarrow> int32" where
  "SDSKV_GET_ABT_ERROR err = signed_drop_bit 16 (err AND push_bit 16 255)"

definition SDSKV_ERROR_IS_HG :: "int32 \<Rightarrow> bool" where
  "SDSKV_ERROR_IS_HG err \<longleftrightarrow> err AND push_bit 24 255 \<noteq> 0"

definition SDSKV_ERROR_IS_ABT :: "int32 \<Rightarrow> bool" where
  "SDSKV_ERROR_IS_ABT err \<longleftrightarrow> err AND push_bit 16 255 \<noteq> 0"

section \<open>The exception class\<close>

text \<open>
  \<open>m_msg\<close> of \<open>sdskv::exception\<close>: the table entry, or one of three prefixes followed by
  \<open>std::to_string\<close> of a number; the number is kept as an integer here.
\<close>

datatype exception_msg =
  Table_message string | Mercury_error int | Argobots_error int | Unknown_error int

definition exception :: "int32 \<Rightarrow> exception_msg" where
  "exception err =
     (if 0 < sint err \<and> sint err < sint (rc SDSKV_ERR_MAX)
      then Table_message (sdskv_error_messages ! nat (sint err))
      else if SDSKV_ERROR_IS_HG err then Mercury_error (sint (SDSKV_GET_HG_ERROR err))
      else if SDSKV_ERROR_IS_ABT err then Argobots_error (sint (SDSKV_GET_ABT_ERROR err))
      else Unknown_error (sint err))"

section \<open>Facts about the codes\<close>

lemma rc_inject [simp]: "rc a = rc b \<longleftrightarrow> a = b"
  by (cases a; cases b) simp_all

lemma rc_eq_0_iff [simp]: "rc a = 0 \<longleftrightarrow> a = SDSKV_SUCCESS" "0 = rc a \<longleftrightarrow> a = SDSKV_SUCCESS"
  by (cases a; simp)+

lemma unat_rc_less: "unat (rc a) < 19"
  by (cases a) simp_all

lemma unat_MAKE_HG_ERROR: "unat h < 256 \<Longrightarrow> unat (SDSKV_MAKE_HG_ERROR h) = 2 ^ 24 * unat h"
  by (simp add: SDSKV_MAKE_HG_ERROR_def push_bit_eq_mult unat_word_ariths)

lemma unat_MAKE_ABT_ERROR: "unat h < 65536 \<Longrightarrow> unat (SDSKV_MAKE_ABT_ERROR h) = 2 ^ 16 * unat h"
  by (simp add: SDSKV_MAKE_ABT_ERROR_def push_bit_eq_mult unat_word_ariths)

lemma word_high_bits: "unat (h::32 word) < 2 ^ k \<Longrightarrow> k \<le> n \<Longrightarrow> \<not> bit h n"
proof
  assume a: "unat h < 2 ^ k" "k \<le> n" and b: "bit h n"
  then have "bit (unat h) n" by (simp add: bit_unsigned_iff)
  moreover have "take_bit k (unat h) = unat h" using a by (simp add: take_bit_nat_eq_self)
  ultimately show False using a(2) by (metis bit_take_bit_iff not_le)
qed

lemma bit_byte3: "bit (4278190080::int) n \<longleftrightarrow> 24 \<le> n \<and> n < 32"
proof -
  have "(4278190080::int) = push_bit 24 (mask 8)" by (simp add: mask_eq_exp_minus_1)
  then show ?thesis by (simp only: bit_simps) auto
qed

lemma bit_byte2: "bit (16711680::int) n \<longleftrightarrow> 16 \<le> n \<and> n < 24"
proof -
  have "(16711680::int) = push_bit 16 (mask 8)" by (simp add: mask_eq_exp_minus_1)
  then show ?thesis by (simp only: bit_simps) auto
qed

lemma get_make_hg: "unat h < 128 \<Longrightarrow> SDSKV_GET_HG_ERROR (SDSKV_MAKE_HG_ERROR h) = h"
  unfolding SDSKV_GET_HG_ERROR_def SDSKV_MAKE_HG_ERROR_def
  by (rule bit_word_eqI) (use word_high_bits [of h 7] in \<open>auto simp: bit_simps bit_byte3 min_def\<close>)

lemma get_make_abt: "unat h < 256 \<Longrightarrow> SDSKV_GET_ABT_ERROR (SDSKV_MAKE_ABT_ERROR h) = h"
proof -
  assume "unat h < 256"
  then have lt: "bit h n \<Longrightarrow> n < 8" for n
    using word_high_bits [of h 8 n] by fastforce
  show ?thesis
    unfolding SDSKV_GET_ABT_ERROR_def SDSKV_MAKE_ABT_ERROR_def
    by (rule bit_word_eqI) (auto simp: bit_simps bit_byte2 min_def dest: lt)
qed

lemma is_hg_make: "unat h < 256 \<Longrightarrow> SDSKV_ERROR_IS_HG (SDSKV_MAKE_HG_ERROR h) \<longleftrightarrow> h \<noteq> 0"
proof -
  assume a: "unat h < 256"
  have "push_bit 24 h AND push_bit 24 255 = push_bit 24 h"
    by (rule bit_word_eqI) (use word_high_bits [of h 8] a in \<open>auto simp: bit_simps bit_byte3\<close>)
  moreover have "push_bit 24 h = 0 \<longleftrightarrow> h = 0"
    using unat_MAKE_HG_ERROR [OF a] by (auto simp: SDSKV_MAKE_HG_ERROR_def unat_eq_zero [symmetric])
  ultimately show ?thesis by (simp add: SDSKV_ERROR_IS_HG_def SDSKV_MAKE_HG_ERROR_def)
qed

lemma is_hg_make_abt: "unat h < 256 \<Longrightarrow> \<not> SDSKV_ERROR_IS_HG (SDSKV_MAKE_ABT_ERROR h)"
proof -
  assume a: "unat h < 256"
  have "push_bit 16 h AND push_bit 24 255 = 0"
    by (rule bit_word_eqI) (use word_high_bits [of h 8] a in \<open>auto simp: bit_simps bit_byte3\<close>)
  then show ?thesis by (simp add: SDSKV_ERROR_IS_HG_def SDSKV_MAKE_ABT_ERROR_def)
qed

lemma is_abt_make_abt: "unat h < 256 \<Longrightarrow> SDSKV_ERROR_IS_ABT (SDSKV_MAKE_ABT_ERROR h) \<longleftrightarrow> h \<noteq> 0"
proof -
  assume a: "unat h < 256"
  then have lt: "bit h n \<Longrightarrow> n < 8" for n
    using word_high_bits [of h 8 n] by fastforce
  have "push_bit 16 h AND push_bit 16 255 = push_bit 16 h"
    by (rule bit_word_eqI) (auto simp: bit_simps bit_byte2 dest: lt)
  moreover have "push_bit 16 h = 0 \<longleftrightarrow> h = 0"
    using unat_MAKE_ABT_ERROR [of h] a by (auto simp: SDSKV_MAKE_ABT_ERROR_def unat_eq_zero [symmetric])
  ultimately show ?thesis by (simp add: SDSKV_ERROR_IS_ABT_def SDSKV_MAKE_ABT_ERROR_def)
qed

lemma sint_small: "unat (w::32 word) < 2147483648 \<Longrightarrow> sint w = int (unat w)"
proof -
  assume a: "unat w < 2147483648"
  then have "\<not> bit w 31" by (intro word_high_bits [of w 31]) simp_all
  then have "\<not> bit (uint w) 31" by (simp add: bit_uint_iff)
  then have "signed_take_bit 31 (uint w) = take_bit 31 (uint w)"
    by (rule signed_take_bit_eq_if_positive)
  moreover have "0 \<le> uint w" "uint w < 2147483648"
    using a uint_nat [of w] by linarith+
  ultimately have "signed_take_bit 31 (uint w) = uint w"
    by (simp add: take_bit_int_eq_self)
  then show ?thesis by (simp add: sint_uint)
qed

lemma make_hg_error_eq_rc: "unat h < 128 \<Longrightarrow> SDSKV_MAKE_HG_ERROR h = rc r \<longleftrightarrow> h = 0 \<and> r = SDSKV_SUCCESS"
proof -
  assume a: "unat h < 128"
  have "h = 0 \<and> r = SDSKV_SUCCESS" if "SDSKV_MAKE_HG_ERROR h = rc r"
  proof -
    from that have "2 ^ 24 * unat h = unat (rc r)" using unat_MAKE_HG_ERROR [of h] a by simp
    then have "16777216 * unat h < 19" using unat_rc_less [of r] by simp
    then have "unat h = 0" by linarith
    then have "h = 0" by (simp add: unat_eq_zero)
    with that show ?thesis by (simp add: SDSKV_MAKE_HG_ERROR_def)
  qed
  then show ?thesis by (auto simp: SDSKV_MAKE_HG_ERROR_def)
qed

lemma exception_hg: "h \<noteq> 0 \<Longrightarrow> unat h < 128 \<Longrightarrow> exception (SDSKV_MAKE_HG_ERROR h) = Mercury_error (int (unat h))"
proof -
  assume h: "h \<noteq> 0" "unat h < 128"
  then have "0 < unat h" by (simp add: unat_gt_0)
  moreover have u: "unat (SDSKV_MAKE_HG_ERROR h) = 16777216 * unat h"
    using unat_MAKE_HG_ERROR [of h] h by simp
  ultimately have "18 \<le> unat (SDSKV_MAKE_HG_ERROR h)" "unat (SDSKV_MAKE_HG_ERROR h) < 2147483648"
    using h by linarith+
  then have "18 \<le> sint (SDSKV_MAKE_HG_ERROR h)"
    using sint_small [of "SDSKV_MAKE_HG_ERROR h"] by linarith
  then show ?thesis
    using h by (simp add: exception_def is_hg_make get_make_hg sint_small)
qed

lemma exception_abt: "h \<noteq> 0 \<Longrightarrow> unat h < 256 \<Longrightarrow> exception (SDSKV_MAKE_ABT_ERROR h) = Argobots_error (int (unat h))"
proof -
  assume h: "h \<noteq> 0" "unat h < 256"
  then have "0 < unat h" by (simp add: unat_gt_0)
  moreover have u: "unat (SDSKV_MAKE_ABT_ERROR h) = 65536 * unat h"
    using unat_MAKE_ABT_ERROR [of h] h by simp
  ultimately have "18 \<le> unat (SDSKV_MAKE_ABT_ERROR h)" "unat (SDSKV_MAKE_ABT_ERROR h) < 2147483648"
    using h by linarith+
  then have "18 \<le> sint (SDSKV_MAKE_ABT_ERROR h)"
    using sint_small [of "SDSKV_MAKE_ABT_ERROR h"] by linarith
  then show ?thesis
    using h by (simp add: exception_def is_hg_make_abt is_abt_make_abt get_make_abt sint_small)
qed

lemma exception_rc: "r \<noteq> SDSKV_SUCCESS \<Longrightarrow> r \<noteq> SDSKV_ERR_MAX \<Longrightarrow> exception (rc r) = Table_message (sdskv_error_messages ! unat (rc r))"
  by (cases r) (simp_all add: exception_def)

section \<open>Properties\<close>

text \<open>
  A Mercury error below 128 packed with \<open>SDSKV_MAKE_HG_ERROR\<close> is recovered by
  \<open>SDSKV_GET_HG_ERROR\<close>, and the packed value is never one of SDSKV's own codes, except that
  \<open>HG_SUCCESS\<close> packs to \<open>SDSKV_SUCCESS\<close>.
\<close>

theorem hg_error_roundtrip:
  assumes "unat h < 128"
  shows "SDSKV_GET_HG_ERROR (SDSKV_MAKE_HG_ERROR h) = h
    \<and> (SDSKV_MAKE_HG_ERROR h = rc r \<longleftrightarrow> h = 0 \<and> r = SDSKV_SUCCESS)"
  using assms by (simp add: get_make_hg make_hg_error_eq_rc)

theorem hg_error_roundtrip_witness:
  "unat (11 :: hg_return) < 128 \<and> SDSKV_GET_HG_ERROR (SDSKV_MAKE_HG_ERROR 11) = 11
    \<and> SDSKV_MAKE_HG_ERROR 11 \<noteq> rc SDSKV_ERR_ERASE"
  using hg_error_roundtrip [of 11 SDSKV_ERR_ERASE] by simp

text \<open>
  The exception class names the layer an error comes from: the table message for SDSKV's own
  codes, the Mercury number for a packed Mercury error, the Argobots number for a packed Argobots
  error.
\<close>

theorem exception_names_layer:
  assumes "r \<noteq> SDSKV_SUCCESS" "r \<noteq> SDSKV_ERR_MAX"
    and "h \<noteq> 0" "unat h < 128" and "a \<noteq> 0" "unat a < 256"
  shows "exception (rc r) = Table_message (sdskv_error_messages ! unat (rc r))
    \<and> exception (SDSKV_MAKE_HG_ERROR h) = Mercury_error (int (unat h))
    \<and> exception (SDSKV_MAKE_ABT_ERROR a) = Argobots_error (int (unat a))"
  using assms by (simp add: exception_rc exception_hg exception_abt)

theorem exception_names_layer_witness:
  "exception (rc SDSKV_ERR_KEYEXISTS) = Table_message ''Key exists''
    \<and> exception (SDSKV_MAKE_HG_ERROR 11) = Mercury_error 11
    \<and> exception (SDSKV_MAKE_ABT_ERROR 5) = Argobots_error 5"
  using exception_names_layer [of SDSKV_ERR_KEYEXISTS 11 5]
  by (simp add: sdskv_error_messages_def)

end
