(* ===== verification/Margo.thy ===== *)
theory Margo
  imports Sdskv_Common
begin

text \<open>
  The RPC runtime (Margo, Mercury and their bulk transfers) is not part of the sources. It enters the
  model as the argument \<open>margo\<close> of every handler and of every client call: a record with the outcome
  of each call the code makes of it. The index given to an operation is the position of the call in
  the function that makes it, so that each call can fail on its own.

  A bulk handle received in a message stands for memory the peer has exposed; the model keeps its
  contents, a byte list that is contiguous however many segments the peer registered. A transfer
  returns an error of Mercury or the bytes read (pull) or the new contents of the peer's memory (push).

  What the code relies on is stated by two predicates, used as hypotheses: \<open>margo_faithful\<close> (a
  transfer that reports success moved exactly the requested bytes inside the exposed memory, a
  failure is not reported as \<open>HG_SUCCESS\<close>) and \<open>margo_reliable\<close> (in addition, calls
  within bounds succeed). \<open>ideal_margo\<close> satisfies both.
\<close>

section \<open>The runtime\<close>

record margo =
  mg_get_input :: hg_return
  mg_addr :: "nat \<Rightarrow> hg_return"
  mg_bulk_create :: "nat \<Rightarrow> nat \<Rightarrow> hg_return"
  mg_pull :: "nat \<Rightarrow> nat \<Rightarrow> bulk \<Rightarrow> nat \<Rightarrow> nat \<Rightarrow> hg_return + bulk"
  mg_push :: "nat \<Rightarrow> bulk \<Rightarrow> nat \<Rightarrow> bulk \<Rightarrow> hg_return + bulk"

definition margo_faithful :: "margo \<Rightarrow> bool" where
  "margo_faithful M \<longleftrightarrow>
     (\<forall>i l mem off n data. mg_pull M i l mem off n = Inr data \<longrightarrow>
        n \<le> l \<and> buf_slice mem off n = Some data)
     \<and> (\<forall>i mem off data mem'. mg_push M i mem off data = Inr mem' \<longrightarrow> overwrite mem off data = Some mem')
     \<and> (\<forall>i l mem off n e. mg_pull M i l mem off n = Inl e \<longrightarrow> e \<noteq> hg_success)
     \<and> (\<forall>i mem off data e. mg_push M i mem off data = Inl e \<longrightarrow> e \<noteq> hg_success)"

definition margo_reliable :: "margo \<Rightarrow> bool" where
  "margo_reliable M \<longleftrightarrow> margo_faithful M
     \<and> mg_get_input M = hg_success
     \<and> (\<forall>i. mg_addr M i = hg_success)
     \<and> (\<forall>i n. mg_bulk_create M i n = hg_success)
     \<and> (\<forall>i l mem off n. n \<le> l \<longrightarrow> off + n \<le> length mem \<longrightarrow> mg_pull M i l mem off n \<in> range Inr)
     \<and> (\<forall>i mem off data. off + length data \<le> length mem \<longrightarrow> mg_push M i mem off data \<in> range Inr)"

text \<open>A runtime without failures; code 3 stands for Mercury's rejection of an out-of-range transfer.\<close>

definition ideal_margo :: margo where
  "ideal_margo =
     \<lparr>mg_get_input = 0, mg_addr = (\<lambda>_. 0), mg_bulk_create = (\<lambda>_ _. 0),
      mg_pull = (\<lambda>_ l mem off n.
        case buf_slice mem off n of None \<Rightarrow> Inl 3 | Some d \<Rightarrow> if n \<le> l then Inr d else Inl 3),
      mg_push = (\<lambda>_ mem off data. case overwrite mem off data of None \<Rightarrow> Inl 3 | Some d \<Rightarrow> Inr d)\<rparr>"

section \<open>The macros of the handlers\<close>

text \<open>
  \<open>FIND_MID_AND_PROVIDER\<close>, \<open>GET_INPUT\<close> and \<open>FIND_DATABASE\<close>, and the check that follows every call of the
  runtime. Each takes what the handler returns early and the rest of the handler.
\<close>

definition FIND_PROVIDER :: "'p option \<Rightarrow> (int32 \<Rightarrow> 'r) \<Rightarrow> ('p \<Rightarrow> 'r) \<Rightarrow> 'r" where
  "FIND_PROVIDER prov fail k = (case prov of None \<Rightarrow> fail (rc SDSKV_ERR_UNKNOWN_PR) | Some p \<Rightarrow> k p)"

definition CHECK_HG :: "hg_return \<Rightarrow> (int32 \<Rightarrow> 'r) \<Rightarrow> 'r \<Rightarrow> 'r" where
  "CHECK_HG hret fail k = (if hret \<noteq> hg_success then fail (SDSKV_MAKE_HG_ERROR hret) else k)"

definition GET_INPUT :: "margo \<Rightarrow> (int32 \<Rightarrow> 'r) \<Rightarrow> 'r \<Rightarrow> 'r" where
  "GET_INPUT M fail k = CHECK_HG (mg_get_input M) fail k"

definition BULK_TRANSFER :: "hg_return + 'a \<Rightarrow> (int32 \<Rightarrow> 'r) \<Rightarrow> ('a \<Rightarrow> 'r) \<Rightarrow> 'r" where
  "BULK_TRANSFER t fail k = (case t of Inl hret \<Rightarrow> fail (SDSKV_MAKE_HG_ERROR hret) | Inr x \<Rightarrow> k x)"

named_theorems handler_simps \<open>the macros of the handlers and the transfers of a reliable runtime\<close>

lemma FIND_PROVIDER_simps [handler_simps]:
  "FIND_PROVIDER None fail k = fail (rc SDSKV_ERR_UNKNOWN_PR)"
  "FIND_PROVIDER (Some p) fail k = k p"
  by (simp_all add: FIND_PROVIDER_def)

lemma BULK_TRANSFER_simps [handler_simps]:
  "BULK_TRANSFER (Inl e) fail k = fail (SDSKV_MAKE_HG_ERROR e)"
  "BULK_TRANSFER (Inr x) fail k = k x"
  by (simp_all add: BULK_TRANSFER_def)

lemma CHECK_HG_0 [handler_simps]: "CHECK_HG 0 fail k = k"
  by (simp add: CHECK_HG_def)

lemma reliable_calls [handler_simps]:
  assumes "margo_reliable M"
  shows "mg_get_input M = 0" "mg_addr M i = 0" "mg_bulk_create M i n = 0"
    "GET_INPUT M fail k = k"
  using assms by (simp_all add: margo_reliable_def GET_INPUT_def CHECK_HG_def)

lemma reliable_pull [handler_simps]:
  assumes "margo_reliable M" "buf_slice mem off n = Some d" "n \<le> l"
  shows "mg_pull M i l mem off n = Inr d"
proof -
  from assms(2) have "off + n \<le> length mem" by (simp add: buf_slice_def split: if_splits)
  then obtain d' where d': "mg_pull M i l mem off n = Inr d'"
    using assms(1,3) unfolding margo_reliable_def by blast
  then have "buf_slice mem off n = Some d'"
    using assms(1) by (simp add: margo_reliable_def margo_faithful_def)
  with d' assms(2) show ?thesis by simp
qed

lemma reliable_push [handler_simps]:
  assumes "margo_reliable M" "overwrite mem off d = Some mem'"
  shows "mg_push M i mem off d = Inr mem'"
proof -
  from assms(2) have "off + length d \<le> length mem" by (simp add: overwrite_def split: if_splits)
  then obtain m where m: "mg_push M i mem off d = Inr m"
    using assms(1) unfolding margo_reliable_def by blast
  then have "overwrite mem off d = Some m"
    using assms(1) by (simp add: margo_reliable_def margo_faithful_def)
  with m assms(2) show ?thesis by simp
qed

lemma margo_reliable_ideal: "margo_reliable ideal_margo"
  by (auto simp: margo_reliable_def margo_faithful_def ideal_margo_def buf_slice_def overwrite_def
      split: option.splits if_splits)

end
