(* ===== verification/Rpc_Types.thy ===== *)
theory Rpc_Types
  imports Margo
begin

text \<open>
  The messages of sdskv-rpc-types.h. A decoded \<open>kv_data_t\<close> is its \<open>size\<close> bytes; an \<open>hg_bulk_t\<close>
  is the contents of the memory the sender has exposed (see \<open>Margo\<close>).
\<close>

section \<open>Messages\<close>

type_synonym kv_data_t = bulk

record open_in_t =
  open_in_name :: string
record open_out_t =
  open_out_db_id :: db_id
  open_out_ret :: int32

record count_db_out_t =
  count_db_out_count :: nat
  count_db_out_ret :: int32

record list_db_in_t =
  list_db_in_count :: nat
record list_db_out_t =
  list_db_out_count :: nat
  list_db_out_names :: "string list"
  list_db_out_ids :: "db_id list"
  list_db_out_ret :: int32

record put_in_t =
  put_in_db_id :: db_id
  put_in_key :: kv_data_t
  put_in_value :: kv_data_t

record get_in_t =
  get_in_db_id :: db_id
  get_in_key :: kv_data_t
  get_in_vsize :: nat
record get_out_t =
  get_out_ret :: int32
  get_out_value :: kv_data_t
  get_out_vsize :: nat

record length_in_t =
  length_in_db_id :: db_id
  length_in_key :: kv_data_t
record length_out_t =
  length_out_size :: nat
  length_out_ret :: int32

record exists_in_t =
  exists_in_db_id :: db_id
  exists_in_key :: kv_data_t
record exists_out_t =
  exists_out_flag :: int32
  exists_out_ret :: int32

record erase_in_t =
  erase_in_db_id :: db_id
  erase_in_key :: kv_data_t

record list_keys_in_t =
  list_keys_in_db_id :: db_id
  list_keys_in_start_key :: kv_data_t
  list_keys_in_prefix :: kv_data_t
  list_keys_in_max_keys :: nat
  list_keys_in_ksizes_bulk :: bulk
  list_keys_in_keys_bulk :: bulk
record list_keys_out_t =
  list_keys_out_nkeys :: nat
  list_keys_out_ret :: int32

record list_keyvals_in_t = list_keys_in_t +
  list_keyvals_in_vsizes_bulk :: bulk
  list_keyvals_in_vals_bulk :: bulk

record bulk_put_in_t =
  bulk_put_in_db_id :: db_id
  bulk_put_in_key :: kv_data_t
  bulk_put_in_vsize :: nat
  bulk_put_in_handle :: bulk

record bulk_get_in_t =
  bulk_get_in_db_id :: db_id
  bulk_get_in_key :: kv_data_t
  bulk_get_in_vsize :: nat
  bulk_get_in_handle :: bulk
record bulk_get_out_t =
  bulk_get_out_vsize :: nat
  bulk_get_out_ret :: int32

record put_multi_in_t =
  put_multi_in_db_id :: db_id
  put_multi_in_num_keys :: nat
  put_multi_in_keys_bulk :: bulk
  put_multi_in_keys_bulk_size :: nat
  put_multi_in_vals_bulk :: bulk
  put_multi_in_vals_bulk_size :: nat

record put_packed_in_t =
  put_packed_in_db_id :: db_id
  put_packed_in_origin_addr :: "string option"
  put_packed_in_num_keys :: nat
  put_packed_in_bulk_size :: nat
  put_packed_in_bulk :: bulk

record get_multi_in_t =
  get_multi_in_db_id :: db_id
  get_multi_in_num_keys :: nat
  get_multi_in_keys_bulk :: bulk
  get_multi_in_keys_bulk_size :: nat
  get_multi_in_vals_bulk :: bulk
  get_multi_in_vals_bulk_size :: nat

record get_packed_in_t =
  get_packed_in_db_id :: db_id
  get_packed_in_num_keys :: nat
  get_packed_in_keys_bulk_size :: nat
  get_packed_in_keys_bulk :: bulk
  get_packed_in_vals_bulk_size :: nat
  get_packed_in_vals_bulk :: bulk
record get_packed_out_t =
  get_packed_out_ret :: int32
  get_packed_out_num_keys :: nat

record length_multi_in_t =
  length_multi_in_db_id :: db_id
  length_multi_in_num_keys :: nat
  length_multi_in_keys_bulk :: bulk
  length_multi_in_keys_bulk_size :: nat
  length_multi_in_vals_size_bulk :: bulk

record length_packed_in_t =
  length_packed_in_db_id :: db_id
  length_packed_in_num_keys :: nat
  length_packed_in_in_bulk_size :: nat
  length_packed_in_in_bulk :: bulk
  length_packed_in_out_bulk :: bulk

record exists_multi_in_t =
  exists_multi_in_db_id :: db_id
  exists_multi_in_num_keys :: nat
  exists_multi_in_keys_bulk :: bulk
  exists_multi_in_keys_bulk_size :: nat
  exists_multi_in_flags_bulk :: bulk

record erase_multi_in_t =
  erase_multi_in_db_id :: db_id
  erase_multi_in_num_keys :: nat
  erase_multi_in_keys_bulk :: bulk
  erase_multi_in_keys_bulk_size :: nat

end
