(* ===== verification/Rpc_Proc.thy ===== *)
theory Rpc_Proc
  imports Rpc_Types
begin

text \<open>
  How the messages of sdskv-rpc-types.h travel: the two serialisation functions the header writes out
  (\<open>hg_proc_kv_data_t\<close>, \<open>hg_proc_list_db_out_t\<close>) and those \<open>MERCURY_GEN_PROC\<close> generates for the messages
  that carry no bulk handle, which process the fields in the order of the macro's list and stop at the first error.

  Mercury's own processors of sizes, integers, strings and raw memory are the parameter \<open>hg_procs\<close>. Encoding
  appends to a buffer, decoding consumes its beginning. \<open>procs_ok\<close> states what is used of them: with memory
  available, encoding succeeds and decoding what was encoded gives the value back and leaves what follows.
\<close>

section \<open>Processors\<close>

record 'a codec =
  cd_enc :: "'a \<Rightarrow> bulk \<Rightarrow> hg_return + bulk"
  cd_dec :: "bulk \<Rightarrow> hg_return + 'a \<times> bulk"

record hg_procs =
  p_hg_size_t :: "nat codec"
  p_uint64_t :: "db_id codec"
  p_int32_t :: "int32 codec"
  p_hg_string_t :: "string codec"
  p_raw :: "nat \<Rightarrow> bulk codec"

definition codec_ok :: "('a \<Rightarrow> bool) \<Rightarrow> 'a codec \<Rightarrow> bool" where
  "codec_ok D c \<longleftrightarrow>
     (\<forall>v b. D v \<longrightarrow> (\<exists>e. cd_enc c v b = Inr (b @ e) \<and> (\<forall>r. cd_dec c (e @ r) = Inr (v, r))))"

definition procs_ok :: "hg_procs \<Rightarrow> bool" where
  "procs_ok P \<longleftrightarrow>
     codec_ok (\<lambda>n. n < 2 ^ 64) (p_hg_size_t P) \<and> codec_ok (\<lambda>_. True) (p_uint64_t P)
     \<and> codec_ok (\<lambda>_. True) (p_int32_t P) \<and> codec_ok (\<lambda>s. CHR 0x00 \<notin> set s) (p_hg_string_t P)
     \<and> (\<forall>n. codec_ok (\<lambda>d. length d = n) (p_raw P n))"

text \<open>The next call after one that may fail.\<close>

definition sum_bind :: "'e + 'a \<Rightarrow> ('a \<Rightarrow> 'e + 'b) \<Rightarrow> 'e + 'b" where
  "sum_bind x f = (case x of Inl e \<Rightarrow> Inl e | Inr a \<Rightarrow> f a)"

lemma sum_bind_simps [simp]:
  "sum_bind (Inl e) f = Inl e"
  "sum_bind (Inr a) f = f a"
  by (simp_all add: sum_bind_def)

text \<open>Two fields in order, and a structure seen as the tuple of its fields.\<close>

definition then_field :: "'a codec \<Rightarrow> 'b codec \<Rightarrow> ('a \<times> 'b) codec" where
  "then_field c d =
     \<lparr>cd_enc = (\<lambda>v b. sum_bind (cd_enc c (fst v) b) (cd_enc d (snd v))),
      cd_dec = (\<lambda>b. sum_bind (cd_dec c b) (\<lambda>(x, b'). sum_bind (cd_dec d b') (\<lambda>(y, b''). Inr ((x, y), b''))))\<rparr>"

definition gen_proc :: "('m \<Rightarrow> 'f) \<Rightarrow> ('f \<Rightarrow> 'm) \<Rightarrow> 'f codec \<Rightarrow> 'm codec" where
  "gen_proc sel mk c =
     \<lparr>cd_enc = (\<lambda>m. cd_enc c (sel m)),
      cd_dec = (\<lambda>b. sum_bind (cd_dec c b) (\<lambda>(x, b'). Inr (mk x, b')))\<rparr>"

section \<open>Keys and values\<close>

definition hg_proc_kv_data_t :: "hg_procs \<Rightarrow> kv_data_t codec" where
  "hg_proc_kv_data_t P =
     \<lparr>cd_enc = (\<lambda>d b. sum_bind (cd_enc (p_hg_size_t P) (length d) b) (\<lambda>b'.
        if length d \<noteq> 0 then cd_enc (p_raw P (length d)) d b' else Inr b')),
      cd_dec = (\<lambda>b. sum_bind (cd_dec (p_hg_size_t P) b) (\<lambda>(n, b').
        if n \<noteq> 0 then cd_dec (p_raw P n) b' else Inr ([], b')))\<rparr>"

section \<open>Generated processors\<close>

definition hg_proc_open_in_t :: "hg_procs \<Rightarrow> open_in_t codec" where
  "hg_proc_open_in_t P = gen_proc open_in_name open_in_t.make (p_hg_string_t P)"

definition hg_proc_open_out_t :: "hg_procs \<Rightarrow> open_out_t codec" where
  "hg_proc_open_out_t P = gen_proc (\<lambda>m. (open_out_db_id m, open_out_ret m)) (\<lambda>(i, r). open_out_t.make i r)
     (then_field (p_uint64_t P) (p_int32_t P))"

definition hg_proc_put_in_t :: "hg_procs \<Rightarrow> put_in_t codec" where
  "hg_proc_put_in_t P = gen_proc (\<lambda>m. (put_in_db_id m, put_in_key m, put_in_value m))
     (\<lambda>(i, k, v). put_in_t.make i k v)
     (then_field (p_uint64_t P) (then_field (hg_proc_kv_data_t P) (hg_proc_kv_data_t P)))"

definition hg_proc_get_in_t :: "hg_procs \<Rightarrow> get_in_t codec" where
  "hg_proc_get_in_t P = gen_proc (\<lambda>m. (get_in_db_id m, get_in_key m, get_in_vsize m))
     (\<lambda>(i, k, n). get_in_t.make i k n)
     (then_field (p_uint64_t P) (then_field (hg_proc_kv_data_t P) (p_hg_size_t P)))"

definition hg_proc_get_out_t :: "hg_procs \<Rightarrow> get_out_t codec" where
  "hg_proc_get_out_t P = gen_proc (\<lambda>m. (get_out_ret m, get_out_value m, get_out_vsize m))
     (\<lambda>(r, v, n). get_out_t.make r v n)
     (then_field (p_int32_t P) (then_field (hg_proc_kv_data_t P) (p_hg_size_t P)))"

definition hg_proc_length_in_t :: "hg_procs \<Rightarrow> length_in_t codec" where
  "hg_proc_length_in_t P = gen_proc (\<lambda>m. (length_in_db_id m, length_in_key m)) (\<lambda>(i, k). length_in_t.make i k)
     (then_field (p_uint64_t P) (hg_proc_kv_data_t P))"

definition hg_proc_length_out_t :: "hg_procs \<Rightarrow> length_out_t codec" where
  "hg_proc_length_out_t P = gen_proc (\<lambda>m. (length_out_size m, length_out_ret m)) (\<lambda>(n, r). length_out_t.make n r)
     (then_field (p_hg_size_t P) (p_int32_t P))"

definition hg_proc_exists_in_t :: "hg_procs \<Rightarrow> exists_in_t codec" where
  "hg_proc_exists_in_t P = gen_proc (\<lambda>m. (exists_in_db_id m, exists_in_key m)) (\<lambda>(i, k). exists_in_t.make i k)
     (then_field (p_uint64_t P) (hg_proc_kv_data_t P))"

definition hg_proc_exists_out_t :: "hg_procs \<Rightarrow> exists_out_t codec" where
  "hg_proc_exists_out_t P = gen_proc (\<lambda>m. (exists_out_flag m, exists_out_ret m)) (\<lambda>(f, r). exists_out_t.make f r)
     (then_field (p_int32_t P) (p_int32_t P))"

definition hg_proc_erase_in_t :: "hg_procs \<Rightarrow> erase_in_t codec" where
  "hg_proc_erase_in_t P = gen_proc (\<lambda>m. (erase_in_db_id m, erase_in_key m)) (\<lambda>(i, k). erase_in_t.make i k)
     (then_field (p_uint64_t P) (hg_proc_kv_data_t P))"

definition hg_proc_count_db_out_t :: "hg_procs \<Rightarrow> count_db_out_t codec" where
  "hg_proc_count_db_out_t P = gen_proc (\<lambda>m. (word_of_nat (count_db_out_count m), count_db_out_ret m))
     (\<lambda>(n, r). count_db_out_t.make (unat n) r) (then_field (p_uint64_t P) (p_int32_t P))"

definition hg_proc_bulk_get_out_t :: "hg_procs \<Rightarrow> bulk_get_out_t codec" where
  "hg_proc_bulk_get_out_t P = gen_proc (\<lambda>m. (bulk_get_out_vsize m, bulk_get_out_ret m))
     (\<lambda>(n, r). bulk_get_out_t.make n r) (then_field (p_hg_size_t P) (p_int32_t P))"

definition hg_proc_list_keys_out_t :: "hg_procs \<Rightarrow> list_keys_out_t codec" where
  "hg_proc_list_keys_out_t P = gen_proc (\<lambda>m. (list_keys_out_nkeys m, list_keys_out_ret m))
     (\<lambda>(n, r). list_keys_out_t.make n r) (then_field (p_hg_size_t P) (p_int32_t P))"

definition hg_proc_get_packed_out_t :: "hg_procs \<Rightarrow> get_packed_out_t codec" where
  "hg_proc_get_packed_out_t P = gen_proc (\<lambda>m. (get_packed_out_ret m, get_packed_out_num_keys m))
     (\<lambda>(r, n). get_packed_out_t.make r n) (then_field (p_int32_t P) (p_hg_size_t P))"

section \<open>The list of databases\<close>

fun enc_names :: "hg_procs \<Rightarrow> string list \<Rightarrow> bulk \<Rightarrow> hg_return + bulk" where
  "enc_names P [] b = Inr b"
| "enc_names P (s # ss) b = sum_bind (cd_enc (p_hg_string_t P) s b) (enc_names P ss)"

fun dec_names :: "hg_procs \<Rightarrow> nat \<Rightarrow> bulk \<Rightarrow> hg_return + string list \<times> bulk" where
  "dec_names P 0 b = Inr ([], b)"
| "dec_names P (Suc n) b =
     sum_bind (cd_dec (p_hg_string_t P) b) (\<lambda>(s, b').
     sum_bind (dec_names P n b') (\<lambda>(ss, b''). Inr (s # ss, b'')))"

text \<open>The ids are copied as raw memory.\<close>

definition ids_bytes :: "db_id list \<Rightarrow> bulk" where
  "ids_bytes ids = enc_sizes (map unat ids)"

fun bytes_ids :: "bulk \<Rightarrow> db_id list" where
  "bytes_ids [] = []"
| "bytes_ids (b # bs) = word_of_nat (le_nat (take 8 (b # bs))) # bytes_ids (drop 7 bs)"

text \<open>The arrays have \<open>count\<close> entries.\<close>

definition enc_list_db_out_t :: "hg_procs \<Rightarrow> list_db_out_t \<Rightarrow> bulk \<Rightarrow> hg_return + bulk" where
  "enc_list_db_out_t P m b =
     sum_bind (cd_enc (p_hg_size_t P) (list_db_out_count m) b) (\<lambda>b.
     if list_db_out_count m \<noteq> 0 then
       sum_bind (enc_names P (take (list_db_out_count m) (list_db_out_names m)) b) (\<lambda>b.
       sum_bind (cd_enc (p_raw P (list_db_out_count m * 8))
         (ids_bytes (take (list_db_out_count m) (list_db_out_ids m))) b) (\<lambda>b.
       cd_enc (p_int32_t P) (list_db_out_ret m) b))
     else Inr b)"

text \<open>Decoding fills in the structure \<open>m\<close> the caller provides.\<close>

definition dec_list_db_out_t :: "hg_procs \<Rightarrow> list_db_out_t \<Rightarrow> bulk \<Rightarrow> hg_return + list_db_out_t \<times> bulk" where
  "dec_list_db_out_t P m b =
     sum_bind (cd_dec (p_hg_size_t P) b) (\<lambda>(n, b).
     let m = m\<lparr>list_db_out_count := n\<rparr> in
     if n \<noteq> 0 then
       sum_bind (dec_names P n b) (\<lambda>(names, b).
       sum_bind (cd_dec (p_raw P (n * 8)) b) (\<lambda>(raw, b).
       sum_bind (cd_dec (p_int32_t P) b) (\<lambda>(ret, b).
       Inr (m\<lparr>list_db_out_names := names, list_db_out_ids := bytes_ids raw, list_db_out_ret := ret\<rparr>, b))))
     else Inr (m, b))"

text \<open>
  What the caller of \<open>margo_get_output\<close> finds in its structure \<open>out\<close> when the peer sent \<open>m\<close>: with no
  database in the list, nothing but the count.
\<close>

definition received_list_db :: "list_db_out_t \<Rightarrow> list_db_out_t \<Rightarrow> list_db_out_t" where
  "received_list_db out m =
     (if list_db_out_count m \<noteq> 0 then m else out\<lparr>list_db_out_count := 0\<rparr>)"

section \<open>Round trips\<close>

lemma codec_ok_then:
  assumes "codec_ok D c" "codec_ok E d"
  shows "codec_ok (\<lambda>(x, y). D x \<and> E y) (then_field c d)"
  unfolding codec_ok_def
proof (intro allI impI)
  fix v b assume "case v of (x, y) \<Rightarrow> D x \<and> E y"
  then have D: "D (fst v)" "E (snd v)" by auto
  from D(1) assms(1) obtain e where e: "cd_enc c (fst v) b = Inr (b @ e)" "\<And>r. cd_dec c (e @ r) = Inr (fst v, r)"
    unfolding codec_ok_def by blast
  from D(2) assms(2) obtain e' where e': "cd_enc d (snd v) (b @ e) = Inr ((b @ e) @ e')"
    "\<And>r. cd_dec d (e' @ r) = Inr (snd v, r)"
    unfolding codec_ok_def by blast
  show "\<exists>ea. cd_enc (then_field c d) v b = Inr (b @ ea) \<and> (\<forall>r. cd_dec (then_field c d) (ea @ r) = Inr (v, r))"
    by (rule exI [of _ "e @ e'"]) (simp add: then_field_def e e')
qed

lemma codec_ok_gen:
  assumes "codec_ok D c" "\<And>m. E m \<Longrightarrow> D (sel m) \<and> mk (sel m) = m"
  shows "codec_ok E (gen_proc sel mk c)"
  unfolding codec_ok_def
proof (intro allI impI)
  fix m b assume "E m"
  then have D: "D (sel m)" "mk (sel m) = m" using assms(2) by auto
  from D(1) assms(1) obtain e where e: "cd_enc c (sel m) b = Inr (b @ e)" "\<And>r. cd_dec c (e @ r) = Inr (sel m, r)"
    unfolding codec_ok_def by blast
  show "\<exists>e. cd_enc (gen_proc sel mk c) m b = Inr (b @ e) \<and> (\<forall>r. cd_dec (gen_proc sel mk c) (e @ r) = Inr (m, r))"
    by (rule exI [of _ e]) (simp add: gen_proc_def e D(2))
qed

lemma procs_ok_fields:
  assumes "procs_ok P"
  shows "codec_ok (\<lambda>n. n < 2 ^ 64) (p_hg_size_t P)" "codec_ok (\<lambda>_. True) (p_uint64_t P)"
    "codec_ok (\<lambda>_. True) (p_int32_t P)" "codec_ok (\<lambda>s. CHR 0x00 \<notin> set s) (p_hg_string_t P)"
    "codec_ok (\<lambda>d. length d = n) (p_raw P n)"
  using assms by (auto simp: procs_ok_def)

lemma codec_ok_kv_data:
  assumes "procs_ok P"
  shows "codec_ok (\<lambda>d. length d < 2 ^ 64) (hg_proc_kv_data_t P)"
  unfolding codec_ok_def
proof (intro allI impI)
  fix d b :: bulk assume len: "length d < 2 ^ 64"
  obtain e where e: "cd_enc (p_hg_size_t P) (length d) b = Inr (b @ e)"
    "\<And>r. cd_dec (p_hg_size_t P) (e @ r) = Inr (length d, r)"
    using procs_ok_fields(1) [OF assms] len unfolding codec_ok_def by blast
  obtain e' where e': "cd_enc (p_raw P (length d)) d (b @ e) = Inr ((b @ e) @ e')"
    "\<And>r. cd_dec (p_raw P (length d)) (e' @ r) = Inr (d, r)"
    using procs_ok_fields(5) [OF assms] unfolding codec_ok_def by blast
  show "\<exists>e. cd_enc (hg_proc_kv_data_t P) d b = Inr (b @ e)
    \<and> (\<forall>r. cd_dec (hg_proc_kv_data_t P) (e @ r) = Inr (d, r))"
    by (rule exI [of _ "if length d \<noteq> 0 then e @ e' else e"]) (simp add: hg_proc_kv_data_t_def e e')
qed

text \<open>What each message must satisfy for its sizes and strings to be representable.\<close>

lemma codec_ok_messages:
  assumes "procs_ok P"
  shows "codec_ok (\<lambda>m. CHR 0x00 \<notin> set (open_in_name m)) (hg_proc_open_in_t P)"
    and "codec_ok (\<lambda>_. True) (hg_proc_open_out_t P)"
    and "codec_ok (\<lambda>m. length (put_in_key m) < 2 ^ 64 \<and> length (put_in_value m) < 2 ^ 64) (hg_proc_put_in_t P)"
    and "codec_ok (\<lambda>m. length (get_in_key m) < 2 ^ 64 \<and> get_in_vsize m < 2 ^ 64) (hg_proc_get_in_t P)"
    and "codec_ok (\<lambda>m. length (get_out_value m) < 2 ^ 64 \<and> get_out_vsize m < 2 ^ 64) (hg_proc_get_out_t P)"
    and "codec_ok (\<lambda>m. length (length_in_key m) < 2 ^ 64) (hg_proc_length_in_t P)"
    and "codec_ok (\<lambda>m. length_out_size m < 2 ^ 64) (hg_proc_length_out_t P)"
    and "codec_ok (\<lambda>m. length (exists_in_key m) < 2 ^ 64) (hg_proc_exists_in_t P)"
    and "codec_ok (\<lambda>_. True) (hg_proc_exists_out_t P)"
    and "codec_ok (\<lambda>m. length (erase_in_key m) < 2 ^ 64) (hg_proc_erase_in_t P)"
    and "codec_ok (\<lambda>m. count_db_out_count m < 2 ^ 64) (hg_proc_count_db_out_t P)"
    and "codec_ok (\<lambda>m. bulk_get_out_vsize m < 2 ^ 64) (hg_proc_bulk_get_out_t P)"
    and "codec_ok (\<lambda>m. list_keys_out_nkeys m < 2 ^ 64) (hg_proc_list_keys_out_t P)"
    and "codec_ok (\<lambda>m. get_packed_out_num_keys m < 2 ^ 64) (hg_proc_get_packed_out_t P)"
  unfolding hg_proc_open_in_t_def hg_proc_open_out_t_def hg_proc_put_in_t_def hg_proc_get_in_t_def
    hg_proc_get_out_t_def hg_proc_length_in_t_def hg_proc_length_out_t_def hg_proc_exists_in_t_def
    hg_proc_exists_out_t_def hg_proc_erase_in_t_def hg_proc_count_db_out_t_def hg_proc_bulk_get_out_t_def
    hg_proc_list_keys_out_t_def hg_proc_get_packed_out_t_def
  by (rule codec_ok_gen, (rule codec_ok_then procs_ok_fields codec_ok_kv_data assms)+,
      simp add: open_in_t.defs open_out_t.defs put_in_t.defs get_in_t.defs get_out_t.defs length_in_t.defs
        length_out_t.defs exists_in_t.defs exists_out_t.defs erase_in_t.defs count_db_out_t.defs
        bulk_get_out_t.defs list_keys_out_t.defs get_packed_out_t.defs unat_of_nat)+

lemma codec_okD:
  assumes "codec_ok D c" "D v"
  obtains e where "cd_enc c v b = Inr (b @ e)" "\<And>r. cd_dec c (e @ r) = Inr (v, r)"
  using assms unfolding codec_ok_def by blast

lemma names_roundtrip:
  assumes "procs_ok P" "\<forall>s\<in>set ss. CHR 0x00 \<notin> set s"
  obtains e where "enc_names P ss b = Inr (b @ e)" "\<And>r. dec_names P (length ss) (e @ r) = Inr (ss, r)"
proof -
  have "\<exists>e. enc_names P ss b = Inr (b @ e) \<and> (\<forall>r. dec_names P (length ss) (e @ r) = Inr (ss, r))"
    using assms(2)
  proof (induction ss arbitrary: b)
    case (Cons s ss)
    then have s: "CHR 0x00 \<notin> set s" by simp
    obtain e where e: "cd_enc (p_hg_string_t P) s b = Inr (b @ e)" "\<And>r. cd_dec (p_hg_string_t P) (e @ r) = Inr (s, r)"
      using codec_okD [OF procs_ok_fields(4) [OF assms(1)] s] by blast
    obtain e' where "enc_names P ss (b @ e) = Inr ((b @ e) @ e')"
      "\<forall>r. dec_names P (length ss) (e' @ r) = Inr (ss, r)"
      using Cons.IH [of "b @ e"] Cons.prems by auto
    then show ?case by (intro exI [of _ "e @ e'"]) (simp add: e)
  qed simp
  then show thesis using that by blast
qed

lemma bytes_ids_roundtrip: "bytes_ids (ids_bytes ids) = ids"
proof (induction ids)
  case (Cons i ids)
  obtain b bs where b: "enc_size (unat i) = b # bs" and bs: "length bs = 7"
    using length_enc_size [of "unat i"] by (cases "enc_size (unat i)") auto
  have "le_nat (enc_size (unat i)) = unat i"
    using unsigned_less [of i] by (intro le_nat_enc_size) simp
  then have "le_nat (take 8 (b # (bs @ enc_sizes (map unat ids)))) = unat i"
    using b bs by simp
  then show ?case
    using Cons bs unfolding ids_bytes_def by (simp add: b)
qed (simp add: ids_bytes_def)

lemma list_db_out_transfer:
  assumes "procs_ok P" "list_db_out_count m < 2 ^ 61"
    and "length (list_db_out_names m) = list_db_out_count m" "length (list_db_out_ids m) = list_db_out_count m"
    and "\<forall>s\<in>set (list_db_out_names m). CHR 0x00 \<notin> set s"
  shows "\<exists>b. enc_list_db_out_t P m [] = Inr b \<and> dec_list_db_out_t P out b = Inr (received_list_db out m, [])"
proof -
  let ?n = "list_db_out_count m"
  have n: "?n < 2 ^ 64" using assms(2) by simp
  obtain e1 where e1: "cd_enc (p_hg_size_t P) ?n [] = Inr ([] @ e1)" "\<And>r. cd_dec (p_hg_size_t P) (e1 @ r) = Inr (?n, r)"
    using codec_okD [OF procs_ok_fields(1) [OF assms(1)] n] by blast
  obtain e2 where e2: "enc_names P (list_db_out_names m) e1 = Inr (e1 @ e2)"
    "\<And>r. dec_names P ?n (e2 @ r) = Inr (list_db_out_names m, r)"
    using names_roundtrip [OF assms(1,5)] assms(3) by metis
  have "length (ids_bytes (list_db_out_ids m)) = ?n * 8" using assms(4) by (simp add: ids_bytes_def)
  then obtain e3 where e3: "cd_enc (p_raw P (?n * 8)) (ids_bytes (list_db_out_ids m)) (e1 @ e2) = Inr ((e1 @ e2) @ e3)"
    "\<And>r. cd_dec (p_raw P (?n * 8)) (e3 @ r) = Inr (ids_bytes (list_db_out_ids m), r)"
    using codec_okD [OF procs_ok_fields(5) [OF assms(1)]] by blast
  obtain e4 where e4: "cd_enc (p_int32_t P) (list_db_out_ret m) (e1 @ e2 @ e3) = Inr ((e1 @ e2 @ e3) @ e4)"
    "\<And>r. cd_dec (p_int32_t P) (e4 @ r) = Inr (list_db_out_ret m, r)"
    using codec_okD [OF procs_ok_fields(3) [OF assms(1)]] by blast
  show ?thesis
  proof (cases "?n = 0")
    case True
    then show ?thesis
      using e1(1) e1(2) [of "[]"] by (simp add: enc_list_db_out_t_def dec_list_db_out_t_def received_list_db_def)
  next
    case False
    then show ?thesis
      using e4(2) [of "[]"] e1 e2 e3 e4(1) assms(3,4)
      by (intro exI [of _ "e1 @ e2 @ e3 @ e4"])
        (simp add: enc_list_db_out_t_def dec_list_db_out_t_def received_list_db_def bytes_ids_roundtrip)
  qed
qed

section \<open>Processors for evaluation\<close>

text \<open>
  Processors that satisfy \<open>procs_ok\<close>: integers in little-endian bytes, a string as its length and its
  characters. Code 18 stands for Mercury's overflow error.
\<close>

definition take_bytes :: "nat \<Rightarrow> bulk \<Rightarrow> hg_return + bulk \<times> bulk" where
  "take_bytes n b = (if length b < n then Inl 18 else Inr (take n b, drop n b))"

definition sample_procs :: hg_procs where
  "sample_procs =
     \<lparr>p_hg_size_t = \<lparr>cd_enc = (\<lambda>n b. Inr (b @ le_bytes 8 n)),
        cd_dec = (\<lambda>b. sum_bind (take_bytes 8 b) (\<lambda>(x, r). Inr (le_nat x, r)))\<rparr>,
      p_uint64_t = \<lparr>cd_enc = (\<lambda>n b. Inr (b @ le_bytes 8 (unat n))),
        cd_dec = (\<lambda>b. sum_bind (take_bytes 8 b) (\<lambda>(x, r). Inr (word_of_nat (le_nat x), r)))\<rparr>,
      p_int32_t = \<lparr>cd_enc = (\<lambda>n b. Inr (b @ le_bytes 4 (unat n))),
        cd_dec = (\<lambda>b. sum_bind (take_bytes 4 b) (\<lambda>(x, r). Inr (word_of_nat (le_nat x), r)))\<rparr>,
      p_hg_string_t = \<lparr>cd_enc = (\<lambda>s b. Inr (b @ map (\<lambda>c. word_of_nat (of_char c)) s @ [0])),
        cd_dec = (\<lambda>b. Inr (map (\<lambda>c. char_of (unat c)) (takeWhile (\<lambda>c. c \<noteq> 0) b), tl (dropWhile (\<lambda>c. c \<noteq> 0) b)))\<rparr>,
      p_raw = (\<lambda>n. \<lparr>cd_enc = (\<lambda>d b. Inr (b @ d)), cd_dec = take_bytes n\<rparr>)\<rparr>"

lemma string_bytes_roundtrip:
  assumes "CHR 0x00 \<notin> set s"
  shows "takeWhile (\<lambda>c. c \<noteq> 0) (map (\<lambda>c. word_of_nat (of_char c) :: byte) s @ 0 # r)
      = map (\<lambda>c. word_of_nat (of_char c)) s"
    and "dropWhile (\<lambda>c. c \<noteq> 0) (map (\<lambda>c. word_of_nat (of_char c) :: byte) s @ 0 # r) = 0 # r"
    and "map (\<lambda>c. char_of (unat (word_of_nat (of_char c) :: byte))) s = s"
proof -
  have "(word_of_nat (of_char c) :: byte) \<noteq> 0" if "c \<in> set s" for c
  proof
    assume "(word_of_nat (of_char c) :: byte) = 0"
    then have "unat (word_of_nat (of_char c) :: byte) = 0" by simp
    then have "of_char c = (0 :: nat)" by (simp add: unat_of_nat)
    then have "c = char_of (0 :: nat)" by (metis char_of_char)
    then have "c = CHR 0x00" by (simp add: char_of_def)
    with that assms show False by simp
  qed
  then show "takeWhile (\<lambda>c. c \<noteq> 0) (map (\<lambda>c. word_of_nat (of_char c) :: byte) s @ 0 # r)
      = map (\<lambda>c. word_of_nat (of_char c)) s"
    and "dropWhile (\<lambda>c. c \<noteq> 0) (map (\<lambda>c. word_of_nat (of_char c) :: byte) s @ 0 # r) = 0 # r"
    by (simp_all add: takeWhile_append dropWhile_append)
  show "map (\<lambda>c. char_of (unat (word_of_nat (of_char c) :: byte))) s = s"
    by (induction s) (simp_all add: unat_of_nat)
qed

lemma le_nat_le_bytes_word:
  "le_nat (le_bytes 8 (unat (x :: 64 word))) = unat x"
  "le_nat (le_bytes 4 (unat (y :: 32 word))) = unat y"
  by (rule le_nat_le_bytes, rule order.strict_trans2 [OF unsigned_less], simp)+

lemma procs_ok_sample: "procs_ok sample_procs"
  by (auto simp: procs_ok_def sample_procs_def codec_ok_def take_bytes_def le_nat_le_bytes le_nat_le_bytes_word
      comp_def string_bytes_roundtrip)

section \<open>Properties\<close>



text \<open>
  The list of databases survives the transfer when it is not empty. Without a database only the count is
  sent: the return code the caller sees is whatever its structure held before the call, whether the server
  reported success or an error.
\<close>

theorem list_db_ret_lost:
  assumes "procs_ok P" "list_db_out_count m < 2 ^ 61"
    and "length (list_db_out_names m) = list_db_out_count m" "length (list_db_out_ids m) = list_db_out_count m"
    and "\<forall>s\<in>set (list_db_out_names m). CHR 0x00 \<notin> set s"
  shows "\<exists>b out'. enc_list_db_out_t P m [] = Inr b \<and> dec_list_db_out_t P out b = Inr (out', [])
    \<and> (list_db_out_count m \<noteq> 0 \<longrightarrow> out' = m)
    \<and> (list_db_out_count m = 0 \<longrightarrow> list_db_out_ret out' = list_db_out_ret out)"
  using list_db_out_transfer [OF assms, of out] by (auto simp: received_list_db_def)

theorem list_db_ret_lost_witness:
  "\<exists>b out'. enc_list_db_out_t sample_procs (list_db_out_t.make 0 [] [] (rc SDSKV_ERR_UNKNOWN_PR)) [] = Inr b
    \<and> dec_list_db_out_t sample_procs (list_db_out_t.make 9 [] [] 77) b = Inr (out', [])
    \<and> list_db_out_ret out' = 77"
  using list_db_ret_lost [OF procs_ok_sample, of "list_db_out_t.make 0 [] [] (rc SDSKV_ERR_UNKNOWN_PR)"
      "list_db_out_t.make 9 [] [] 77"]
  by (auto simp: list_db_out_t.defs)

end
