(* ===== verification/Client_Rpc.thy ===== *)
theory Client_Rpc
  imports Rpc_Proc
begin

text \<open>
  What the functions of sdskv-client.c share: the RPCs of the service they talk to, the runtime on the
  client's side, and the sequence create handle, forward, get output with its error checks.

  The client functions are written against a record \<open>service\<close> of RPCs on a state \<open>'st\<close>, so that they can
  be composed with the modelled server or with any other. An RPC that has access to memory the
  client exposes returns its contents after the call.

  A call either fails before it reaches the server, or it is executed; \<open>cl_executed\<close> says whether a
  call whose forwarding reported an error was executed all the same.
\<close>

section \<open>The service\<close>

record 'st service =
  sv_open :: "'st \<Rightarrow> open_in_t \<Rightarrow> ('st \<times> open_out_t) option"
  sv_count_db :: "'st \<Rightarrow> ('st \<times> count_db_out_t) option"
  sv_list_db :: "'st \<Rightarrow> list_db_in_t \<Rightarrow> ('st \<times> list_db_out_t) option"
  sv_put :: "'st \<Rightarrow> put_in_t \<Rightarrow> ('st \<times> int32) option"
  sv_bulk_put :: "'st \<Rightarrow> bulk_put_in_t \<Rightarrow> ('st \<times> int32) option"
  sv_get :: "'st \<Rightarrow> get_in_t \<Rightarrow> ('st \<times> get_out_t) option"
  sv_bulk_get :: "'st \<Rightarrow> bulk_get_in_t \<Rightarrow> ('st \<times> bulk_get_out_t \<times> bulk) option"
  sv_length :: "'st \<Rightarrow> length_in_t \<Rightarrow> ('st \<times> length_out_t) option"
  sv_exists :: "'st \<Rightarrow> exists_in_t \<Rightarrow> ('st \<times> exists_out_t) option"
  sv_erase :: "'st \<Rightarrow> erase_in_t \<Rightarrow> ('st \<times> int32) option"
  sv_put_multi :: "'st \<Rightarrow> put_multi_in_t \<Rightarrow> ('st \<times> int32) option"
  sv_put_packed :: "'st \<Rightarrow> put_packed_in_t \<Rightarrow> ('st \<times> int32) option"
  sv_get_multi :: "'st \<Rightarrow> get_multi_in_t \<Rightarrow> ('st \<times> int32 \<times> bulk) option"
  sv_get_packed :: "'st \<Rightarrow> get_packed_in_t \<Rightarrow> ('st \<times> get_packed_out_t \<times> bulk) option"
  sv_length_multi :: "'st \<Rightarrow> length_multi_in_t \<Rightarrow> ('st \<times> int32 \<times> bulk) option"
  sv_length_packed :: "'st \<Rightarrow> length_packed_in_t \<Rightarrow> ('st \<times> int32 \<times> bulk) option"
  sv_exists_multi :: "'st \<Rightarrow> exists_multi_in_t \<Rightarrow> ('st \<times> int32 \<times> bulk) option"
  sv_erase_multi :: "'st \<Rightarrow> erase_multi_in_t \<Rightarrow> ('st \<times> int32) option"
  sv_list_keys :: "'st \<Rightarrow> list_keys_in_t \<Rightarrow> ('st \<times> list_keys_out_t \<times> bulk \<times> bulk) option"
  sv_list_keyvals ::
    "'st \<Rightarrow> list_keyvals_in_t \<Rightarrow> ('st \<times> list_keys_out_t \<times> bulk \<times> bulk \<times> bulk \<times> bulk) option"

section \<open>The client's side of a call\<close>

record client_rt =
  cl_bulk_create :: "nat \<Rightarrow> hg_return"
  cl_create :: hg_return
  cl_forward :: hg_return
  cl_executed :: bool
  cl_output :: hg_return

text \<open>
  \<open>fail\<close> gets the state, what an executed call left (\<open>None\<close> when it was not executed) and the
  error; \<open>k\<close> gets the state and the output.
\<close>

definition rpc ::
  "client_rt \<Rightarrow> 'st \<Rightarrow> ('st \<times> 'out) option \<Rightarrow> ('st \<Rightarrow> 'out option \<Rightarrow> int32 \<Rightarrow> 'r option) \<Rightarrow>
   ('st \<Rightarrow> 'out \<Rightarrow> 'r option) \<Rightarrow> 'r option" where
  "rpc C st call fail k =
     (if cl_create C \<noteq> hg_success then fail st None (SDSKV_MAKE_HG_ERROR (cl_create C))
      else if cl_forward C \<noteq> hg_success \<and> \<not> cl_executed C then
        fail st None (SDSKV_MAKE_HG_ERROR (cl_forward C))
      else do {
        (st', out) \<leftarrow> call;
        if cl_forward C \<noteq> hg_success then fail st' (Some out) (SDSKV_MAKE_HG_ERROR (cl_forward C))
        else if cl_output C \<noteq> hg_success then fail st' (Some out) (SDSKV_MAKE_HG_ERROR (cl_output C))
        else k st' out
      })"

definition client_reliable :: "client_rt \<Rightarrow> bool" where
  "client_reliable C \<longleftrightarrow>
     (\<forall>i. cl_bulk_create C i = hg_success) \<and> cl_create C = hg_success \<and> cl_forward C = hg_success
     \<and> cl_output C = hg_success"

definition ideal_client :: client_rt where
  "ideal_client = \<lparr>cl_bulk_create = (\<lambda>_. 0), cl_create = 0, cl_forward = 0, cl_executed = False, cl_output = 0\<rparr>"

lemma client_reliable_ideal: "client_reliable ideal_client"
  by (simp add: client_reliable_def ideal_client_def)

lemma client_reliable_calls [handler_simps]:
  assumes "client_reliable C"
  shows "cl_bulk_create C i = 0"
    "rpc C st call fail k = Option.bind call (\<lambda>(st', out). k st' out)"
  using assms by (simp_all add: client_reliable_def rpc_def)

text \<open>A call that fails returns the error of the first step that failed; \<open>HG_SUCCESS\<close> is never reported.\<close>

definition rpc_error :: "client_rt \<Rightarrow> hg_return" where
  "rpc_error C =
     (if cl_create C \<noteq> hg_success then cl_create C
      else if cl_forward C \<noteq> hg_success then cl_forward C else cl_output C)"

end
