(* ===== verification/Client_Basic.thy ===== *)
theory Client_Basic
  imports Client_Rpc
begin

text \<open>
  sdskv-client.c: clients and provider handles, and the functions on databases as a whole and on a single
  key. An input (pointer and size) is the bytes it points to; a buffer the function
  writes to is its contents, with the size the caller gives for it apart, and a write beyond the buffer has
  no result. The results are the state of the service, the return code and the outputs.
\<close>

section \<open>Clients and provider handles\<close>

text \<open>Handles are objects on the heap, named by numbers; a freed handle is not in the map.\<close>

record provider_handle =
  ph_addr :: nat
  ph_provider_id :: "16 word"
  ph_refcount :: "64 word"

record client =
  num_provider_handles :: "64 word"
  ph_heap :: "nat \<Rightarrow> provider_handle option"

definition sdskv_client_init :: "client \<times> int32" where
  "sdskv_client_init = (\<lparr>num_provider_handles = 0, ph_heap = Map.empty\<rparr>, rc SDSKV_SUCCESS)"

text \<open>
  \<open>calloc\<close> gives the free address \<open>loc\<close>, or \<open>None\<close>; \<open>dup\<close> is the outcome of \<open>margo_addr_dup\<close>. A null client
  is \<open>None\<close>.
\<close>

definition sdskv_provider_handle_create ::
  "client option \<Rightarrow> nat option \<Rightarrow> hg_return \<Rightarrow> nat \<Rightarrow> 16 word \<Rightarrow> client option \<times> int32 \<times> nat option" where
  "sdskv_provider_handle_create cl loc dup addr provider_id =
     (case cl of
        None \<Rightarrow> (None, rc SDSKV_ERR_INVALID_ARG, None)
      | Some c \<Rightarrow>
          (case loc of
             None \<Rightarrow> (cl, rc SDSKV_ERR_ALLOCATION, None)
           | Some l \<Rightarrow>
               if dup \<noteq> hg_success then (cl, SDSKV_MAKE_HG_ERROR dup, None)
               else
                 (Some (c\<lparr>num_provider_handles := num_provider_handles c + 1,
                          ph_heap := (ph_heap c)(l \<mapsto>
                            \<lparr>ph_addr = addr, ph_provider_id = provider_id, ph_refcount = 1\<rparr>)\<rparr>),
                  rc SDSKV_SUCCESS, Some l)))"

text \<open>
  \<open>ref_incr\<close> and \<open>release\<close>; a null handle is \<open>None\<close>, a handle that was freed has no defined result.
\<close>

definition sdskv_provider_handle_ref_incr :: "client \<Rightarrow> nat option \<Rightarrow> (client \<times> int32) option" where
  "sdskv_provider_handle_ref_incr c handle =
     (case handle of
        None \<Rightarrow> Some (c, rc SDSKV_ERR_INVALID_ARG)
      | Some l \<Rightarrow>
          map_option (\<lambda>h. (c\<lparr>ph_heap := (ph_heap c)(l \<mapsto> h\<lparr>ph_refcount := ph_refcount h + 1\<rparr>)\<rparr>, rc SDSKV_SUCCESS))
            (ph_heap c l))"

definition sdskv_provider_handle_release :: "client \<Rightarrow> nat option \<Rightarrow> (client \<times> int32) option" where
  "sdskv_provider_handle_release c handle =
     (case handle of
        None \<Rightarrow> Some (c, -1)
      | Some l \<Rightarrow>
          map_option (\<lambda>h.
            let r = ph_refcount h - 1 in
            if r = 0 then
              (c\<lparr>num_provider_handles := num_provider_handles c - 1, ph_heap := (ph_heap c)(l := None)\<rparr>,
               rc SDSKV_SUCCESS)
            else (c\<lparr>ph_heap := (ph_heap c)(l \<mapsto> h\<lparr>ph_refcount := r\<rparr>)\<rparr>, rc SDSKV_SUCCESS))
            (ph_heap c l))"

definition sdskv_provider_handle_get_info :: "client \<Rightarrow> nat option \<Rightarrow> (nat \<times> 16 word) option \<times> int32" where
  "sdskv_provider_handle_get_info c handle =
     (Option.bind handle (\<lambda>l. map_option (\<lambda>h. (ph_addr h, ph_provider_id h)) (ph_heap c l)), rc SDSKV_SUCCESS)"

text \<open>\<open>finalize\<close> warns when handles are left (the boolean) and frees the client.\<close>

definition sdskv_client_finalize :: "client \<Rightarrow> bool \<times> int32" where
  "sdskv_client_finalize c = (num_provider_handles c \<noteq> 0, rc SDSKV_SUCCESS)"

section \<open>Databases\<close>

definition sdskv_open ::
  "client_rt \<Rightarrow> 'st service \<Rightarrow> 'st \<Rightarrow> string \<Rightarrow> db_id \<Rightarrow> ('st \<times> int32 \<times> db_id) option" where
  "sdskv_open C S st db_name db_id0 =
     rpc C st (sv_open S st \<lparr>open_in_name = db_name\<rparr>)
       (\<lambda>st' _ e. Some (st', e, db_id0))
       (\<lambda>st' out. Some (st', open_out_ret out, open_out_db_id out))"

definition sdskv_count_databases ::
  "client_rt \<Rightarrow> 'st service \<Rightarrow> 'st \<Rightarrow> nat \<Rightarrow> ('st \<times> int32 \<times> nat) option" where
  "sdskv_count_databases C S st num0 =
     rpc C st (sv_count_db S st)
       (\<lambda>st' _ e. Some (st', e, num0))
       (\<lambda>st' out. Some (st', count_db_out_ret out, count_db_out_count out))"

text \<open>
  \<open>db_names\<close> and \<open>db_ids\<close> are arrays of the caller, or null; the loop writes \<open>out.count\<close> entries to each.
\<close>

definition write_array :: "'a list option \<Rightarrow> 'a list \<Rightarrow> 'a list option option" where
  "write_array dest xs = (case dest of None \<Rightarrow> Some None | Some d \<Rightarrow> map_option Some (overwrite d 0 xs))"

text \<open>\<open>out0\<close> is the content of the output structure before the call.\<close>

definition sdskv_list_databases ::
  "client_rt \<Rightarrow> 'st service \<Rightarrow> list_db_out_t \<Rightarrow> 'st \<Rightarrow> nat \<Rightarrow> string list option \<Rightarrow> db_id list option \<Rightarrow>
   ('st \<times> int32 \<times> nat \<times> string list option \<times> db_id list option) option" where
  "sdskv_list_databases C S out0 st count db_names db_ids =
     rpc C st (sv_list_db S st \<lparr>list_db_in_count = count\<rparr>)
       (\<lambda>st' _ e. Some (st', e, count, db_names, db_ids))
       (\<lambda>st' m. let out = received_list_db out0 m in
          if list_db_out_ret out = rc SDSKV_SUCCESS then do {
            names \<leftarrow> write_array db_names (take (list_db_out_count out) (list_db_out_names out));
            ids \<leftarrow> write_array db_ids (take (list_db_out_count out) (list_db_out_ids out));
            Some (st', list_db_out_ret out, list_db_out_count out, names, ids)
          } else Some (st', list_db_out_ret out, 0, db_names, db_ids))"

section \<open>Operations on one key\<close>

definition MAX_RPC_MESSAGE_SIZE :: nat where
  "MAX_RPC_MESSAGE_SIZE = 4000"

definition sdskv_put ::
  "client_rt \<Rightarrow> 'st service \<Rightarrow> 'st \<Rightarrow> db_id \<Rightarrow> bulk \<Rightarrow> bulk \<Rightarrow> ('st \<times> int32) option" where
  "sdskv_put C S st i key val =
     (let msize = wrap64 (length key + length val + 2 * 8) in
      if msize \<le> MAX_RPC_MESSAGE_SIZE then
        rpc C st (sv_put S st \<lparr>put_in_db_id = i, put_in_key = key, put_in_value = val\<rparr>)
          (\<lambda>st' _ e. Some (st', e)) (\<lambda>st' ret. Some (st', ret))
      else if cl_bulk_create C 0 \<noteq> hg_success then Some (st, SDSKV_MAKE_HG_ERROR (cl_bulk_create C 0))
      else
        rpc C st (sv_bulk_put S st \<lparr>bulk_put_in_db_id = i, bulk_put_in_key = key,
                    bulk_put_in_vsize = length val, bulk_put_in_handle = val\<rparr>)
          (\<lambda>st' _ e. Some (st', e)) (\<lambda>st' ret. Some (st', ret)))"

definition sdskv_length ::
  "client_rt \<Rightarrow> 'st service \<Rightarrow> 'st \<Rightarrow> db_id \<Rightarrow> bulk \<Rightarrow> nat \<Rightarrow> ('st \<times> int32 \<times> nat) option" where
  "sdskv_length C S st i key vsize =
     rpc C st (sv_length S st \<lparr>length_in_db_id = i, length_in_key = key\<rparr>)
       (\<lambda>st' _ e. Some (st', e, vsize))
       (\<lambda>st' out. Some (st', length_out_ret out, if length_out_ret out = 0 then length_out_size out else vsize))"

text \<open>
  \<open>value\<close> is null or a buffer, \<open>vsize\<close> is \<open>*vsize\<close>. In the second branch the first \<open>vsize\<close> bytes of the
  buffer are exposed to the server.
\<close>

definition sdskv_get ::
  "client_rt \<Rightarrow> 'st service \<Rightarrow> 'st \<Rightarrow> db_id \<Rightarrow> bulk \<Rightarrow> bulk option \<Rightarrow> nat \<Rightarrow>
   ('st \<times> int32 \<times> bulk option \<times> nat) option" where
  "sdskv_get C S st i key val vsize =
     (case val of
        None \<Rightarrow> map_option (\<lambda>(st', ret, n). (st', ret, None, n)) (sdskv_length C S st i key vsize)
      | Some buf \<Rightarrow>
          let msize = wrap64 (vsize + 8 + 4) in
          if msize \<le> MAX_RPC_MESSAGE_SIZE then
            rpc C st (sv_get S st \<lparr>get_in_db_id = i, get_in_key = key, get_in_vsize = vsize\<rparr>)
              (\<lambda>st' _ e. Some (st', e, val, vsize))
              (\<lambda>st' out.
                 if get_out_ret out = rc SDSKV_SUCCESS then do {
                   buf' \<leftarrow> (if length (get_out_value out) > 0 then overwrite buf 0 (get_out_value out) else Some buf);
                   Some (st', get_out_ret out, Some buf', get_out_vsize out)
                 } else if get_out_ret out = rc SDSKV_ERR_SIZE then
                   Some (st', get_out_ret out, val, get_out_vsize out)
                 else Some (st', get_out_ret out, val, vsize))
          else if cl_bulk_create C 0 \<noteq> hg_success then
            Some (st, SDSKV_MAKE_HG_ERROR (cl_bulk_create C 0), val, vsize)
          else do {
            mem \<leftarrow> buf_slice buf 0 vsize;
            rpc C st (sv_bulk_get S st \<lparr>bulk_get_in_db_id = i, bulk_get_in_key = key,
                        bulk_get_in_vsize = vsize, bulk_get_in_handle = mem\<rparr>)
              (\<lambda>st' left e. Some (st', e,
                 (case left of None \<Rightarrow> val | Some (_, mem') \<Rightarrow> Some (mem' @ drop vsize buf)), vsize))
              (\<lambda>st' (out, mem').
                 Some (st', bulk_get_out_ret out, Some (mem' @ drop vsize buf), bulk_get_out_vsize out))
          })"

definition sdskv_exists ::
  "client_rt \<Rightarrow> 'st service \<Rightarrow> 'st \<Rightarrow> db_id \<Rightarrow> bulk \<Rightarrow> int32 \<Rightarrow> ('st \<times> int32 \<times> int32) option" where
  "sdskv_exists C S st i key flag =
     rpc C st (sv_exists S st \<lparr>exists_in_db_id = i, exists_in_key = key\<rparr>)
       (\<lambda>st' _ e. Some (st', e, flag))
       (\<lambda>st' out. Some (st', exists_out_ret out, if exists_out_ret out = 0 then exists_out_flag out else flag))"

definition sdskv_erase ::
  "client_rt \<Rightarrow> 'st service \<Rightarrow> 'st \<Rightarrow> db_id \<Rightarrow> bulk \<Rightarrow> ('st \<times> int32) option" where
  "sdskv_erase C S st i key =
     rpc C st (sv_erase S st \<lparr>erase_in_db_id = i, erase_in_key = key\<rparr>)
       (\<lambda>st' _ e. Some (st', e)) (\<lambda>st' ret. Some (st', ret))"

end
