(* ===== verification/Client_Multi.thy ===== *)
theory Client_Multi
  imports Client_Basic
begin

text \<open>
  sdskv-client.c: the functions on several keys. An array of input pointers with its array of sizes is
  a list of byte lists. The region a function exposes is the sizes followed by the items; the
  segments it is made of are not visible to the peer. A loop with an \<open>int\<close> counter is defined
  only when its bound is below \<open>2\<^sup>3\<^sup>1\<close>.

  The functions named \<open>multi\<close> store a transport error in \<open>out.ret\<close> and return the variable \<open>ret\<close>, which is
  not initialised; \<open>ret0\<close> is its value.
\<close>

section \<open>Exposed regions\<close>

definition int_loop :: "nat \<Rightarrow> 'a option \<Rightarrow> 'a option" where
  "int_loop n k = (if n < 2 ^ 31 then k else None)"

definition expose_sized :: "bulk list \<Rightarrow> bulk" where
  "expose_sized items = enc_sizes (map length items) @ concat items"

definition exposed_size :: "bulk list \<Rightarrow> nat" where
  "exposed_size items = wrap64 (8 * length items + sum_list (map length items))"

text \<open>Bytes of memory returned by \<open>malloc\<close>.\<close>

definition malloc_bytes :: "(nat \<Rightarrow> byte) \<Rightarrow> nat \<Rightarrow> bulk" where
  "malloc_bytes uninit n = map uninit [0..<n]"

section \<open>Writing\<close>

definition sdskv_put_multi ::
  "client_rt \<Rightarrow> 'st service \<Rightarrow> int32 \<Rightarrow> 'st \<Rightarrow> db_id \<Rightarrow> bulk list \<Rightarrow> bulk list \<Rightarrow> ('st \<times> int32) option" where
  "sdskv_put_multi C S ret0 st i keys vals =
     (let num = length keys in
      int_loop (num + 1) (
      if list_ex (\<lambda>k. length k = 0) keys then Some (st, rc SDSKV_ERR_INVALID_ARG)
      else if cl_bulk_create C 0 \<noteq> hg_success then Some (st, ret0)
      else if cl_bulk_create C 1 \<noteq> hg_success then Some (st, ret0)
      else
        rpc C st (sv_put_multi S st
            \<lparr>put_multi_in_db_id = i, put_multi_in_num_keys = num,
             put_multi_in_keys_bulk = expose_sized keys, put_multi_in_keys_bulk_size = exposed_size keys,
             put_multi_in_vals_bulk = enc_sizes (map length vals) @ concat (filter (\<lambda>v. v \<noteq> []) vals),
             put_multi_in_vals_bulk_size =
               wrap64 (8 * num + sum_list (map length (filter (\<lambda>v. v \<noteq> []) vals)))\<rparr>)
          (\<lambda>st' _ e. Some (st', ret0)) (\<lambda>st' ret. Some (st', ret))))"

text \<open>On an error \<open>proxy_put_packed\<close> frees the caller's bulk handle; the boolean says so.\<close>

definition sdskv_proxy_put_packed ::
  "client_rt \<Rightarrow> 'st service \<Rightarrow> 'st \<Rightarrow> db_id \<Rightarrow> string option \<Rightarrow> nat \<Rightarrow> bulk \<Rightarrow> nat \<Rightarrow> ('st \<times> int32 \<times> bool) option" where
  "sdskv_proxy_put_packed C S st i origin_addr num packed_data bulk_data_size =
     rpc C st (sv_put_packed S st
         \<lparr>put_packed_in_db_id = i, put_packed_in_origin_addr = origin_addr, put_packed_in_num_keys = num,
          put_packed_in_bulk_size = bulk_data_size, put_packed_in_bulk = packed_data\<rparr>)
       (\<lambda>st' _ e. Some (st', e, True)) (\<lambda>st' ret. Some (st', ret, False))"

text \<open>\<open>put_packed\<close> frees the handle after the call: a second time when the call failed.\<close>

definition sdskv_put_packed ::
  "client_rt \<Rightarrow> 'st service \<Rightarrow> 'st \<Rightarrow> db_id \<Rightarrow> nat \<Rightarrow> bulk \<Rightarrow> nat list \<Rightarrow> bulk \<Rightarrow> nat list \<Rightarrow> ('st \<times> int32) option" where
  "sdskv_put_packed C S st i num packed_keys ksizes packed_values vsizes = do {
     let keys_buffer_size = wrap64 (sum_list (take num ksizes));
     let vals_buffer_size = wrap64 (sum_list (take num vsizes));
     let bulk_size = wrap64 (keys_buffer_size + vals_buffer_size + 2 * num * 8);
     if \<not> num < 2 ^ 32 then None
     else if cl_bulk_create C 0 \<noteq> hg_success then Some (st, SDSKV_MAKE_HG_ERROR (cl_bulk_create C 0))
     else do {
       keys \<leftarrow> buf_slice packed_keys 0 keys_buffer_size;
       vals \<leftarrow> (if vals_buffer_size = 0 then Some [] else buf_slice packed_values 0 vals_buffer_size);
       (st', ret, freed) \<leftarrow>
         sdskv_proxy_put_packed C S st i None num
           (enc_sizes (take num ksizes) @ enc_sizes (take num vsizes) @ keys @ vals) bulk_size;
       if freed then None else Some (st', ret)
     }
   }"

definition sdskv_erase_multi ::
  "client_rt \<Rightarrow> 'st service \<Rightarrow> int32 \<Rightarrow> 'st \<Rightarrow> db_id \<Rightarrow> bulk list \<Rightarrow> ('st \<times> int32) option" where
  "sdskv_erase_multi C S ret0 st i keys =
     (let num = length keys in
      int_loop (num + 1) (
      if cl_bulk_create C 0 \<noteq> hg_success then Some (st, ret0)
      else
        rpc C st (sv_erase_multi S st
            \<lparr>erase_multi_in_db_id = i, erase_multi_in_num_keys = num,
             erase_multi_in_keys_bulk = expose_sized keys, erase_multi_in_keys_bulk_size = exposed_size keys\<rparr>)
          (\<lambda>st' _ e. Some (st', ret0)) (\<lambda>st' ret. Some (st', ret))))"

section \<open>Reading\<close>

text \<open>The array \<open>vsizes\<close> is exposed to the server, which writes it.\<close>

definition sdskv_length_multi ::
  "client_rt \<Rightarrow> 'st service \<Rightarrow> int32 \<Rightarrow> 'st \<Rightarrow> db_id \<Rightarrow> bulk list \<Rightarrow> nat list \<Rightarrow> ('st \<times> int32 \<times> nat list) option" where
  "sdskv_length_multi C S ret0 st i keys vsizes =
     (let num = length keys in
      int_loop (num + 1) (
      if cl_bulk_create C 0 \<noteq> hg_success then Some (st, ret0, vsizes)
      else if cl_bulk_create C 1 \<noteq> hg_success then Some (st, ret0, vsizes)
      else
        rpc C st (sv_length_multi S st
            \<lparr>length_multi_in_db_id = i, length_multi_in_num_keys = num,
             length_multi_in_keys_bulk = expose_sized keys, length_multi_in_keys_bulk_size = exposed_size keys,
             length_multi_in_vals_size_bulk = enc_sizes (take num vsizes)\<rparr>)
          (\<lambda>st' left e. do {
             vs \<leftarrow> (case left of None \<Rightarrow> Some vsizes | Some (_, mem') \<Rightarrow> map_option (\<lambda>vs. vs @ drop num vsizes) (read_sizes mem' num));
             Some (st', ret0, vs)
           })
          (\<lambda>st' (ret, mem'). do {
             vs \<leftarrow> read_sizes mem' num;
             Some (st', ret, vs @ drop num vsizes)
           })))"

definition sdskv_length_packed ::
  "client_rt \<Rightarrow> 'st service \<Rightarrow> 'st \<Rightarrow> db_id \<Rightarrow> nat \<Rightarrow> bulk \<Rightarrow> nat list \<Rightarrow> nat list \<Rightarrow> ('st \<times> int32 \<times> nat list) option" where
  "sdskv_length_packed C S st i num packed_keys ksizes vsizes = do {
     let total_ksize = wrap64 (sum_list (take num ksizes));
     if \<not> num < 2 ^ 32 then None
     else if cl_bulk_create C 0 \<noteq> hg_success then
       Some (st, SDSKV_MAKE_HG_ERROR (cl_bulk_create C 0), vsizes)
     else if cl_bulk_create C 1 \<noteq> hg_success then
       Some (st, SDSKV_MAKE_HG_ERROR (cl_bulk_create C 1), vsizes)
     else do {
       keys \<leftarrow> buf_slice packed_keys 0 total_ksize;
       rpc C st (sv_length_packed S st
           \<lparr>length_packed_in_db_id = i, length_packed_in_num_keys = num,
            length_packed_in_in_bulk_size = wrap64 (total_ksize + num * 8),
            length_packed_in_in_bulk = enc_sizes (take num ksizes) @ keys,
            length_packed_in_out_bulk = enc_sizes (take num vsizes)\<rparr>)
         (\<lambda>st' left e. do {
            vs \<leftarrow> (case left of None \<Rightarrow> Some vsizes | Some (_, mem') \<Rightarrow> map_option (\<lambda>vs. vs @ drop num vsizes) (read_sizes mem' num));
            Some (st', e, vs)
          })
         (\<lambda>st' (ret, mem'). do {
            vs \<leftarrow> read_sizes mem' num;
            Some (st', ret, vs @ drop num vsizes)
          })
     }
   }"

text \<open>The last loop of \<open>get_multi\<close>: copy the packed values into the caller's buffers.\<close>

fun copy_values :: "bulk \<Rightarrow> nat list \<Rightarrow> bulk list \<Rightarrow> bulk list option" where
  "copy_values value_ptr (n # value_sizes) (buf # bufs) = do {
     v \<leftarrow> buf_slice value_ptr 0 n;
     buf' \<leftarrow> overwrite buf 0 v;
     bufs' \<leftarrow> copy_values (drop n value_ptr) value_sizes bufs;
     Some (buf' # bufs')
   }"
| "copy_values value_ptr value_sizes bufs = Some bufs"

definition sdskv_get_multi ::
  "client_rt \<Rightarrow> 'st service \<Rightarrow> int32 \<Rightarrow> (nat \<Rightarrow> byte) \<Rightarrow> 'st \<Rightarrow> db_id \<Rightarrow> bulk list \<Rightarrow> bulk list option \<Rightarrow> nat list \<Rightarrow>
   ('st \<times> int32 \<times> bulk list option \<times> nat list) option" where
  "sdskv_get_multi C S ret0 uninit st i keys vals vsizes =
     (let num = length keys in
      case vals of
        None \<Rightarrow> map_option (\<lambda>(st', ret, vs). (st', ret, None, vs)) (sdskv_length_multi C S ret0 st i keys vsizes)
      | Some bufs \<Rightarrow>
          int_loop (num + 1) (
          if cl_bulk_create C 0 \<noteq> hg_success then Some (st, ret0, vals, vsizes)
          else
            let vals_bulk_size = wrap64 (sum_list (take num vsizes) + 8 * num) in
            if vals_bulk_size < 8 * num then None
            else if cl_bulk_create C 1 \<noteq> hg_success then Some (st, ret0, vals, vsizes)
            else
              rpc C st (sv_get_multi S st
                  \<lparr>get_multi_in_db_id = i, get_multi_in_num_keys = num,
                   get_multi_in_keys_bulk = expose_sized keys, get_multi_in_keys_bulk_size = exposed_size keys,
                   get_multi_in_vals_bulk = enc_sizes (take num vsizes) @ malloc_bytes uninit (vals_bulk_size - 8 * num),
                   get_multi_in_vals_bulk_size = vals_bulk_size\<rparr>)
                (\<lambda>st' _ e. Some (st', ret0, vals, vsizes))
                (\<lambda>st' (ret, mem').
                   if ret \<noteq> rc SDSKV_SUCCESS then Some (st', ret, vals, vsizes)
                   else do {
                     value_sizes \<leftarrow> read_sizes mem' num;
                     bufs' \<leftarrow> copy_values (drop (8 * num) mem') value_sizes bufs;
                     Some (st', ret, Some bufs', value_sizes @ drop num vsizes)
                   })))"

definition sdskv_get_packed ::
  "client_rt \<Rightarrow> 'st service \<Rightarrow> 'st \<Rightarrow> db_id \<Rightarrow> nat \<Rightarrow> bulk \<Rightarrow> nat list \<Rightarrow> nat \<Rightarrow> bulk \<Rightarrow> nat list \<Rightarrow>
   ('st \<times> int32 \<times> nat \<times> bulk \<times> nat list) option" where
  "sdskv_get_packed C S st i num packed_keys ksizes vbufsize packed_vals vsizes = do {
     let total_ksize = wrap64 (sum_list (take num ksizes));
     if \<not> num < 2 ^ 32 then None
     else if cl_bulk_create C 0 \<noteq> hg_success then
       Some (st, SDSKV_MAKE_HG_ERROR (cl_bulk_create C 0), num, packed_vals, vsizes)
     else if cl_bulk_create C 1 \<noteq> hg_success then
       Some (st, SDSKV_MAKE_HG_ERROR (cl_bulk_create C 1), num, packed_vals, vsizes)
     else do {
       keys \<leftarrow> buf_slice packed_keys 0 total_ksize;
       vbuf \<leftarrow> buf_slice packed_vals 0 vbufsize;
       let received = (\<lambda>mem'. do {
         vs \<leftarrow> read_sizes mem' num;
         Some (drop (8 * num) mem' @ drop vbufsize packed_vals, vs @ drop num vsizes)
       });
       rpc C st (sv_get_packed S st
           \<lparr>get_packed_in_db_id = i, get_packed_in_num_keys = num,
            get_packed_in_keys_bulk_size = wrap64 (total_ksize + num * 8),
            get_packed_in_keys_bulk = enc_sizes (take num ksizes) @ keys,
            get_packed_in_vals_bulk_size = wrap64 (num * 8 + vbufsize),
            get_packed_in_vals_bulk = enc_sizes (take num vsizes) @ vbuf\<rparr>)
         (\<lambda>st' left e. do {
            (pv, vs) \<leftarrow> (case left of None \<Rightarrow> Some (packed_vals, vsizes) | Some (_, mem') \<Rightarrow> received mem');
            Some (st', e, num, pv, vs)
          })
         (\<lambda>st' (out, mem'). do {
            (pv, vs) \<leftarrow> received mem';
            Some (st', get_packed_out_ret out, get_packed_out_num_keys out, pv, vs)
          })
     }
   }"

text \<open>The loop of \<open>exists_multi\<close> that turns the bits into the flags.\<close>

fun read_flags :: "bulk \<Rightarrow> nat \<Rightarrow> nat \<Rightarrow> byte \<Rightarrow> int32 list option" where
  "read_flags exist 0 i bmask = Some []"
| "read_flags exist (Suc n) i bmask = do {
     c \<leftarrow> arr exist (i div 8);
     fs \<leftarrow> read_flags exist n (Suc i) (if i mod 8 = 7 then 1 else push_bit 1 bmask);
     Some ((if and c bmask \<noteq> 0 then 1 else 0) # fs)
   }"

text \<open>
  When the first bulk handle cannot be created the function frees the pointer \<open>exist\<close>, which is not set yet.
\<close>

definition sdskv_exists_multi ::
  "client_rt \<Rightarrow> 'st service \<Rightarrow> int32 \<Rightarrow> 'st \<Rightarrow> db_id \<Rightarrow> bulk list \<Rightarrow> int32 list \<Rightarrow> ('st \<times> int32 \<times> int32 list) option" where
  "sdskv_exists_multi C S ret0 st i keys flags =
     (let num = length keys;
          exist_size = num div 8 + (if num mod 8 = 0 then 0 else 1) in
      int_loop (num + 1) (
      if cl_bulk_create C 0 \<noteq> hg_success then None
      else if cl_bulk_create C 1 \<noteq> hg_success then Some (st, ret0, flags)
      else
        rpc C st (sv_exists_multi S st
            \<lparr>exists_multi_in_db_id = i, exists_multi_in_num_keys = num,
             exists_multi_in_keys_bulk = expose_sized keys, exists_multi_in_keys_bulk_size = exposed_size keys,
             exists_multi_in_flags_bulk = replicate exist_size 0\<rparr>)
          (\<lambda>st' _ e. Some (st', ret0, flags))
          (\<lambda>st' (ret, exist).
             if ret \<noteq> rc SDSKV_SUCCESS then Some (st', ret, flags)
             else do {
               fs \<leftarrow> read_flags exist num 0 1;
               flags' \<leftarrow> overwrite flags 0 fs;
               Some (st', ret, flags')
             })))"

end
