(* ===== verification/Client_List.thy ===== *)
theory Client_List
  imports Client_Multi
begin

text \<open>
  sdskv-client.c: listing keys, and keys with values. \<open>keys\<close> is null or an array of buffers (a null buffer is
  \<open>None\<close>), \<open>ksizes\<close> their sizes. The buffers are exposed as one region made of the first \<open>ksizes[i]\<close>
  bytes of each; the server writes the array \<open>ksizes\<close> too. After the call the region is split into the
  buffers again.
\<close>

section \<open>Arrays of buffers as one region\<close>

fun gather :: "bulk option list \<Rightarrow> nat list \<Rightarrow> bulk option" where
  "gather (b # bufs) (n # ns) = do {
     buf \<leftarrow> b;
     s \<leftarrow> buf_slice buf 0 n;
     rest \<leftarrow> gather bufs ns;
     Some (s @ rest)
   }"
| "gather bufs ns = Some []"

fun scatter :: "bulk \<Rightarrow> bulk option list \<Rightarrow> nat list \<Rightarrow> bulk option list" where
  "scatter mem (b # bufs) (n # ns) =
     map_option (\<lambda>buf. take n mem @ drop n buf) b # scatter (drop n mem) bufs ns"
| "scatter mem bufs ns = bufs"

section \<open>Listing\<close>

text \<open>The loop that finds out whether only the sizes are requested.\<close>

definition requesting_sizes :: "bulk option list option \<Rightarrow> nat list \<Rightarrow> nat \<Rightarrow> bool" where
  "requesting_sizes keys ksizes max_keys =
     (case keys of
        None \<Rightarrow> True
      | Some bufs \<Rightarrow> list_ex (\<lambda>(b, n). b = None \<or> n = 0) (take max_keys (zip bufs ksizes)))"

definition sdskv_list_keys_with_prefix ::
  "client_rt \<Rightarrow> 'st service \<Rightarrow> 'st \<Rightarrow> db_id \<Rightarrow> bulk \<Rightarrow> bulk \<Rightarrow> bulk option list option \<Rightarrow> nat list \<Rightarrow> nat \<Rightarrow>
   ('st \<times> int32 \<times> bulk option list option \<times> nat list \<times> nat) option" where
  "sdskv_list_keys_with_prefix C S st i start_key prefix keys ksizes max_keys =
     (let unchanged = (\<lambda>st' e. Some (st', e, keys, ksizes, max_keys)) in
      if max_keys = 0 then unchanged st (rc SDSKV_SUCCESS)
      else int_loop (if keys = None then 0 else max_keys) (
      if cl_bulk_create C 0 \<noteq> hg_success then unchanged st (SDSKV_MAKE_HG_ERROR (cl_bulk_create C 0))
      else
        let sizes_only = requesting_sizes keys ksizes max_keys in
        if \<not> sizes_only \<and> cl_bulk_create C 1 \<noteq> hg_success then
          unchanged st (SDSKV_MAKE_HG_ERROR (cl_bulk_create C 1))
        else do {
          km \<leftarrow> (if sizes_only then Some [] else gather (take max_keys (the keys)) (take max_keys ksizes));
          let received = (\<lambda>kz' km'. do {
            ks \<leftarrow> read_sizes kz' max_keys;
            Some (if sizes_only then keys
                  else map_option (\<lambda>bufs. scatter km' (take max_keys bufs) (take max_keys ksizes) @ drop max_keys bufs) keys,
                  ks @ drop max_keys ksizes)
          });
          rpc C st (sv_list_keys S st
              \<lparr>list_keys_in_db_id = i, list_keys_in_start_key = start_key, list_keys_in_prefix = prefix,
               list_keys_in_max_keys = max_keys, list_keys_in_ksizes_bulk = enc_sizes (take max_keys ksizes),
               list_keys_in_keys_bulk = km\<rparr>)
            (\<lambda>st' left e. do {
               (keys', ks) \<leftarrow> (case left of None \<Rightarrow> Some (keys, ksizes) | Some (_, kz', km') \<Rightarrow> received kz' km');
               Some (st', e, keys', ks, max_keys)
             })
            (\<lambda>st' (out, kz', km'). do {
               (keys', ks) \<leftarrow> received kz' km';
               Some (st', list_keys_out_ret out, keys', ks, list_keys_out_nkeys out)
             })
        }))"

definition sdskv_list_keys ::
  "client_rt \<Rightarrow> 'st service \<Rightarrow> 'st \<Rightarrow> db_id \<Rightarrow> bulk \<Rightarrow> bulk option list option \<Rightarrow> nat list \<Rightarrow> nat \<Rightarrow>
   ('st \<times> int32 \<times> bulk option list option \<times> nat list \<times> nat) option" where
  "sdskv_list_keys C S st i start_key keys ksizes max_keys =
     sdskv_list_keys_with_prefix C S st i start_key [] keys ksizes max_keys"

text \<open>
  The arrays of values are exposed in the same way; the region of the value sizes is registered with
  the size of the array of key sizes, which is the same.
\<close>

definition sdskv_list_keyvals_with_prefix ::
  "client_rt \<Rightarrow> 'st service \<Rightarrow> 'st \<Rightarrow> db_id \<Rightarrow> bulk \<Rightarrow> bulk \<Rightarrow>
   bulk option list option \<Rightarrow> nat list \<Rightarrow> bulk option list option \<Rightarrow> nat list \<Rightarrow> nat \<Rightarrow>
   ('st \<times> int32 \<times> bulk option list option \<times> nat list \<times> bulk option list option \<times> nat list \<times> nat) option" where
  "sdskv_list_keyvals_with_prefix C S st i start_key prefix keys ksizes vals vsizes max_keys =
     (let unchanged = (\<lambda>st' e. Some (st', e, keys, ksizes, vals, vsizes, max_keys)) in
      if cl_bulk_create C 0 \<noteq> hg_success then unchanged st (SDSKV_MAKE_HG_ERROR (cl_bulk_create C 0))
      else if cl_bulk_create C 1 \<noteq> hg_success then unchanged st (SDSKV_MAKE_HG_ERROR (cl_bulk_create C 1))
      else if keys \<noteq> None \<and> cl_bulk_create C 2 \<noteq> hg_success then
        unchanged st (SDSKV_MAKE_HG_ERROR (cl_bulk_create C 2))
      else if vals \<noteq> None \<and> cl_bulk_create C 3 \<noteq> hg_success then
        unchanged st (SDSKV_MAKE_HG_ERROR (cl_bulk_create C 3))
      else do {
        km \<leftarrow> (case keys of None \<Rightarrow> Some [] | Some bufs \<Rightarrow> gather (take max_keys bufs) (take max_keys ksizes));
        vm \<leftarrow> (case vals of None \<Rightarrow> Some [] | Some bufs \<Rightarrow> gather (take max_keys bufs) (take max_keys vsizes));
        let received = (\<lambda>kz' km' vz' vm'. do {
          ks \<leftarrow> read_sizes kz' max_keys;
          vs \<leftarrow> read_sizes vz' max_keys;
          Some (map_option (\<lambda>bufs. scatter km' (take max_keys bufs) (take max_keys ksizes) @ drop max_keys bufs) keys,
                ks @ drop max_keys ksizes,
                map_option (\<lambda>bufs. scatter vm' (take max_keys bufs) (take max_keys vsizes) @ drop max_keys bufs) vals,
                vs @ drop max_keys vsizes)
        });
        rpc C st (sv_list_keyvals S st
            \<lparr>list_keys_in_db_id = i, list_keys_in_start_key = start_key, list_keys_in_prefix = prefix,
             list_keys_in_max_keys = max_keys, list_keys_in_ksizes_bulk = enc_sizes (take max_keys ksizes),
             list_keys_in_keys_bulk = km,
             list_keyvals_in_vsizes_bulk = enc_sizes (take max_keys vsizes),
             list_keyvals_in_vals_bulk = vm\<rparr>)
          (\<lambda>st' left e. do {
             (keys', ks, vals', vs) \<leftarrow>
               (case left of None \<Rightarrow> Some (keys, ksizes, vals, vsizes)
                | Some (_, kz', km', vz', vm') \<Rightarrow> received kz' km' vz' vm');
             Some (st', e, keys', ks, vals', vs, max_keys)
           })
          (\<lambda>st' (out, kz', km', vz', vm'). do {
             (keys', ks, vals', vs) \<leftarrow> received kz' km' vz' vm';
             Some (st', list_keys_out_ret out, keys', ks, vals', vs, list_keys_out_nkeys out)
           })
      })"

definition sdskv_list_keyvals ::
  "client_rt \<Rightarrow> 'st service \<Rightarrow> 'st \<Rightarrow> db_id \<Rightarrow> bulk \<Rightarrow>
   bulk option list option \<Rightarrow> nat list \<Rightarrow> bulk option list option \<Rightarrow> nat list \<Rightarrow> nat \<Rightarrow>
   ('st \<times> int32 \<times> bulk option list option \<times> nat list \<times> bulk option list option \<times> nat list \<times> nat) option" where
  "sdskv_list_keyvals C S st i start_key keys ksizes vals vsizes max_keys =
     sdskv_list_keyvals_with_prefix C S st i start_key [] keys ksizes vals vsizes max_keys"

end
