(* ===== verification/Client_Cpp.thy ===== *)
theory Client_Cpp
  imports Client_List
begin

text \<open>
  The C++ client of include/sdskv-client.hpp: each member function calls its C counterpart and throws
  \<open>sdskv::exception\<close> when the return code is not \<open>SDSKV_SUCCESS\<close>. A function that throws has result \<open>Inl\<close> with
  the code of the exception. Keys and values are \<open>std::string\<close> or \<open>std::vector<char>\<close>, byte lists here;
  a function that makes several calls takes the runtime of each.
\<close>

section \<open>Return codes as exceptions\<close>

definition CHECK_RET :: "int32 \<Rightarrow> 'a \<Rightarrow> int32 + 'a" where
  "CHECK_RET ret x = (if ret \<noteq> rc SDSKV_SUCCESS then Inl ret else Inr x)"

definition object_resize :: "bulk \<Rightarrow> nat \<Rightarrow> bulk" where
  "object_resize v new_size = take new_size v @ replicate (new_size - length v) 0"

section \<open>Member functions\<close>

definition cpp_open ::
  "client_rt \<Rightarrow> 'st service \<Rightarrow> 'st \<Rightarrow> string \<Rightarrow> db_id \<Rightarrow> ('st \<times> (int32 + db_id)) option" where
  "cpp_open C S st db_name db_id0 =
     map_option (\<lambda>(st', ret, i). (st', CHECK_RET ret i)) (sdskv_open C S st db_name db_id0)"

text \<open>
  \<open>open\<close> of all databases; \<open>count0\<close> and \<open>out0\<close> are what the uninitialised variables contain. Memory for the
  vectors is assumed to be available, also when they are resized to \<open>count0\<close>, before the return code is checked.
\<close>

definition cpp_open_all ::
  "client_rt \<Rightarrow> client_rt \<Rightarrow> 'st service \<Rightarrow> list_db_out_t \<Rightarrow> 'st \<Rightarrow> nat \<Rightarrow> ('st \<times> (int32 + db_id list)) option" where
  "cpp_open_all C1 C2 S out0 st count0 = do {
     (st1, ret1, count) \<leftarrow> sdskv_count_databases C1 S st count0;
     if ret1 \<noteq> rc SDSKV_SUCCESS then Some (st1, Inl ret1)
     else do {
       (st2, ret2, n, names, ids) \<leftarrow>
         sdskv_list_databases C2 S out0 st1 count (Some (replicate count [])) (Some (replicate count 0));
       Some (st2, CHECK_RET ret2 (take n (case ids of Some l \<Rightarrow> l | None \<Rightarrow> [])))
     }
   }"

definition cpp_put ::
  "client_rt \<Rightarrow> 'st service \<Rightarrow> 'st \<Rightarrow> db_id \<Rightarrow> bulk \<Rightarrow> bulk \<Rightarrow> ('st \<times> (int32 + unit)) option" where
  "cpp_put C S st i key val = map_option (\<lambda>(st', ret). (st', CHECK_RET ret ())) (sdskv_put C S st i key val)"

definition cpp_put_multi ::
  "client_rt \<Rightarrow> 'st service \<Rightarrow> int32 \<Rightarrow> 'st \<Rightarrow> db_id \<Rightarrow> bulk list \<Rightarrow> bulk list \<Rightarrow> ('st \<times> (int32 + unit)) option" where
  "cpp_put_multi C S ret0 st i keys vals =
     map_option (\<lambda>(st', ret). (st', CHECK_RET ret ())) (sdskv_put_multi C S ret0 st i keys vals)"

definition cpp_length ::
  "client_rt \<Rightarrow> 'st service \<Rightarrow> 'st \<Rightarrow> db_id \<Rightarrow> bulk \<Rightarrow> nat \<Rightarrow> ('st \<times> (int32 + nat)) option" where
  "cpp_length C S st i key vsize0 =
     map_option (\<lambda>(st', ret, n). (st', CHECK_RET ret n)) (sdskv_length C S st i key vsize0)"

definition cpp_exists ::
  "client_rt \<Rightarrow> 'st service \<Rightarrow> 'st \<Rightarrow> db_id \<Rightarrow> bulk \<Rightarrow> int32 \<Rightarrow> ('st \<times> (int32 + bool)) option" where
  "cpp_exists C S st i key flag0 =
     map_option (\<lambda>(st', ret, f). (st', CHECK_RET ret (f \<noteq> 0))) (sdskv_exists C S st i key flag0)"

definition cpp_exists_multi ::
  "client_rt \<Rightarrow> 'st service \<Rightarrow> int32 \<Rightarrow> 'st \<Rightarrow> db_id \<Rightarrow> bulk list \<Rightarrow> ('st \<times> (int32 + bool list)) option" where
  "cpp_exists_multi C S ret0 st i keys =
     map_option (\<lambda>(st', ret, fs). (st', CHECK_RET ret (map (\<lambda>f. f \<noteq> 0) fs)))
       (sdskv_exists_multi C S ret0 st i keys (replicate (length keys) 0))"

definition cpp_erase ::
  "client_rt \<Rightarrow> 'st service \<Rightarrow> 'st \<Rightarrow> db_id \<Rightarrow> bulk \<Rightarrow> ('st \<times> (int32 + unit)) option" where
  "cpp_erase C S st i key = map_option (\<lambda>(st', ret). (st', CHECK_RET ret ())) (sdskv_erase C S st i key)"

definition cpp_erase_multi ::
  "client_rt \<Rightarrow> 'st service \<Rightarrow> int32 \<Rightarrow> 'st \<Rightarrow> db_id \<Rightarrow> bulk list \<Rightarrow> ('st \<times> (int32 + unit)) option" where
  "cpp_erase_multi C S ret0 st i keys =
     map_option (\<lambda>(st', ret). (st', CHECK_RET ret ())) (sdskv_erase_multi C S ret0 st i keys)"

text \<open>
  The template \<open>get(db, key, value)\<close>: an empty \<open>value\<close> is first resized to the length of the stored one; when
  the buffer turns out too small it is resized to the size the server reported and the call is
  repeated once.
\<close>

definition cpp_get ::
  "(nat \<Rightarrow> client_rt) \<Rightarrow> 'st service \<Rightarrow> 'st \<Rightarrow> db_id \<Rightarrow> bulk \<Rightarrow> bulk \<Rightarrow> nat \<Rightarrow> ('st \<times> (int32 + bulk)) option" where
  "cpp_get C S st i key val vsize0 = do {
     (st1, s) \<leftarrow> (if length val = 0 then cpp_length (C 0) S st i key vsize0 else Some (st, Inr (length val)));
     case s of
       Inl e \<Rightarrow> Some (st1, Inl e)
     | Inr n \<Rightarrow> do {
         let val1 = (if length val = 0 then object_resize val n else val);
         (st2, ret, buf, n2) \<leftarrow> sdskv_get (C 1) S st1 i key (Some val1) n;
         if ret = rc SDSKV_SUCCESS then Some (st2, Inr (object_resize (the buf) n2))
         else if ret = rc SDSKV_ERR_SIZE then do {
           (st3, ret', buf', n3) \<leftarrow> sdskv_get (C 2) S st2 i key (Some (object_resize (the buf) n2)) n2;
           Some (st3, CHECK_RET ret' (object_resize (the buf') n3))
         } else Some (st2, Inl ret)
       }
   }"

section \<open>Resizing\<close>

lemma length_object_resize [simp]: "length (object_resize v n) = n"
  by (simp add: object_resize_def)

lemma object_resize_prefix: "object_resize (v @ w) (length v) = v"
  by (simp add: object_resize_def)

end
