(* ===== verification/Ordered_Map.thy ===== *)
theory Ordered_Map
  imports Sdskv_Prelude
begin

text \<open>
  \<open>std::map\<close> with a comparator object, as the sources use it: an association list kept in the
  order of the comparator \<open>lt\<close>. An iterator is the suffix of the list it points at, \<open>end()\<close> is the
  empty suffix. As in the C++ library two keys are the same for the container when neither is less than
  the other, and assigning through \<open>operator[]\<close> to such a key keeps the key that is already there.
\<close>

section \<open>Operations\<close>

definition om_lower_bound :: "('k \<Rightarrow> 'k \<Rightarrow> bool) \<Rightarrow> ('k \<times> 'v) list \<Rightarrow> 'k \<Rightarrow> ('k \<times> 'v) list" where
  "om_lower_bound lt m k = dropWhile (\<lambda>p. lt (fst p) k) m"

definition om_upper_bound :: "('k \<Rightarrow> 'k \<Rightarrow> bool) \<Rightarrow> ('k \<times> 'v) list \<Rightarrow> 'k \<Rightarrow> ('k \<times> 'v) list" where
  "om_upper_bound lt m k = dropWhile (\<lambda>p. \<not> lt k (fst p)) m"

definition om_find :: "('k \<Rightarrow> 'k \<Rightarrow> bool) \<Rightarrow> ('k \<times> 'v) list \<Rightarrow> 'k \<Rightarrow> ('k \<times> 'v) list" where
  "om_find lt m k =
     (case om_lower_bound lt m k of
        [] \<Rightarrow> []
      | p # it \<Rightarrow> if lt k (fst p) then [] else p # it)"

definition om_count :: "('k \<Rightarrow> 'k \<Rightarrow> bool) \<Rightarrow> ('k \<times> 'v) list \<Rightarrow> 'k \<Rightarrow> nat" where
  "om_count lt m k = (if om_find lt m k = [] then 0 else 1)"

definition om_lookup :: "('k \<Rightarrow> 'k \<Rightarrow> bool) \<Rightarrow> ('k \<times> 'v) list \<Rightarrow> 'k \<Rightarrow> 'v option" where
  "om_lookup lt m k = (case om_find lt m k of [] \<Rightarrow> None | p # _ \<Rightarrow> Some (snd p))"

text \<open>\<open>m[k] = v\<close>\<close>

fun om_update :: "('k \<Rightarrow> 'k \<Rightarrow> bool) \<Rightarrow> 'k \<Rightarrow> 'v \<Rightarrow> ('k \<times> 'v) list \<Rightarrow> ('k \<times> 'v) list" where
  "om_update lt k v [] = [(k, v)]"
| "om_update lt k v ((k', v') # m) =
     (if lt k' k then (k', v') # om_update lt k v m
      else if lt k k' then (k, v) # (k', v') # m
      else (k', v) # m)"

text \<open>\<open>m.erase(k)\<close>\<close>

fun om_erase :: "('k \<Rightarrow> 'k \<Rightarrow> bool) \<Rightarrow> 'k \<Rightarrow> ('k \<times> 'v) list \<Rightarrow> ('k \<times> 'v) list" where
  "om_erase lt k [] = []"
| "om_erase lt k ((k', v') # m) =
     (if lt k' k then (k', v') # om_erase lt k m
      else if lt k k' then (k', v') # m
      else m)"

definition om_sorted :: "('k \<Rightarrow> 'k \<Rightarrow> bool) \<Rightarrow> ('k \<times> 'v) list \<Rightarrow> bool" where
  "om_sorted lt m \<longleftrightarrow> sorted_wrt lt (map fst m)"

lemma om_lookup_singleton: "om_lookup lt [(k, v)] j = (if lt k j \<or> lt j k then None else Some v)"
  by (simp add: om_lookup_def om_find_def om_lower_bound_def)

section \<open>Orders on keys\<close>

text \<open>What \<open>std::map\<close> requires of its comparator.\<close>

locale key_weak_order =
  fixes lt :: "'k \<Rightarrow> 'k \<Rightarrow> bool"
  assumes lt_irrefl: "\<not> lt a a"
    and lt_trans: "lt a b \<Longrightarrow> lt b c \<Longrightarrow> lt a c"
    and same_trans: "\<not> lt a b \<Longrightarrow> \<not> lt b a \<Longrightarrow> lt a c \<longleftrightarrow> lt b c"
    and same_trans': "\<not> lt a b \<Longrightarrow> \<not> lt b a \<Longrightarrow> lt c a \<longleftrightarrow> lt c b"
begin

lemma lt_asym: "lt a b \<Longrightarrow> \<not> lt b a"
  using lt_irrefl lt_trans by blast

lemma om_sorted_Nil [simp]: "om_sorted lt []"
  by (simp add: om_sorted_def)

lemma om_sorted_Cons:
  "om_sorted lt (p # m) \<longleftrightarrow> (\<forall>q\<in>set m. lt (fst p) (fst q)) \<and> om_sorted lt m"
  by (auto simp: om_sorted_def)

lemma fst_om_update:
  "q \<in> set (om_update lt k v m) \<Longrightarrow> fst q = k \<or> fst q \<in> fst ` set m"
  by (induction lt k v m rule: om_update.induct) (auto split: if_splits)

lemma om_sorted_update: "om_sorted lt m \<Longrightarrow> om_sorted lt (om_update lt k v m)"
proof (induction m)
  case (Cons p m)
  obtain k' v' where p: "p = (k', v')" by fastforce
  have m: "om_sorted lt m" and lt: "\<And>q. q \<in> set m \<Longrightarrow> lt k' (fst q)"
    using Cons.prems by (auto simp: om_sorted_Cons p)
  have "lt k' (fst q)" if "lt k' k" "q \<in> set (om_update lt k v m)" for q
    using fst_om_update [OF that(2)] that(1) lt by auto
  moreover have "lt k (fst q)" if "lt k k'" "q \<in> set m" for q
    using lt_trans [OF that(1) lt [OF that(2)]] .
  ultimately show ?case
    using Cons.IH [OF m] m lt by (auto simp: om_sorted_Cons p)
qed (simp add: om_sorted_Cons)

lemma set_om_erase: "set (om_erase lt k m) \<subseteq> set m"
  by (induction lt k m rule: om_erase.induct) auto

lemma om_sorted_erase: "om_sorted lt m \<Longrightarrow> om_sorted lt (om_erase lt k m)"
proof (induction m)
  case (Cons p m)
  then show ?case
    using set_om_erase [of k m] by (cases p) (auto simp: om_sorted_Cons)
qed simp

lemma om_lookup_Nil [simp]: "om_lookup lt [] k = None"
  by (simp add: om_lookup_def om_find_def om_lower_bound_def)

lemma om_lookup_Cons:
  "om_lookup lt (p # m) k =
     (if lt (fst p) k then om_lookup lt m k
      else if lt k (fst p) then None else Some (snd p))"
  by (simp add: om_lookup_def om_find_def om_lower_bound_def)

lemma om_lookup_below:
  "om_sorted lt m \<Longrightarrow> \<forall>q\<in>set m. lt k (fst q) \<Longrightarrow> om_lookup lt m k = None"
  by (cases m) (auto simp: om_lookup_Cons lt_asym)

lemma om_lookup_update:
  "om_sorted lt m \<Longrightarrow>
   om_lookup lt (om_update lt k v m) j =
     (if \<not> lt j k \<and> \<not> lt k j then Some v else om_lookup lt m j)"
proof (induction m)
  case Nil
  then show ?case by (auto simp: om_lookup_Cons lt_irrefl)
next
  case (Cons p m)
  obtain k' v' where p: "p = (k', v')" by fastforce
  have m: "om_sorted lt m"
    using Cons.prems by (auto simp: om_sorted_Cons p)
  consider "lt k' k" | "\<not> lt k' k" "lt k k'" | "\<not> lt k' k" "\<not> lt k k'" by blast
  then show ?case
  proof cases
    case 1
    then show ?thesis
      using Cons.IH [OF m] same_trans [of j k k'] same_trans' [of j k k']
      by (auto simp: om_lookup_Cons p dest: lt_asym)
  next
    case 2
    then show ?thesis
      by (auto simp: om_lookup_Cons p dest: lt_trans lt_asym)
  next
    case 3
    then show ?thesis
      using same_trans [of k' k j] same_trans' [of k' k j] by (auto simp: om_lookup_Cons p)
  qed
qed

lemma om_lookup_erase:
  "om_sorted lt m \<Longrightarrow>
   om_lookup lt (om_erase lt k m) j =
     (if \<not> lt j k \<and> \<not> lt k j then None else om_lookup lt m j)"
proof (induction m)
  case (Cons p m)
  obtain k' v' where p: "p = (k', v')" by fastforce
  have m: "om_sorted lt m" and lt: "\<And>q. q \<in> set m \<Longrightarrow> lt k' (fst q)"
    using Cons.prems by (auto simp: om_sorted_Cons p)
  consider "lt k' k" | "\<not> lt k' k" "lt k k'" | "\<not> lt k' k" "\<not> lt k k'" by blast
  then show ?case
  proof cases
    case 1
    then show ?thesis
      using Cons.IH [OF m] same_trans [of j k k'] same_trans' [of j k k']
      by (auto simp: om_lookup_Cons p dest: lt_asym)
  next
    case 2
    then show ?thesis
      using same_trans [of j k k'] same_trans' [of j k k'] by (auto simp: om_lookup_Cons p)
  next
    case 3
    have "om_lookup lt m j = None" if "\<not> lt k' j"
      using that lt m om_lookup_below [of m j] same_trans [of j k'] lt_trans
      by (metis)
    with 3 show ?thesis
      using same_trans [of k' k j] same_trans' [of k' k j] by (auto simp: om_lookup_Cons p)
  qed
qed simp

lemma om_count_lookup: "om_count lt m k = (if om_lookup lt m k = None then 0 else 1)"
  by (auto simp: om_count_def om_lookup_def split: list.splits)

lemma om_find_lookup: "om_find lt m k = [] \<longleftrightarrow> om_lookup lt m k = None"
  by (auto simp: om_lookup_def split: list.splits)

end

text \<open>What README.md requires of a custom comparison function: a total order on the keys.\<close>

locale key_total_order =
  fixes lt :: "'k \<Rightarrow> 'k \<Rightarrow> bool"
  assumes tot_irrefl: "\<not> lt a a"
    and tot_trans: "lt a b \<Longrightarrow> lt b c \<Longrightarrow> lt a c"
    and tot_total: "lt a b \<or> a = b \<or> lt b a"

sublocale key_total_order \<subseteq> key_weak_order lt
proof
  show "\<not> lt a b \<Longrightarrow> \<not> lt b a \<Longrightarrow> lt a c \<longleftrightarrow> lt b c" for a b c
    using tot_total by metis
  show "\<not> lt a b \<Longrightarrow> \<not> lt b a \<Longrightarrow> lt c a \<longleftrightarrow> lt c b" for a b c
    using tot_total by metis
qed (use tot_irrefl tot_trans in blast)+

context key_total_order
begin

lemma key_weak: "key_weak_order lt"
  by unfold_locales

lemma same_iff_eq: "\<not> lt a b \<and> \<not> lt b a \<longleftrightarrow> a = b"
  using tot_total tot_irrefl by blast

lemma om_lookup_update_eq:
  "om_sorted lt m \<Longrightarrow> om_lookup lt (om_update lt k v m) = (om_lookup lt m)(k \<mapsto> v)"
  by (auto simp: fun_eq_iff om_lookup_update same_iff_eq)

lemma om_lookup_erase_eq:
  "om_sorted lt m \<Longrightarrow> om_lookup lt (om_erase lt k m) = (om_lookup lt m)(k := None)"
  by (auto simp: fun_eq_iff om_lookup_erase same_iff_eq)

lemma om_lookup_map_of: "om_sorted lt m \<Longrightarrow> om_lookup lt m = map_of m"
proof (induction m)
  case (Cons p m)
  have lt: "\<forall>q\<in>set m. lt (fst p) (fst q)" and m: "om_sorted lt m"
    using Cons.prems by (auto simp: om_sorted_Cons)
  have "om_lookup lt (p # m) k = map_of (p # m) k" for k
  proof (cases "lt (fst p) k")
    case True
    then have "k \<noteq> fst p" using tot_irrefl by blast
    with True Cons.IH [OF m] show ?thesis by (cases p) (simp add: om_lookup_Cons)
  next
    case False
    then have "k = fst p \<or> lt k (fst p)" using tot_total by blast
    moreover have "map_of m k = None" if "lt k (fst p)"
    proof (rule ccontr)
      assume "map_of m k \<noteq> None"
      then obtain v where "(k, v) \<in> set m" by (auto dest: map_of_SomeD)
      with lt have "lt (fst p) k" by fastforce
      with False show False ..
    qed
    ultimately show ?thesis
      using False tot_irrefl by (cases p) (auto simp: om_lookup_Cons)
  qed
  then show ?case by (simp add: fun_eq_iff)
qed (simp add: fun_eq_iff)

lemma om_sorted_distinct: "om_sorted lt m \<Longrightarrow> distinct (map fst m)"
proof (induction m)
  case (Cons p m)
  then show ?case using tot_irrefl by (fastforce simp: om_sorted_Cons)
qed simp

lemma om_erase_filter: "om_sorted lt m \<Longrightarrow> om_erase lt k m = filter (\<lambda>e. fst e \<noteq> k) m"
proof (induction m)
  case (Cons p m)
  have m: "om_sorted lt m" "\<forall>q\<in>set m. lt (fst p) (fst q)"
    using Cons.prems by (simp_all add: om_sorted_Cons)
  have "filter (\<lambda>e. fst e \<noteq> k) m = m" if "\<not> lt (fst p) k"
    using m(2) that by (auto simp: filter_id_conv)
  then show ?case
    using Cons.IH [OF m(1)] tot_irrefl tot_total [of k "fst p"] by (cases p) auto
qed simp

lemma om_upper_bound_filter:
  "om_sorted lt m \<Longrightarrow> om_upper_bound lt m k = filter (\<lambda>p. lt k (fst p)) m"
proof (induction m)
  case (Cons p m)
  then have m: "om_sorted lt m" and lt: "\<forall>q\<in>set m. lt (fst p) (fst q)"
    by (auto simp: om_sorted_Cons)
  show ?case
  proof (cases "lt k (fst p)")
    case True
    then have "\<forall>q\<in>set m. lt k (fst q)" using lt tot_trans by blast
    then show ?thesis using True by (simp add: om_upper_bound_def)
  next
    case False
    with Cons.IH [OF m] show ?thesis by (simp add: om_upper_bound_def)
  qed
qed (simp add: om_upper_bound_def)

lemma om_lower_bound_filter:
  "om_sorted lt m \<Longrightarrow> om_lower_bound lt m k = filter (\<lambda>p. \<not> lt (fst p) k) m"
proof (induction m)
  case (Cons p m)
  then have m: "om_sorted lt m" and lt: "\<forall>q\<in>set m. lt (fst p) (fst q)"
    by (auto simp: om_sorted_Cons)
  show ?case
  proof (cases "lt (fst p) k")
    case False
    then have "\<forall>q\<in>set m. \<not> lt (fst q) k" using lt tot_trans by blast
    then show ?thesis using False by (simp add: om_lower_bound_def)
  next
    case True
    with Cons.IH [OF m] show ?thesis by (simp add: om_lower_bound_def)
  qed
qed (simp add: om_lower_bound_def)

text \<open>The first key above \<open>k\<close>, found from the first key that is not below it.\<close>

lemma om_upper_lower:
  "om_sorted lt m \<Longrightarrow>
   om_upper_bound lt m k = (case om_lower_bound lt m k of [] \<Rightarrow> [] | p # it \<Rightarrow> if fst p = k then it else p # it)"
proof (induction m)
  case (Cons p m)
  have m: "om_sorted lt m" "\<forall>q\<in>set m. lt (fst p) (fst q)"
    using Cons.prems by (simp_all add: om_sorted_Cons)
  have "dropWhile (\<lambda>q. \<not> lt (fst p) (fst q)) m = m"
    using m(2) by (cases m) simp_all
  then show ?case
    using Cons.IH [OF m(1)] tot_total [of "fst p" k] tot_irrefl lt_asym [of "fst p" k]
    by (auto simp: om_upper_bound_def om_lower_bound_def)
qed (simp add: om_upper_bound_def om_lower_bound_def)

text \<open>Several updates in order.\<close>

lemma om_updates:
  "om_sorted lt m \<Longrightarrow> om_sorted lt (fold (\<lambda>(k, v). om_update lt k v) kvs m)
     \<and> om_lookup lt (fold (\<lambda>(k, v). om_update lt k v) kvs m) = om_lookup lt m ++ map_of (rev kvs)"
proof (induction kvs arbitrary: m)
  case (Cons kv kvs)
  obtain k v where kv: "kv = (k, v)" by fastforce
  show ?case
    using Cons.IH [OF om_sorted_update [OF Cons.prems], of k v, unfolded om_lookup_update_eq [OF Cons.prems]]
    by (simp add: kv map_add_def fun_eq_iff split: option.splits)
qed simp

end

end
