(* ===== verification/Bulk_Keys.thy ===== *)
theory Bulk_Keys
  imports Ordered_Map
begin

text \<open>
  Keys and the orders on them: \<open>ds_bulk_t\<close> (bulk.h) compared by \<open>std::less\<close>, that is
  lexicographically on \<open>char\<close>, which is signed on the platforms the library is built for;
  \<open>memcmp\<close>, which compares bytes as unsigned; \<open>std::string\<close>, ordered by unsigned characters; and
  64-bit database ids. Each order that a \<open>std::map\<close> of the program uses is shown to be a
  total order by an interpretation.
\<close>

section \<open>Lexicographic comparison\<close>

text \<open>\<open>std::lexicographical_compare\<close> with element comparison \<open>lt\<close>.\<close>

fun lex_less :: "('a \<Rightarrow> 'a \<Rightarrow> bool) \<Rightarrow> 'a list \<Rightarrow> 'a list \<Rightarrow> bool" where
  "lex_less lt a [] = False"
| "lex_less lt [] (b # bs) = True"
| "lex_less lt (a # as) (b # bs) =
     (if lt a b then True else if lt b a then False else lex_less lt as bs)"

definition ds_bulk_less :: "bulk \<Rightarrow> bulk \<Rightarrow> bool" where
  "ds_bulk_less v1 v2 = lex_less (\<lambda>a b. sint a < sint b) v1 v2"

definition ds_bulk_equal :: "bulk \<Rightarrow> bulk \<Rightarrow> bool" where
  "ds_bulk_equal v1 v2 \<longleftrightarrow> v1 = v2"

definition string_less :: "string \<Rightarrow> string \<Rightarrow> bool" where
  "string_less a b = lex_less (\<lambda>c d. (of_char c :: nat) < of_char d) a b"

text \<open>
  \<open>memcmp(a, b, n)\<close>; only the sign of the result is specified by the language, so the model
  returns -1, 0 or 1. Undefined when \<open>n\<close> bytes cannot be read from both buffers.
\<close>

fun memcmp :: "byte list \<Rightarrow> byte list \<Rightarrow> nat \<Rightarrow> int option" where
  "memcmp a b 0 = Some 0"
| "memcmp (a # as) (b # bs) (Suc n) =
     (if a < b then Some (-1) else if b < a then Some 1 else memcmp as bs n)"
| "memcmp _ _ (Suc n) = None"

section \<open>Lexicographic orders are total\<close>

context key_total_order
begin

lemma lex_irrefl: "\<not> lex_less lt a a"
  by (induction a) (auto simp: tot_irrefl)

lemma lex_total: "lex_less lt a b \<or> a = b \<or> lex_less lt b a"
proof (induction a arbitrary: b)
  case Nil
  then show ?case by (cases b) auto
next
  case (Cons x xs)
  then show ?case using tot_total [of x "hd b"] by (cases b) auto
qed

end

lemma lex_less_trans:
  assumes "key_total_order lt" "lex_less lt a b" "lex_less lt b c"
  shows "lex_less lt a c"
  using assms(2,3)
proof (induction a arbitrary: b c)
  case Nil
  then show ?case by (cases b; cases c) auto
next
  case (Cons x xs)
  note tot = key_total_order.tot_trans [OF assms(1)] key_total_order.tot_total [OF assms(1)]
    key_total_order.tot_irrefl [OF assms(1)]
  obtain y ys z zs where bc: "b = y # ys" "c = z # zs"
    using Cons.prems by (cases b; cases c) auto
  show ?case
    using Cons.prems Cons.IH [of ys zs] tot(1) [of x y z] tot(2) [of x y] tot(2) [of y z] tot(3)
    unfolding bc by (auto split: if_splits dest: tot(1))
qed

lemma key_total_order_lex: "key_total_order lt \<Longrightarrow> key_total_order (lex_less lt)"
  by unfold_locales
    (use lex_less_trans key_total_order.lex_irrefl key_total_order.lex_total in metis)+

lemma key_total_order_inj:
  fixes f :: "'a \<Rightarrow> 'b::linorder"
  shows "inj f \<Longrightarrow> key_total_order (\<lambda>a b. f a < f b)"
  by unfold_locales (auto dest: injD)

interpretation signed_bytes: key_total_order "\<lambda>a b :: byte. sint a < sint b"
  by (rule key_total_order_inj) (simp add: inj_def signed_word_eqI)

interpretation ds_bulk_order: key_total_order ds_bulk_less
proof -
  have "ds_bulk_less = lex_less (\<lambda>a b :: byte. sint a < sint b)"
    by (simp add: fun_eq_iff ds_bulk_less_def)
  then show "key_total_order ds_bulk_less"
    using key_total_order_lex [OF signed_bytes.key_total_order_axioms] by simp
qed

interpretation string_order: key_total_order string_less
proof -
  have eq: "string_less = lex_less (\<lambda>c d. (of_char c :: nat) < of_char d)"
    by (simp add: fun_eq_iff string_less_def)
  show "key_total_order string_less"
    unfolding eq by (rule key_total_order_lex, rule key_total_order_inj) (simp add: inj_def)
qed

interpretation id_order: key_total_order "(<) :: db_id \<Rightarrow> db_id \<Rightarrow> bool"
  by unfold_locales auto

section \<open>\<open>memcmp\<close> on a prefix\<close>

lemma memcmp_defined: "n \<le> length a \<Longrightarrow> n \<le> length b \<Longrightarrow> memcmp a b n \<noteq> None"
  by (induction a b n rule: memcmp.induct) auto

lemma memcmp_0_iff:
  "n \<le> length a \<Longrightarrow> n \<le> length b \<Longrightarrow> memcmp a b n = Some 0 \<longleftrightarrow> take n a = take n b"
  by (induction a b n rule: memcmp.induct) auto

text \<open>A byte below 128 has the same value as a signed and as an unsigned \<open>char\<close>.\<close>

definition ascii :: "bulk \<Rightarrow> bool" where
  "ascii k \<longleftrightarrow> (\<forall>b\<in>set k. b < 128)"

lemma ascii_Cons [simp]: "ascii (b # bs) \<longleftrightarrow> b < 128 \<and> ascii bs"
  by (simp add: ascii_def)

lemma ascii_Nil [simp]: "ascii []"
  by (simp add: ascii_def)

lemma sint_ascii: "(b::byte) < 128 \<Longrightarrow> sint b = uint b"
proof -
  assume "b < 128"
  then have a: "uint b < 128" by (simp add: word_less_def)
  then have "take_bit 7 (uint b) = uint b" by (simp add: take_bit_int_eq_self)
  then have "\<not> bit (uint b) 7" by (metis bit_take_bit_iff less_irrefl)
  then have "signed_take_bit 7 (uint b) = take_bit 7 (uint b)"
    by (rule signed_take_bit_eq_if_positive)
  with \<open>take_bit 7 (uint b) = uint b\<close> show ?thesis by (simp add: sint_uint)
qed

lemma sint_less_ascii: "a < 128 \<Longrightarrow> b < 128 \<Longrightarrow> sint (a::byte) < sint b \<longleftrightarrow> a < b"
  by (simp add: sint_ascii word_less_def)

text \<open>
  On ASCII keys \<open>memcmp\<close> of a prefix with a key is monotone in the map's order, so a key that has
  exceeded the prefix is followed by such keys only.
\<close>

lemma memcmp_exceeds_mono:
  assumes "memcmp p k (length p) = Some c" "c < 0" "ds_bulk_less k k'"
    and "ascii p" "ascii k" "ascii k'" "length p \<le> length k'"
  shows "\<exists>c'. memcmp p k' (length p) = Some c' \<and> c' < 0"
  using assms
proof (induction p arbitrary: k k')
  case (Cons x xs)
  obtain y ys where k: "k = y # ys" using Cons.prems(1) by (cases k) auto
  obtain z zs where k': "k' = z # zs" using Cons.prems(7) by (cases k') auto
  have b: "x < 128" "y < 128" "z < 128" using Cons.prems(4,5,6) by (simp_all add: k k')
  have yz: "y < z \<or> y = z \<and> ds_bulk_less ys zs"
    using Cons.prems(3) b
    by (auto simp: k k' ds_bulk_less_def sint_less_ascii split: if_splits)
  show ?case
  proof (cases "x = y")
    case True
    show ?thesis
    proof (cases "y < z")
      case False
      then have "y = z" "ds_bulk_less ys zs" using yz by auto
      then show ?thesis using Cons True by (simp add: k k')
    qed (simp add: True k')
  next
    case False
    then have "x < y" using Cons.prems(1,2) by (auto simp: k split: if_splits)
    then have "x < z" using yz by auto
    then show ?thesis by (simp add: k')
  qed
qed simp

definition has_prefix :: "bulk \<Rightarrow> bulk \<times> bulk \<Rightarrow> bool" where
  "has_prefix prefix p \<longleftrightarrow> take (length prefix) (fst p) = prefix"

section \<open>Bytes as unsigned characters\<close>

text \<open>The order of \<open>memcmp\<close>, shorter keys first, which the persistent backends use by default.\<close>

definition bytes_less :: "bulk \<Rightarrow> bulk \<Rightarrow> bool" where
  "bytes_less = lex_less (<)"

interpretation bytes_order: key_total_order bytes_less
  unfolding bytes_less_def by (rule key_total_order_lex) (unfold_locales, auto)

text \<open>\<open>memcmp\<close> of a prefix with a key reads past the key only when the key is a proper prefix of it.\<close>

definition cut_short :: "bulk \<Rightarrow> bulk \<Rightarrow> bool" where
  "cut_short prefix k \<longleftrightarrow> length k < length prefix \<and> take (length k) prefix = k"

lemma memcmp_cut_short: "memcmp prefix k (length prefix) = None \<longleftrightarrow> cut_short prefix k"
proof (induction prefix arbitrary: k)
  case (Cons b bs)
  then show ?case by (cases k) (auto simp: cut_short_def)
qed (simp add: cut_short_def)

lemma memcmp_has_prefix: "memcmp prefix k (length prefix) = Some 0 \<longleftrightarrow> has_prefix prefix (k, v)"
proof (induction prefix arbitrary: k)
  case (Cons b bs)
  then show ?case by (cases k) (auto simp: has_prefix_def)
qed (simp add: has_prefix_def)

lemma memcmp_passed:
  "memcmp prefix k (length prefix) = Some c \<Longrightarrow> c < 0 \<Longrightarrow> bytes_less k k' \<Longrightarrow>
   \<exists>c'. memcmp prefix k' (length prefix) = Some c' \<and> c' < 0"
proof (induction prefix arbitrary: k k')
  case (Cons b bs)
  obtain x xs where k: "k = x # xs" using Cons.prems(1) by (cases k) auto
  obtain y ys where k': "k' = y # ys" using Cons.prems(3) by (cases k') (auto simp: bytes_less_def)
  have "x < y \<or> x = y \<and> bytes_less xs ys"
    using Cons.prems(3) by (auto simp: k k' bytes_less_def split: if_splits)
  moreover have "b < x \<or> b = x \<and> memcmp bs xs (length bs) = Some c"
    using Cons.prems(1,2) by (auto simp: k split: if_splits)
  ultimately show ?case using Cons.IH Cons.prems(2) by (fastforce simp: k')
qed simp

section \<open>Scanning for a prefix\<close>

text \<open>
  The loop by which the persistent backends list the keys with a prefix, over the pairs that are left: it
  stops at the first key above the prefix.
\<close>

fun prefix_scan :: "(bulk \<times> bulk \<Rightarrow> 'a) \<Rightarrow> nat \<Rightarrow> bulk \<Rightarrow> (bulk \<times> bulk) list \<Rightarrow> 'a list \<Rightarrow> 'a list option" where
  "prefix_scan push count prefix [] result = Some result"
| "prefix_scan push count prefix (p # it) result =
     (if length result < count then
        Option.bind (memcmp prefix (fst p) (length prefix)) (\<lambda>c.
          if c = 0 then prefix_scan push count prefix it (result @ [push p])
          else if c < 0 then Some result
          else prefix_scan push count prefix it result)
      else Some result)"

lemma prefix_scan_empty:
  "prefix_scan push count [] it result = Some (result @ map push (take (count - length result) it))"
proof (induction it arbitrary: result)
  case (Cons p it)
  have "count - length result = Suc (count - Suc (length result))" if "length result < count"
    using that by simp
  with Cons.IH show ?case by (simp del: take_Suc)
qed simp

lemma prefix_scan_stop:
  "\<not> length result < count \<Longrightarrow> prefix_scan push count prefix it result = Some result"
  by (cases it) simp_all

lemma prefix_scan_cut:
  "length result < count \<Longrightarrow> cut_short prefix (fst p) \<Longrightarrow> prefix_scan push count prefix (p # it) result = None"
  by (simp add: memcmp_cut_short [THEN iffD2])

lemma prefix_scan_exact:
  assumes "om_sorted bytes_less it" "\<forall>p\<in>set it. \<not> cut_short prefix (fst p)"
  shows "prefix_scan push count prefix it result
    = Some (result @ map push (take (count - length result) (filter (has_prefix prefix) it)))"
  using assms
proof (induction it arbitrary: result)
  case (Cons p it)
  have it: "om_sorted bytes_less it" "\<forall>q\<in>set it. \<not> cut_short prefix (fst q)"
    and lt: "\<And>q. q \<in> set it \<Longrightarrow> bytes_less (fst p) (fst q)"
    using Cons.prems by (auto simp: bytes_order.om_sorted_Cons)
  note IH = Cons.IH [OF it]
  have pre: "memcmp prefix (fst q) (length prefix) = Some 0 \<longleftrightarrow> has_prefix prefix q" for q
    using memcmp_has_prefix [of prefix "fst q" "snd q"] by simp
  obtain c where c: "memcmp prefix (fst p) (length prefix) = Some c"
    using memcmp_cut_short [of prefix "fst p"] Cons.prems(2) by auto
  show ?case
  proof (cases "length result < count")
    case True
    consider "c = 0" | "c < 0" | "c > 0" by linarith
    then show ?thesis
    proof cases
      case 1
      moreover have "count - length result = Suc (count - Suc (length result))" using True by simp
      ultimately show ?thesis using True c IH pre [of p] by simp
    next
      case 2
      have "\<not> has_prefix prefix q" if "q \<in> set it" for q
        using memcmp_passed [OF c 2 lt [OF that]] pre [of q] by auto
      moreover have "\<not> has_prefix prefix p" using c 2 pre [of p] by auto
      ultimately have "filter (has_prefix prefix) (p # it) = []" by (simp add: filter_empty_conv)
      then show ?thesis using True 2 c by simp
    next
      case 3
      then have "\<not> has_prefix prefix p" using c pre [of p] by auto
      then show ?thesis using True 3 c IH by simp
    qed
  qed simp
qed simp

end
