(* ===== verification/Datastore.thy ===== *)
theory Datastore
  imports Sdskv_Common Bulk_Keys
begin

text \<open>
  The interface of a database backend: the class \<open>AbstractDataStore\<close> of datastore/datastore.h. Its
  virtual methods are the fields of a record \<open>vtable\<close>, so that a call through an
  \<open>AbstractDataStore*\<close> is a call of the field of the backend's table; the methods the class itself
  implements (\<open>put\<close> of two vectors, \<open>put_multi\<close>, \<open>put_packed\<close>, \<open>length\<close>) are
  definitions over the virtual methods they call.

  The promise of the interface is the specification \<open>kv\<close>, a finite-map-like state with a
  no-overwrite flag, and the locale \<open>datastore\<close> says that a backend refines it.

  A pointer argument is the list of bytes that can be read from it, and a result \<open>None\<close> means that
  the call reads outside the memory it was given (or does not return).
\<close>

section \<open>The class\<close>

text \<open>A user comparison function; a null function pointer is \<open>None\<close> of the option type.\<close>

type_synonym comparator_fn = "bulk \<Rightarrow> bulk \<Rightarrow> int"

text \<open>What the persistent backends require of a comparison function: a three-way comparison for a total order.\<close>

definition three_way :: "comparator_fn \<Rightarrow> bool" where
  "three_way cmp \<longleftrightarrow> key_total_order (\<lambda>a b. cmp a b < 0) \<and> (\<forall>a b. cmp a b > 0 \<longleftrightarrow> cmp b a < 0)"

abbreviation below :: "comparator_fn \<Rightarrow> bulk \<Rightarrow> bulk \<Rightarrow> bool" where
  "below cmp a b \<equiv> cmp a b < 0"

lemma three_way_order: "three_way cmp \<Longrightarrow> key_total_order (below cmp)"
  by (simp add: three_way_def)

text \<open>The data members of the class and its constructor (datastore/datastore.cc).\<close>

record abstract_ds =
  ds_path :: string
  ds_name :: string
  ds_comp_fun_name :: string
  ds_no_overwrite :: bool
  ds_eraseOnGet :: bool
  ds_debug :: bool
  ds_in_memory :: bool

definition AbstractDataStore :: "bool \<Rightarrow> bool \<Rightarrow> abstract_ds" where
  "AbstractDataStore eraseOnGet debug =
     \<lparr>ds_path = [], ds_name = [], ds_comp_fun_name = [], ds_no_overwrite = False,
      ds_eraseOnGet = eraseOnGet, ds_debug = debug, ds_in_memory = False\<rparr>"

record 'ds vtable =
  vt_put_raw :: "'ds \<Rightarrow> bulk \<Rightarrow> nat \<Rightarrow> bulk \<Rightarrow> nat \<Rightarrow> ('ds \<times> int32) option"
  vt_put :: "'ds \<Rightarrow> bulk \<Rightarrow> bulk \<Rightarrow> ('ds \<times> int32) option"
  vt_put_multi :: "'ds \<Rightarrow> nat \<Rightarrow> bulk list \<Rightarrow> nat list \<Rightarrow> bulk list \<Rightarrow> nat list \<Rightarrow> ('ds \<times> int32) option"
  vt_put_packed :: "'ds \<Rightarrow> nat \<Rightarrow> bulk \<Rightarrow> nat list \<Rightarrow> bulk \<Rightarrow> nat list \<Rightarrow> ('ds \<times> int32) option"
  vt_get :: "'ds \<Rightarrow> bulk \<Rightarrow> bulk \<Rightarrow> bool \<times> bulk"
  vt_length :: "'ds \<Rightarrow> bulk \<Rightarrow> nat \<Rightarrow> bool \<times> nat"
  vt_exists :: "'ds \<Rightarrow> bulk \<Rightarrow> bool"
  vt_exists_raw :: "'ds \<Rightarrow> bulk \<Rightarrow> nat \<Rightarrow> bool option"
  vt_erase :: "'ds \<Rightarrow> bulk \<Rightarrow> 'ds \<times> bool"
  vt_set_in_memory :: "'ds \<Rightarrow> bool \<Rightarrow> 'ds"
  vt_set_comparison_function :: "'ds \<Rightarrow> string \<Rightarrow> comparator_fn \<Rightarrow> 'ds"
  vt_set_no_overwrite :: "'ds \<Rightarrow> 'ds"
  vt_sync :: "'ds \<Rightarrow> 'ds"
  vt_vlist_keys :: "'ds \<Rightarrow> bulk \<Rightarrow> nat \<Rightarrow> bulk \<Rightarrow> bulk list option"
  vt_vlist_keyvals :: "'ds \<Rightarrow> bulk \<Rightarrow> nat \<Rightarrow> bulk \<Rightarrow> (bulk \<times> bulk) list option"
  vt_get_path :: "'ds \<Rightarrow> string"
  vt_get_name :: "'ds \<Rightarrow> string"
  vt_get_comparison_function_name :: "'ds \<Rightarrow> string"

text \<open>\<open>put(const ds_bulk_t&, const ds_bulk_t&)\<close> and \<open>put(ds_bulk_t&&, ds_bulk_t&&)\<close> of the base class\<close>

definition base_put ::
  "('ds \<Rightarrow> bulk \<Rightarrow> nat \<Rightarrow> bulk \<Rightarrow> nat \<Rightarrow> ('ds \<times> int32) option) \<Rightarrow> 'ds \<Rightarrow> bulk \<Rightarrow> bulk \<Rightarrow> ('ds \<times> int32) option"
where
  "base_put put_raw s key data = put_raw s key (length key) data (length data)"

text \<open>The loop of \<open>put_multi\<close>; the first counter is the number of iterations left.\<close>

fun put_multi_loop ::
  "('ds \<Rightarrow> bulk \<Rightarrow> nat \<Rightarrow> bulk \<Rightarrow> nat \<Rightarrow> ('ds \<times> int32) option) \<Rightarrow>
   bulk list \<Rightarrow> nat list \<Rightarrow> bulk list \<Rightarrow> nat list \<Rightarrow> nat \<Rightarrow> nat \<Rightarrow> 'ds \<Rightarrow> int32 \<Rightarrow> ('ds \<times> int32) option"
where
  "put_multi_loop put_raw keys ksizes vals vsizes 0 i s ret = Some (s, ret)"
| "put_multi_loop put_raw keys ksizes vals vsizes (Suc n) i s ret = do {
     k \<leftarrow> arr keys i;
     ks \<leftarrow> arr ksizes i;
     v \<leftarrow> arr vals i;
     vs \<leftarrow> arr vsizes i;
     (s', r) \<leftarrow> put_raw s k ks v vs;
     put_multi_loop put_raw keys ksizes vals vsizes n (Suc i) s' (if ret = 0 then r else 0)
   }"

definition base_put_multi ::
  "('ds \<Rightarrow> bulk \<Rightarrow> nat \<Rightarrow> bulk \<Rightarrow> nat \<Rightarrow> ('ds \<times> int32) option) \<Rightarrow>
   'ds \<Rightarrow> nat \<Rightarrow> bulk list \<Rightarrow> nat list \<Rightarrow> bulk list \<Rightarrow> nat list \<Rightarrow> ('ds \<times> int32) option"
where
  "base_put_multi put_raw s num_items keys ksizes vals vsizes =
     put_multi_loop put_raw keys ksizes vals vsizes num_items 0 s 0"

fun put_packed_loop ::
  "('ds \<Rightarrow> bulk \<Rightarrow> nat \<Rightarrow> bulk \<Rightarrow> nat \<Rightarrow> ('ds \<times> int32) option) \<Rightarrow>
   bulk \<Rightarrow> nat list \<Rightarrow> bulk \<Rightarrow> nat list \<Rightarrow> nat \<Rightarrow> nat \<Rightarrow> nat \<Rightarrow> nat \<Rightarrow> 'ds \<Rightarrow> int32 \<Rightarrow> ('ds \<times> int32) option"
where
  "put_packed_loop put_raw keys ksizes vals vsizes 0 i keys_offset vals_offset s ret = Some (s, ret)"
| "put_packed_loop put_raw keys ksizes vals vsizes (Suc n) i keys_offset vals_offset s ret = do {
     ks \<leftarrow> arr ksizes i;
     vs \<leftarrow> arr vsizes i;
     (s', r) \<leftarrow> put_raw s (drop keys_offset keys) ks (drop vals_offset vals) vs;
     put_packed_loop put_raw keys ksizes vals vsizes n (Suc i)
       (keys_offset + ks) (vals_offset + vs) s' (if ret = 0 then r else 0)
   }"

definition base_put_packed ::
  "('ds \<Rightarrow> bulk \<Rightarrow> nat \<Rightarrow> bulk \<Rightarrow> nat \<Rightarrow> ('ds \<times> int32) option) \<Rightarrow>
   'ds \<Rightarrow> nat \<Rightarrow> bulk \<Rightarrow> nat list \<Rightarrow> bulk \<Rightarrow> nat list \<Rightarrow> ('ds \<times> int32) option"
where
  "base_put_packed put_raw s num_items keys ksizes vals vsizes =
     put_packed_loop put_raw keys ksizes vals vsizes num_items 0 0 0 s 0"

text \<open>\<open>length(const ds_bulk_t&, size_t*)\<close> of the base class, and the overload on raw memory.\<close>

definition base_length :: "('ds \<Rightarrow> bulk \<Rightarrow> bulk \<Rightarrow> bool \<times> bulk) \<Rightarrow> 'ds \<Rightarrow> bulk \<Rightarrow> nat \<Rightarrow> bool \<times> nat" where
  "base_length get s key vsize = (let (ret, data) = get s key [] in (ret, if ret then length data else vsize))"

definition ds_length_raw :: "'ds vtable \<Rightarrow> 'ds \<Rightarrow> bulk \<Rightarrow> nat \<Rightarrow> nat \<Rightarrow> (bool \<times> nat) option" where
  "ds_length_raw V s key ksize vsize = do {
     k \<leftarrow> buf_slice key 0 ksize;
     Some (vt_length V s k vsize)
   }"

definition ds_list_keys :: "'ds vtable \<Rightarrow> 'ds \<Rightarrow> bulk \<Rightarrow> nat \<Rightarrow> bulk \<Rightarrow> bulk list option" where
  "ds_list_keys V s start_key count prefix = vt_vlist_keys V s start_key count prefix"

definition ds_list_keyvals :: "'ds vtable \<Rightarrow> 'ds \<Rightarrow> bulk \<Rightarrow> nat \<Rightarrow> bulk \<Rightarrow> (bulk \<times> bulk) list option" where
  "ds_list_keyvals V s start_key count prefix = vt_vlist_keyvals V s start_key count prefix"

section \<open>What a backend promises\<close>

text \<open>The abstract database: a partial map and the no-overwrite flag.\<close>

record kv =
  kv_map :: "bulk \<Rightarrow> bulk option"
  kv_no_overwrite :: bool

definition kv_put :: "kv \<Rightarrow> bulk \<Rightarrow> bulk \<Rightarrow> kv \<times> int32" where
  "kv_put a k v =
     (if kv_no_overwrite a \<and> kv_map a k \<noteq> None then (a, rc SDSKV_ERR_KEYEXISTS)
      else (a\<lparr>kv_map := (kv_map a)(k \<mapsto> v)\<rparr>, rc SDSKV_SUCCESS))"

definition kv_erase :: "kv \<Rightarrow> bulk \<Rightarrow> kv" where
  "kv_erase a k = a\<lparr>kv_map := (kv_map a)(k := None)\<rparr>"

text \<open>Several puts in order, with the return code the loops of the base class accumulate.\<close>

fun kv_puts :: "kv \<Rightarrow> (bulk \<times> bulk) list \<Rightarrow> int32 \<Rightarrow> kv \<times> int32" where
  "kv_puts a [] ret = (a, ret)"
| "kv_puts a ((k, v) # kvs) ret =
     (let (a', r) = kv_put a k v in kv_puts a' kvs (if ret = 0 then r else 0))"

lemma kv_puts_overwrite:
  "\<not> kv_no_overwrite a \<Longrightarrow> kv_puts a kvs 0 = (a\<lparr>kv_map := kv_map a ++ map_of (rev kvs)\<rparr>, 0)"
proof (induction kvs arbitrary: a)
  case (Cons kv kvs)
  then show ?case
    by (cases kv) (simp add: kv_put_def fun_upd_def map_add_def fun_eq_iff split: option.splits)
qed simp

lemma kv_puts_no_overwrite_flag: "kv_no_overwrite (fst (kv_puts a kvs ret)) = kv_no_overwrite a"
proof (induction kvs arbitrary: a ret)
  case (Cons kv kvs)
  then show ?case by (cases kv) (simp add: kv_put_def Let_def)
qed simp

text \<open>
  A backend with table \<open>V\<close> implements the abstract database: \<open>inv\<close> is its invariant and \<open>abs\<close> the
  abstract state of a store.
\<close>

locale datastore =
  fixes V :: "'ds vtable"
    and inv :: "'ds \<Rightarrow> bool"
    and abs :: "'ds \<Rightarrow> kv"
  assumes put_raw_law:
      "inv s \<Longrightarrow> buf_slice kp 0 ks = Some k \<Longrightarrow> buf_slice vp 0 vs = Some v \<Longrightarrow>
       \<exists>s'. vt_put_raw V s kp ks vp vs = Some (s', snd (kv_put (abs s) k v))
          \<and> inv s' \<and> abs s' = fst (kv_put (abs s) k v)"
    and put_law:
      "inv s \<Longrightarrow>
       \<exists>s'. vt_put V s k v = Some (s', snd (kv_put (abs s) k v))
          \<and> inv s' \<and> abs s' = fst (kv_put (abs s) k v)"
    and get_law: "inv s \<Longrightarrow> fst (vt_get V s k d) \<longleftrightarrow> kv_map (abs s) k \<noteq> None"
    and get_value_law: "inv s \<Longrightarrow> kv_map (abs s) k = Some v \<Longrightarrow> snd (vt_get V s k d) = v"
    and length_law: "inv s \<Longrightarrow> fst (vt_length V s k n) \<longleftrightarrow> kv_map (abs s) k \<noteq> None"
    and length_value_law: "inv s \<Longrightarrow> kv_map (abs s) k = Some v \<Longrightarrow> snd (vt_length V s k n) = length v"
    and exists_law: "inv s \<Longrightarrow> vt_exists V s k \<longleftrightarrow> kv_map (abs s) k \<noteq> None"
    and exists_raw_law:
      "inv s \<Longrightarrow> buf_slice kp 0 ks = Some k \<Longrightarrow> vt_exists_raw V s kp ks = Some (kv_map (abs s) k \<noteq> None)"
    and erase_inv: "inv s \<Longrightarrow> inv (fst (vt_erase V s k))"
    and erase_law: "inv s \<Longrightarrow> abs (fst (vt_erase V s k)) = kv_erase (abs s) k"
    and erase_ret: "inv s \<Longrightarrow> kv_map (abs s) k \<noteq> None \<Longrightarrow> snd (vt_erase V s k)"
begin

lemma get_eq: "inv s \<Longrightarrow> kv_map (abs s) k = Some v \<Longrightarrow> vt_get V s k d = (True, v)"
  using get_law [of s k d] get_value_law [of s k v d] by (cases "vt_get V s k d") auto

lemma length_eq: "inv s \<Longrightarrow> kv_map (abs s) k = Some v \<Longrightarrow> vt_length V s k n = (True, length v)"
  using length_law [of s k n] length_value_law [of s k v n] by (cases "vt_length V s k n") auto

lemma put_multi_loop_law:
  "inv s \<Longrightarrow>
   \<forall>j<n. buf_slice (keys ! (i + j)) 0 (ksizes ! (i + j)) = Some (fst (kvs ! j))
       \<and> buf_slice (vals ! (i + j)) 0 (vsizes ! (i + j)) = Some (snd (kvs ! j)) \<Longrightarrow>
   length kvs = n \<Longrightarrow> i + n \<le> length keys \<Longrightarrow> i + n \<le> length ksizes \<Longrightarrow>
   i + n \<le> length vals \<Longrightarrow> i + n \<le> length vsizes \<Longrightarrow>
   \<exists>s'. put_multi_loop (vt_put_raw V) keys ksizes vals vsizes n i s ret
          = Some (s', snd (kv_puts (abs s) kvs ret))
      \<and> inv s' \<and> abs s' = fst (kv_puts (abs s) kvs ret)"
proof (induction n arbitrary: i s ret kvs)
  case (Suc n)
  from Suc.prems(3) obtain k v kvs' where kvs: "kvs = (k, v) # kvs'" "length kvs' = n"
    by (metis Suc_length_conv surj_pair)
  have sl: "buf_slice (keys ! i) 0 (ksizes ! i) = Some k" "buf_slice (vals ! i) 0 (vsizes ! i) = Some v"
    using Suc.prems(2) [rule_format, of 0] by (simp_all add: kvs)
  obtain s1 where s1: "vt_put_raw V s (keys ! i) (ksizes ! i) (vals ! i) (vsizes ! i)
      = Some (s1, snd (kv_put (abs s) k v))" "inv s1" "abs s1 = fst (kv_put (abs s) k v)"
    using put_raw_law [OF Suc.prems(1) sl] by blast
  have rest: "\<forall>j<n. buf_slice (keys ! (Suc i + j)) 0 (ksizes ! (Suc i + j)) = Some (fst (kvs' ! j))
       \<and> buf_slice (vals ! (Suc i + j)) 0 (vsizes ! (Suc i + j)) = Some (snd (kvs' ! j))"
  proof (intro allI impI)
    fix j assume "j < n"
    then show "buf_slice (keys ! (Suc i + j)) 0 (ksizes ! (Suc i + j)) = Some (fst (kvs' ! j))
       \<and> buf_slice (vals ! (Suc i + j)) 0 (vsizes ! (Suc i + j)) = Some (snd (kvs' ! j))"
      using Suc.prems(2) [rule_format, of "Suc j"] by (simp add: kvs)
  qed
  show ?case
    using Suc.IH [OF s1(2) rest kvs(2), of "if ret = 0 then snd (kv_put (abs s) k v) else 0"] Suc.prems s1
    by (auto simp: kvs(1) case_prod_beta Let_def)
qed simp

lemma put_packed_loop_law:
  "inv s \<Longrightarrow> unpack (drop ko keys) (drop i ksizes) = Some (map fst kvs) \<Longrightarrow>
   unpack (drop vo vals) (drop i vsizes) = Some (map snd kvs) \<Longrightarrow>
   length ksizes = i + n \<Longrightarrow> length vsizes = i + n \<Longrightarrow>
   \<exists>s'. put_packed_loop (vt_put_raw V) keys ksizes vals vsizes n i ko vo s ret
          = Some (s', snd (kv_puts (abs s) kvs ret))
      \<and> inv s' \<and> abs s' = fst (kv_puts (abs s) kvs ret)"
proof (induction n arbitrary: i ko vo s ret kvs)
  case (Suc n)
  have dk: "drop i ksizes = ksizes ! i # drop (Suc i) ksizes" and dv: "drop i vsizes = vsizes ! i # drop (Suc i) vsizes"
    using Suc.prems by (simp_all add: Cons_nth_drop_Suc)
  from Suc.prems(2,3) obtain k v kvs' where kvs: "kvs = (k, v) # kvs'"
    and sl: "buf_slice (drop ko keys) 0 (ksizes ! i) = Some k" "buf_slice (drop vo vals) 0 (vsizes ! i) = Some v"
    and un: "unpack (drop (ko + ksizes ! i) keys) (drop (Suc i) ksizes) = Some (map fst kvs')"
      "unpack (drop (vo + vsizes ! i) vals) (drop (Suc i) vsizes) = Some (map snd kvs')"
    unfolding dk dv
    by (cases kvs) (auto simp: buf_slice_def add.commute split: if_splits)
  obtain s1 where s1: "vt_put_raw V s (drop ko keys) (ksizes ! i) (drop vo vals) (vsizes ! i)
      = Some (s1, snd (kv_put (abs s) k v))" "inv s1" "abs s1 = fst (kv_put (abs s) k v)"
    using put_raw_law [OF Suc.prems(1) sl] by blast
  show ?case
    using Suc.IH [OF s1(2) un, of "if ret = 0 then snd (kv_put (abs s) k v) else 0"] Suc.prems(4,5) s1
    by (auto simp: kvs case_prod_beta Let_def)
qed simp

end

text \<open>A backend that keeps the base class's \<open>put_multi\<close> and \<open>put_packed\<close>.\<close>

locale plain_datastore = datastore +
  assumes put_multi_base: "vt_put_multi V = base_put_multi (vt_put_raw V)"
    and put_packed_base: "vt_put_packed V = base_put_packed (vt_put_raw V)"
begin

lemma put_multi_law:
  assumes "inv s" "\<forall>j<length kvs. buf_slice (keys ! j) 0 (ksizes ! j) = Some (fst (kvs ! j))
       \<and> buf_slice (vals ! j) 0 (vsizes ! j) = Some (snd (kvs ! j))"
    and "length keys = length kvs" "length ksizes = length kvs"
      "length vals = length kvs" "length vsizes = length kvs"
  shows "\<exists>s'. vt_put_multi V s (length kvs) keys ksizes vals vsizes = Some (s', snd (kv_puts (abs s) kvs 0))
    \<and> inv s' \<and> abs s' = fst (kv_puts (abs s) kvs 0)"
  using put_multi_loop_law [of s "length kvs" keys 0 ksizes kvs vals vsizes 0] assms
  by (simp add: put_multi_base base_put_multi_def)

lemma put_packed_law:
  assumes "inv s" "unpack keys ksizes = Some (map fst kvs)" "unpack vals vsizes = Some (map snd kvs)"
  shows "\<exists>s'. vt_put_packed V s (length kvs) keys ksizes vals vsizes = Some (s', snd (kv_puts (abs s) kvs 0))
    \<and> inv s' \<and> abs s' = fst (kv_puts (abs s) kvs 0)"
proof -
  have "length ksizes = length kvs" "length vsizes = length kvs"
    using unpack_sound [OF assms(2)] unpack_sound [OF assms(3)] by (metis length_map)+
  then show ?thesis
    using put_packed_loop_law [of s 0 keys 0 ksizes kvs 0 vals vsizes "length kvs" 0] assms
    by (simp add: put_packed_base base_put_packed_def)
qed

end

section \<open>Sequences of calls\<close>

text \<open>The single-key calls the request handlers make on a backend, and what they observe.\<close>

datatype ds_op = Op_put bulk bulk | Op_get bulk | Op_length bulk | Op_exists bulk | Op_erase bulk

datatype ds_res = Res_code int32 | Res_value "bulk option" | Res_size "nat option" | Res_bool bool

fun ds_step :: "'ds vtable \<Rightarrow> 'ds \<Rightarrow> ds_op \<Rightarrow> ('ds \<times> ds_res) option" where
  "ds_step V s (Op_put k v) = map_option (\<lambda>(s', r). (s', Res_code r)) (vt_put V s k v)"
| "ds_step V s (Op_get k) =
     Some (s, Res_value (let (b, v) = vt_get V s k [] in if b then Some v else None))"
| "ds_step V s (Op_length k) =
     Some (s, Res_size (let (b, n) = vt_length V s k 0 in if b then Some n else None))"
| "ds_step V s (Op_exists k) = Some (s, Res_bool (vt_exists V s k))"
| "ds_step V s (Op_erase k) = Some (let (s', b) = vt_erase V s k in (s', Res_bool b))"

fun ds_run :: "'ds vtable \<Rightarrow> 'ds \<Rightarrow> ds_op list \<Rightarrow> ('ds \<times> ds_res list) option" where
  "ds_run V s [] = Some (s, [])"
| "ds_run V s (op # ops) = do {
     (s1, r) \<leftarrow> ds_step V s op;
     (s2, rs) \<leftarrow> ds_run V s1 ops;
     Some (s2, r # rs)
   }"

fun kv_step :: "kv \<Rightarrow> ds_op \<Rightarrow> kv \<times> ds_res" where
  "kv_step a (Op_put k v) = (let (a', r) = kv_put a k v in (a', Res_code r))"
| "kv_step a (Op_get k) = (a, Res_value (kv_map a k))"
| "kv_step a (Op_length k) = (a, Res_size (map_option length (kv_map a k)))"
| "kv_step a (Op_exists k) = (a, Res_bool (kv_map a k \<noteq> None))"
| "kv_step a (Op_erase k) = (kv_erase a k, Res_bool (kv_map a k \<noteq> None))"

fun kv_run :: "kv \<Rightarrow> ds_op list \<Rightarrow> kv \<times> ds_res list" where
  "kv_run a [] = (a, [])"
| "kv_run a (op # ops) =
     (let (a1, r) = kv_step a op; (a2, rs) = kv_run a1 ops in (a2, r # rs))"

text \<open>A backend whose \<open>erase\<close> reports exactly whether the key was there.\<close>

locale exact_datastore = datastore +
  assumes erase_exact: "inv s \<Longrightarrow> snd (vt_erase V s k) \<longleftrightarrow> kv_map (abs s) k \<noteq> None"
begin

lemma step_refines:
  assumes "inv s"
  shows "\<exists>s'. ds_step V s op = Some (s', snd (kv_step (abs s) op)) \<and> inv s' \<and> abs s' = fst (kv_step (abs s) op)"
proof (cases op)
  case (Op_put k v)
  then show ?thesis using put_law [OF assms, of k v] by (auto simp: case_prod_beta)
next
  case (Op_get k)
  then show ?thesis
    using assms get_law [of s k "[]"] get_value_law [of s k _ "[]"]
    by (cases "vt_get V s k []") (auto split: option.splits)
next
  case (Op_length k)
  then show ?thesis
    using assms length_law [of s k 0] length_value_law [of s k _ 0]
    by (cases "vt_length V s k 0") (auto split: option.splits)
next
  case (Op_exists k)
  then show ?thesis using assms exists_law by auto
next
  case (Op_erase k)
  then show ?thesis
    using assms erase_inv [of s k] erase_law [of s k] erase_exact [of s k]
    by (cases "vt_erase V s k") auto
qed

lemma run_refines:
  "inv s \<Longrightarrow> \<exists>s'. ds_run V s ops = Some (s', snd (kv_run (abs s) ops)) \<and> inv s' \<and> abs s' = fst (kv_run (abs s) ops)"
proof (induction ops arbitrary: s)
  case (Cons op ops)
  obtain s1 where s1: "ds_step V s op = Some (s1, snd (kv_step (abs s) op))" "inv s1"
      "abs s1 = fst (kv_step (abs s) op)"
    using step_refines [OF Cons.prems] by blast
  obtain s2 where "ds_run V s1 ops = Some (s2, snd (kv_run (abs s1) ops))" "inv s2"
      "abs s2 = fst (kv_run (abs s1) ops)"
    using Cons.IH [OF s1(2)] by blast
  with s1 show ?case by (auto simp: case_prod_beta Let_def)
qed simp

end

end
