(* ===== verification/Map_Datastore.thy ===== *)
theory Map_Datastore
  imports Datastore
begin

text \<open>
  The in-memory backend: class \<open>MapDataStore\<close> of datastore/map_datastore.h, a \<open>std::map\<close> from keys
  to values under a read-write lock. Each method takes the lock on entry and releases it before it
  returns, so that a call is one step on the state; the two range methods, which can return with
  the lock still held, say so in their result.

  The class refines the abstract database (interpretation \<open>map_ds\<close>), for the default order and for
  every user comparison function that is a total order. The listing loops return only when no key
  shorter than the prefix is met.
\<close>

section \<open>State\<close>

record map_datastore = abstract_ds +
  md_less :: "comparator_fn option"
  md_map :: "(bulk \<times> bulk) list"

definition keycmp :: "map_datastore \<Rightarrow> bulk \<Rightarrow> bulk \<Rightarrow> bool" where
  "keycmp s a b = (case md_less s of Some less_fn \<Rightarrow> less_fn a b < 0 | None \<Rightarrow> ds_bulk_less a b)"

definition MapDataStore :: "bool \<Rightarrow> bool \<Rightarrow> map_datastore" where
  "MapDataStore eraseOnGet debug =
     abstract_ds.extend (AbstractDataStore eraseOnGet debug) \<lparr>md_less = None, md_map = []\<rparr>"

section \<open>Operations\<close>

definition map_openDatabase :: "map_datastore \<Rightarrow> string \<Rightarrow> string \<Rightarrow> map_datastore \<times> bool" where
  "map_openDatabase s db_name path = (s\<lparr>ds_name := db_name, ds_path := path, md_map := []\<rparr>, True)"

definition map_put :: "map_datastore \<Rightarrow> bulk \<Rightarrow> bulk \<Rightarrow> map_datastore \<times> int32" where
  "map_put s key data =
     (if ds_no_overwrite s \<and> om_count (keycmp s) (md_map s) key \<noteq> 0
      then (s, rc SDSKV_ERR_KEYEXISTS)
      else (s\<lparr>md_map := om_update (keycmp s) key data (md_map s)\<rparr>, rc SDSKV_SUCCESS))"

definition map_put_raw :: "map_datastore \<Rightarrow> bulk \<Rightarrow> nat \<Rightarrow> bulk \<Rightarrow> nat \<Rightarrow> (map_datastore \<times> int32) option" where
  "map_put_raw s key ksize val vsize =
     (if vsize \<noteq> 0 then do {
        k \<leftarrow> buf_slice key 0 ksize;
        v \<leftarrow> buf_slice val 0 vsize;
        Some (map_put s k v)
      } else do {
        k \<leftarrow> buf_slice key 0 ksize;
        Some (map_put s k [])
      })"

definition map_get :: "map_datastore \<Rightarrow> bulk \<Rightarrow> bulk \<Rightarrow> bool \<times> bulk" where
  "map_get s key data =
     (case om_find (keycmp s) (md_map s) key of
        [] \<Rightarrow> (False, data)
      | p # _ \<Rightarrow> (True, snd p))"

definition map_get_values :: "map_datastore \<Rightarrow> bulk \<Rightarrow> bool \<times> bulk list" where
  "map_get_values s key = (let (ret, v) = map_get s key [] in (ret, [v]))"

definition map_length :: "map_datastore \<Rightarrow> bulk \<Rightarrow> nat \<Rightarrow> bool \<times> nat" where
  "map_length s key vsize =
     (case om_find (keycmp s) (md_map s) key of
        [] \<Rightarrow> (False, vsize)
      | p # _ \<Rightarrow> (True, length (snd p)))"

definition map_exists :: "map_datastore \<Rightarrow> bulk \<Rightarrow> bool" where
  "map_exists s key \<longleftrightarrow> om_count (keycmp s) (md_map s) key > 0"

definition map_exists_raw :: "map_datastore \<Rightarrow> bulk \<Rightarrow> nat \<Rightarrow> bool option" where
  "map_exists_raw s key ksize = do {
     k \<leftarrow> buf_slice key 0 ksize;
     Some (map_exists s k)
   }"

definition map_erase :: "map_datastore \<Rightarrow> bulk \<Rightarrow> map_datastore \<times> bool" where
  "map_erase s key =
     (s\<lparr>md_map := om_erase (keycmp s) key (md_map s)\<rparr>, om_find (keycmp s) (md_map s) key \<noteq> [])"

definition map_set_in_memory :: "map_datastore \<Rightarrow> bool \<Rightarrow> map_datastore" where
  "map_set_in_memory s enable = s\<lparr>ds_in_memory := enable\<rparr>"

definition map_set_comparison_function :: "map_datastore \<Rightarrow> string \<Rightarrow> comparator_fn \<Rightarrow> map_datastore" where
  "map_set_comparison_function s fname less_fn = s\<lparr>ds_comp_fun_name := fname, md_less := Some less_fn\<rparr>"

definition map_set_no_overwrite :: "map_datastore \<Rightarrow> map_datastore" where
  "map_set_no_overwrite s = s\<lparr>ds_no_overwrite := True\<rparr>"

subsection \<open>Listing\<close>

text \<open>
  The loop shared by \<open>vlist_keys\<close> (which pushes \<open>p.first\<close>) and \<open>vlist_keyvals\<close> (which pushes
  \<open>p\<close>). The \<open>continue\<close> on a key shorter than the prefix does not advance the iterator.
\<close>

partial_function (option) map_vlist_loop ::
  "(bulk \<times> bulk \<Rightarrow> 'a) \<Rightarrow> nat \<Rightarrow> bulk \<Rightarrow> (bulk \<times> bulk) list \<Rightarrow> 'a list \<Rightarrow> 'a list option"
where
  "map_vlist_loop push count prefix it result =
     (if length result < count \<and> it \<noteq> [] then
        if length prefix > length (fst (hd it)) then map_vlist_loop push count prefix it result
        else
          Option.bind (memcmp prefix (fst (hd it)) (length prefix)) (\<lambda>c.
            if c = 0 then map_vlist_loop push count prefix (tl it) (result @ [push (hd it)])
            else if c < 0 then Some result
            else map_vlist_loop push count prefix (tl it) result)
      else Some result)"

definition map_vlist_keys :: "map_datastore \<Rightarrow> bulk \<Rightarrow> nat \<Rightarrow> bulk \<Rightarrow> bulk list option" where
  "map_vlist_keys s start_key count prefix =
     map_vlist_loop fst count prefix
       (if length start_key > 0 then om_upper_bound (keycmp s) (md_map s) start_key else md_map s) []"

definition map_vlist_keyvals :: "map_datastore \<Rightarrow> bulk \<Rightarrow> nat \<Rightarrow> bulk \<Rightarrow> (bulk \<times> bulk) list option" where
  "map_vlist_keyvals s start_key count prefix =
     map_vlist_loop id count prefix
       (if length start_key > 0 then om_upper_bound (keycmp s) (md_map s) start_key else md_map s) []"

text \<open>
  \<open>vlist_key_range\<close> and \<open>vlist_keyval_range\<close>. The boolean says whether the read lock is still held
  when the method returns; reading or advancing \<open>end()\<close> is \<open>None\<close>.
\<close>

fun map_range_loop ::
  "(bulk \<times> bulk \<Rightarrow> 'a) \<Rightarrow> nat \<Rightarrow> (bulk \<times> bulk) list \<Rightarrow> (bulk \<times> bulk) list \<Rightarrow> 'a list \<Rightarrow> 'a list option"
where
  "map_range_loop push max_keys [] ub result = (if ub = [] then Some result else None)"
| "map_range_loop push max_keys (p # it) ub result =
     (if p # it = ub then Some result
      else if max_keys \<noteq> 0 \<and> length (result @ [push p]) = max_keys then Some (result @ [push p])
      else map_range_loop push max_keys it ub (result @ [push p]))"

definition map_range ::
  "(bulk \<times> bulk \<Rightarrow> 'a) \<Rightarrow> map_datastore \<Rightarrow> bulk \<Rightarrow> bulk \<Rightarrow> nat \<Rightarrow> (bool \<times> 'a list) option" where
  "map_range push s lower_bound upper_bound max_keys =
     (let it = om_upper_bound (keycmp s) (md_map s) lower_bound in
      if it = [] then Some (True, [])
      else
        (case om_lower_bound (keycmp s) (md_map s) upper_bound of
           [] \<Rightarrow> None
         | p # ub \<Rightarrow>
             map_option (Pair False)
               (map_range_loop push max_keys it (if fst p \<noteq> upper_bound then ub else p # ub) [])))"

definition map_vlist_key_range :: "map_datastore \<Rightarrow> bulk \<Rightarrow> bulk \<Rightarrow> nat \<Rightarrow> (bool \<times> bulk list) option" where
  "map_vlist_key_range = map_range snd"

definition map_vlist_keyval_range ::
  "map_datastore \<Rightarrow> bulk \<Rightarrow> bulk \<Rightarrow> nat \<Rightarrow> (bool \<times> (bulk \<times> bulk) list) option" where
  "map_vlist_keyval_range = map_range (\<lambda>p. (fst p, snd p))"

subsection \<open>The table of the class\<close>

definition map_vtable :: "map_datastore vtable" where
  "map_vtable =
     \<lparr>vt_put_raw = map_put_raw,
      vt_put = (\<lambda>s k v. Some (map_put s k v)),
      vt_put_multi = base_put_multi map_put_raw,
      vt_put_packed = base_put_packed map_put_raw,
      vt_get = map_get,
      vt_length = map_length,
      vt_exists = map_exists,
      vt_exists_raw = map_exists_raw,
      vt_erase = map_erase,
      vt_set_in_memory = map_set_in_memory,
      vt_set_comparison_function = map_set_comparison_function,
      vt_set_no_overwrite = map_set_no_overwrite,
      vt_sync = (\<lambda>s. s),
      vt_vlist_keys = map_vlist_keys,
      vt_vlist_keyvals = map_vlist_keyvals,
      vt_get_path = ds_path,
      vt_get_name = ds_name,
      vt_get_comparison_function_name = ds_comp_fun_name\<rparr>"

lemmas map_ops = map_put_def map_put_raw_def map_get_def map_length_def map_exists_def
  map_exists_raw_def map_erase_def

section \<open>Refinement of the abstract database\<close>

definition map_inv :: "map_datastore \<Rightarrow> bool" where
  "map_inv s \<longleftrightarrow> key_total_order (keycmp s) \<and> om_sorted (keycmp s) (md_map s)"

definition map_abs :: "map_datastore \<Rightarrow> kv" where
  "map_abs s = \<lparr>kv_map = om_lookup (keycmp s) (md_map s), kv_no_overwrite = ds_no_overwrite s\<rparr>"

lemma keycmp_simps [simp]:
  "keycmp (s\<lparr>md_map := m\<rparr>) = keycmp s"
  "keycmp (s\<lparr>ds_no_overwrite := b\<rparr>) = keycmp s"
  "keycmp (s\<lparr>ds_name := n\<rparr>) = keycmp s"
  "keycmp (s\<lparr>ds_path := n\<rparr>) = keycmp s"
  by (simp_all add: keycmp_def fun_eq_iff)

lemma map_find_cases:
  "om_find lt m k = [] \<and> om_lookup lt m k = None
   \<or> (\<exists>p it. om_find lt m k = p # it \<and> om_lookup lt m k = Some (snd p))"
  by (auto simp: om_lookup_def split: list.splits)

lemma map_put_refines:
  assumes "map_inv s"
  shows "map_inv (fst (map_put s k v))
    \<and> map_abs (fst (map_put s k v)) = fst (kv_put (map_abs s) k v)
    \<and> snd (map_put s k v) = snd (kv_put (map_abs s) k v)"
  using assms map_find_cases [of "keycmp s" "md_map s" k]
  by (auto simp: map_put_def kv_put_def map_abs_def map_inv_def om_count_def
      key_total_order.om_lookup_update_eq key_weak_order.om_sorted_update key_total_order.key_weak)

lemma map_erase_refines:
  assumes "map_inv s"
  shows "map_inv (fst (map_erase s k)) \<and> map_abs (fst (map_erase s k)) = kv_erase (map_abs s) k
    \<and> snd (map_erase s k) = (kv_map (map_abs s) k \<noteq> None)"
  using assms map_find_cases [of "keycmp s" "md_map s" k]
  by (auto simp: map_erase_def kv_erase_def map_abs_def map_inv_def
      key_total_order.om_lookup_erase_eq key_weak_order.om_sorted_erase key_total_order.key_weak)

lemma map_get_abs:
  "map_get s k d = (case kv_map (map_abs s) k of None \<Rightarrow> (False, d) | Some v \<Rightarrow> (True, v))"
  using map_find_cases [of "keycmp s" "md_map s" k] by (auto simp: map_get_def map_abs_def)

lemma map_length_abs:
  "map_length s k n = (case kv_map (map_abs s) k of None \<Rightarrow> (False, n) | Some v \<Rightarrow> (True, length v))"
  using map_find_cases [of "keycmp s" "md_map s" k] by (auto simp: map_length_def map_abs_def)

lemma map_exists_abs: "map_exists s k \<longleftrightarrow> kv_map (map_abs s) k \<noteq> None"
  using map_find_cases [of "keycmp s" "md_map s" k] by (auto simp: map_exists_def map_abs_def om_count_def)

lemma buf_slice_0_0 [simp]: "buf_slice xs 0 0 = Some []"
  by (simp add: buf_slice_def)

lemma map_put_raw_eq:
  "buf_slice kp 0 ks = Some k \<Longrightarrow> buf_slice vp 0 vs = Some v \<Longrightarrow> map_put_raw s kp ks vp vs = Some (map_put s k v)"
  by (cases "vs = 0") (auto simp: map_put_raw_def)

interpretation map_ds: plain_datastore map_vtable map_inv map_abs
proof
  fix s :: map_datastore and kp vp k v :: bulk and ks vs :: nat
  assume "map_inv s" "buf_slice kp 0 ks = Some k" "buf_slice vp 0 vs = Some v"
  then show "\<exists>s'. vt_put_raw map_vtable s kp ks vp vs = Some (s', snd (kv_put (map_abs s) k v))
      \<and> map_inv s' \<and> map_abs s' = fst (kv_put (map_abs s) k v)"
    using map_put_refines [of s k v] by (simp add: map_vtable_def map_put_raw_eq prod_eq_iff)
next
  fix s :: map_datastore and k v :: bulk
  assume "map_inv s"
  then show "\<exists>s'. vt_put map_vtable s k v = Some (s', snd (kv_put (map_abs s) k v))
      \<and> map_inv s' \<and> map_abs s' = fst (kv_put (map_abs s) k v)"
    using map_put_refines [of s k v] by (simp add: map_vtable_def prod_eq_iff)
qed (simp_all add: map_vtable_def map_get_abs map_length_abs map_exists_abs map_exists_raw_def
  map_erase_refines split: option.splits)

interpretation map_exact: exact_datastore map_vtable map_inv map_abs
  by unfold_locales (simp add: map_vtable_def map_erase_refines)

section \<open>The stores the factory makes\<close>

lemma keycmp_default: "md_less s = None \<Longrightarrow> keycmp s = ds_bulk_less"
  by (simp add: keycmp_def fun_eq_iff)

lemma keycmp_custom: "md_less s = Some f \<Longrightarrow> keycmp s = (\<lambda>a b. f a b < 0)"
  by (simp add: keycmp_def fun_eq_iff)

lemma map_inv_default:
  "md_less s = None \<Longrightarrow> map_inv s \<longleftrightarrow> om_sorted ds_bulk_less (md_map s)"
  by (simp add: map_inv_def keycmp_default ds_bulk_order.key_total_order_axioms)

lemma map_inv_empty_custom:
  "md_less s = Some f \<Longrightarrow> md_map s = [] \<Longrightarrow> key_total_order (\<lambda>a b. f a b < 0) \<Longrightarrow> map_inv s"
  by (simp add: map_inv_def keycmp_custom om_sorted_def)

section \<open>Listing\<close>

text \<open>The listing loop as a structural recursion.\<close>

fun map_scan :: "(bulk \<times> bulk \<Rightarrow> 'a) \<Rightarrow> nat \<Rightarrow> bulk \<Rightarrow> (bulk \<times> bulk) list \<Rightarrow> 'a list \<Rightarrow> 'a list option" where
  "map_scan push count prefix [] result = Some result"
| "map_scan push count prefix (p # it) result =
     (if length result < count then
        if length prefix > length (fst p) then None
        else
          Option.bind (memcmp prefix (fst p) (length prefix)) (\<lambda>c.
            if c = 0 then map_scan push count prefix it (result @ [push p])
            else if c < 0 then Some result
            else map_scan push count prefix it result)
      else Some result)"

lemma map_vlist_loop_stuck:
  "map_vlist_loop push count prefix it result = Some r \<Longrightarrow>
   \<not> (length result < count \<and> it \<noteq> [] \<and> length (fst (hd it)) < length prefix)"
  by (rule map_vlist_loop.raw_induct [where P = "\<lambda>push count prefix it result r.
        \<not> (length result < count \<and> it \<noteq> [] \<and> length (fst (hd it)) < length prefix)"])
    (fastforce split: if_splits)+

lemma map_vlist_loop_scan: "map_vlist_loop push count prefix it result = map_scan push count prefix it result"
proof (induction it arbitrary: result)
  case Nil
  then show ?case by (simp add: map_vlist_loop.simps)
next
  case (Cons p it)
  show ?case
  proof (cases "length result < count \<and> length (fst p) < length prefix")
    case True
    then have "map_vlist_loop push count prefix (p # it) result = None"
      using map_vlist_loop_stuck [of push count prefix "p # it" result] by fastforce
    with True show ?thesis by simp
  next
    case False
    then show ?thesis
      using Cons.IH
      by (cases "memcmp prefix (fst p) (length prefix)") (subst map_vlist_loop.simps, auto)+
  qed
qed

lemma map_scan_no_prefix:
  "map_scan push count [] it result = Some (result @ map push (take (count - length result) it))"
proof (induction it arbitrary: result)
  case (Cons p it)
  have "count - length result = Suc (count - Suc (length result))" if "length result < count"
    using that by simp
  with Cons.IH show ?case by (simp del: take_Suc)
qed simp

lemma map_scan_prefix:
  assumes "ascii prefix" "om_sorted ds_bulk_less it"
    and "\<forall>p\<in>set it. ascii (fst p) \<and> length prefix \<le> length (fst p)"
  shows "map_scan push count prefix it result
    = Some (result @ map push (take (count - length result) (filter (has_prefix prefix) it)))"
  using assms(2,3)
proof (induction it arbitrary: result)
  case (Cons p it)
  have it: "om_sorted ds_bulk_less it" and lt: "\<And>q. q \<in> set it \<Longrightarrow> ds_bulk_less (fst p) (fst q)"
    using Cons.prems(1) by (auto simp: ds_bulk_order.om_sorted_Cons)
  have len: "\<And>q. q \<in> set (p # it) \<Longrightarrow> ascii (fst q) \<and> length prefix \<le> length (fst q)"
    using Cons.prems(2) by blast
  have pre: "memcmp prefix (fst q) (length prefix) = Some 0 \<longleftrightarrow> has_prefix prefix q" if "q \<in> set (p # it)" for q
    using len [OF that] by (auto simp: has_prefix_def memcmp_0_iff)
  obtain c where c: "memcmp prefix (fst p) (length prefix) = Some c"
    using memcmp_defined [of "length prefix" prefix "fst p"] len by fastforce
  note IH = Cons.IH [OF it]
  show ?case
  proof (cases "length result < count")
    case True
    consider "c = 0" | "c < 0" | "c > 0" by linarith
    then show ?thesis
    proof cases
      case 1
      then have "has_prefix prefix p" using c pre [of p] by simp
      moreover have "count - length result = Suc (count - Suc (length result))" using True by simp
      ultimately show ?thesis using True 1 c IH len Cons.prems(2) by (simp add: not_less)
    next
      case 2
      have "\<not> has_prefix prefix q" if "q \<in> set (p # it)" for q
      proof (cases "q = p")
        case False
        then have q: "q \<in> set it" using that by simp
        then have q': "q \<in> set (p # it)" by simp
        obtain c' where "memcmp prefix (fst q) (length prefix) = Some c'" "c' < 0"
          using memcmp_exceeds_mono [OF c 2 lt [OF q] assms(1)] len [of p] len [OF q'] by auto
        then show ?thesis using pre [OF q'] by auto
      qed (use c 2 pre [of p] in auto)
      then have "filter (has_prefix prefix) (p # it) = []" by (simp add: filter_empty_conv)
      then show ?thesis using True 2 c len [of p] by (simp add: not_less)
    next
      case 3
      then have "\<not> has_prefix prefix p" using c pre [of p] by auto
      then show ?thesis using True 3 c IH len Cons.prems(2) by (simp add: not_less)
    qed
  qed (use len in simp)
qed simp

lemma map_start:
  "map_inv s \<Longrightarrow>
   (if length start_key > 0 then om_upper_bound (keycmp s) (md_map s) start_key else md_map s)
     = filter (\<lambda>p. start_key = [] \<or> keycmp s start_key (fst p)) (md_map s)"
  by (auto simp: map_inv_def key_total_order.om_upper_bound_filter)

lemma om_sorted_filter: "om_sorted lt m \<Longrightarrow> om_sorted lt (filter P m)"
  by (induction m) (auto simp: om_sorted_def)

section \<open>Properties\<close>

text \<open>
  C24. Refinement: on every sequence of single-key calls (put, get, length, exists, erase) the map backend
  returns the same results as the abstract database, with or without the no-overwrite flag and for
  every comparison function that is a total order, and ends in a state with the same contents.
\<close>

theorem map_trace_refines:
  assumes "map_inv s"
  shows "\<exists>s'. ds_run map_vtable s ops = Some (s', snd (kv_run (map_abs s) ops))
    \<and> map_inv s' \<and> map_abs s' = fst (kv_run (map_abs s) ops)"
  using assms by (rule map_exact.run_refines)

theorem map_trace_refines_witness:
  "map_inv (MapDataStore False False) \<and>
   (\<exists>s'. ds_run map_vtable (MapDataStore False False)
      [Op_put [200] [1, 2], Op_put [3] [], Op_put [200] [7], Op_get [200], Op_length [3], Op_erase [3], Op_exists [3]]
    = Some (s', [Res_code 0, Res_code 0, Res_code 0, Res_value (Some [7]), Res_size (Some 0), Res_bool True, Res_bool False]))"
proof -
  have inv: "map_inv (MapDataStore False False)"
    by (simp add: map_inv_default MapDataStore_def abstract_ds.defs om_sorted_def)
  show ?thesis
    using inv map_trace_refines [OF inv, of "[Op_put [200] [1, 2], Op_put [3] [], Op_put [200] [7],
      Op_get [200], Op_length [3], Op_erase [3], Op_exists [3]]"]
    by (auto simp: kv_put_def kv_erase_def map_abs_def MapDataStore_def abstract_ds.defs
        AbstractDataStore_def om_lookup_def om_find_def om_lower_bound_def)
qed

text \<open>
  Listing without a prefix returns, in the order of the database, the first \<open>count\<close> keys that
  follow \<open>start_key\<close> strictly (all of them when \<open>start_key\<close> is empty), whether or not \<open>start_key\<close> is
  in the database; listing pairs returns the same keys with their values.
\<close>

theorem map_list_after_start:
  assumes "map_inv s"
  shows "map_vlist_keys s start_key count []
      = Some (map fst (take count (filter (\<lambda>p. start_key = [] \<or> keycmp s start_key (fst p)) (md_map s))))
    \<and> map_vlist_keyvals s start_key count []
      = Some (take count (filter (\<lambda>p. start_key = [] \<or> keycmp s start_key (fst p)) (md_map s)))"
  using assms by (simp add: map_vlist_keys_def map_vlist_keyvals_def map_vlist_loop_scan map_scan_no_prefix
      map_start del: length_greater_0_conv)

theorem map_list_after_start_witness:
  "map_vlist_keys ((MapDataStore False False)\<lparr>md_map := [([200], [1]), ([3], [2]), ([4], [3])]\<rparr>) [1] 5 []
   = Some [[3], [4]]"
proof -
  have "map_inv ((MapDataStore False False)\<lparr>md_map := [([200], [1]), ([3], [2]), ([4], [3])]\<rparr>)"
    by (simp add: map_inv_default MapDataStore_def abstract_ds.defs om_sorted_def ds_bulk_less_def)
  from map_list_after_start [OF this, of "[1]" 5] show ?thesis
    by (simp add: keycmp_default MapDataStore_def abstract_ds.defs ds_bulk_less_def)
qed

text \<open>
  C31. Listing with a prefix under the default order: when the keys and the prefix are ASCII and no key
  is shorter than the prefix, the loop returns exactly the first \<open>count\<close> keys after \<open>start_key\<close>
  that begin with the prefix, so stopping at the first key that exceeds the prefix loses none.
\<close>

theorem map_list_prefix:
  assumes "map_inv s" "md_less s = None" "ascii prefix"
    and "\<forall>p\<in>set (md_map s). ascii (fst p) \<and> length prefix \<le> length (fst p)"
  shows "map_vlist_keys s start_key count prefix
      = Some (map fst (take count (filter (has_prefix prefix)
          (filter (\<lambda>p. start_key = [] \<or> ds_bulk_less start_key (fst p)) (md_map s)))))"
  using assms map_start [OF assms(1), of start_key]
  by (simp add: map_vlist_keys_def map_vlist_loop_scan map_scan_prefix om_sorted_filter map_inv_default
      keycmp_default del: length_greater_0_conv)

theorem map_list_prefix_witness:
  "map_vlist_keys ((MapDataStore False False)\<lparr>md_map := [([97, 97], []), ([97, 98], []), ([98, 97], [])]\<rparr>) [] 5 [97]
   = Some [[97, 97], [97, 98]]"
proof -
  have "map_inv ((MapDataStore False False)\<lparr>md_map := [([97, 97], []), ([97, 98], []), ([98, 97], [])]\<rparr>)"
    by (simp add: map_inv_default MapDataStore_def abstract_ds.defs om_sorted_def ds_bulk_less_def)
  from map_list_prefix [OF this, of "[97]" "[]" 5] show ?thesis
    by (simp add: MapDataStore_def abstract_ds.defs has_prefix_def)
qed



text \<open>
  \<open>vlist_key_range\<close> with a lower bound at or above every key returns an empty list with the read
  lock still held, so that the next writer blocks.
\<close>

theorem map_range_leaks_lock:
  assumes "map_inv s" "\<forall>p\<in>set (md_map s). \<not> keycmp s lower_bound (fst p)"
  shows "map_vlist_key_range s lower_bound upper_bound max_keys = Some (True, [])"
  using assms
  by (simp add: map_vlist_key_range_def map_range_def map_inv_def key_total_order.om_upper_bound_filter Let_def)

theorem map_range_leaks_lock_witness:
  "map_vlist_key_range ((MapDataStore False False)\<lparr>md_map := [([97], [1])]\<rparr>) [98] [99] 0 = Some (True, [])"
proof -
  have "map_inv ((MapDataStore False False)\<lparr>md_map := [([97], [1])]\<rparr>)"
    by (simp add: map_inv_default MapDataStore_def abstract_ds.defs om_sorted_def)
  from map_range_leaks_lock [OF this, of "[98]" "[99]" 0] show ?thesis
    by (simp add: keycmp_default MapDataStore_def abstract_ds.defs ds_bulk_less_def)
qed

end
