(* ===== verification/Null_Datastore.thy ===== *)
theory Null_Datastore
  imports Datastore
begin

text \<open>
  The backend that stores nothing: class \<open>NullDataStore\<close> of datastore/null_datastore.h. It keeps only
  the members of the base class; \<open>length\<close>, \<open>put_multi\<close> and \<open>put_packed\<close> are inherited.
\<close>

type_synonym null_datastore = abstract_ds

definition NullDataStore :: "bool \<Rightarrow> bool \<Rightarrow> null_datastore" where
  "NullDataStore eraseOnGet debug = AbstractDataStore eraseOnGet debug"

definition null_openDatabase :: "null_datastore \<Rightarrow> string \<Rightarrow> string \<Rightarrow> null_datastore \<times> bool" where
  "null_openDatabase s db_name path = (s\<lparr>ds_name := db_name, ds_path := path\<rparr>, True)"

definition null_put :: "null_datastore \<Rightarrow> bulk \<Rightarrow> bulk \<Rightarrow> null_datastore \<times> int32" where
  "null_put s key data = (s, rc SDSKV_SUCCESS)"

definition null_put_raw :: "null_datastore \<Rightarrow> bulk \<Rightarrow> nat \<Rightarrow> bulk \<Rightarrow> nat \<Rightarrow> (null_datastore \<times> int32) option" where
  "null_put_raw s key ksize val vsize = Some (s, rc SDSKV_SUCCESS)"

definition null_get :: "null_datastore \<Rightarrow> bulk \<Rightarrow> bulk \<Rightarrow> bool \<times> bulk" where
  "null_get s key data = (True, data)"

definition null_exists :: "null_datastore \<Rightarrow> bulk \<Rightarrow> bool" where
  "null_exists s key = False"

definition null_exists_raw :: "null_datastore \<Rightarrow> bulk \<Rightarrow> nat \<Rightarrow> bool option" where
  "null_exists_raw s key ksize = Some False"

definition null_erase :: "null_datastore \<Rightarrow> bulk \<Rightarrow> null_datastore \<times> bool" where
  "null_erase s key = (s, False)"

definition null_vlist_keys :: "null_datastore \<Rightarrow> bulk \<Rightarrow> nat \<Rightarrow> bulk \<Rightarrow> bulk list option" where
  "null_vlist_keys s start_key count prefix = Some []"

definition null_vlist_keyvals :: "null_datastore \<Rightarrow> bulk \<Rightarrow> nat \<Rightarrow> bulk \<Rightarrow> (bulk \<times> bulk) list option" where
  "null_vlist_keyvals s start_key count prefix = Some []"

definition null_vlist_key_range :: "null_datastore \<Rightarrow> bulk \<Rightarrow> bulk \<Rightarrow> nat \<Rightarrow> bulk list" where
  "null_vlist_key_range s lower_bound upper_bound max_keys = []"

definition null_vlist_keyval_range :: "null_datastore \<Rightarrow> bulk \<Rightarrow> bulk \<Rightarrow> nat \<Rightarrow> (bulk \<times> bulk) list" where
  "null_vlist_keyval_range s lower_bound upper_bound max_keys = []"

definition null_vtable :: "null_datastore vtable" where
  "null_vtable =
     \<lparr>vt_put_raw = null_put_raw,
      vt_put = (\<lambda>s k v. Some (null_put s k v)),
      vt_put_multi = base_put_multi null_put_raw,
      vt_put_packed = base_put_packed null_put_raw,
      vt_get = null_get,
      vt_length = base_length null_get,
      vt_exists = null_exists,
      vt_exists_raw = null_exists_raw,
      vt_erase = null_erase,
      vt_set_in_memory = (\<lambda>s enable. s),
      vt_set_comparison_function = (\<lambda>s fname less_fn. s),
      vt_set_no_overwrite = (\<lambda>s. s),
      vt_sync = (\<lambda>s. s),
      vt_vlist_keys = null_vlist_keys,
      vt_vlist_keyvals = null_vlist_keyvals,
      vt_get_path = ds_path,
      vt_get_name = ds_name,
      vt_get_comparison_function_name = ds_comp_fun_name\<rparr>"

end
