(* ===== verification/Datastore_Factory.thy ===== *)
theory Datastore_Factory
  imports Map_Datastore Null_Datastore
begin

text \<open>
  The objects behind an \<open>AbstractDataStore*\<close> and the factory that makes them
  (datastore/datastore_factory.h), for the default build: BwTree, LevelDB and BerkeleyDB are compiled
  in only on request, and without them the factory returns a null pointer for their types.
\<close>

section \<open>Objects and virtual dispatch\<close>

datatype store = Map_store map_datastore | Null_store null_datastore

definition lift_put :: "('a \<Rightarrow> store) \<Rightarrow> ('a \<times> int32) option \<Rightarrow> (store \<times> int32) option" where
  "lift_put C r = map_option (\<lambda>(s, ret). (C s, ret)) r"

definition store_vtable :: "store vtable" where
  "store_vtable =
     \<lparr>vt_put_raw = (\<lambda>s kp ks vp vs. case s of
          Map_store m \<Rightarrow> lift_put Map_store (vt_put_raw map_vtable m kp ks vp vs)
        | Null_store n \<Rightarrow> lift_put Null_store (vt_put_raw null_vtable n kp ks vp vs)),
      vt_put = (\<lambda>s k v. case s of
          Map_store m \<Rightarrow> lift_put Map_store (vt_put map_vtable m k v)
        | Null_store n \<Rightarrow> lift_put Null_store (vt_put null_vtable n k v)),
      vt_put_multi = (\<lambda>s n ks kz vs vz. case s of
          Map_store m \<Rightarrow> lift_put Map_store (vt_put_multi map_vtable m n ks kz vs vz)
        | Null_store m \<Rightarrow> lift_put Null_store (vt_put_multi null_vtable m n ks kz vs vz)),
      vt_put_packed = (\<lambda>s n ks kz vs vz. case s of
          Map_store m \<Rightarrow> lift_put Map_store (vt_put_packed map_vtable m n ks kz vs vz)
        | Null_store m \<Rightarrow> lift_put Null_store (vt_put_packed null_vtable m n ks kz vs vz)),
      vt_get = (\<lambda>s. case s of Map_store m \<Rightarrow> vt_get map_vtable m | Null_store n \<Rightarrow> vt_get null_vtable n),
      vt_length = (\<lambda>s. case s of Map_store m \<Rightarrow> vt_length map_vtable m | Null_store n \<Rightarrow> vt_length null_vtable n),
      vt_exists = (\<lambda>s. case s of Map_store m \<Rightarrow> vt_exists map_vtable m | Null_store n \<Rightarrow> vt_exists null_vtable n),
      vt_exists_raw = (\<lambda>s. case s of
          Map_store m \<Rightarrow> vt_exists_raw map_vtable m | Null_store n \<Rightarrow> vt_exists_raw null_vtable n),
      vt_erase = (\<lambda>s k. case s of
          Map_store m \<Rightarrow> apfst Map_store (vt_erase map_vtable m k)
        | Null_store n \<Rightarrow> apfst Null_store (vt_erase null_vtable n k)),
      vt_set_in_memory = (\<lambda>s b. case s of
          Map_store m \<Rightarrow> Map_store (vt_set_in_memory map_vtable m b)
        | Null_store n \<Rightarrow> Null_store (vt_set_in_memory null_vtable n b)),
      vt_set_comparison_function = (\<lambda>s f c. case s of
          Map_store m \<Rightarrow> Map_store (vt_set_comparison_function map_vtable m f c)
        | Null_store n \<Rightarrow> Null_store (vt_set_comparison_function null_vtable n f c)),
      vt_set_no_overwrite = (\<lambda>s. case s of
          Map_store m \<Rightarrow> Map_store (vt_set_no_overwrite map_vtable m)
        | Null_store n \<Rightarrow> Null_store (vt_set_no_overwrite null_vtable n)),
      vt_sync = (\<lambda>s. case s of
          Map_store m \<Rightarrow> Map_store (vt_sync map_vtable m)
        | Null_store n \<Rightarrow> Null_store (vt_sync null_vtable n)),
      vt_vlist_keys = (\<lambda>s. case s of
          Map_store m \<Rightarrow> vt_vlist_keys map_vtable m | Null_store n \<Rightarrow> vt_vlist_keys null_vtable n),
      vt_vlist_keyvals = (\<lambda>s. case s of
          Map_store m \<Rightarrow> vt_vlist_keyvals map_vtable m | Null_store n \<Rightarrow> vt_vlist_keyvals null_vtable n),
      vt_get_path = (\<lambda>s. case s of Map_store m \<Rightarrow> vt_get_path map_vtable m | Null_store n \<Rightarrow> vt_get_path null_vtable n),
      vt_get_name = (\<lambda>s. case s of Map_store m \<Rightarrow> vt_get_name map_vtable m | Null_store n \<Rightarrow> vt_get_name null_vtable n),
      vt_get_comparison_function_name = (\<lambda>s. case s of
          Map_store m \<Rightarrow> vt_get_comparison_function_name map_vtable m
        | Null_store n \<Rightarrow> vt_get_comparison_function_name null_vtable n)\<rparr>"

section \<open>The factory\<close>

definition open_map_datastore :: "string \<Rightarrow> string \<Rightarrow> store option" where
  "open_map_datastore name path =
     (let (db, opened) = map_openDatabase (MapDataStore False False) name path in
      if opened then Some (Map_store db) else None)"

definition open_null_datastore :: "string \<Rightarrow> string \<Rightarrow> store option" where
  "open_null_datastore name path =
     (let (db, opened) = null_openDatabase (NullDataStore False False) name path in
      if opened then Some (Null_store db) else None)"

definition open_bwtree_datastore :: "string \<Rightarrow> string \<Rightarrow> store option" where
  "open_bwtree_datastore name path = None"

definition open_berkeleydb_datastore :: "string \<Rightarrow> string \<Rightarrow> store option" where
  "open_berkeleydb_datastore name path = None"

definition open_leveldb_datastore :: "string \<Rightarrow> string \<Rightarrow> store option" where
  "open_leveldb_datastore name path = None"

definition open_datastore :: "sdskv_db_type_t \<Rightarrow> string \<Rightarrow> string \<Rightarrow> store option" where
  "open_datastore type name path =
     (case type of
        KVDB_NULL \<Rightarrow> open_null_datastore name path
      | KVDB_MAP \<Rightarrow> open_map_datastore name path
      | KVDB_BWTREE \<Rightarrow> open_bwtree_datastore name path
      | KVDB_LEVELDB \<Rightarrow> open_leveldb_datastore name path
      | KVDB_BERKELEYDB \<Rightarrow> open_berkeleydb_datastore name path
      | KVDB_FORWARDDB \<Rightarrow> None)"

section \<open>The objects implement the interface\<close>

definition store_inv :: "store \<Rightarrow> bool" where
  "store_inv s = (case s of Map_store m \<Rightarrow> map_inv m | Null_store _ \<Rightarrow> False)"

definition store_abs :: "store \<Rightarrow> kv" where
  "store_abs s = (case s of
       Map_store m \<Rightarrow> map_abs m
     | Null_store _ \<Rightarrow> \<lparr>kv_map = (\<lambda>_. None), kv_no_overwrite = False\<rparr>)"

text \<open>
  The loops of the base class on an object of a class \<open>C\<close> call that class's \<open>put\<close>, so they are the loops
  over it.
\<close>

lemma put_multi_loop_lift:
  assumes "\<And>s kp ks vp vs. V (C s) kp ks vp vs = lift_put C (raw s kp ks vp vs)"
  shows "put_multi_loop V keys ksizes vals vsizes n i (C s) ret
   = lift_put C (put_multi_loop raw keys ksizes vals vsizes n i s ret)"
  by (induction n arbitrary: i s ret)
    (auto simp: assms lift_put_def case_prod_beta split: option.splits bind_splits)

lemma put_packed_loop_lift:
  assumes "\<And>s kp ks vp vs. V (C s) kp ks vp vs = lift_put C (raw s kp ks vp vs)"
  shows "put_packed_loop V keys ksizes vals vsizes n i ko vo (C s) ret
   = lift_put C (put_packed_loop raw keys ksizes vals vsizes n i ko vo s ret)"
  by (induction n arbitrary: i ko vo s ret)
    (auto simp: assms lift_put_def case_prod_beta split: option.splits bind_splits)

lemma store_put_raw:
  "vt_put_raw store_vtable (Map_store m) kp ks vp vs = lift_put Map_store (map_put_raw m kp ks vp vs)"
  "vt_put_raw store_vtable (Null_store n) kp ks vp vs = lift_put Null_store (null_put_raw n kp ks vp vs)"
  by (simp_all add: store_vtable_def map_vtable_def null_vtable_def)

lemma store_setters:
  "vt_set_no_overwrite store_vtable (Map_store m) = Map_store (map_set_no_overwrite m)"
  "vt_set_comparison_function store_vtable (Map_store m) fname f = Map_store (map_set_comparison_function m fname f)"
  by (simp_all add: store_vtable_def map_vtable_def)

lemma store_put_multi: "vt_put_multi store_vtable = base_put_multi (vt_put_raw store_vtable)"
proof (intro ext)
  fix s n ks kz vs vz
  show "vt_put_multi store_vtable s n ks kz vs vz = base_put_multi (vt_put_raw store_vtable) s n ks kz vs vz"
    by (cases s) (simp_all add: store_vtable_def map_vtable_def null_vtable_def base_put_multi_def,
      (simp_all add: put_multi_loop_lift map_vtable_def null_vtable_def)?)
qed

lemma store_put_packed: "vt_put_packed store_vtable = base_put_packed (vt_put_raw store_vtable)"
proof (intro ext)
  fix s n ks kz vs vz
  show "vt_put_packed store_vtable s n ks kz vs vz = base_put_packed (vt_put_raw store_vtable) s n ks kz vs vz"
    by (cases s) (simp_all add: store_vtable_def map_vtable_def null_vtable_def base_put_packed_def,
      (simp_all add: put_packed_loop_lift map_vtable_def null_vtable_def)?)
qed

interpretation store_ds: plain_datastore store_vtable store_inv store_abs
proof
  fix s :: store and kp vp k v :: bulk and ks vs :: nat
  assume "store_inv s" "buf_slice kp 0 ks = Some k" "buf_slice vp 0 vs = Some v"
  then show "\<exists>s'. vt_put_raw store_vtable s kp ks vp vs = Some (s', snd (kv_put (store_abs s) k v))
      \<and> store_inv s' \<and> store_abs s' = fst (kv_put (store_abs s) k v)"
    using map_put_refines [of _ k v]
    by (cases s) (fastforce simp: store_inv_def store_abs_def store_put_raw map_put_raw_eq lift_put_def
        case_prod_beta)+
next
  fix s :: store and k v :: bulk
  assume "store_inv s"
  then show "\<exists>s'. vt_put store_vtable s k v = Some (s', snd (kv_put (store_abs s) k v))
      \<and> store_inv s' \<and> store_abs s' = fst (kv_put (store_abs s) k v)"
    using map_put_refines [of _ k v]
    by (cases s) (fastforce simp: store_inv_def store_abs_def store_vtable_def map_vtable_def lift_put_def
        case_prod_beta)+
qed (auto simp: store_put_multi store_put_packed, auto simp: store_inv_def store_abs_def store_vtable_def map_vtable_def
  map_get_abs map_length_abs map_exists_abs map_exists_raw_def map_erase_refines split: store.splits option.splits)

interpretation store_exact: exact_datastore store_vtable store_inv store_abs
  by unfold_locales (auto simp: store_inv_def store_abs_def store_vtable_def map_vtable_def
    map_erase_refines split: store.splits)

lemma open_map_datastore_inv:
  "open_datastore KVDB_MAP name path = Some s \<Longrightarrow>
   store_inv s \<and> store_abs s = \<lparr>kv_map = Map.empty, kv_no_overwrite = False\<rparr>"
  by (auto simp: open_datastore_def open_map_datastore_def map_openDatabase_def MapDataStore_def
      abstract_ds.defs AbstractDataStore_def store_inv_def store_abs_def map_inv_default map_abs_def
      om_sorted_def om_lookup_def om_find_def om_lower_bound_def fun_eq_iff)

end
