(* ===== verification/Provider.thy ===== *)
theory Provider
  imports Datastore_Factory
begin

text \<open>
  The provider of sdskv-server.cc: the registry of databases and comparison functions behind one RPC
  service, and the functions of include/sdskv-server.h that change it. A database object is
  identified by its address, as in the source, where the id of a database is the pointer to it; the
  address a new object gets is an argument \<open>addr\<close> of \<open>attach\<close>.

  \<open>databases\<close> is an \<open>std::unordered_map\<close> whose iteration order the program never observes; it is
  kept here in the order of the ids. The objects of type \<open>'ds\<close> are called through a table \<open>V\<close>, and
  \<open>open_ds\<close> is the factory, so that the theory holds for every set of backends.
\<close>

section \<open>State\<close>

text \<open>A function pointer is compared by its address.\<close>

record sdskv_compare_fn =
  cf_addr :: "64 word"
  cf_code :: comparator_fn

record sdskv_config_t =
  cfg_db_name :: string
  cfg_db_path :: string
  cfg_db_type :: sdskv_db_type_t
  cfg_db_comp_fn_name :: "string option"
  cfg_db_no_overwrite :: bool

record 'ds provider =
  databases :: "(db_id \<times> 'ds) list"
  name2id :: "(string \<times> db_id) list"
  id2name :: "(db_id \<times> string) list"
  compfunctions :: "(string \<times> sdskv_compare_fn) list"

abbreviation find_db :: "'ds provider \<Rightarrow> db_id \<Rightarrow> 'ds option" where
  "find_db p i \<equiv> om_lookup (<) (databases p) i"

abbreviation find_name :: "'ds provider \<Rightarrow> string \<Rightarrow> db_id option" where
  "find_name p n \<equiv> om_lookup string_less (name2id p) n"

abbreviation find_id :: "'ds provider \<Rightarrow> db_id \<Rightarrow> string option" where
  "find_id p i \<equiv> om_lookup (<) (id2name p) i"

definition provider_new :: "'ds provider" where
  "provider_new = \<lparr>databases = [], name2id = [], id2name = [], compfunctions = []\<rparr>"

section \<open>Operations\<close>

definition sdskv_provider_add_comparison_function ::
  "'ds provider \<Rightarrow> string \<Rightarrow> sdskv_compare_fn \<Rightarrow> 'ds provider \<times> int32" where
  "sdskv_provider_add_comparison_function p function_name comp_fn =
     (case om_lookup string_less (compfunctions p) function_name of
        Some f \<Rightarrow>
          if cf_addr f = cf_addr comp_fn then (p, rc SDSKV_SUCCESS) else (p, rc SDSKV_ERR_COMP_FUNC)
      | None \<Rightarrow>
          (p\<lparr>compfunctions := om_update string_less function_name comp_fn (compfunctions p)\<rparr>,
           rc SDSKV_SUCCESS))"

text \<open>\<open>dlopen\<close> and \<open>dlsym\<close> are arguments; a null library name is \<open>None\<close>.\<close>

definition sdskv_provider_find_comparison_function ::
  "(string option \<Rightarrow> 'h option) \<Rightarrow> ('h \<Rightarrow> string \<Rightarrow> sdskv_compare_fn option) \<Rightarrow>
   'ds provider \<Rightarrow> string option \<Rightarrow> string \<Rightarrow> 'ds provider \<times> int32" where
  "sdskv_provider_find_comparison_function dlopen dlsym p library function_name =
     (let handle = (if library \<noteq> None \<and> the library = [] then dlopen None else dlopen library) in
      case handle of
        None \<Rightarrow> (p, rc SDSKV_ERR_COMP_FUNC)
      | Some h \<Rightarrow>
          (case dlsym h function_name of
             None \<Rightarrow> (p, rc SDSKV_ERR_COMP_FUNC)
           | Some comp_fn \<Rightarrow>
               (p\<lparr>compfunctions := om_update string_less function_name comp_fn (compfunctions p)\<rparr>,
                rc SDSKV_SUCCESS)))"

text \<open>The comparison function a configuration asks for: \<open>Inl\<close> when it is not registered.\<close>

definition attach_comp_fn :: "'ds provider \<Rightarrow> sdskv_config_t \<Rightarrow> int32 + (string \<times> sdskv_compare_fn) option" where
  "attach_comp_fn p config =
     (case cfg_db_comp_fn_name config of
        Some (c # cs) \<Rightarrow>
          (case om_lookup string_less (compfunctions p) (c # cs) of
             None \<Rightarrow> Inl (rc SDSKV_ERR_COMP_FUNC)
           | Some f \<Rightarrow> Inr (Some (c # cs, f)))
      | _ \<Rightarrow> Inr None)"

definition attach_setup :: "'ds vtable \<Rightarrow> sdskv_config_t \<Rightarrow> (string \<times> sdskv_compare_fn) option \<Rightarrow> 'ds \<Rightarrow> 'ds" where
  "attach_setup V config comp_fn db =
     (let db1 = (case comp_fn of
                   None \<Rightarrow> db
                 | Some (fname, f) \<Rightarrow> vt_set_comparison_function V db fname (cf_code f)) in
      if cfg_db_no_overwrite config then vt_set_no_overwrite V db1 else db1)"

text \<open>The last component of the result is what \<open>*db_id\<close> is set to, if it is set.\<close>

definition sdskv_provider_attach_database ::
  "'ds vtable \<Rightarrow> (sdskv_db_type_t \<Rightarrow> string \<Rightarrow> string \<Rightarrow> 'ds option) \<Rightarrow>
   'ds provider \<Rightarrow> sdskv_config_t \<Rightarrow> db_id \<Rightarrow> 'ds provider \<times> int32 \<times> db_id option" where
  "sdskv_provider_attach_database V open_ds p config addr =
     (case attach_comp_fn p config of
        Inl e \<Rightarrow> (p, e, None)
      | Inr comp_fn \<Rightarrow>
          (case open_ds (cfg_db_type config) (cfg_db_name config) (cfg_db_path config) of
             None \<Rightarrow> (p, rc SDSKV_ERR_DB_CREATE, None)
           | Some db \<Rightarrow>
               (p\<lparr>name2id := om_update string_less (cfg_db_name config) addr (name2id p),
                  id2name := om_update (<) addr (cfg_db_name config) (id2name p),
                  databases := om_update (<) addr (attach_setup V config comp_fn db) (databases p)\<rparr>,
                rc SDSKV_SUCCESS, Some addr)))"

text \<open>\<open>id2name[db_id]\<close> makes an empty name when the id is not there; it is erased at once.\<close>

definition sdskv_provider_remove_database :: "'ds provider \<Rightarrow> db_id \<Rightarrow> 'ds provider \<times> int32" where
  "sdskv_provider_remove_database p i =
     (if om_count (<) (databases p) i \<noteq> 0 then
        let dbname = (case find_id p i of Some n \<Rightarrow> n | None \<Rightarrow> []) in
        (p\<lparr>id2name := om_erase (<) i (id2name p),
           name2id := om_erase string_less dbname (name2id p),
           databases := om_erase (<) i (databases p)\<rparr>,
         rc SDSKV_SUCCESS)
      else (p, rc SDSKV_ERR_UNKNOWN_DB))"

definition sdskv_provider_remove_all_databases :: "'ds provider \<Rightarrow> 'ds provider \<times> int32" where
  "sdskv_provider_remove_all_databases p =
     (p\<lparr>databases := [], name2id := [], id2name := []\<rparr>, rc SDSKV_SUCCESS)"

definition sdskv_provider_count_databases :: "'ds provider \<Rightarrow> nat \<times> int32" where
  "sdskv_provider_count_databases p = (length (databases p), rc SDSKV_SUCCESS)"

text \<open>The ids written to \<open>targets\<close>; undefined when the caller's array is too short.\<close>

definition sdskv_provider_list_databases :: "'ds provider \<Rightarrow> db_id list \<Rightarrow> (db_id list \<times> int32) option" where
  "sdskv_provider_list_databases p targets =
     map_option (\<lambda>ts. (ts, rc SDSKV_SUCCESS)) (overwrite targets 0 (map snd (name2id p)))"

text \<open>Without REMI the size of a database cannot be computed and migration callbacks cannot be set.\<close>

definition sdskv_provider_compute_database_size :: "'ds provider \<Rightarrow> db_id \<Rightarrow> int32" where
  "sdskv_provider_compute_database_size p i = rc SDSKV_OP_NOT_IMPL"

definition sdskv_provider_set_migration_callbacks :: "'ds provider \<Rightarrow> 'ds provider \<times> int32" where
  "sdskv_provider_set_migration_callbacks p = (p, rc SDSKV_OP_NOT_IMPL)"

section \<open>The registry invariant\<close>

text \<open>
  The three maps are ordered maps, an id has a database exactly when it has a name, and a
  registered name leads to a live database that carries this name.
\<close>

definition provider_inv :: "'ds provider \<Rightarrow> bool" where
  "provider_inv p \<longleftrightarrow>
     om_sorted (<) (databases p) \<and> om_sorted string_less (name2id p) \<and> om_sorted (<) (id2name p)
     \<and> om_sorted string_less (compfunctions p)
     \<and> (\<forall>i. find_db p i = None \<longleftrightarrow> find_id p i = None)
     \<and> (\<forall>n i. find_name p n = Some i \<longrightarrow> find_id p i = Some n)"

text \<open>Every live database can be reached by its name.\<close>

definition names_unique :: "'ds provider \<Rightarrow> bool" where
  "names_unique p \<longleftrightarrow> (\<forall>n i. find_id p i = Some n \<longrightarrow> find_name p n = Some i)"

lemmas om_lookup_simps = id_order.om_lookup_update_eq id_order.om_lookup_erase_eq
  string_order.om_lookup_update_eq string_order.om_lookup_erase_eq

lemmas om_sorted_simps = id_order.om_sorted_update id_order.om_sorted_erase
  string_order.om_sorted_update string_order.om_sorted_erase

lemma provider_inv_sorted:
  assumes "provider_inv p"
  shows "om_sorted (<) (databases p)" "om_sorted string_less (name2id p)" "om_sorted (<) (id2name p)"
    "om_sorted string_less (compfunctions p)"
  using assms by (simp_all add: provider_inv_def)

lemma provider_inv_live: "provider_inv p \<Longrightarrow> find_db p i = None \<longleftrightarrow> find_id p i = None"
  by (simp add: provider_inv_def)

lemma provider_inv_name: "provider_inv p \<Longrightarrow> find_name p n = Some i \<Longrightarrow> find_id p i = Some n"
  by (simp add: provider_inv_def)

lemma names_uniqueD: "names_unique p \<Longrightarrow> find_id p i = Some n \<Longrightarrow> find_name p n = Some i"
  by (simp add: names_unique_def)

lemma provider_inv_new: "provider_inv provider_new"
  by (simp add: provider_inv_def provider_new_def)

lemma add_comparison_inv: "provider_inv p \<Longrightarrow> provider_inv (fst (sdskv_provider_add_comparison_function p n f))"
  by (auto simp: sdskv_provider_add_comparison_function_def provider_inv_def om_sorted_simps
      split: option.splits)

lemma find_comparison_inv:
  "provider_inv p \<Longrightarrow> provider_inv (fst (sdskv_provider_find_comparison_function dlopen dlsym p l n))"
  by (auto simp: sdskv_provider_find_comparison_function_def provider_inv_def om_sorted_simps Let_def
      split: option.splits)

text \<open>Attaching either leaves the provider as it is or enters one database.\<close>

lemma attach_cases:
  obtains "fst (sdskv_provider_attach_database V open_ds p config addr) = p"
  | db where "fst (sdskv_provider_attach_database V open_ds p config addr) =
      p\<lparr>name2id := om_update string_less (cfg_db_name config) addr (name2id p),
        id2name := om_update (<) addr (cfg_db_name config) (id2name p),
        databases := om_update (<) addr db (databases p)\<rparr>"
  by (cases "attach_comp_fn p config";
      cases "open_ds (cfg_db_type config) (cfg_db_name config) (cfg_db_path config)")
    (auto simp: sdskv_provider_attach_database_def)

lemma attach_inv:
  assumes inv: "provider_inv p" and fresh: "find_db p addr = None"
  shows "provider_inv (fst (sdskv_provider_attach_database V open_ds p config addr))"
proof (rule attach_cases [of V open_ds p config addr])
  assume "fst (sdskv_provider_attach_database V open_ds p config addr) = p"
  then show ?thesis using inv by simp
next
  fix db
  assume attached: "fst (sdskv_provider_attach_database V open_ds p config addr) =
      p\<lparr>name2id := om_update string_less (cfg_db_name config) addr (name2id p),
        id2name := om_update (<) addr (cfg_db_name config) (id2name p),
        databases := om_update (<) addr db (databases p)\<rparr>"
  have "find_name p n \<noteq> Some addr" for n
    using provider_inv_live [OF inv] provider_inv_name [OF inv] fresh by fastforce
  then show ?thesis
    unfolding attached using inv by (simp add: provider_inv_def om_sorted_simps om_lookup_simps)
qed

lemma attach_names_unique:
  assumes inv: "provider_inv p" and fresh: "find_db p addr = None"
    and uniq: "names_unique p" "find_name p (cfg_db_name config) = None"
  shows "names_unique (fst (sdskv_provider_attach_database V open_ds p config addr))"
proof (rule attach_cases [of V open_ds p config addr])
  assume "fst (sdskv_provider_attach_database V open_ds p config addr) = p"
  then show ?thesis using uniq by simp
next
  fix db
  assume attached: "fst (sdskv_provider_attach_database V open_ds p config addr) =
      p\<lparr>name2id := om_update string_less (cfg_db_name config) addr (name2id p),
        id2name := om_update (<) addr (cfg_db_name config) (id2name p),
        databases := om_update (<) addr db (databases p)\<rparr>"
  have "n \<noteq> cfg_db_name config" if "find_id p i = Some n" for n i
    using uniq names_uniqueD that by fastforce
  then show ?thesis
    unfolding attached using uniq(1)
    by (auto simp: names_unique_def om_lookup_simps provider_inv_sorted [OF inv])
qed

lemma remove_cases:
  assumes "provider_inv p"
  obtains "fst (sdskv_provider_remove_database p i) = p"
  | n where "find_id p i = Some n"
    "fst (sdskv_provider_remove_database p i) =
      p\<lparr>id2name := om_erase (<) i (id2name p), name2id := om_erase string_less n (name2id p),
        databases := om_erase (<) i (databases p)\<rparr>"
proof (cases "find_db p i")
  case None
  then show thesis
    using that(1) by (simp add: sdskv_provider_remove_database_def id_order.om_count_lookup)
next
  case (Some db)
  moreover from this obtain n where "find_id p i = Some n"
    using provider_inv_live [OF assms, of i] by auto
  ultimately show thesis
    using that(2) [of n] by (simp add: sdskv_provider_remove_database_def id_order.om_count_lookup)
qed

lemma remove_inv:
  assumes inv: "provider_inv p"
  shows "provider_inv (fst (sdskv_provider_remove_database p i))"
  using assms
proof (rule remove_cases [of p i])
  fix n
  assume n: "find_id p i = Some n" and removed: "fst (sdskv_provider_remove_database p i) =
      p\<lparr>id2name := om_erase (<) i (id2name p), name2id := om_erase string_less n (name2id p),
        databases := om_erase (<) i (databases p)\<rparr>"
  have "j \<noteq> i" if "find_name p m = Some j" "m \<noteq> n" for m j
    using n that provider_inv_name [OF inv, of m j] by auto
  then show ?thesis
    unfolding removed using inv by (auto simp add: provider_inv_def om_sorted_simps om_lookup_simps)
qed (use inv in simp)

lemma remove_names_unique:
  assumes inv: "provider_inv p" and uniq: "names_unique p"
  shows "names_unique (fst (sdskv_provider_remove_database p i))"
  using assms(1)
proof (rule remove_cases [of p i])
  fix n
  assume n: "find_id p i = Some n" and removed: "fst (sdskv_provider_remove_database p i) =
      p\<lparr>id2name := om_erase (<) i (id2name p), name2id := om_erase string_less n (name2id p),
        databases := om_erase (<) i (databases p)\<rparr>"
  have "m \<noteq> n" if "find_id p j = Some m" "j \<noteq> i" for j m
    using names_uniqueD [OF uniq, of j m] names_uniqueD [OF uniq n] that by auto
  then show ?thesis
    unfolding removed using uniq
    by (auto simp: names_unique_def om_lookup_simps provider_inv_sorted [OF inv])
qed (use uniq in simp)

lemma remove_all_inv: "provider_inv p \<Longrightarrow> provider_inv (fst (sdskv_provider_remove_all_databases p))"
  by (simp add: sdskv_provider_remove_all_databases_def provider_inv_def)

end
