(* ===== verification/Server_Basic.thy ===== *)
theory Server_Basic
  imports Provider Rpc_Types
begin

text \<open>
  The handlers of sdskv-server.cc for requests on databases as a whole and on a single key:
  \<open>open\<close>, \<open>count_db\<close>, \<open>list_db\<close>, \<open>put\<close>, \<open>length\<close>, \<open>get\<close>, \<open>bulk_put\<close>, \<open>bulk_get\<close>, \<open>erase\<close> and
  \<open>exists\<close>.

  A handler takes the runtime, the table of the backends, the provider registered for the request
  (\<open>None\<close> when there is none) and the message, and returns the provider after the request with the
  response; handlers that push data into the peer's memory return its new contents too. Fields
  of the response that the handler may leave unset are taken from the argument \<open>out0\<close>, the
  uninitialised structure. A result \<open>None\<close> means that the handler has no defined result.
\<close>

section \<open>Looking up and updating a database\<close>

definition FIND_DATABASE :: "'ds provider \<Rightarrow> db_id \<Rightarrow> (int32 \<Rightarrow> 'r) \<Rightarrow> ('ds \<Rightarrow> 'r) \<Rightarrow> 'r" where
  "FIND_DATABASE p i fail k =
     (case om_find (<) (databases p) i of [] \<Rightarrow> fail (rc SDSKV_ERR_UNKNOWN_DB) | e # _ \<Rightarrow> k (snd e))"

text \<open>The object behind the pointer found by \<open>FIND_DATABASE\<close> after a call on it.\<close>

definition set_db :: "'ds provider \<Rightarrow> db_id \<Rightarrow> 'ds \<Rightarrow> 'ds provider" where
  "set_db p i db = p\<lparr>databases := om_update (<) i db (databases p)\<rparr>"

section \<open>Handlers\<close>

definition sdskv_open_ult ::
  "margo \<Rightarrow> 'ds provider option \<Rightarrow> open_out_t \<Rightarrow> open_in_t \<Rightarrow> ('ds provider option \<times> open_out_t) option" where
  "sdskv_open_ult M prov out0 inp =
     (let fail = (\<lambda>r. Some (prov, out0\<lparr>open_out_ret := r\<rparr>)) in
      FIND_PROVIDER prov fail (\<lambda>p.
      GET_INPUT M fail (
      case om_find string_less (name2id p) (open_in_name inp) of
        [] \<Rightarrow> fail (rc SDSKV_ERR_DB_NAME)
      | e # _ \<Rightarrow> Some (prov, out0\<lparr>open_out_db_id := snd e, open_out_ret := rc SDSKV_SUCCESS\<rparr>))))"

definition sdskv_count_db_ult ::
  "'ds provider option \<Rightarrow> count_db_out_t \<Rightarrow> ('ds provider option \<times> count_db_out_t) option" where
  "sdskv_count_db_ult prov out0 =
     FIND_PROVIDER prov (\<lambda>r. Some (prov, out0\<lparr>count_db_out_ret := r\<rparr>)) (\<lambda>p.
       Some (prov, out0\<lparr>count_db_out_count := fst (sdskv_provider_count_databases p),
                        count_db_out_ret := rc SDSKV_SUCCESS\<rparr>))"

text \<open>The loop over \<open>name2id\<close> of \<open>list_db\<close>.\<close>

fun list_db_loop :: "nat \<Rightarrow> nat \<Rightarrow> (string \<times> db_id) list \<Rightarrow> (string \<times> db_id) list" where
  "list_db_loop count i [] = []"
| "list_db_loop count i (p # ps) = (if i \<ge> count then [] else p # list_db_loop count (Suc i) ps)"

definition sdskv_list_db_ult ::
  "margo \<Rightarrow> 'ds provider option \<Rightarrow> list_db_out_t \<Rightarrow> list_db_in_t \<Rightarrow> ('ds provider option \<times> list_db_out_t) option" where
  "sdskv_list_db_ult M prov out0 inp =
     (let out = out0\<lparr>list_db_out_count := 0, list_db_out_ret := rc SDSKV_SUCCESS\<rparr>;
          fail = (\<lambda>r. Some (prov, out\<lparr>list_db_out_ret := r\<rparr>)) in
      FIND_PROVIDER prov fail (\<lambda>p.
      GET_INPUT M fail (
      let l = list_db_loop (list_db_in_count inp) 0 (name2id p) in
      Some (prov, out\<lparr>list_db_out_count := length l, list_db_out_names := map fst l,
                      list_db_out_ids := map snd l\<rparr>))))"

definition sdskv_put_ult ::
  "margo \<Rightarrow> 'ds vtable \<Rightarrow> 'ds provider option \<Rightarrow> put_in_t \<Rightarrow> ('ds provider option \<times> int32) option" where
  "sdskv_put_ult M V prov inp =
     (let fail = (\<lambda>r. Some (prov, r)) in
      FIND_PROVIDER prov fail (\<lambda>p.
      GET_INPUT M fail (
      FIND_DATABASE p (put_in_db_id inp) fail (\<lambda>db.
      do {
        (db', ret) \<leftarrow> vt_put V db (put_in_key inp) (put_in_value inp);
        Some (Some (set_db p (put_in_db_id inp) db'), ret)
      }))))"

definition sdskv_length_ult ::
  "margo \<Rightarrow> 'ds vtable \<Rightarrow> 'ds provider option \<Rightarrow> length_out_t \<Rightarrow> length_in_t \<Rightarrow>
   ('ds provider option \<times> length_out_t) option" where
  "sdskv_length_ult M V prov out0 inp =
     (let fail = (\<lambda>r. Some (prov, out0\<lparr>length_out_ret := r\<rparr>)) in
      FIND_PROVIDER prov fail (\<lambda>p.
      GET_INPUT M fail (
      FIND_DATABASE p (length_in_db_id inp) fail (\<lambda>db.
      let (b, vsize) = vt_length V db (length_in_key inp) 0 in
      if b then Some (prov, \<lparr>length_out_size = vsize, length_out_ret = rc SDSKV_SUCCESS\<rparr>)
      else Some (prov, \<lparr>length_out_size = 0, length_out_ret = rc SDSKV_ERR_UNKNOWN_KEY\<rparr>)))))"

definition sdskv_get_ult ::
  "margo \<Rightarrow> 'ds vtable \<Rightarrow> 'ds provider option \<Rightarrow> get_in_t \<Rightarrow> ('ds provider option \<times> get_out_t) option" where
  "sdskv_get_ult M V prov inp =
     (let out = \<lparr>get_out_ret = 0, get_out_value = [], get_out_vsize = 0\<rparr>;
          fail = (\<lambda>r. Some (prov, out\<lparr>get_out_ret := r\<rparr>)) in
      FIND_PROVIDER prov fail (\<lambda>p.
      GET_INPUT M fail (
      FIND_DATABASE p (get_in_db_id inp) fail (\<lambda>db.
      let (b, vdata) = vt_get V db (get_in_key inp) [] in
      if b then
        if length vdata \<le> get_in_vsize inp then
          Some (prov, \<lparr>get_out_ret = rc SDSKV_SUCCESS, get_out_value = vdata, get_out_vsize = length vdata\<rparr>)
        else
          Some (prov, \<lparr>get_out_ret = rc SDSKV_ERR_SIZE, get_out_value = [], get_out_vsize = length vdata\<rparr>)
      else
        Some (prov, \<lparr>get_out_ret = rc SDSKV_ERR_UNKNOWN_KEY, get_out_value = [], get_out_vsize = 0\<rparr>)))))"

definition sdskv_bulk_put_ult ::
  "margo \<Rightarrow> 'ds vtable \<Rightarrow> 'ds provider option \<Rightarrow> bulk_put_in_t \<Rightarrow> ('ds provider option \<times> int32) option" where
  "sdskv_bulk_put_ult M V prov inp =
     (let fail = (\<lambda>r. Some (prov, r)) in
      FIND_PROVIDER prov fail (\<lambda>p.
      GET_INPUT M fail (
      FIND_DATABASE p (bulk_put_in_db_id inp) fail (\<lambda>db.
      let finish = (\<lambda>vdata. do {
            (db', ret) \<leftarrow> vt_put V db (bulk_put_in_key inp) vdata;
            Some (Some (set_db p (bulk_put_in_db_id inp) db'), ret)
          }) in
      if bulk_put_in_vsize inp > 0 then
        CHECK_HG (mg_bulk_create M 0 (bulk_put_in_vsize inp)) fail (
        BULK_TRANSFER (mg_pull M 1 (bulk_put_in_vsize inp) (bulk_put_in_handle inp) 0 (bulk_put_in_vsize inp)) fail
          finish)
      else finish []))))"

text \<open>The last component of the result is the memory behind \<open>in.handle\<close> after the request.\<close>

definition sdskv_bulk_get_ult ::
  "margo \<Rightarrow> 'ds vtable \<Rightarrow> 'ds provider option \<Rightarrow> bulk_get_in_t \<Rightarrow>
   ('ds provider option \<times> bulk_get_out_t \<times> bulk) option" where
  "sdskv_bulk_get_ult M V prov inp =
     (let mem = bulk_get_in_handle inp;
          fail = (\<lambda>r. Some (prov, \<lparr>bulk_get_out_vsize = 0, bulk_get_out_ret = r\<rparr>, mem)) in
      FIND_PROVIDER prov fail (\<lambda>p.
      GET_INPUT M fail (
      FIND_DATABASE p (bulk_get_in_db_id inp) fail (\<lambda>db.
      let (b, vdata) = vt_get V db (bulk_get_in_key inp) [] in
      if \<not> b then fail (rc SDSKV_ERR_UNKNOWN_KEY)
      else if length vdata > bulk_get_in_vsize inp then
        Some (prov, \<lparr>bulk_get_out_vsize = length vdata, bulk_get_out_ret = rc SDSKV_ERR_SIZE\<rparr>, mem)
      else
        let finish = (\<lambda>mem'. Some (prov, \<lparr>bulk_get_out_vsize = length vdata, bulk_get_out_ret = rc SDSKV_SUCCESS\<rparr>, mem')) in
        if length vdata > 0 then
          CHECK_HG (mg_bulk_create M 0 (length vdata)) fail (
          BULK_TRANSFER (mg_push M 1 mem 0 vdata) fail finish)
        else finish mem))))"

definition sdskv_erase_ult ::
  "margo \<Rightarrow> 'ds vtable \<Rightarrow> 'ds provider option \<Rightarrow> erase_in_t \<Rightarrow> ('ds provider option \<times> int32) option" where
  "sdskv_erase_ult M V prov inp =
     (let fail = (\<lambda>r. Some (prov, r)) in
      FIND_PROVIDER prov fail (\<lambda>p.
      GET_INPUT M fail (
      FIND_DATABASE p (erase_in_db_id inp) fail (\<lambda>db.
      let (db', b) = vt_erase V db (erase_in_key inp) in
      Some (Some (set_db p (erase_in_db_id inp) db'), if b then rc SDSKV_SUCCESS else rc SDSKV_ERR_ERASE)))))"

definition sdskv_exists_ult ::
  "margo \<Rightarrow> 'ds vtable \<Rightarrow> 'ds provider option \<Rightarrow> exists_out_t \<Rightarrow> exists_in_t \<Rightarrow>
   ('ds provider option \<times> exists_out_t) option" where
  "sdskv_exists_ult M V prov out0 inp =
     (let fail = (\<lambda>r. Some (prov, out0\<lparr>exists_out_ret := r\<rparr>)) in
      FIND_PROVIDER prov fail (\<lambda>p.
      GET_INPUT M fail (
      FIND_DATABASE p (exists_in_db_id inp) fail (\<lambda>db.
      do {
        b \<leftarrow> vt_exists_raw V db (exists_in_key inp) (length (exists_in_key inp));
        Some (prov, \<lparr>exists_out_flag = (if b then 1 else 0), exists_out_ret = rc SDSKV_SUCCESS\<rparr>)
      }))))"

section \<open>Facts shared by the handlers\<close>

lemma FIND_DATABASE_lookup:
  "FIND_DATABASE p i fail k = (case find_db p i of None \<Rightarrow> fail (rc SDSKV_ERR_UNKNOWN_DB) | Some db \<Rightarrow> k db)"
  by (auto simp: FIND_DATABASE_def om_lookup_def split: list.splits)

lemma find_db_set_db:
  "provider_inv p \<Longrightarrow> find_db (set_db p i db) = (find_db p)(i \<mapsto> db)"
  by (simp add: set_db_def id_order.om_lookup_update_eq provider_inv_sorted fun_eq_iff)

lemma set_db_inv:
  assumes inv: "provider_inv p" and live: "find_db p i \<noteq> None"
  shows "provider_inv (set_db p i db)"
proof -
  have "find_id p i \<noteq> None" using live provider_inv_live [OF inv, of i] by simp
  then show ?thesis
    using inv by (auto simp: provider_inv_def set_db_def om_sorted_simps om_lookup_simps)
qed

lemma names_set_db [simp]:
  "name2id (set_db p i db) = name2id p" "id2name (set_db p i db) = id2name p"
  by (simp_all add: set_db_def)

lemma list_db_loop_take: "list_db_loop count i ps = take (count - i) ps"
proof (induction ps arbitrary: i)
  case (Cons p ps)
  have "count - i = Suc (count - Suc i)" if "\<not> count \<le> i" using that by simp
  with Cons show ?case by (auto simp del: take_Suc)
qed simp

end
