(* ===== verification/Server_Multi.thy ===== *)
theory Server_Multi
  imports Server_Basic
begin

text \<open>
  The handlers of sdskv-server.cc for requests on several keys: \<open>put_multi\<close>, \<open>put_packed\<close>,
  \<open>get_multi\<close>, \<open>get_packed\<close>, \<open>length_multi\<close>, \<open>length_packed\<close>, \<open>exists_multi\<close> and \<open>erase_multi\<close>.

  A request carries a buffer that starts with the sizes of the keys (an array of \<open>hg_size_t\<close>)
  followed by the keys; the buffers for values have the same layout. A pointer into a buffer is the
  rest of the buffer from there, so that reading beyond the end has no result. The loops count with
  an \<open>unsigned\<close> and compare with a 64-bit number of keys: they do not end when this number is
  \<open>2\<^sup>3\<^sup>2\<close> or more. Products \<open>num_keys * sizeof(hg_size_t)\<close> are taken modulo \<open>2\<^sup>6\<^sup>4\<close>; the offsets added
  up in the loops stay below the size of the buffers as long as the accesses are defined.
\<close>

section \<open>Buffers\<close>

definition unsigned_loop :: "nat \<Rightarrow> 'a option \<Rightarrow> 'a option" where
  "unsigned_loop num_keys k = (if num_keys < 2 ^ 32 then k else None)"

text \<open>The pointers computed by the loop of \<open>put_multi\<close> for the keys and for the values.\<close>

fun key_ptrs :: "bulk \<Rightarrow> nat \<Rightarrow> nat list \<Rightarrow> bulk list" where
  "key_ptrs buf offset [] = []"
| "key_ptrs buf offset (n # ns) = drop offset buf # key_ptrs buf (offset + n) ns"

fun val_ptrs :: "bulk \<Rightarrow> nat \<Rightarrow> nat list \<Rightarrow> bulk list" where
  "val_ptrs buf offset [] = []"
| "val_ptrs buf offset (n # ns) = (if n = 0 then [] else drop offset buf) # val_ptrs buf (offset + n) ns"

section \<open>Handlers\<close>

definition sdskv_put_multi_ult ::
  "margo \<Rightarrow> 'ds vtable \<Rightarrow> 'ds provider option \<Rightarrow> put_multi_in_t \<Rightarrow> ('ds provider option \<times> int32) option" where
  "sdskv_put_multi_ult M V prov inp =
     (let fail = (\<lambda>r. Some (prov, r));
          num = put_multi_in_num_keys inp;
          ksize = put_multi_in_keys_bulk_size inp;
          vsize = put_multi_in_vals_bulk_size inp in
      FIND_PROVIDER prov fail (\<lambda>p.
      GET_INPUT M fail (
      FIND_DATABASE p (put_multi_in_db_id inp) fail (\<lambda>db.
      CHECK_HG (mg_bulk_create M 0 ksize) fail (
      CHECK_HG (mg_bulk_create M 1 vsize) fail (
      BULK_TRANSFER (mg_pull M 2 ksize (put_multi_in_keys_bulk inp) 0 ksize) fail (\<lambda>local_keys_buffer.
      BULK_TRANSFER (mg_pull M 3 vsize (put_multi_in_vals_bulk inp) 0 vsize) fail (\<lambda>local_vals_buffer.
      unsigned_loop num (do {
        key_sizes \<leftarrow> read_sizes local_keys_buffer num;
        val_sizes \<leftarrow> read_sizes local_vals_buffer num;
        let kptrs = key_ptrs local_keys_buffer (wrap64 (8 * num)) key_sizes;
        let vptrs = val_ptrs local_vals_buffer (wrap64 (8 * num)) val_sizes;
        (db', ret) \<leftarrow> vt_put_multi V db num kptrs key_sizes vptrs val_sizes;
        Some (Some (set_db p (put_multi_in_db_id inp) db'), ret)
      })))))))))"

definition sdskv_put_packed_ult ::
  "margo \<Rightarrow> 'ds vtable \<Rightarrow> 'ds provider option \<Rightarrow> put_packed_in_t \<Rightarrow> ('ds provider option \<times> int32) option" where
  "sdskv_put_packed_ult M V prov inp =
     (let fail = (\<lambda>r. Some (prov, r));
          num = put_packed_in_num_keys inp;
          bsize = put_packed_in_bulk_size inp in
      FIND_PROVIDER prov fail (\<lambda>p.
      GET_INPUT M fail (
      FIND_DATABASE p (put_packed_in_db_id inp) fail (\<lambda>db.
      CHECK_HG (if put_packed_in_origin_addr inp \<noteq> None then mg_addr M 0 else mg_addr M 1) fail (
      CHECK_HG (mg_bulk_create M 2 bsize) fail (
      BULK_TRANSFER (mg_pull M 3 bsize (put_packed_in_bulk inp) 0 bsize) fail (\<lambda>local_buffer.
      unsigned_loop num (do {
        key_sizes \<leftarrow> read_sizes local_buffer num;
        val_sizes \<leftarrow> read_sizes (drop (8 * num) local_buffer) num;
        let packed_keys = drop (8 * num) (drop (8 * num) local_buffer);
        let packed_vals = drop (sum_list key_sizes) packed_keys;
        (db', ret) \<leftarrow> vt_put_packed V db num packed_keys key_sizes packed_vals val_sizes;
        Some (Some (set_db p (put_packed_in_db_id inp) db'), ret)
      }))))))))"

text \<open>
  The loop of \<open>get_multi\<close>: the sizes array and the region for the values are the two parts of
  \<open>local_vals_buffer\<close>, \<open>packed_values\<close> is an offset into the second.
\<close>

fun get_multi_loop ::
  "'ds vtable \<Rightarrow> 'ds \<Rightarrow> bulk \<Rightarrow> nat list \<Rightarrow> nat list \<Rightarrow> bulk \<Rightarrow> nat \<Rightarrow> (nat list \<times> bulk) option"
where
  "get_multi_loop V db packed_keys (ks # key_sizes) (vs # val_sizes) region packed_values = do {
     kdata \<leftarrow> buf_slice packed_keys 0 ks;
     let (b, vdata) = vt_get V db kdata [];
     let vs' = (if b \<and> length vdata \<le> vs then length vdata else 0);
     region' \<leftarrow> (if b \<and> length vdata \<le> vs then overwrite region packed_values vdata else Some region);
     (val_sizes', region'') \<leftarrow>
       get_multi_loop V db (drop ks packed_keys) key_sizes val_sizes region' (packed_values + vs');
     Some (vs' # val_sizes', region'')
   }"
| "get_multi_loop V db packed_keys key_sizes val_sizes region packed_values = Some ([], region)"

definition sdskv_get_multi_ult ::
  "margo \<Rightarrow> 'ds vtable \<Rightarrow> 'ds provider option \<Rightarrow> get_multi_in_t \<Rightarrow> ('ds provider option \<times> int32 \<times> bulk) option" where
  "sdskv_get_multi_ult M V prov inp =
     (let mem = get_multi_in_vals_bulk inp;
          fail = (\<lambda>r. Some (prov, r, mem));
          num = get_multi_in_num_keys inp;
          ksize = get_multi_in_keys_bulk_size inp;
          vsize = get_multi_in_vals_bulk_size inp in
      FIND_PROVIDER prov fail (\<lambda>p.
      GET_INPUT M fail (
      FIND_DATABASE p (get_multi_in_db_id inp) fail (\<lambda>db.
      CHECK_HG (mg_bulk_create M 0 ksize) fail (
      CHECK_HG (mg_bulk_create M 1 vsize) fail (
      BULK_TRANSFER (mg_pull M 2 ksize (get_multi_in_keys_bulk inp) 0 ksize) fail (\<lambda>local_keys_buffer.
      BULK_TRANSFER (mg_pull M 3 vsize mem 0 (wrap64 (num * 8))) fail (\<lambda>sizes.
      Option.bind (unsigned_loop num (do {
        let local_vals_buffer = sizes @ replicate (vsize - length sizes) 0;
        key_sizes \<leftarrow> read_sizes local_keys_buffer num;
        val_sizes \<leftarrow> read_sizes local_vals_buffer num;
        (val_sizes', region) \<leftarrow>
          get_multi_loop V db (drop (8 * num) local_keys_buffer) key_sizes val_sizes
            (drop (8 * num) local_vals_buffer) 0;
        Some (enc_sizes val_sizes' @ region)
      })) (\<lambda>local_vals_buffer.
      BULK_TRANSFER (mg_push M 4 mem 0 local_vals_buffer) fail (\<lambda>mem'.
      Some (prov, rc SDSKV_SUCCESS, mem')))))))))))"

text \<open>
  The loop of \<open>get_packed\<close>: after a value that does not fit nothing more is read; the memory
  counted as available is not reduced by the values already packed. A missing key has size
  \<open>(hg_size_t)(-1)\<close>.
\<close>

fun get_packed_loop ::
  "'ds vtable \<Rightarrow> 'ds \<Rightarrow> bulk \<Rightarrow> nat list \<Rightarrow> nat \<Rightarrow> bulk \<Rightarrow> nat \<Rightarrow> get_packed_out_t \<Rightarrow>
   (nat list \<times> bulk \<times> get_packed_out_t) option"
where
  "get_packed_loop V db packed_keys [] available region packed_values out = Some ([], region, out)"
| "get_packed_loop V db packed_keys (ks # key_sizes) available region packed_values out = do {
     kdata \<leftarrow> buf_slice packed_keys 0 ks;
     if available = 0 then do {
       (vals, region', out') \<leftarrow>
         get_packed_loop V db packed_keys key_sizes available region packed_values
           (out\<lparr>get_packed_out_ret := rc SDSKV_ERR_SIZE\<rparr>);
       Some (0 # vals, region', out')
     } else do {
       let (b, vdata) = vt_get V db kdata [];
       if b then
         if length vdata > available then do {
           (vals, region', out') \<leftarrow>
             get_packed_loop V db (drop ks packed_keys) key_sizes 0 region packed_values
               (out\<lparr>get_packed_out_ret := rc SDSKV_ERR_SIZE\<rparr>);
           Some (0 # vals, region', out')
         } else do {
           region1 \<leftarrow> overwrite region packed_values vdata;
           (vals, region', out') \<leftarrow>
             get_packed_loop V db (drop ks packed_keys) key_sizes available region1
               (packed_values + length vdata)
               (out\<lparr>get_packed_out_num_keys := get_packed_out_num_keys out + 1\<rparr>);
           Some (length vdata # vals, region', out')
         }
       else do {
         (vals, region', out') \<leftarrow>
           get_packed_loop V db (drop ks packed_keys) key_sizes available region packed_values out;
         Some ((2 ^ 64 - 1) # vals, region', out')
       }
     }
   }"

definition sdskv_get_packed_ult ::
  "margo \<Rightarrow> 'ds vtable \<Rightarrow> 'ds provider option \<Rightarrow> get_packed_in_t \<Rightarrow>
   ('ds provider option \<times> get_packed_out_t \<times> bulk) option" where
  "sdskv_get_packed_ult M V prov inp =
     (let out = \<lparr>get_packed_out_ret = rc SDSKV_SUCCESS, get_packed_out_num_keys = 0\<rparr>;
          mem = get_packed_in_vals_bulk inp;
          fail = (\<lambda>r. Some (prov, out\<lparr>get_packed_out_ret := r\<rparr>, mem));
          num = get_packed_in_num_keys inp;
          ksize = get_packed_in_keys_bulk_size inp;
          vsize = get_packed_in_vals_bulk_size inp in
      FIND_PROVIDER prov fail (\<lambda>p.
      GET_INPUT M fail (
      FIND_DATABASE p (get_packed_in_db_id inp) fail (\<lambda>db.
      CHECK_HG (mg_bulk_create M 0 ksize) fail (
      CHECK_HG (mg_bulk_create M 1 vsize) fail (
      BULK_TRANSFER (mg_pull M 2 ksize (get_packed_in_keys_bulk inp) 0 ksize) fail (\<lambda>local_keys_buffer.
      Option.bind (unsigned_loop num (do {
        key_sizes \<leftarrow> read_sizes local_keys_buffer num;
        _ \<leftarrow> read_sizes (replicate vsize 0) num;
        let available_client_memory = wrap64 (vsize + 2 ^ 64 - wrap64 (8 * num));
        (val_sizes, region, out') \<leftarrow>
          get_packed_loop V db (drop (8 * num) local_keys_buffer) key_sizes available_client_memory
            (drop (8 * num) (replicate vsize 0)) 0 out;
        Some (enc_sizes val_sizes @ region, out')
      })) (\<lambda>(local_vals_buffer, out').
      BULK_TRANSFER (mg_push M 3 mem 0 local_vals_buffer)
        (\<lambda>r. Some (prov, out'\<lparr>get_packed_out_ret := r\<rparr>, mem)) (\<lambda>mem'.
      Some (prov, out', mem'))))))))))"

text \<open>The loop shared by \<open>length_multi\<close> and \<open>length_packed\<close>.\<close>

fun lengths_loop :: "'ds vtable \<Rightarrow> 'ds \<Rightarrow> bulk \<Rightarrow> nat list \<Rightarrow> nat list option" where
  "lengths_loop V db packed_keys [] = Some []"
| "lengths_loop V db packed_keys (ks # key_sizes) = do {
     kdata \<leftarrow> buf_slice packed_keys 0 ks;
     let (b, vsize) = vt_length V db kdata 0;
     sizes \<leftarrow> lengths_loop V db (drop ks packed_keys) key_sizes;
     Some ((if b then vsize else 0) # sizes)
   }"

definition sdskv_length_multi_ult ::
  "margo \<Rightarrow> 'ds vtable \<Rightarrow> 'ds provider option \<Rightarrow> length_multi_in_t \<Rightarrow> ('ds provider option \<times> int32 \<times> bulk) option" where
  "sdskv_length_multi_ult M V prov inp =
     (let mem = length_multi_in_vals_size_bulk inp;
          fail = (\<lambda>r. Some (prov, r, mem));
          num = length_multi_in_num_keys inp;
          ksize = length_multi_in_keys_bulk_size inp in
      FIND_PROVIDER prov fail (\<lambda>p.
      GET_INPUT M fail (
      FIND_DATABASE p (length_multi_in_db_id inp) fail (\<lambda>db.
      CHECK_HG (mg_bulk_create M 0 ksize) fail (
      CHECK_HG (mg_bulk_create M 1 (wrap64 (num * 8))) fail (
      BULK_TRANSFER (mg_pull M 2 ksize (length_multi_in_keys_bulk inp) 0 ksize) fail (\<lambda>local_keys_buffer.
      Option.bind (unsigned_loop num (do {
        key_sizes \<leftarrow> read_sizes local_keys_buffer num;
        lengths_loop V db (drop (8 * num) local_keys_buffer) key_sizes
      })) (\<lambda>local_vals_size_buffer.
      BULK_TRANSFER (mg_push M 3 mem 0 (enc_sizes local_vals_size_buffer)) fail (\<lambda>mem'.
      Some (prov, rc SDSKV_SUCCESS, mem'))))))))))"

definition sdskv_length_packed_ult ::
  "margo \<Rightarrow> 'ds vtable \<Rightarrow> 'ds provider option \<Rightarrow> length_packed_in_t \<Rightarrow> ('ds provider option \<times> int32 \<times> bulk) option" where
  "sdskv_length_packed_ult M V prov inp =
     (let mem = length_packed_in_out_bulk inp;
          fail = (\<lambda>r. Some (prov, r, mem));
          num = length_packed_in_num_keys inp;
          ksize = length_packed_in_in_bulk_size inp in
      FIND_PROVIDER prov fail (\<lambda>p.
      GET_INPUT M fail (
      FIND_DATABASE p (length_packed_in_db_id inp) fail (\<lambda>db.
      CHECK_HG (mg_bulk_create M 0 ksize) fail (
      CHECK_HG (mg_bulk_create M 1 (wrap64 (num * 8))) fail (
      BULK_TRANSFER (mg_pull M 2 ksize (length_packed_in_in_bulk inp) 0 ksize) fail (\<lambda>local_keys_buffer.
      Option.bind (unsigned_loop num (do {
        key_sizes \<leftarrow> read_sizes local_keys_buffer num;
        lengths_loop V db (drop (8 * num) local_keys_buffer) key_sizes
      })) (\<lambda>local_vals_size_buffer.
      BULK_TRANSFER (mg_push M 3 mem 0 (enc_sizes local_vals_size_buffer)) fail (\<lambda>mem'.
      Some (prov, rc SDSKV_SUCCESS, mem'))))))))))"

text \<open>
  The loop of \<open>exists_multi\<close> with its \<open>uint8_t\<close> mask, which the shift takes to 0 after bit 7 and the
  test on \<open>i\<close> resets.
\<close>

fun exists_multi_loop ::
  "'ds vtable \<Rightarrow> 'ds \<Rightarrow> bulk \<Rightarrow> nat list \<Rightarrow> nat \<Rightarrow> byte \<Rightarrow> bulk \<Rightarrow> bulk option"
where
  "exists_multi_loop V db packed_keys [] i bmask flags = Some flags"
| "exists_multi_loop V db packed_keys (ks # key_sizes) i bmask flags = do {
     b \<leftarrow> vt_exists_raw V db packed_keys ks;
     flags' \<leftarrow>
       (if b then do { f \<leftarrow> arr flags (i div 8); Some (flags[i div 8 := or f bmask]) } else Some flags);
     exists_multi_loop V db (drop ks packed_keys) key_sizes (Suc i)
       (if i mod 8 = 7 then 1 else push_bit 1 bmask) flags'
   }"

definition sdskv_exists_multi_ult ::
  "margo \<Rightarrow> 'ds vtable \<Rightarrow> 'ds provider option \<Rightarrow> exists_multi_in_t \<Rightarrow> ('ds provider option \<times> int32 \<times> bulk) option" where
  "sdskv_exists_multi_ult M V prov inp =
     (let mem = exists_multi_in_flags_bulk inp;
          fail = (\<lambda>r. Some (prov, r, mem));
          num = exists_multi_in_num_keys inp;
          ksize = exists_multi_in_keys_bulk_size inp;
          fsize = num div 8 + (if num mod 8 = 0 then 0 else 1) in
      FIND_PROVIDER prov fail (\<lambda>p.
      GET_INPUT M fail (
      FIND_DATABASE p (exists_multi_in_db_id inp) fail (\<lambda>db.
      CHECK_HG (mg_bulk_create M 0 ksize) fail (
      CHECK_HG (mg_bulk_create M 1 fsize) fail (
      BULK_TRANSFER (mg_pull M 2 ksize (exists_multi_in_keys_bulk inp) 0 ksize) fail (\<lambda>local_keys_buffer.
      Option.bind (unsigned_loop num (do {
        key_sizes \<leftarrow> read_sizes local_keys_buffer num;
        exists_multi_loop V db (drop (8 * num) local_keys_buffer) key_sizes 0 1 (replicate fsize 0)
      })) (\<lambda>local_flags_buffer.
      BULK_TRANSFER (mg_push M 3 mem 0 local_flags_buffer) fail (\<lambda>mem'.
      Some (prov, rc SDSKV_SUCCESS, mem'))))))))))"

fun erase_multi_loop :: "'ds vtable \<Rightarrow> bulk \<Rightarrow> nat list \<Rightarrow> 'ds \<Rightarrow> 'ds option" where
  "erase_multi_loop V packed_keys [] db = Some db"
| "erase_multi_loop V packed_keys (ks # key_sizes) db = do {
     kdata \<leftarrow> buf_slice packed_keys 0 ks;
     erase_multi_loop V (drop ks packed_keys) key_sizes (fst (vt_erase V db kdata))
   }"

definition sdskv_erase_multi_ult ::
  "margo \<Rightarrow> 'ds vtable \<Rightarrow> 'ds provider option \<Rightarrow> erase_multi_in_t \<Rightarrow> ('ds provider option \<times> int32) option" where
  "sdskv_erase_multi_ult M V prov inp =
     (let fail = (\<lambda>r. Some (prov, r));
          num = erase_multi_in_num_keys inp;
          ksize = erase_multi_in_keys_bulk_size inp in
      FIND_PROVIDER prov fail (\<lambda>p.
      GET_INPUT M fail (
      FIND_DATABASE p (erase_multi_in_db_id inp) fail (\<lambda>db.
      CHECK_HG (mg_bulk_create M 0 ksize) fail (
      BULK_TRANSFER (mg_pull M 1 ksize (erase_multi_in_keys_bulk inp) 0 ksize) fail (\<lambda>local_keys_buffer.
      unsigned_loop num (do {
        key_sizes \<leftarrow> read_sizes local_keys_buffer num;
        db' \<leftarrow> erase_multi_loop V (drop (8 * num) local_keys_buffer) key_sizes db;
        Some (Some (set_db p (erase_multi_in_db_id inp) db'), rc SDSKV_SUCCESS)
      })))))))"

section \<open>The loops on well-formed buffers\<close>

lemma key_ptrs_slices:
  "unpack (drop off buf) ns = Some xs \<Longrightarrow> length (key_ptrs buf off ns) = length xs
   \<and> (\<forall>j<length xs. buf_slice (key_ptrs buf off ns ! j) 0 (ns ! j) = Some (xs ! j))"
proof (induction ns arbitrary: off xs)
  case (Cons n ns)
  then obtain ys where ys: "unpack (drop (off + n) buf) ns = Some ys" "xs = take n (drop off buf) # ys"
      "n \<le> length (drop off buf)"
    by (auto simp: add.commute split: if_splits)
  then show ?case
    using Cons.IH [OF ys(1)] by (auto simp: buf_slice_def nth_Cons split: nat.splits)
qed simp

lemma val_ptrs_slices:
  "unpack (drop off buf) ns = Some xs \<Longrightarrow> length (val_ptrs buf off ns) = length xs
   \<and> (\<forall>j<length xs. buf_slice (val_ptrs buf off ns ! j) 0 (ns ! j) = Some (xs ! j))"
proof (induction ns arbitrary: off xs)
  case (Cons n ns)
  then obtain ys where ys: "unpack (drop (off + n) buf) ns = Some ys" "xs = take n (drop off buf) # ys"
      "n \<le> length (drop off buf)"
    by (auto simp: add.commute split: if_splits)
  then show ?case
    using Cons.IH [OF ys(1)] by (auto simp: buf_slice_def nth_Cons split: nat.splits)
qed simp

text \<open>What \<open>get_multi\<close> delivers for a key when the client has room for \<open>cap\<close> bytes.\<close>

definition fetch :: "kv \<Rightarrow> bulk \<Rightarrow> nat \<Rightarrow> bulk" where
  "fetch a k cap = (case kv_map a k of Some v \<Rightarrow> if length v \<le> cap then v else [] | None \<Rightarrow> [])"

lemma length_fetch: "length (fetch a k cap) \<le> cap"
  by (simp add: fetch_def split: option.splits)

definition stored_size :: "kv \<Rightarrow> bulk \<Rightarrow> nat" where
  "stored_size a k = (case kv_map a k of Some v \<Rightarrow> length v | None \<Rightarrow> 0)"

lemma unpack_Cons:
  assumes "unpack buf (n # ns) = Some xs"
  obtains x ys where "xs = x # ys" "buf_slice buf 0 n = Some x" "unpack (drop n buf) ns = Some ys"
  using assms by (auto simp: buf_slice_def split: if_splits)

lemma overwrite_at:
  "length pre = off \<Longrightarrow> length d \<le> length rest \<Longrightarrow>
   overwrite (pre @ rest) off d = Some ((pre @ d) @ drop (length d) rest)"
  by (auto simp: overwrite_def)

context datastore
begin

lemma get_multi_loop_law:
  "inv db \<Longrightarrow> unpack packed_keys key_sizes = Some keys \<Longrightarrow> length caps = length keys \<Longrightarrow>
   length pre = off \<Longrightarrow> sum_list caps \<le> length rest \<Longrightarrow>
   vs = map (\<lambda>(k, c). fetch (abs db) k c) (zip keys caps) \<Longrightarrow>
   get_multi_loop V db packed_keys key_sizes caps (pre @ rest) off
     = Some (map length vs, pre @ concat vs @ drop (length (concat vs)) rest)"
proof (induction key_sizes arbitrary: packed_keys keys caps pre off rest vs)
  case (Cons ks key_sizes)
  obtain k keys' where k: "keys = k # keys'" "buf_slice packed_keys 0 ks = Some k"
      "unpack (drop ks packed_keys) key_sizes = Some keys'"
    using Cons.prems(2) by (rule unpack_Cons)
  obtain c caps' where c: "caps = c # caps'" "length caps' = length keys'"
    using Cons.prems(3) k by (cases caps) auto
  define v where "v = fetch (abs db) k c"
  have v: "length v \<le> c" by (simp add: v_def length_fetch)
  define vs' where "vs' = map (\<lambda>(k, c). fetch (abs db) k c) (zip keys' caps')"
  have vs: "vs = v # vs'" using Cons.prems(6) by (simp add: k c v_def vs'_def)
  obtain b d where bd: "vt_get V db k [] = (b, d)" by fastforce
  have found: "b \<longleftrightarrow> kv_map (abs db) k \<noteq> None" and d: "kv_map (abs db) k = Some w \<Longrightarrow> d = w" for w
    using get_law [OF Cons.prems(1), of k "[]"] get_value_law [OF Cons.prems(1), of k w "[]"] bd by simp_all
  have step: "(if b \<and> length d \<le> c then length d else 0) = length v"
    "(if b \<and> length d \<le> c then overwrite (pre @ rest) off d else Some (pre @ rest))
       = Some ((pre @ v) @ drop (length v) rest)"
    using found d overwrite_at [OF Cons.prems(4), of d rest] Cons.prems(5)
    by (auto simp: v_def fetch_def c(1) split: option.splits)
  have "get_multi_loop V db (drop ks packed_keys) key_sizes caps' ((pre @ v) @ drop (length v) rest) (off + length v)
     = Some (map length vs', (pre @ v) @ concat vs' @ drop (length (concat vs')) (drop (length v) rest))"
    using Cons.IH [OF Cons.prems(1) k(3) c(2) _ _ vs'_def, of "pre @ v" "off + length v" "drop (length v) rest"]
      Cons.prems(4,5) v c(1) by simp
  then show ?case
    using step by (simp add: k(2) c(1) bd vs Let_def add.commute)
qed simp

lemma lengths_loop_law:
  "inv db \<Longrightarrow> unpack packed_keys key_sizes = Some keys \<Longrightarrow>
   lengths_loop V db packed_keys key_sizes = Some (map (stored_size (abs db)) keys)"
proof (induction key_sizes arbitrary: packed_keys keys)
  case (Cons ks key_sizes)
  obtain k keys' where k: "keys = k # keys'" "buf_slice packed_keys 0 ks = Some k"
      "unpack (drop ks packed_keys) key_sizes = Some keys'"
    using Cons.prems(2) by (rule unpack_Cons)
  obtain b n where bn: "vt_length V db k 0 = (b, n)" by fastforce
  have "(if b then n else 0) = stored_size (abs db) k"
    using length_law [OF Cons.prems(1), of k 0] length_value_law [OF Cons.prems(1), of k _ 0] bn
    by (auto simp: stored_size_def split: option.splits)
  then show ?case using Cons.IH [OF Cons.prems(1) k(3)] by (simp add: k bn)
qed simp

lemma erase_multi_loop_law:
  "inv db \<Longrightarrow> unpack packed_keys key_sizes = Some keys \<Longrightarrow>
   \<exists>db'. erase_multi_loop V packed_keys key_sizes db = Some db'
     \<and> inv db' \<and> abs db' = foldl kv_erase (abs db) keys"
proof (induction key_sizes arbitrary: packed_keys keys db)
  case (Cons ks key_sizes)
  obtain k keys' where k: "keys = k # keys'" "buf_slice packed_keys 0 ks = Some k"
      "unpack (drop ks packed_keys) key_sizes = Some keys'"
    using Cons.prems(2) by (rule unpack_Cons)
  show ?case
    using Cons.IH [OF erase_inv [OF Cons.prems(1)] k(3), of k] erase_law [OF Cons.prems(1), of k]
    by (simp add: k)
qed simp

lemma exists_multi_loop_law:
  "inv db \<Longrightarrow> unpack packed_keys key_sizes = Some keys \<Longrightarrow>
   i + length keys \<le> 8 * length flags \<Longrightarrow> bmask = push_bit (i mod 8) 1 \<Longrightarrow>
   (\<forall>j. i \<le> j \<longrightarrow> j < 8 * length flags \<longrightarrow> \<not> bit (flags ! (j div 8)) (j mod 8)) \<Longrightarrow>
   \<exists>flags'. exists_multi_loop V db packed_keys key_sizes i bmask flags = Some flags'
     \<and> length flags' = length flags
     \<and> (\<forall>j < 8 * length flags. bit (flags' ! (j div 8)) (j mod 8) \<longleftrightarrow>
          (if j < i then bit (flags ! (j div 8)) (j mod 8)
           else j < i + length keys \<and> kv_map (abs db) (keys ! (j - i)) \<noteq> None))"
proof (induction key_sizes arbitrary: packed_keys keys i bmask flags)
  case (Cons ks key_sizes)
  obtain k keys' where k: "keys = k # keys'" "buf_slice packed_keys 0 ks = Some k"
      "unpack (drop ks packed_keys) key_sizes = Some keys'"
    using Cons.prems(2) by (rule unpack_Cons)
  define b where "b \<longleftrightarrow> kv_map (abs db) k \<noteq> None"
  define bmask' :: byte where "bmask' = (if i mod 8 = 7 then 1 else push_bit 1 bmask)"
  define flags1 where "flags1 = (if b then flags[i div 8 := or (flags ! (i div 8)) bmask] else flags)"
  have i: "i div 8 < length flags" using Cons.prems(3) k(1) by simp
  have mask': "bmask' = push_bit (Suc i mod 8) 1"
    using Cons.prems(4) by (auto simp: bmask'_def mod_Suc push_bit_push_bit)
  have bits1: "bit (flags1 ! (j div 8)) (j mod 8) \<longleftrightarrow>
      (if j = i then b else bit (flags ! (j div 8)) (j mod 8))" if j: "j < 8 * length flags" for j
  proof (cases "j div 8 = i div 8")
    case True
    then have "j mod 8 = i mod 8 \<longleftrightarrow> j = i" by (metis div_mult_mod_eq)
    moreover have "bit bmask (j mod 8) \<longleftrightarrow> j mod 8 = i mod 8"
      by (auto simp: Cons.prems(4) bit_simps)
    moreover have "\<not> bit (flags ! (i div 8)) (i mod 8)"
      using Cons.prems(5) i by fastforce
    ultimately show ?thesis using True i by (auto simp: flags1_def bit_or_iff)
  next
    case False
    then show ?thesis by (auto simp: flags1_def)
  qed
  have len1: "length flags1 = length flags" by (simp add: flags1_def)
  obtain flags' where f: "exists_multi_loop V db (drop ks packed_keys) key_sizes (Suc i) bmask' flags1 = Some flags'"
      "length flags' = length flags1"
      "\<And>j. j < 8 * length flags1 \<Longrightarrow> bit (flags' ! (j div 8)) (j mod 8) \<longleftrightarrow>
          (if j < Suc i then bit (flags1 ! (j div 8)) (j mod 8)
           else j < Suc i + length keys' \<and> kv_map (abs db) (keys' ! (j - Suc i)) \<noteq> None)"
    using Cons.IH [OF Cons.prems(1) k(3) _ mask', of flags1] Cons.prems(3,5) k(1) bits1 len1 by fastforce
  have "vt_exists_raw V db packed_keys ks = Some b"
    using exists_raw_law [OF Cons.prems(1) k(2)] by (simp add: b_def)
  then have "exists_multi_loop V db packed_keys (ks # key_sizes) i bmask flags = Some flags'"
    using f(1) i by (cases b; cases "i mod 8 = 7") (simp_all add: flags1_def bmask'_def)
  moreover have "bit (flags' ! (j div 8)) (j mod 8) \<longleftrightarrow>
          (if j < i then bit (flags ! (j div 8)) (j mod 8)
           else j < i + length keys \<and> kv_map (abs db) (keys ! (j - i)) \<noteq> None)"
    if "j < 8 * length flags" for j
    using f(3) [of j] bits1 [OF that] len1 that
    by (auto simp: k(1) b_def nth_Cons' not_less less_Suc_eq split: if_splits)
  ultimately show ?case using f(2) len1 by auto
qed auto

end

end
