(* ===== verification/Server_Migrate.thy ===== *)
theory Server_Migrate
  imports Server_Multi
begin

text \<open>
  The handlers of sdskv-server.cc that move keys to another provider: \<open>migrate_keys\<close>,
  \<open>migrate_key_range\<close>, \<open>migrate_keys_prefixed\<close>, \<open>migrate_all_keys\<close> and \<open>migrate_database\<close> (without REMI).
  The target is a service of its own with state \<open>'t\<close>, reached by its \<open>put\<close> RPC, the argument
  \<open>rp_put\<close>; \<open>rp_forward\<close> and \<open>rp_output\<close> are the outcomes of forwarding the request and of getting its
  output, by the number of the call.
\<close>

section \<open>Messages and the target\<close>

record migrate_keys_in_t =
  mk_source_db_id :: db_id
  mk_target_db_id :: db_id
  mk_num_keys :: nat
  mk_bulk_size :: nat
  mk_keys_bulk :: bulk
  mk_flag :: int32

record migrate_keys_prefixed_in_t =
  mp_source_db_id :: db_id
  mp_target_db_id :: db_id
  mp_key_prefix :: kv_data_t
  mp_flag :: int32

record migrate_all_keys_in_t =
  ma_source_db_id :: db_id
  ma_target_db_id :: db_id
  ma_flag :: int32

record migrate_database_out_t =
  md_out_ret :: int32
  md_out_remi_ret :: int32

record 't target =
  rp_create :: hg_return
  rp_forward :: "nat \<Rightarrow> hg_return"
  rp_executed :: "nat \<Rightarrow> bool"
  rp_output :: "nat \<Rightarrow> hg_return"
  rp_put :: "'t \<Rightarrow> put_in_t \<Rightarrow> ('t \<times> int32) option"

text \<open>
  A put on the target: \<open>Some True\<close> is success, \<open>Some False\<close> a failure the handler reports as
  \<open>SDSKV_ERR_MIGRATION\<close>. A request whose forwarding failed may still have been executed.
\<close>

definition put_on_target ::
  "'t target \<Rightarrow> nat \<Rightarrow> 't \<Rightarrow> db_id \<Rightarrow> bulk \<Rightarrow> bulk \<Rightarrow> ('t \<times> bool) option" where
  "put_on_target T n t target_db key val =
     (if rp_forward T n \<noteq> hg_success \<and> \<not> rp_executed T n then Some (t, False)
      else do {
        (t', ret) \<leftarrow> rp_put T t \<lparr>put_in_db_id = target_db, put_in_key = key, put_in_value = val\<rparr>;
        Some (t', rp_forward T n = hg_success \<and> rp_output T n = hg_success \<and> ret = rc SDSKV_SUCCESS)
      })"

section \<open>Handlers\<close>

text \<open>The loop of \<open>migrate_keys\<close>; the boolean says whether the loop reached its end.\<close>

fun migrate_keys_loop ::
  "'ds vtable \<Rightarrow> 't target \<Rightarrow> db_id \<Rightarrow> int32 \<Rightarrow> nat \<Rightarrow> bulk \<Rightarrow> nat list \<Rightarrow> 'ds \<Rightarrow> 't \<Rightarrow>
   ('ds \<times> 't \<times> bool) option"
where
  "migrate_keys_loop V T target_db flag n packed_keys [] db t = Some (db, t, True)"
| "migrate_keys_loop V T target_db flag n packed_keys (sz # szs) db t = do {
     kdata \<leftarrow> buf_slice packed_keys 0 sz;
     let (b, vdata) = vt_get V db kdata [];
     if \<not> b then migrate_keys_loop V T target_db flag n (drop sz packed_keys) szs db t
     else do {
       (t', ok) \<leftarrow> put_on_target T n t target_db kdata vdata;
       if \<not> ok then Some (db, t', False)
       else
         migrate_keys_loop V T target_db flag (Suc n) (drop sz packed_keys) szs
           (if flag = SDSKV_REMOVE_ORIGINAL then fst (vt_erase V db kdata) else db) t'
     }
   }"

definition sdskv_migrate_keys_ult ::
  "margo \<Rightarrow> 'ds vtable \<Rightarrow> 't target \<Rightarrow> 'ds provider option \<Rightarrow> 't \<Rightarrow> migrate_keys_in_t \<Rightarrow>
   ('ds provider option \<times> 't \<times> int32) option" where
  "sdskv_migrate_keys_ult M V T prov t inp =
     (let fail = (\<lambda>r. Some (prov, t, r));
          num = mk_num_keys inp;
          bsize = mk_bulk_size inp in
      FIND_PROVIDER prov fail (\<lambda>p.
      GET_INPUT M fail (
      FIND_DATABASE p (mk_source_db_id inp) fail (\<lambda>db.
      CHECK_HG (mg_addr M 0) fail (
      CHECK_HG (mg_bulk_create M 1 bsize) fail (
      BULK_TRANSFER (mg_pull M 2 bsize (mk_keys_bulk inp) 0 bsize) fail (\<lambda>buffer.
      CHECK_HG (rp_create T) fail (
      unsigned_loop num (do {
        seg_sizes \<leftarrow> read_sizes buffer num;
        (db', t', ok) \<leftarrow>
          migrate_keys_loop V T (mk_target_db_id inp) (mk_flag inp) 0 (drop (8 * num) buffer) seg_sizes db t;
        Some (Some (set_db p (mk_source_db_id inp) db'), t',
              if ok then rc SDSKV_SUCCESS else rc SDSKV_ERR_MIGRATION)
      })))))))))"

definition sdskv_migrate_key_range_ult ::
  "margo \<Rightarrow> 'ds provider option \<Rightarrow> db_id \<Rightarrow> int32 option" where
  "sdskv_migrate_key_range_ult M prov source_db_id =
     FIND_PROVIDER prov Some (\<lambda>p.
     GET_INPUT M Some (
     FIND_DATABASE p source_db_id Some (\<lambda>db. Some (rc SDSKV_OP_NOT_IMPL))))"

text \<open>One batch of \<open>migrate_keys_prefixed\<close> and \<open>migrate_all_keys\<close>.\<close>

fun migrate_batch ::
  "'ds vtable \<Rightarrow> 't target \<Rightarrow> db_id \<Rightarrow> int32 \<Rightarrow> nat \<Rightarrow> (bulk \<times> bulk) list \<Rightarrow> 'ds \<Rightarrow> 't \<Rightarrow> ('ds \<times> 't \<times> bool) option"
where
  "migrate_batch V T target_db flag n [] db t = Some (db, t, True)"
| "migrate_batch V T target_db flag n ((k, v) # kvs) db t = do {
     (t', ok) \<leftarrow> put_on_target T n t target_db k v;
     if \<not> ok then Some (db, t', False)
     else
       migrate_batch V T target_db flag (Suc n) kvs
         (if flag = SDSKV_REMOVE_ORIGINAL then fst (vt_erase V db k) else db) t'
   }"

text \<open>The \<open>do\<close> loop over batches of 64 keys. A failed put ends it with \<open>False\<close>.\<close>

partial_function (option) migrate_loop ::
  "'ds vtable \<Rightarrow> 't target \<Rightarrow> db_id \<Rightarrow> int32 \<Rightarrow> bulk \<Rightarrow> nat \<Rightarrow> bulk \<Rightarrow> 'ds \<Rightarrow> 't \<Rightarrow> ('ds \<times> 't \<times> bool) option"
where
  "migrate_loop V T target_db flag prefix n start_key db t =
     Option.bind (ds_list_keyvals V db start_key 64 prefix) (\<lambda>batch.
     if length batch = 0 then Some (db, t, True)
     else
       Option.bind (migrate_batch V T target_db flag n batch db t) (\<lambda>(db', t', ok).
       if \<not> ok then Some (db', t', False)
       else if length batch = 64 then
         migrate_loop V T target_db flag prefix (n + length batch)
           (if flag \<noteq> SDSKV_REMOVE_ORIGINAL then fst (last batch) else start_key) db' t'
       else Some (db', t', True)))"

text \<open>
  \<open>out.ret\<close> is not initialised in \<open>migrate_keys_prefixed\<close> and not set when the migration succeeds;
  \<open>ret0\<close> is its value.
\<close>

definition sdskv_migrate_keys_prefixed_ult ::
  "margo \<Rightarrow> 'ds vtable \<Rightarrow> 't target \<Rightarrow> int32 \<Rightarrow> 'ds provider option \<Rightarrow> 't \<Rightarrow> migrate_keys_prefixed_in_t \<Rightarrow>
   ('ds provider option \<times> 't \<times> int32) option" where
  "sdskv_migrate_keys_prefixed_ult M V T ret0 prov t inp =
     (let fail = (\<lambda>r. Some (prov, t, r)) in
      FIND_PROVIDER prov fail (\<lambda>p.
      GET_INPUT M fail (
      FIND_DATABASE p (mp_source_db_id inp) fail (\<lambda>db.
      CHECK_HG (mg_addr M 0) fail (
      CHECK_HG (rp_create T) fail (
      do {
        (db', t', ok) \<leftarrow>
          migrate_loop V T (mp_target_db_id inp) (mp_flag inp) (mp_key_prefix inp) 0 [] db t;
        Some (Some (set_db p (mp_source_db_id inp) db'), t', if ok then ret0 else rc SDSKV_ERR_MIGRATION)
      }))))))"

definition sdskv_migrate_all_keys_ult ::
  "margo \<Rightarrow> 'ds vtable \<Rightarrow> 't target \<Rightarrow> 'ds provider option \<Rightarrow> 't \<Rightarrow> migrate_all_keys_in_t \<Rightarrow>
   ('ds provider option \<times> 't \<times> int32) option" where
  "sdskv_migrate_all_keys_ult M V T prov t inp =
     (let fail = (\<lambda>r. Some (prov, t, r)) in
      FIND_PROVIDER prov fail (\<lambda>p.
      GET_INPUT M fail (
      FIND_DATABASE p (ma_source_db_id inp) fail (\<lambda>db.
      CHECK_HG (mg_addr M 0) fail (
      CHECK_HG (rp_create T) fail (
      do {
        (db', t', ok) \<leftarrow> migrate_loop V T (ma_target_db_id inp) (ma_flag inp) [] 0 [] db t;
        Some (Some (set_db p (ma_source_db_id inp) db'), t',
              if ok then rc SDSKV_SUCCESS else rc SDSKV_ERR_MIGRATION)
      }))))))"

text \<open>Without REMI a database as a whole cannot be migrated.\<close>

definition sdskv_migrate_database_ult ::
  "margo \<Rightarrow> 'ds provider option \<Rightarrow> db_id \<Rightarrow> migrate_database_out_t option" where
  "sdskv_migrate_database_ult M prov source_db_id =
     (let out = (\<lambda>r. Some \<lparr>md_out_ret = r, md_out_remi_ret = 0\<rparr>) in
      FIND_PROVIDER prov out (\<lambda>p.
      GET_INPUT M out (
      FIND_DATABASE p source_db_id out (\<lambda>db. out (rc SDSKV_OP_NOT_IMPL)))))"

end
