(* ===== verification/Client_Migrate.thy ===== *)
theory Client_Migrate
  imports Client_Multi Server_Migrate
begin

text \<open>
  The functions of sdskv-client.c that ask a provider to move keys to another provider. They are written
  against a record of the migration RPCs of the source provider; the state \<open>'st\<close> includes the target.

  The address and the provider id of the target are part of the state's target, the flag and the database
  ids are in the messages.
\<close>

section \<open>The migration RPCs\<close>

text \<open>
  The key-range RPC is given only the source database: it is the first field of every message, and the only
  one its handler looks at.
\<close>

record 'st migrate_service =
  ms_migrate_keys :: "'st \<Rightarrow> migrate_keys_in_t \<Rightarrow> ('st \<times> int32) option"
  ms_migrate_key_range :: "'st \<Rightarrow> db_id \<Rightarrow> ('st \<times> int32) option"
  ms_migrate_keys_prefixed :: "'st \<Rightarrow> migrate_keys_prefixed_in_t \<Rightarrow> ('st \<times> int32) option"
  ms_migrate_all_keys :: "'st \<Rightarrow> migrate_all_keys_in_t \<Rightarrow> ('st \<times> int32) option"
  ms_migrate_database :: "'st \<Rightarrow> db_id \<Rightarrow> ('st \<times> migrate_database_out_t) option"

section \<open>Functions\<close>

definition migrate_rpc :: "client_rt \<Rightarrow> 'st \<Rightarrow> ('st \<times> int32) option \<Rightarrow> ('st \<times> int32) option" where
  "migrate_rpc C st call = rpc C st call (\<lambda>st' _ e. Some (st', e)) (\<lambda>st' ret. Some (st', ret))"

text \<open>
  \<open>sdskv_migrate_keys\<close> exposes the sizes and the keys, and creates its handle with the id of the key-range
  RPC: the message goes to the handler of \<open>sdskv_migrate_key_range\<close>.
\<close>

definition sdskv_migrate_keys ::
  "client_rt \<Rightarrow> 'st migrate_service \<Rightarrow> 'st \<Rightarrow> db_id \<Rightarrow> db_id \<Rightarrow> bulk list \<Rightarrow> int32 \<Rightarrow> ('st \<times> int32) option" where
  "sdskv_migrate_keys C S st source_db_id target_db_id keys flag =
     int_loop (length keys + 1) (
     let inp = \<lparr>mk_source_db_id = source_db_id, mk_target_db_id = target_db_id, mk_num_keys = length keys,
                mk_bulk_size = exposed_size keys, mk_keys_bulk = expose_sized keys, mk_flag = flag\<rparr> in
     if cl_bulk_create C 0 \<noteq> hg_success then Some (st, SDSKV_MAKE_HG_ERROR (cl_bulk_create C 0))
     else migrate_rpc C st (ms_migrate_key_range S st (mk_source_db_id inp)))"

definition sdskv_migrate_key_range ::
  "client_rt \<Rightarrow> 'st migrate_service \<Rightarrow> 'st \<Rightarrow> db_id \<Rightarrow> ('st \<times> int32) option" where
  "sdskv_migrate_key_range C S st source_db_id = migrate_rpc C st (ms_migrate_key_range S st source_db_id)"

definition sdskv_migrate_keys_prefixed ::
  "client_rt \<Rightarrow> 'st migrate_service \<Rightarrow> 'st \<Rightarrow> db_id \<Rightarrow> db_id \<Rightarrow> bulk \<Rightarrow> int32 \<Rightarrow> ('st \<times> int32) option" where
  "sdskv_migrate_keys_prefixed C S st source_db_id target_db_id key_prefix flag =
     migrate_rpc C st (ms_migrate_keys_prefixed S st
       \<lparr>mp_source_db_id = source_db_id, mp_target_db_id = target_db_id, mp_key_prefix = key_prefix,
        mp_flag = flag\<rparr>)"

definition sdskv_migrate_all_keys ::
  "client_rt \<Rightarrow> 'st migrate_service \<Rightarrow> 'st \<Rightarrow> db_id \<Rightarrow> db_id \<Rightarrow> int32 \<Rightarrow> ('st \<times> int32) option" where
  "sdskv_migrate_all_keys C S st source_db_id target_db_id flag =
     migrate_rpc C st (ms_migrate_all_keys S st
       \<lparr>ma_source_db_id = source_db_id, ma_target_db_id = target_db_id, ma_flag = flag\<rparr>)"

text \<open>The last component is the global \<open>sdskv_remi_errno\<close>.\<close>

definition sdskv_migrate_database ::
  "client_rt \<Rightarrow> 'st migrate_service \<Rightarrow> 'st \<Rightarrow> db_id \<Rightarrow> int32 \<Rightarrow> ('st \<times> int32 \<times> int32) option" where
  "sdskv_migrate_database C S st source_db_id sdskv_remi_errno =
     rpc C st (ms_migrate_database S st source_db_id)
       (\<lambda>st' _ e. Some (st', e, sdskv_remi_errno))
       (\<lambda>st' out. Some (st', md_out_ret out, md_out_remi_ret out))"

section \<open>The service of a provider\<close>

definition sdskv_migrate_service ::
  "margo \<Rightarrow> 'ds vtable \<Rightarrow> 't target \<Rightarrow> int32 \<Rightarrow> ('ds provider option \<times> 't) migrate_service" where
  "sdskv_migrate_service M V T ret0 =
     \<lparr>ms_migrate_keys = (\<lambda>(prov, t) inp.
        map_option (\<lambda>(prov', t', r). ((prov', t'), r)) (sdskv_migrate_keys_ult M V T prov t inp)),
      ms_migrate_key_range = (\<lambda>(prov, t) i.
        map_option (\<lambda>r. ((prov, t), r)) (sdskv_migrate_key_range_ult M prov i)),
      ms_migrate_keys_prefixed = (\<lambda>(prov, t) inp.
        map_option (\<lambda>(prov', t', r). ((prov', t'), r)) (sdskv_migrate_keys_prefixed_ult M V T ret0 prov t inp)),
      ms_migrate_all_keys = (\<lambda>(prov, t) inp.
        map_option (\<lambda>(prov', t', r). ((prov', t'), r)) (sdskv_migrate_all_keys_ult M V T prov t inp)),
      ms_migrate_database = (\<lambda>(prov, t) i.
        map_option (\<lambda>out. ((prov, t), out)) (sdskv_migrate_database_ult M prov i))\<rparr>"

lemma sdskv_migrate_service_sel [handler_simps]:
  "ms_migrate_keys (sdskv_migrate_service M V T ret0) (prov, t) inp
     = map_option (\<lambda>(prov', t', r). ((prov', t'), r)) (sdskv_migrate_keys_ult M V T prov t inp)"
  "ms_migrate_key_range (sdskv_migrate_service M V T ret0) (prov, t) i
     = map_option (\<lambda>r. ((prov, t), r)) (sdskv_migrate_key_range_ult M prov i)"
  "ms_migrate_keys_prefixed (sdskv_migrate_service M V T ret0) (prov, t) inp2
     = map_option (\<lambda>(prov', t', r). ((prov', t'), r)) (sdskv_migrate_keys_prefixed_ult M V T ret0 prov t inp2)"
  "ms_migrate_all_keys (sdskv_migrate_service M V T ret0) (prov, t) inp3
     = map_option (\<lambda>(prov', t', r). ((prov', t'), r)) (sdskv_migrate_all_keys_ult M V T prov t inp3)"
  "ms_migrate_database (sdskv_migrate_service M V T ret0) (prov, t) i
     = map_option (\<lambda>out. ((prov, t), out)) (sdskv_migrate_database_ult M prov i)"
  by (simp_all add: sdskv_migrate_service_def)

text \<open>
  \<open>sdskv_migrate_keys\<close> does not migrate: whatever the runtime does, both providers stay as they are.
\<close>

lemma migrate_keys_unchanged:
  assumes "sdskv_migrate_keys C (sdskv_migrate_service M V T ret0) (prov, t) i j keys flag = Some (st', r)"
  shows "st' = (prov, t)"
  using assms
  by (auto simp: sdskv_migrate_keys_def migrate_rpc_def rpc_def sdskv_migrate_service_sel int_loop_def Let_def
      split: if_splits bind_splits option.splits)

lemma migrate_keys_not_impl:
  assumes "margo_reliable M" "client_reliable C" "find_db p i = Some db" "length keys + 1 < 2 ^ 31"
  shows "sdskv_migrate_keys C (sdskv_migrate_service M V T ret0) (Some p, t) i j keys flag
    = Some ((Some p, t), rc SDSKV_OP_NOT_IMPL)"
  using assms
  by (simp add: sdskv_migrate_keys_def migrate_rpc_def handler_simps sdskv_migrate_key_range_ult_def
      FIND_DATABASE_lookup int_loop_def Let_def)

end
