(* ===== verification/Client_Cpp_Multi.thy ===== *)
theory Client_Cpp_Multi
  imports Client_Cpp Client_Migrate
begin

text \<open>
  The member functions and templates of include/sdskv-client.hpp on several keys, on listings and on
  migrations. Besides \<open>sdskv::exception\<close> they throw \<open>std::length_error\<close> (vectors of different sizes) and
  \<open>std::runtime_error\<close> (an address that cannot be converted). An output argument is part of the result also when
  the function throws, since the caller still has it.

  A vector of pointers with its vector of sizes is a list of readable byte ranges with a list of sizes; a
  vector of objects is a list of byte lists (\<open>std::string\<close>, \<open>std::vector<char>\<close>).
\<close>

section \<open>Exceptions\<close>

datatype cpp_error =
    Sdskv_exception int32
  | Length_error
  | Runtime_error

definition checked :: "int32 \<Rightarrow> 'a \<Rightarrow> cpp_error + 'a" where
  "checked ret x = (if ret \<noteq> rc SDSKV_SUCCESS then Inl (Sdskv_exception ret) else Inr x)"

definition vec_resize :: "'a \<Rightarrow> 'a list \<Rightarrow> nat \<Rightarrow> 'a list" where
  "vec_resize d v n = take n v @ replicate (n - length v) d"

text \<open>The memory an array of pointers and an array of sizes denote.\<close>

definition items_at :: "bulk list \<Rightarrow> nat list \<Rightarrow> bulk list option" where
  "items_at ptrs sizes = those (map2 (\<lambda>p n. buf_slice p 0 n) ptrs sizes)"

text \<open>\<open>object_resize(v[i], sizes[i])\<close> for the first \<open>n\<close> objects.\<close>

definition resize_objects :: "nat \<Rightarrow> bulk list \<Rightarrow> nat list \<Rightarrow> bulk list" where
  "resize_objects n objs sizes = map2 object_resize (take n objs) (take n sizes) @ drop n objs"

section \<open>Writing\<close>

definition cpp_put_multi_ptrs ::
  "client_rt \<Rightarrow> 'st service \<Rightarrow> int32 \<Rightarrow> 'st \<Rightarrow> db_id \<Rightarrow> bulk list \<Rightarrow> nat list \<Rightarrow> bulk list \<Rightarrow> nat list \<Rightarrow>
   ('st \<times> (cpp_error + unit)) option" where
  "cpp_put_multi_ptrs C S ret0 st i keys ksizes vals vsizes =
     (if length keys \<noteq> length ksizes \<or> length keys \<noteq> length vals \<or> length keys \<noteq> length vsizes
      then Some (st, Inl Length_error)
      else do {
        ks \<leftarrow> items_at keys ksizes;
        vs \<leftarrow> items_at vals vsizes;
        (st', ret) \<leftarrow> sdskv_put_multi C S ret0 st i ks vs;
        Some (st', checked ret ())
      })"

definition cpp_put_multi_vec ::
  "client_rt \<Rightarrow> 'st service \<Rightarrow> int32 \<Rightarrow> 'st \<Rightarrow> db_id \<Rightarrow> bulk list \<Rightarrow> bulk list \<Rightarrow> ('st \<times> (cpp_error + unit)) option" where
  "cpp_put_multi_vec C S ret0 st i keys vals =
     (if length keys \<noteq> length vals then Some (st, Inl Length_error)
      else cpp_put_multi_ptrs C S ret0 st i keys (map length keys) vals (map length vals))"

definition cpp_put_packed ::
  "client_rt \<Rightarrow> 'st service \<Rightarrow> 'st \<Rightarrow> db_id \<Rightarrow> nat \<Rightarrow> bulk \<Rightarrow> nat list \<Rightarrow> bulk \<Rightarrow> nat list \<Rightarrow> ('st \<times> (cpp_error + unit)) option" where
  "cpp_put_packed C S st i count keys ksizes vals vsizes =
     map_option (\<lambda>(st', ret). (st', checked ret ())) (sdskv_put_packed C S st i count keys ksizes vals vsizes)"

definition cpp_put_packed_str ::
  "client_rt \<Rightarrow> 'st service \<Rightarrow> 'st \<Rightarrow> db_id \<Rightarrow> bulk \<Rightarrow> nat list \<Rightarrow> bulk \<Rightarrow> nat list \<Rightarrow> ('st \<times> (cpp_error + unit)) option" where
  "cpp_put_packed_str C S st i packed_keys ksizes packed_values vsizes =
     cpp_put_packed C S st i (length ksizes) packed_keys ksizes packed_values vsizes"

text \<open>The boolean says whether the caller's bulk handle was freed by the C function.\<close>

definition cpp_proxy_put_packed ::
  "client_rt \<Rightarrow> 'st service \<Rightarrow> 'st \<Rightarrow> db_id \<Rightarrow> string \<Rightarrow> nat \<Rightarrow> bulk \<Rightarrow> nat \<Rightarrow> ('st \<times> bool \<times> (cpp_error + unit)) option" where
  "cpp_proxy_put_packed C S st i origin_addr count packed_data packed_data_size =
     map_option (\<lambda>(st', ret, freed). (st', freed, checked ret ()))
       (sdskv_proxy_put_packed C S st i (Some origin_addr) count packed_data packed_data_size)"

definition cpp_erase_multi_vec ::
  "client_rt \<Rightarrow> 'st service \<Rightarrow> int32 \<Rightarrow> 'st \<Rightarrow> db_id \<Rightarrow> bulk list \<Rightarrow> ('st \<times> (int32 + unit)) option" where
  "cpp_erase_multi_vec C S ret0 st i keys = do {
     ks \<leftarrow> items_at keys (map length keys);
     cpp_erase_multi C S ret0 st i ks
   }"

section \<open>Reading\<close>

definition cpp_exists_multi_vec ::
  "client_rt \<Rightarrow> 'st service \<Rightarrow> int32 \<Rightarrow> 'st \<Rightarrow> db_id \<Rightarrow> bulk list \<Rightarrow> ('st \<times> (int32 + bool list)) option" where
  "cpp_exists_multi_vec C S ret0 st i keys = do {
     ks \<leftarrow> items_at keys (map length keys);
     cpp_exists_multi C S ret0 st i ks
   }"

definition cpp_length_multi ::
  "client_rt \<Rightarrow> 'st service \<Rightarrow> int32 \<Rightarrow> 'st \<Rightarrow> db_id \<Rightarrow> bulk list \<Rightarrow> nat list \<Rightarrow> ('st \<times> nat list \<times> (cpp_error + bool)) option" where
  "cpp_length_multi C S ret0 st i keys vsizes =
     map_option (\<lambda>(st', ret, vs). (st', vs, checked ret True)) (sdskv_length_multi C S ret0 st i keys vsizes)"

definition cpp_length_multi_vec ::
  "client_rt \<Rightarrow> 'st service \<Rightarrow> int32 \<Rightarrow> 'st \<Rightarrow> db_id \<Rightarrow> bulk list \<Rightarrow> nat list \<Rightarrow> ('st \<times> nat list \<times> (cpp_error + bool)) option" where
  "cpp_length_multi_vec C S ret0 st i keys vsizes = do {
     ks \<leftarrow> items_at keys (map length keys);
     cpp_length_multi C S ret0 st i ks (vec_resize 0 vsizes (length keys))
   }"

definition cpp_length_multi_sizes ::
  "client_rt \<Rightarrow> 'st service \<Rightarrow> int32 \<Rightarrow> 'st \<Rightarrow> db_id \<Rightarrow> bulk list \<Rightarrow> ('st \<times> (cpp_error + nat list)) option" where
  "cpp_length_multi_sizes C S ret0 st i keys =
     map_option (\<lambda>(st', vs, r). (st', map_sum id (\<lambda>_. vs) r))
       (cpp_length_multi_vec C S ret0 st i keys (replicate (length keys) 0))"

definition cpp_length_packed ::
  "client_rt \<Rightarrow> 'st service \<Rightarrow> 'st \<Rightarrow> db_id \<Rightarrow> nat \<Rightarrow> bulk \<Rightarrow> nat list \<Rightarrow> nat list \<Rightarrow> ('st \<times> nat list \<times> (cpp_error + bool)) option" where
  "cpp_length_packed C S st i num keys ksizes vsizes =
     map_option (\<lambda>(st', ret, vs). (st', vs, checked ret True)) (sdskv_length_packed C S st i num keys ksizes vsizes)"

definition cpp_length_packed_str ::
  "client_rt \<Rightarrow> 'st service \<Rightarrow> 'st \<Rightarrow> db_id \<Rightarrow> bulk \<Rightarrow> nat list \<Rightarrow> nat list \<Rightarrow> ('st \<times> nat list \<times> (cpp_error + bool)) option" where
  "cpp_length_packed_str C S st i keys ksizes vsizes =
     cpp_length_packed C S st i (length ksizes) keys ksizes (vec_resize 0 vsizes (length ksizes))"

definition cpp_get_raw ::
  "client_rt \<Rightarrow> 'st service \<Rightarrow> 'st \<Rightarrow> db_id \<Rightarrow> bulk \<Rightarrow> bulk option \<Rightarrow> nat \<Rightarrow> ('st \<times> bulk option \<times> nat \<times> (cpp_error + bool)) option" where
  "cpp_get_raw C S st i key val vsize =
     map_option (\<lambda>(st', ret, buf, n). (st', buf, n, checked ret True)) (sdskv_get C S st i key val vsize)"

text \<open>The template that returns its value starts from an empty object.\<close>

definition cpp_get_value ::
  "(nat \<Rightarrow> client_rt) \<Rightarrow> 'st service \<Rightarrow> 'st \<Rightarrow> db_id \<Rightarrow> bulk \<Rightarrow> nat \<Rightarrow> ('st \<times> (int32 + bulk)) option" where
  "cpp_get_value C S st i key vsize0 = cpp_get C S st i key [] vsize0"

definition cpp_get_multi ::
  "client_rt \<Rightarrow> 'st service \<Rightarrow> int32 \<Rightarrow> (nat \<Rightarrow> byte) \<Rightarrow> 'st \<Rightarrow> db_id \<Rightarrow> bulk list \<Rightarrow> bulk list option \<Rightarrow> nat list \<Rightarrow>
   ('st \<times> bulk list option \<times> nat list \<times> (cpp_error + bool)) option" where
  "cpp_get_multi C S ret0 uninit st i keys vals vsizes =
     map_option (\<lambda>(st', ret, vals', vs). (st', vals', vs, checked ret True))
       (sdskv_get_multi C S ret0 uninit st i keys vals vsizes)"

definition cpp_get_multi_ptrs ::
  "client_rt \<Rightarrow> 'st service \<Rightarrow> int32 \<Rightarrow> (nat \<Rightarrow> byte) \<Rightarrow> 'st \<Rightarrow> db_id \<Rightarrow> bulk list \<Rightarrow> nat list \<Rightarrow> bulk list \<Rightarrow> nat list \<Rightarrow>
   ('st \<times> bulk list \<times> nat list \<times> (cpp_error + bool)) option" where
  "cpp_get_multi_ptrs C S ret0 uninit st i keys ksizes vals vsizes =
     (if length keys \<noteq> length ksizes \<or> length keys \<noteq> length vals \<or> length keys \<noteq> length vsizes
      then Some (st, vals, vsizes, Inl Length_error)
      else do {
        ks \<leftarrow> items_at keys ksizes;
        (st', vals', vs, r) \<leftarrow> cpp_get_multi C S ret0 uninit st i ks (Some vals) vsizes;
        Some (st', case vals' of Some bufs \<Rightarrow> bufs | None \<Rightarrow> vals, vs, r)
      })"

definition cpp_get_multi_vec ::
  "client_rt \<Rightarrow> 'st service \<Rightarrow> int32 \<Rightarrow> (nat \<Rightarrow> byte) \<Rightarrow> 'st \<Rightarrow> db_id \<Rightarrow> bulk list \<Rightarrow> bulk list \<Rightarrow>
   ('st \<times> bulk list \<times> (cpp_error + bool)) option" where
  "cpp_get_multi_vec C S ret0 uninit st i keys vals =
     (if length keys \<noteq> length vals then Some (st, vals, Inl Length_error)
      else do {
        (st', vals', vs, r) \<leftarrow>
          cpp_get_multi_ptrs C S ret0 uninit st i keys (map length keys) vals (map length vals);
        case r of
          Inl e \<Rightarrow> Some (st', vals', Inl e)
        | Inr b \<Rightarrow> Some (st', resize_objects (length vals) vals' vs, Inr True)
      })"

text \<open>Iterators: the objects are not resized and the sizes found are dropped.\<close>

definition cpp_get_multi_iter ::
  "client_rt \<Rightarrow> 'st service \<Rightarrow> int32 \<Rightarrow> (nat \<Rightarrow> byte) \<Rightarrow> 'st \<Rightarrow> db_id \<Rightarrow> bulk list \<Rightarrow> bulk list \<Rightarrow>
   ('st \<times> bulk list \<times> (cpp_error + bool)) option" where
  "cpp_get_multi_iter C S ret0 uninit st i keys vals =
     (if length keys \<noteq> length vals then Some (st, vals, Inl Length_error)
      else map_option (\<lambda>(st', vals', vs, r). (st', vals', r))
        (cpp_get_multi_ptrs C S ret0 uninit st i keys (map length keys) vals (map length vals)))"

definition cpp_get_multi_values ::
  "client_rt \<Rightarrow> client_rt \<Rightarrow> 'st service \<Rightarrow> int32 \<Rightarrow> (nat \<Rightarrow> byte) \<Rightarrow> 'st \<Rightarrow> db_id \<Rightarrow> bulk list \<Rightarrow>
   ('st \<times> (cpp_error + bulk list)) option" where
  "cpp_get_multi_values C1 C2 S ret0 uninit st i keys = do {
     (st1, vsizes, r) \<leftarrow> cpp_length_multi_vec C1 S ret0 st i keys (replicate (length keys) 0);
     case r of
       Inl e \<Rightarrow> Some (st1, Inl e)
     | Inr _ \<Rightarrow>
         map_option (\<lambda>(st2, vals, r'). (st2, map_sum id (\<lambda>_. vals) r'))
           (cpp_get_multi_vec C2 S ret0 uninit st1 i keys
              (resize_objects (length keys) (replicate (length keys) []) vsizes))
   }"

definition cpp_get_packed ::
  "client_rt \<Rightarrow> 'st service \<Rightarrow> 'st \<Rightarrow> db_id \<Rightarrow> nat \<Rightarrow> bulk \<Rightarrow> nat list \<Rightarrow> nat \<Rightarrow> bulk \<Rightarrow> nat list \<Rightarrow>
   ('st \<times> nat \<times> bulk \<times> nat list \<times> (cpp_error + bool)) option" where
  "cpp_get_packed C S st i count keys ksizes valbufsize vals vsizes =
     map_option (\<lambda>(st', ret, n, pv, vs). (st', n, pv, vs, checked ret True))
       (sdskv_get_packed C S st i count keys ksizes valbufsize vals vsizes)"

definition cpp_get_packed_str ::
  "client_rt \<Rightarrow> 'st service \<Rightarrow> 'st \<Rightarrow> db_id \<Rightarrow> bulk \<Rightarrow> nat list \<Rightarrow> bulk \<Rightarrow> nat list \<Rightarrow>
   ('st \<times> bulk \<times> nat list \<times> (cpp_error + bool)) option" where
  "cpp_get_packed_str C S st i packed_keys ksizes packed_values vsizes = do {
     (st', count, pv, vs, r) \<leftarrow>
       cpp_get_packed C S st i (length ksizes) packed_keys ksizes (length packed_values) packed_values
         (vec_resize 0 vsizes (length ksizes));
     Some (st', pv, (case r of Inl e \<Rightarrow> vs | Inr b \<Rightarrow> vec_resize 0 vs count), r)
   }"

section \<open>Listing\<close>

definition cpp_list_keys_raw ::
  "client_rt \<Rightarrow> 'st service \<Rightarrow> 'st \<Rightarrow> db_id \<Rightarrow> bulk \<Rightarrow> bulk \<Rightarrow> bulk option list option \<Rightarrow> nat list \<Rightarrow> nat \<Rightarrow>
   ('st \<times> bulk option list option \<times> nat list \<times> nat \<times> (int32 + unit)) option" where
  "cpp_list_keys_raw C S st i start_key prefix keys ksizes max_keys =
     map_option (\<lambda>(st', ret, keys', ks, n). (st', keys', ks, n, CHECK_RET ret ()))
       (sdskv_list_keys_with_prefix C S st i start_key prefix keys ksizes max_keys)"

text \<open>What the pointers in an array of buffers point to; null stays an empty object.\<close>

definition objects_of :: "bulk option list option \<Rightarrow> bulk list" where
  "objects_of keys = (case keys of None \<Rightarrow> [] | Some bufs \<Rightarrow> map (\<lambda>b. case b of None \<Rightarrow> [] | Some x \<Rightarrow> x) bufs)"

text \<open>
  The template with a prefix: when the sizes do not fit and the first object is empty, the objects are
  resized to the sizes reported and the call is repeated.
\<close>

definition cpp_list_keys_prefix ::
  "(nat \<Rightarrow> client_rt) \<Rightarrow> 'st service \<Rightarrow> 'st \<Rightarrow> db_id \<Rightarrow> bulk \<Rightarrow> bulk \<Rightarrow> bulk list \<Rightarrow> ('st \<times> bulk list \<times> (int32 + unit)) option" where
  "cpp_list_keys_prefix C S st i start_key prefix keys = do {
     (st1, bufs, ks, n, r) \<leftarrow>
       cpp_list_keys_raw (C 0) S st i start_key prefix (Some (map Some keys)) (map length keys) (length keys);
     let keys1 = objects_of bufs;
     case r of
       Inr _ \<Rightarrow> Some (st1, take n (resize_objects n keys1 ks), Inr ())
     | Inl e \<Rightarrow>
         if e = rc SDSKV_ERR_SIZE \<and> map length (take 1 keys1) = [0] then do {
           let keys2 = resize_objects n keys1 ks;
           (st2, bufs', ks', n', r') \<leftarrow>
             cpp_list_keys_raw (C 1) S st1 i start_key prefix (Some (map Some keys2)) ks n;
           case r' of
             Inr _ \<Rightarrow> Some (st2, take n' (resize_objects n' (objects_of bufs') ks'), Inr ())
           | Inl e' \<Rightarrow> Some (st2, objects_of bufs', Inl e')
         } else Some (st1, keys1, Inl e)
   }"

text \<open>The template without a prefix returns at once when there is no room for a key.\<close>

definition cpp_list_keys ::
  "(nat \<Rightarrow> client_rt) \<Rightarrow> 'st service \<Rightarrow> 'st \<Rightarrow> db_id \<Rightarrow> bulk \<Rightarrow> bulk list \<Rightarrow> ('st \<times> bulk list \<times> (int32 + unit)) option" where
  "cpp_list_keys C S st i start_key keys =
     (if length keys = 0 then Some (st, keys, Inr ())
      else cpp_list_keys_prefix C S st i start_key [] keys)"

definition cpp_list_keyvals_raw ::
  "client_rt \<Rightarrow> 'st service \<Rightarrow> 'st \<Rightarrow> db_id \<Rightarrow> bulk \<Rightarrow> bulk \<Rightarrow> bulk option list option \<Rightarrow> nat list \<Rightarrow>
   bulk option list option \<Rightarrow> nat list \<Rightarrow> nat \<Rightarrow>
   ('st \<times> bulk option list option \<times> nat list \<times> bulk option list option \<times> nat list \<times> nat \<times> (int32 + unit)) option" where
  "cpp_list_keyvals_raw C S st i start_key prefix keys ksizes vals vsizes max_items =
     map_option (\<lambda>(st', ret, keys', ks, vals', vs, n). (st', keys', ks, vals', vs, n, CHECK_RET ret ()))
       (sdskv_list_keyvals_with_prefix C S st i start_key prefix keys ksizes vals vsizes max_items)"

definition cpp_list_keyvals_prefix ::
  "(nat \<Rightarrow> client_rt) \<Rightarrow> 'st service \<Rightarrow> 'st \<Rightarrow> db_id \<Rightarrow> bulk \<Rightarrow> bulk \<Rightarrow> bulk list \<Rightarrow> bulk list \<Rightarrow>
   ('st \<times> bulk list \<times> bulk list \<times> (int32 + unit)) option" where
  "cpp_list_keyvals_prefix C S st i start_key prefix keys vals = do {
     (st1, kbufs, ks, vbufs, vs, n, r) \<leftarrow>
       cpp_list_keyvals_raw (C 0) S st i start_key prefix (Some (map Some keys)) (map length keys)
         (Some (map Some vals)) (map length vals) (min (length keys) (length vals));
     let keys1 = objects_of kbufs;
     let vals1 = objects_of vbufs;
     case r of
       Inr _ \<Rightarrow> Some (st1, take n (resize_objects n keys1 ks), take n (resize_objects n vals1 vs), Inr ())
     | Inl e \<Rightarrow>
         if e = rc SDSKV_ERR_SIZE then do {
           (st2, kbufs', ks', vbufs', vs', n', r') \<leftarrow>
             cpp_list_keyvals_raw (C 1) S st1 i start_key prefix (Some (map Some (resize_objects n keys1 ks))) ks
               (Some (map Some (resize_objects n vals1 vs))) vs n;
           case r' of
             Inr _ \<Rightarrow> Some (st2, take n' (resize_objects n' (objects_of kbufs') ks'),
                            take n' (resize_objects n' (objects_of vbufs') vs'), Inr ())
           | Inl e' \<Rightarrow> Some (st2, objects_of kbufs', objects_of vbufs', Inl e')
         } else Some (st1, keys1, vals1, Inl e)
   }"

definition cpp_list_keyvals ::
  "(nat \<Rightarrow> client_rt) \<Rightarrow> 'st service \<Rightarrow> 'st \<Rightarrow> db_id \<Rightarrow> bulk \<Rightarrow> bulk list \<Rightarrow> bulk list \<Rightarrow>
   ('st \<times> bulk list \<times> bulk list \<times> (int32 + unit)) option" where
  "cpp_list_keyvals C S st i start_key keys vals = cpp_list_keyvals_prefix C S st i start_key [] keys vals"

section \<open>Migration\<close>

text \<open>
  The functions that move keys first turn the address of the target into a string (\<open>hret\<close> is the outcome of
  \<open>margo_addr_to_string\<close>).
\<close>

definition with_address ::
  "hg_return \<Rightarrow> 'st \<Rightarrow> ('st \<times> int32) option \<Rightarrow> ('st \<times> (cpp_error + unit)) option" where
  "with_address hret st call =
     (if hret \<noteq> hg_success then Some (st, Inl Runtime_error)
      else map_option (\<lambda>(st', ret). (st', checked ret ())) call)"

definition cpp_migrate_keys ::
  "hg_return \<Rightarrow> client_rt \<Rightarrow> 'st migrate_service \<Rightarrow> 'st \<Rightarrow> db_id \<Rightarrow> db_id \<Rightarrow> bulk list \<Rightarrow> int32 \<Rightarrow>
   ('st \<times> (cpp_error + unit)) option" where
  "cpp_migrate_keys hret C S st source_db dest_db keys flag =
     with_address hret st (sdskv_migrate_keys C S st source_db dest_db keys flag)"

definition cpp_migrate_keys_ptrs ::
  "hg_return \<Rightarrow> client_rt \<Rightarrow> 'st migrate_service \<Rightarrow> 'st \<Rightarrow> db_id \<Rightarrow> db_id \<Rightarrow> bulk list \<Rightarrow> nat list \<Rightarrow> int32 \<Rightarrow>
   ('st \<times> (cpp_error + unit)) option" where
  "cpp_migrate_keys_ptrs hret C S st source_db dest_db keys ksizes flag =
     (if length keys \<noteq> length ksizes then Some (st, Inl Length_error)
      else do {
        ks \<leftarrow> items_at keys ksizes;
        cpp_migrate_keys hret C S st source_db dest_db ks flag
      })"

definition cpp_migrate_keys_vec ::
  "hg_return \<Rightarrow> client_rt \<Rightarrow> 'st migrate_service \<Rightarrow> 'st \<Rightarrow> db_id \<Rightarrow> db_id \<Rightarrow> bulk list \<Rightarrow> int32 \<Rightarrow>
   ('st \<times> (cpp_error + unit)) option" where
  "cpp_migrate_keys_vec hret C S st source_db dest_db keys flag =
     cpp_migrate_keys_ptrs hret C S st source_db dest_db keys (map length keys) flag"

definition cpp_migrate_key_range ::
  "hg_return \<Rightarrow> client_rt \<Rightarrow> 'st migrate_service \<Rightarrow> 'st \<Rightarrow> db_id \<Rightarrow> ('st \<times> (cpp_error + unit)) option" where
  "cpp_migrate_key_range hret C S st source_db =
     with_address hret st (sdskv_migrate_key_range C S st source_db)"

definition cpp_migrate_prefix ::
  "hg_return \<Rightarrow> client_rt \<Rightarrow> 'st migrate_service \<Rightarrow> 'st \<Rightarrow> db_id \<Rightarrow> db_id \<Rightarrow> bulk \<Rightarrow> int32 \<Rightarrow>
   ('st \<times> (cpp_error + unit)) option" where
  "cpp_migrate_prefix hret C S st source_db dest_db prefix flag =
     with_address hret st (sdskv_migrate_keys_prefixed C S st source_db dest_db prefix flag)"

definition cpp_migrate_all ::
  "hg_return \<Rightarrow> client_rt \<Rightarrow> 'st migrate_service \<Rightarrow> 'st \<Rightarrow> db_id \<Rightarrow> db_id \<Rightarrow> int32 \<Rightarrow>
   ('st \<times> (cpp_error + unit)) option" where
  "cpp_migrate_all hret C S st source_db dest_db flag =
     with_address hret st (sdskv_migrate_all_keys C S st source_db dest_db flag)"

section \<open>Laws\<close>

lemma items_at_objects [simp]: "items_at keys (map length keys) = Some keys"
  by (induction keys) (simp_all add: items_at_def buffer_simps)

lemma length_vec_resize [simp]: "length (vec_resize d v n) = n"
  by (simp add: vec_resize_def)

lemma resize_objects_empty:
  "length sizes = n \<Longrightarrow> resize_objects n (replicate n []) sizes = map (\<lambda>m. replicate m 0) sizes"
  by (induction sizes arbitrary: n) (auto simp: resize_objects_def object_resize_def)

end
