(* ===== verification/Server_List.thy ===== *)
theory Server_List
  imports Server_Multi
begin

text \<open>
  The handlers of sdskv-server.cc that list the keys of a database: \<open>list_keys\<close> and \<open>list_keyvals\<close>.
  The client exposes an array with the sizes of its buffers and the buffers themselves, as one
  region; the handler writes the true sizes back and then each key (and value) into its buffer.
  The response comes with the new contents of the exposed regions. A null bulk handle, which a
  client sends when it wants the sizes only, is a region of size 0.
\<close>

section \<open>Pushing items into the client's buffers\<close>

text \<open>
  One transfer per item that is not empty, at the offset given by the sizes of the buffers before it; \<open>n\<close>
  numbers the transfers. The result has the error that ended the loop, if any.
\<close>

fun push_items :: "margo \<Rightarrow> nat \<Rightarrow> bulk \<Rightarrow> nat \<Rightarrow> bulk list \<Rightarrow> nat list \<Rightarrow> bulk \<times> hg_return option" where
  "push_items M n mem remote_offset (d # ds) (r # rs) =
     (if length d > 0 then
        case mg_push M n mem remote_offset d of
          Inl hret \<Rightarrow> (mem, Some hret)
        | Inr mem' \<Rightarrow> push_items M (Suc n) mem' (wrap64 (remote_offset + r)) ds rs
      else push_items M (Suc n) mem (wrap64 (remote_offset + r)) ds rs)"
| "push_items M n mem remote_offset ds rs = (mem, None)"

text \<open>Whether some item is larger than the client's buffer for it.\<close>

definition size_error :: "nat list \<Rightarrow> nat list \<Rightarrow> bool" where
  "size_error true_sizes sizes \<longleftrightarrow> list_ex (\<lambda>(t, s). t > s) (zip true_sizes sizes)"

section \<open>Handlers\<close>

definition sdskv_list_keys_ult ::
  "margo \<Rightarrow> 'ds vtable \<Rightarrow> 'ds provider option \<Rightarrow> list_keys_in_t \<Rightarrow>
   ('ds provider option \<times> list_keys_out_t \<times> bulk \<times> bulk) option" where
  "sdskv_list_keys_ult M V prov inp =
     (let out = \<lparr>list_keys_out_nkeys = 0, list_keys_out_ret = rc SDSKV_SUCCESS\<rparr>;
          kz = list_keys_in_ksizes_bulk inp;
          km = list_keys_in_keys_bulk inp;
          max_keys = list_keys_in_max_keys inp;
          kbytes = wrap64 (8 * max_keys);
          fail = (\<lambda>r. Some (prov, out\<lparr>list_keys_out_ret := r\<rparr>, kz, km)) in
      FIND_PROVIDER prov fail (\<lambda>p.
      GET_INPUT M fail (
      FIND_DATABASE p (list_keys_in_db_id inp) fail (\<lambda>db.
      CHECK_HG (mg_bulk_create M 0 kbytes) fail (
      BULK_TRANSFER (mg_pull M 1 kbytes kz 0 kbytes) fail (\<lambda>buf.
      unsigned_loop max_keys (do {
        remote_ksizes \<leftarrow> read_sizes buf max_keys;
        found \<leftarrow> ds_list_keys V db (list_keys_in_start_key inp) max_keys (list_keys_in_prefix inp);
        let keys = take max_keys found;
        let num_keys = length keys;
        if num_keys = 0 then Some (prov, out, kz, km)
        else do {
          let true_ksizes = map length keys;
          let ksizes = true_ksizes @ replicate (max_keys - num_keys) 0;
          let out1 = out\<lparr>list_keys_out_nkeys := num_keys\<rparr>;
          BULK_TRANSFER (mg_push M 2 kz 0 (enc_sizes ksizes))
            (\<lambda>r. Some (prov, out1\<lparr>list_keys_out_ret := r\<rparr>, kz, km)) (\<lambda>kz'.
          if size_error true_ksizes remote_ksizes then
            Some (prov, out1\<lparr>list_keys_out_ret := rc SDSKV_ERR_SIZE\<rparr>, kz', km)
          else
            CHECK_HG (mg_bulk_create M 3 (sum_list true_ksizes))
              (\<lambda>r. Some (prov, out1\<lparr>list_keys_out_ret := r\<rparr>, kz', km)) (
            let (km', err) = push_items M 4 km 0 keys remote_ksizes in
            case err of
              Some hret \<Rightarrow> Some (prov, out1\<lparr>list_keys_out_ret := SDSKV_MAKE_HG_ERROR hret\<rparr>, kz', km')
            | None \<Rightarrow> Some (prov, out1\<lparr>list_keys_out_ret := rc SDSKV_SUCCESS\<rparr>, kz', km')))
        }
      })))))))"

text \<open>
  In \<open>list_keyvals\<close> a size error sets \<open>out.ret\<close> and the transfers go on; when they all succeed the
  last assignment sets \<open>SDSKV_SUCCESS\<close>. The regions are those of the key sizes, keys, value sizes and
  values.
\<close>

definition sdskv_list_keyvals_ult ::
  "margo \<Rightarrow> 'ds vtable \<Rightarrow> 'ds provider option \<Rightarrow> list_keyvals_in_t \<Rightarrow>
   ('ds provider option \<times> list_keys_out_t \<times> bulk \<times> bulk \<times> bulk \<times> bulk) option" where
  "sdskv_list_keyvals_ult M V prov inp =
     (let out = \<lparr>list_keys_out_nkeys = 0, list_keys_out_ret = rc SDSKV_SUCCESS\<rparr>;
          kz = list_keys_in_ksizes_bulk inp;
          km = list_keys_in_keys_bulk inp;
          vz = list_keyvals_in_vsizes_bulk inp;
          vm = list_keyvals_in_vals_bulk inp;
          max_keys = list_keys_in_max_keys inp;
          bytes = wrap64 (8 * max_keys);
          fail = (\<lambda>r. Some (prov, out\<lparr>list_keys_out_ret := r\<rparr>, kz, km, vz, vm)) in
      FIND_PROVIDER prov fail (\<lambda>p.
      GET_INPUT M fail (
      FIND_DATABASE p (list_keys_in_db_id inp) fail (\<lambda>db.
      CHECK_HG (mg_bulk_create M 0 bytes) fail (
      CHECK_HG (mg_bulk_create M 1 bytes) fail (
      BULK_TRANSFER (mg_pull M 2 bytes kz 0 bytes) fail (\<lambda>kbuf.
      BULK_TRANSFER (mg_pull M 3 bytes vz 0 bytes) fail (\<lambda>vbuf.
      unsigned_loop max_keys (do {
        remote_ksizes \<leftarrow> read_sizes kbuf max_keys;
        remote_vsizes \<leftarrow> read_sizes vbuf max_keys;
        found \<leftarrow> ds_list_keyvals V db (list_keys_in_start_key inp) max_keys (list_keys_in_prefix inp);
        let keyvals = take max_keys found;
        let num_keys = length keyvals;
        let out1 = out\<lparr>list_keys_out_nkeys := num_keys\<rparr>;
        if num_keys = 0 then Some (prov, out1, kz, km, vz, vm)
        else do {
          let keys = map fst keyvals;
          let vals = map snd keyvals;
          let ksizes = map length keys @ replicate (max_keys - num_keys) 0;
          let vsizes = map length vals @ replicate (max_keys - num_keys) 0;
          BULK_TRANSFER (mg_push M 4 kz 0 (enc_sizes ksizes))
            (\<lambda>r. Some (prov, out1\<lparr>list_keys_out_ret := r\<rparr>, kz, km, vz, vm)) (\<lambda>kz'.
          BULK_TRANSFER (mg_push M 5 vz 0 (enc_sizes vsizes))
            (\<lambda>r. Some (prov, out1\<lparr>list_keys_out_ret := r\<rparr>, kz', km, vz, vm)) (\<lambda>vz'.
          CHECK_HG (mg_bulk_create M 6 (sum_list (map length keys)))
            (\<lambda>r. Some (prov, out1\<lparr>list_keys_out_ret := r\<rparr>, kz', km, vz', vm)) (
          CHECK_HG (mg_bulk_create M 7 (sum_list (map length vals)))
            (\<lambda>r. Some (prov, out1\<lparr>list_keys_out_ret := r\<rparr>, kz', km, vz', vm)) (
          let (km', kerr) = push_items M 8 km 0 keys remote_ksizes in
          case kerr of
            Some hret \<Rightarrow> Some (prov, out1\<lparr>list_keys_out_ret := SDSKV_MAKE_HG_ERROR hret\<rparr>, kz', km', vz', vm)
          | None \<Rightarrow>
              let (vm', verr) = push_items M (8 + num_keys) vm 0 vals remote_vsizes in
              case verr of
                Some hret \<Rightarrow> Some (prov, out1\<lparr>list_keys_out_ret := SDSKV_MAKE_HG_ERROR hret\<rparr>, kz', km', vz', vm')
              | None \<Rightarrow> Some (prov, out1\<lparr>list_keys_out_ret := rc SDSKV_SUCCESS\<rparr>, kz', km', vz', vm')))))
        }
      })))))))))"

end
