(* ===== verification/Service.thy ===== *)
theory Service
  imports Server_List Client_List
begin

text \<open>
  Client and server put together: the service whose RPCs are the handlers of the server, and what the
  client functions do against it, for every backend that implements the interface \<open>datastore\<close> and for
  a runtime that does not fail.
\<close>

section \<open>The service of a provider\<close>

text \<open>The contents of the response structures that handlers do not initialise.\<close>

record uninit_out =
  un_open :: open_out_t
  un_count :: count_db_out_t
  un_list :: list_db_out_t
  un_length :: length_out_t
  un_exists :: exists_out_t

definition sdskv_service :: "margo \<Rightarrow> 'ds vtable \<Rightarrow> uninit_out \<Rightarrow> 'ds provider option service" where
  "sdskv_service M V U =
     \<lparr>sv_open = (\<lambda>st. sdskv_open_ult M st (un_open U)),
      sv_count_db = (\<lambda>st. sdskv_count_db_ult st (un_count U)),
      sv_list_db = (\<lambda>st. sdskv_list_db_ult M st (un_list U)),
      sv_put = sdskv_put_ult M V,
      sv_bulk_put = sdskv_bulk_put_ult M V,
      sv_get = sdskv_get_ult M V,
      sv_bulk_get = sdskv_bulk_get_ult M V,
      sv_length = (\<lambda>st. sdskv_length_ult M V st (un_length U)),
      sv_exists = (\<lambda>st. sdskv_exists_ult M V st (un_exists U)),
      sv_erase = sdskv_erase_ult M V,
      sv_put_multi = sdskv_put_multi_ult M V,
      sv_put_packed = sdskv_put_packed_ult M V,
      sv_get_multi = sdskv_get_multi_ult M V,
      sv_get_packed = sdskv_get_packed_ult M V,
      sv_length_multi = sdskv_length_multi_ult M V,
      sv_length_packed = sdskv_length_packed_ult M V,
      sv_exists_multi = sdskv_exists_multi_ult M V,
      sv_erase_multi = sdskv_erase_multi_ult M V,
      sv_list_keys = sdskv_list_keys_ult M V,
      sv_list_keyvals = sdskv_list_keyvals_ult M V\<rparr>"

lemma sdskv_service_sel [handler_simps]:
  "sv_open (sdskv_service M V U) st = sdskv_open_ult M st (un_open U)"
  "sv_count_db (sdskv_service M V U) st = sdskv_count_db_ult st (un_count U)"
  "sv_list_db (sdskv_service M V U) st = sdskv_list_db_ult M st (un_list U)"
  "sv_put (sdskv_service M V U) = sdskv_put_ult M V"
  "sv_bulk_put (sdskv_service M V U) = sdskv_bulk_put_ult M V"
  "sv_get (sdskv_service M V U) = sdskv_get_ult M V"
  "sv_bulk_get (sdskv_service M V U) = sdskv_bulk_get_ult M V"
  "sv_length (sdskv_service M V U) st = sdskv_length_ult M V st (un_length U)"
  "sv_exists (sdskv_service M V U) st = sdskv_exists_ult M V st (un_exists U)"
  "sv_erase (sdskv_service M V U) = sdskv_erase_ult M V"
  "sv_put_multi (sdskv_service M V U) = sdskv_put_multi_ult M V"
  "sv_put_packed (sdskv_service M V U) = sdskv_put_packed_ult M V"
  "sv_get_multi (sdskv_service M V U) = sdskv_get_multi_ult M V"
  "sv_get_packed (sdskv_service M V U) = sdskv_get_packed_ult M V"
  "sv_length_multi (sdskv_service M V U) = sdskv_length_multi_ult M V"
  "sv_length_packed (sdskv_service M V U) = sdskv_length_packed_ult M V"
  "sv_exists_multi (sdskv_service M V U) = sdskv_exists_multi_ult M V"
  "sv_erase_multi (sdskv_service M V U) = sdskv_erase_multi_ult M V"
  "sv_list_keys (sdskv_service M V U) = sdskv_list_keys_ult M V"
  "sv_list_keyvals (sdskv_service M V U) = sdskv_list_keyvals_ult M V"
  by (simp_all add: sdskv_service_def)

text \<open>
  \<open>serves dinv dabs st i a\<close>: in state \<open>st\<close> of the service database \<open>i\<close> is open, its object satisfies the
  invariant of its backend and has the abstract contents \<open>a\<close>.
\<close>

definition serves :: "('ds \<Rightarrow> bool) \<Rightarrow> ('ds \<Rightarrow> kv) \<Rightarrow> 'ds provider option \<Rightarrow> db_id \<Rightarrow> kv \<Rightarrow> bool" where
  "serves dinv dabs st i a \<longleftrightarrow>
     (\<exists>p db. st = Some p \<and> provider_inv p \<and> find_db p i = Some db \<and> dinv db \<and> dabs db = a)"

text \<open>All databases but \<open>i\<close> are as before, and so are the names.\<close>

definition only_db_changed :: "db_id \<Rightarrow> 'ds provider option \<Rightarrow> 'ds provider option \<Rightarrow> bool" where
  "only_db_changed i st st' \<longleftrightarrow>
     (\<exists>p p'. st = Some p \<and> st' = Some p' \<and> name2id p' = name2id p \<and> id2name p' = id2name p
        \<and> (\<forall>j. j \<noteq> i \<longrightarrow> find_db p' j = find_db p j))"

lemma servesE:
  assumes "serves dinv dabs st i a"
  obtains p db where "st = Some p" "provider_inv p" "find_db p i = Some db" "dinv db" "dabs db = a"
  using assms by (auto simp: serves_def)

lemma serves_set_db:
  assumes "provider_inv p" "find_db p i = Some db" "dinv db'"
  shows "serves dinv dabs (Some (set_db p i db')) i (dabs db')
    \<and> only_db_changed i (Some p) (Some (set_db p i db'))"
  using assms set_db_inv [of p i db'] find_db_set_db [of p i db']
  by (auto simp: serves_def only_db_changed_def)

lemma FIND_DATABASE_Some [handler_simps]:
  "find_db p i = Some db \<Longrightarrow> FIND_DATABASE p i fail k = k db"
  by (simp add: FIND_DATABASE_lookup)

section \<open>Operations on one key\<close>

context datastore
begin

lemma client_put:
  assumes "serves inv abs st i a" "margo_reliable M" "client_reliable C"
  shows "\<exists>st'. sdskv_put C (sdskv_service M V U) st i k v = Some (st', snd (kv_put a k v))
    \<and> serves inv abs st' i (fst (kv_put a k v)) \<and> only_db_changed i st st'"
proof -
  obtain p db where st: "st = Some p" "provider_inv p" "find_db p i = Some db" "inv db" "abs db = a"
    using assms(1) by (rule servesE)
  obtain db' where db': "vt_put V db k v = Some (db', snd (kv_put a k v))" "inv db'" "abs db' = fst (kv_put a k v)"
    using put_law [OF st(4), of k v] st(5) by auto
  have "sdskv_put C (sdskv_service M V U) st i k v = Some (Some (set_db p i db'), snd (kv_put a k v))"
    using assms(2,3) st(1,3) db'(1)
    by (cases v) (simp_all add: sdskv_put_def sdskv_put_ult_def sdskv_bulk_put_ult_def handler_simps buffer_simps Let_def)
  then show ?thesis
    using serves_set_db [OF st(2,3), of inv db' abs] st(1) db'(2,3) by auto
qed

lemma client_length:
  assumes "serves inv abs st i a" "margo_reliable M" "client_reliable C"
  shows "sdskv_length C (sdskv_service M V U) st i k n =
    Some (st, case kv_map a k of Some v \<Rightarrow> (rc SDSKV_SUCCESS, length v) | None \<Rightarrow> (rc SDSKV_ERR_UNKNOWN_KEY, n))"
proof -
  obtain p db where st: "st = Some p" "provider_inv p" "find_db p i = Some db" "inv db" "abs db = a"
    using assms(1) by (rule servesE)
  obtain b m where bm: "vt_length V db k 0 = (b, m)" by fastforce
  show ?thesis
    using assms(2,3) st(1,3) bm length_law [OF st(4), of k 0] length_value_law [OF st(4), of k _ 0] st(5)
    by (auto simp: sdskv_length_def sdskv_length_ult_def handler_simps Let_def split: option.splits)
qed

lemma client_get:
  assumes "serves inv abs st i a" "margo_reliable M" "client_reliable C" "n \<le> length buf"
  shows "\<exists>n'. sdskv_get C (sdskv_service M V U) st i k (Some buf) n =
      Some (st, case kv_map a k of
          None \<Rightarrow> (rc SDSKV_ERR_UNKNOWN_KEY, Some buf, n')
        | Some v \<Rightarrow>
            if length v \<le> n then (rc SDSKV_SUCCESS, Some (v @ drop (length v) buf), length v)
            else (rc SDSKV_ERR_SIZE, Some buf, length v))"
proof -
  obtain p db where st: "st = Some p" "provider_inv p" "find_db p i = Some db" "inv db" "abs db = a"
    using assms(1) by (rule servesE)
  have sl: "buf_slice buf 0 n = Some (take n buf)" using assms(4) by (simp add: buf_slice_def)
  note defs = sdskv_get_def sdskv_get_ult_def sdskv_bulk_get_ult_def handler_simps Let_def sl st(1,3)
  show ?thesis
  proof (cases "kv_map a k")
    case None
    then obtain d where "vt_get V db k [] = (False, d)"
      using get_law [OF st(4), of k "[]"] st(5) by (cases "vt_get V db k []") auto
    then show ?thesis
      using assms(2,3) None by (cases "wrap64 (n + 8 + 4) \<le> MAX_RPC_MESSAGE_SIZE") (simp_all add: defs)
  next
    case (Some v)
    then have got: "vt_get V db k [] = (True, v)" using get_eq [OF st(4)] st(5) by simp
    show ?thesis
    proof (cases "length v \<le> n")
      case True
      have ow: "overwrite buf 0 v = Some (v @ drop (length v) buf)"
        "overwrite (take n buf) 0 v = Some (v @ drop (length v) (take n buf))"
        using True assms(4) by (simp_all add: overwrite_def)
      have dr: "drop (length v) (take n buf) @ drop n buf = drop (length v) buf"
        using True by (metis append_take_drop_id drop_drop drop_take le_add_diff_inverse2)
      show ?thesis
        using assms(2,3) Some got True
        by (cases "wrap64 (n + 8 + 4) \<le> MAX_RPC_MESSAGE_SIZE"; cases "v = []") (simp_all add: defs ow dr)
    next
      case False
      then show ?thesis
        using assms(2,3) Some got
        by (cases "wrap64 (n + 8 + 4) \<le> MAX_RPC_MESSAGE_SIZE") (simp_all add: defs)
    qed
  qed
qed

lemma client_exists:
  assumes "serves inv abs st i a" "margo_reliable M" "client_reliable C"
  shows "sdskv_exists C (sdskv_service M V U) st i k f =
    Some (st, rc SDSKV_SUCCESS, if kv_map a k \<noteq> None then 1 else 0)"
proof -
  obtain p db where st: "st = Some p" "provider_inv p" "find_db p i = Some db" "inv db" "abs db = a"
    using assms(1) by (rule servesE)
  have "vt_exists_raw V db k (length k) = Some (kv_map a k \<noteq> None)"
    using exists_raw_law [OF st(4), of k "length k" k] st(5) by (simp add: buffer_simps)
  then show ?thesis
    using assms(2,3) st(1,3)
    by (simp add: sdskv_exists_def sdskv_exists_ult_def handler_simps Let_def)
qed

lemma client_erase:
  assumes "serves inv abs st i a" "margo_reliable M" "client_reliable C"
  shows "\<exists>st' r. sdskv_erase C (sdskv_service M V U) st i k = Some (st', r)
    \<and> serves inv abs st' i (kv_erase a k) \<and> only_db_changed i st st'
    \<and> (kv_map a k \<noteq> None \<longrightarrow> r = rc SDSKV_SUCCESS) \<and> (r = rc SDSKV_SUCCESS \<or> r = rc SDSKV_ERR_ERASE)"
proof -
  obtain p db where st: "st = Some p" "provider_inv p" "find_db p i = Some db" "inv db" "abs db = a"
    using assms(1) by (rule servesE)
  obtain db' b where db': "vt_erase V db k = (db', b)" by fastforce
  have "inv db'" "abs db' = kv_erase a k" "kv_map a k \<noteq> None \<longrightarrow> b"
    using erase_inv [OF st(4), of k] erase_law [OF st(4), of k] erase_ret [OF st(4), of k] db' st(5) by auto
  then show ?thesis
    using assms(2,3) st(1,3) db' serves_set_db [OF st(2,3), of inv db' abs]
    by (auto simp: sdskv_erase_def sdskv_erase_ult_def handler_simps Let_def)
qed

end

end
