(* ===== verification/Service_Multi.thy ===== *)
theory Service_Multi
  imports Service
begin

text \<open>
  The operations on several keys end to end: what the client functions of sdskv-client.c return when the
  service is the modelled server over a backend that implements the interface, with a runtime that does
  not fail and sizes that fit 64 bits.
\<close>

section \<open>Exposed regions are read back\<close>

definition fits64 :: "bulk list \<Rightarrow> bool" where
  "fits64 items \<longleftrightarrow> 8 * length items + sum_list (map length items) < 2 ^ 64"

lemma fits64_size: "fits64 items \<Longrightarrow> exposed_size items = length (expose_sized items)"
  by (simp add: fits64_def exposed_size_def expose_sized_def length_concat wrap64_def)

lemma fits64_items: "fits64 items \<Longrightarrow> \<forall>n\<in>set (map length items). n < 2 ^ 64"
proof
  fix n assume "fits64 items" "n \<in> set (map length items)"
  then show "n < 2 ^ 64" using member_le_sum_list [of n "map length items"] by (simp add: fits64_def)
qed

lemma read_expose_sized [buffer_simps]:
  "fits64 items \<Longrightarrow> num = length items \<Longrightarrow> read_sizes (expose_sized items) num = Some (map length items)"
  using read_sizes_enc_sizes [OF fits64_items, of items num "concat items"] by (simp add: expose_sized_def)

lemma drop_expose_sized [buffer_simps]:
  "num = length items \<Longrightarrow> drop (8 * num) (expose_sized items) = concat items"
  by (simp add: expose_sized_def)

lemma unpack_concat_all [buffer_simps]: "unpack (concat xss) (map length xss) = Some xss"
  using unpack_concat [of xss "[]"] by simp

lemma concat_filter_Nil: "concat (filter (\<lambda>v. v \<noteq> []) vs) = concat vs"
  by (induction vs) auto

lemma sum_list_filter_Nil: "sum_list (map length (filter (\<lambda>v. v \<noteq> []) vs)) = sum_list (map length vs)"
  by (induction vs) auto

lemma int_loop_small: "n < 2 ^ 31 \<Longrightarrow> int_loop n k = k"
  by (simp add: int_loop_def)

lemma unsigned_loop_small: "num < 2 ^ 31 \<Longrightarrow> unsigned_loop num k = k"
  by (simp add: unsigned_loop_def)

lemma wrap64_num: "num < 2 ^ 31 \<Longrightarrow> wrap64 (8 * num) = 8 * num" "num < 2 ^ 31 \<Longrightarrow> wrap64 (num * 8) = 8 * num"
  by (simp_all add: wrap64_def)

section \<open>Writing\<close>

context plain_datastore
begin

lemma put_multi_ult_law:
  assumes M: "margo_reliable M" and p: "find_db p i = Some db" "inv db"
    and len: "length vals = length keys" "length keys + 1 < 2 ^ 31" and fits: "fits64 keys" "fits64 vals"
  shows "\<exists>db'. sdskv_put_multi_ult M V (Some p)
      \<lparr>put_multi_in_db_id = i, put_multi_in_num_keys = length keys,
       put_multi_in_keys_bulk = expose_sized keys, put_multi_in_keys_bulk_size = exposed_size keys,
       put_multi_in_vals_bulk = expose_sized vals, put_multi_in_vals_bulk_size = exposed_size vals\<rparr>
     = Some (Some (set_db p i db'), snd (kv_puts (abs db) (zip keys vals) 0))
    \<and> inv db' \<and> abs db' = fst (kv_puts (abs db) (zip keys vals) 0)"
proof -
  define ks where "ks = map length keys"
  define vs where "vs = map length vals"
  define kp where "kp = key_ptrs (expose_sized keys) (8 * length keys) ks"
  define vp where "vp = val_ptrs (expose_sized vals) (8 * length keys) vs"
  have kp: "length kp = length keys" "\<forall>j<length keys. buf_slice (kp ! j) 0 (ks ! j) = Some (keys ! j)"
    using key_ptrs_slices [of "8 * length keys" "expose_sized keys" ks keys]
    by (simp_all add: ks_def kp_def buffer_simps)
  have vp: "length vp = length vals" "\<forall>j<length vals. buf_slice (vp ! j) 0 (vs ! j) = Some (vals ! j)"
    using val_ptrs_slices [of "8 * length keys" "expose_sized vals" vs vals]
    by (simp_all add: vs_def vp_def len(1) [symmetric] buffer_simps)
  obtain db' where db': "vt_put_multi V db (length keys) kp ks vp vs = Some (db', snd (kv_puts (abs db) (zip keys vals) 0))"
      "inv db'" "abs db' = fst (kv_puts (abs db) (zip keys vals) 0)"
    using put_multi_law [OF p(2), of "zip keys vals" kp ks vp vs] kp vp len(1) by (auto simp: ks_def vs_def)
  have num: "length keys < 2 ^ 31" using len(2) by simp
  have "sdskv_put_multi_ult M V (Some p)
      \<lparr>put_multi_in_db_id = i, put_multi_in_num_keys = length keys,
       put_multi_in_keys_bulk = expose_sized keys, put_multi_in_keys_bulk_size = exposed_size keys,
       put_multi_in_vals_bulk = expose_sized vals, put_multi_in_vals_bulk_size = exposed_size vals\<rparr>
     = Some (Some (set_db p i db'), snd (kv_puts (abs db) (zip keys vals) 0))"
    using M p(1) fits len db'(1) num
    by (simp add: sdskv_put_multi_ult_def handler_simps buffer_simps fits64_size unsigned_loop_small wrap64_num
        ks_def vs_def kp_def vp_def Let_def)
  then show ?thesis using db'(2,3) by blast
qed

lemma client_put_multi:
  assumes "serves inv abs st i a" "margo_reliable M" "client_reliable C"
    and len: "length vals = length keys" "length keys + 1 < 2 ^ 31" and fits: "fits64 keys" "fits64 vals"
    and "[] \<notin> set keys"
  shows "\<exists>st'. sdskv_put_multi C (sdskv_service M V U) ret0 st i keys vals
      = Some (st', snd (kv_puts a (zip keys vals) 0))
    \<and> serves inv abs st' i (fst (kv_puts a (zip keys vals) 0)) \<and> only_db_changed i st st'"
proof -
  obtain p db where st: "st = Some p" "provider_inv p" "find_db p i = Some db" "inv db" "abs db = a"
    using assms(1) by (rule servesE)
  obtain db' where db': "sdskv_put_multi_ult M V (Some p)
      \<lparr>put_multi_in_db_id = i, put_multi_in_num_keys = length keys,
       put_multi_in_keys_bulk = expose_sized keys, put_multi_in_keys_bulk_size = exposed_size keys,
       put_multi_in_vals_bulk = expose_sized vals, put_multi_in_vals_bulk_size = exposed_size vals\<rparr>
     = Some (Some (set_db p i db'), snd (kv_puts a (zip keys vals) 0))"
     "inv db'" "abs db' = fst (kv_puts a (zip keys vals) 0)"
    using put_multi_ult_law [OF assms(2) st(3,4) len fits] st(5) by auto
  have nonempty: "\<not> list_ex (\<lambda>k. length k = 0) keys"
    using assms(8) by (auto simp: list_ex_iff)
  have "exposed_size vals = wrap64 (8 * length keys + sum_list (map length vals))"
    by (simp add: exposed_size_def len(1))
  then have "sdskv_put_multi C (sdskv_service M V U) ret0 st i keys vals
      = Some (Some (set_db p i db'), snd (kv_puts a (zip keys vals) 0))"
    using assms(3) db'(1) nonempty len(2)
    by (simp add: sdskv_put_multi_def handler_simps st(1) int_loop_small concat_filter_Nil sum_list_filter_Nil
        expose_sized_def Let_def)
  then show ?thesis
    using serves_set_db [OF st(2,3), of inv db' abs] st(1) db'(2,3) by auto
qed

end

context plain_datastore
begin

lemma client_put_packed:
  assumes "serves inv abs st i a" "margo_reliable M" "client_reliable C"
    and len: "length vals = length keys" "length keys < 2 ^ 32"
    and fits: "16 * length keys + sum_list (map length keys) + sum_list (map length vals) < 2 ^ 64"
  shows "\<exists>st'. sdskv_put_packed C (sdskv_service M V U) st i (length keys)
        (concat keys) (map length keys) (concat vals) (map length vals)
      = Some (st', snd (kv_puts a (zip keys vals) 0))
    \<and> serves inv abs st' i (fst (kv_puts a (zip keys vals) 0)) \<and> only_db_changed i st st'"
proof -
  obtain p db where st: "st = Some p" "provider_inv p" "find_db p i = Some db" "inv db" "abs db = a"
    using assms(1) by (rule servesE)
  define ks where "ks = map length keys"
  define vs where "vs = map length vals"
  define buf where "buf = enc_sizes ks @ enc_sizes vs @ concat keys @ concat vals"
  have sums: "sum_list ks = length (concat keys)" "sum_list vs = length (concat vals)"
    by (simp_all add: ks_def vs_def length_concat)
  have small: "\<forall>n\<in>set ks. n < 2 ^ 64" "\<forall>n\<in>set vs. n < 2 ^ 64"
    using fits member_le_sum_list [of _ ks] member_le_sum_list [of _ vs] by (fastforce simp: ks_def vs_def)+
  have rk: "read_sizes buf (length keys) = Some ks"
    using read_sizes_enc_sizes [OF small(1), of "length keys"] by (simp add: buf_def ks_def)
  have rv: "read_sizes (drop (8 * length keys) buf) (length keys) = Some vs"
    using read_sizes_enc_sizes [OF small(2), of "length keys"] len by (simp add: buf_def ks_def vs_def)
  have pk: "drop (8 * length keys) (drop (8 * length keys) buf) = concat keys @ concat vals"
    using len by (simp add: buf_def ks_def vs_def)
  obtain db' where db': "vt_put_packed V db (length keys) (concat keys @ concat vals) ks (concat vals) vs
      = Some (db', snd (kv_puts a (zip keys vals) 0))" "inv db'" "abs db' = fst (kv_puts a (zip keys vals) 0)"
    using put_packed_law [OF st(4), of "concat keys @ concat vals" ks "zip keys vals" "concat vals" vs] len
    by (auto simp: ks_def vs_def buffer_simps st(5))
  have bs: "length buf < 2 ^ 64" "length buf = sum_list ks + sum_list vs + 2 * length keys * 8"
    using fits sums len by (simp_all add: buf_def ks_def vs_def length_concat)
  have "sdskv_put_packed_ult M V (Some p)
      \<lparr>put_packed_in_db_id = i, put_packed_in_origin_addr = None, put_packed_in_num_keys = length keys,
       put_packed_in_bulk_size = length buf, put_packed_in_bulk = buf\<rparr>
     = Some (Some (set_db p i db'), snd (kv_puts a (zip keys vals) 0))"
    using assms(2) st(3) len(2) db'(1) rk rv pk
    by (simp add: sdskv_put_packed_ult_def handler_simps buffer_simps unsigned_loop_def sums(1) Let_def
        del: drop_drop)
  moreover have "take (length keys) ks = ks" "take (length keys) vs = vs"
    using len by (simp_all add: ks_def vs_def)
  moreover have "wrap64 (sum_list ks) = length (concat keys)" "wrap64 (sum_list vs) = length (concat vals)"
    "wrap64 (length (concat keys) + length (concat vals) + 2 * length keys * 8) = length buf"
    using bs sums by (simp_all only: wrap64_small)
  moreover have "(if length (concat vals) = 0 then Some [] else buf_slice (concat vals) 0 (length (concat vals)))
      = Some (concat vals)"
    by (cases "concat vals") (simp_all add: buf_slice_def del: concat_eq_Nil_conv)
  moreover have "enc_sizes ks @ enc_sizes vs @ concat keys @ concat vals = buf"
    by (simp add: buf_def)
  ultimately have "sdskv_put_packed C (sdskv_service M V U) st i (length keys) (concat keys) ks (concat vals) vs
      = Some (Some (set_db p i db'), snd (kv_puts a (zip keys vals) 0))"
    using assms(3) len(2) unfolding sdskv_put_packed_def Let_def
    by (simp only: sdskv_proxy_put_packed_def handler_simps st(1)) (simp add: buffer_simps)
  then show ?thesis
    using serves_set_db [OF st(2,3), of inv db' abs] st(1) db'(2,3) by (auto simp: ks_def vs_def)
qed

end

section \<open>Reading\<close>

lemma overwrite_all: "length d = length m \<Longrightarrow> overwrite m 0 d = Some d"
  by (simp add: overwrite_def)

lemma copy_values_law:
  "list_all2 (\<lambda>v b. length v \<le> length b) vs bufs \<Longrightarrow>
   copy_values (concat vs @ rest) (map length vs) bufs
     = Some (map (\<lambda>(v, b). v @ drop (length v) b) (zip vs bufs))"
proof (induction rule: list_all2_induct)
  case (Cons v vs b bufs)
  then show ?case by (simp add: buffer_simps overwrite_def)
qed simp

lemma and_mask_bit: "m < 8 \<Longrightarrow> and c (push_bit m 1) \<noteq> (0 :: byte) \<longleftrightarrow> bit c m"
  by (metis and_exp_eq_0_iff_not_bit push_bit_of_1)

lemma read_flags_law:
  "i + n \<le> 8 * length flags \<Longrightarrow> bmask = push_bit (i mod 8) 1 \<Longrightarrow>
   (\<And>j. i \<le> j \<Longrightarrow> j < i + n \<Longrightarrow> bit (flags ! (j div 8)) (j mod 8) = P j) \<Longrightarrow>
   read_flags flags n i bmask = Some (map (\<lambda>j. if P (i + j) then 1 else 0) [0..<n])"
proof (induction n arbitrary: i bmask)
  case (Suc n)
  have mask': "(if i mod 8 = 7 then 1 else push_bit 1 bmask) = push_bit (Suc i mod 8) (1 :: byte)"
    using Suc.prems(2) by (auto simp: mod_Suc push_bit_push_bit)
  have "and (flags ! (i div 8)) bmask \<noteq> 0 \<longleftrightarrow> P i"
    using Suc.prems(3) [of i] and_mask_bit [of "i mod 8" "flags ! (i div 8)"] Suc.prems(2) by simp
  moreover have "read_flags flags n (Suc i) (push_bit (Suc i mod 8) 1)
      = Some (map (\<lambda>j. if P (Suc i + j) then 1 else 0) [0..<n])"
    using Suc.prems by (intro Suc.IH) auto
  moreover have "[0..<Suc n] = 0 # map Suc [0..<n]"
    by (simp add: map_Suc_upt upt_conv_Cons del: upt_Suc)
  ultimately show ?case
    using Suc.prems(1) by (simp add: mask' del: upt_Suc)
qed simp

context datastore
begin

lemma client_get_multi:
  assumes "serves inv abs st i a" "margo_reliable M" "client_reliable C"
    and len: "length caps = length keys" "length keys + 1 < 2 ^ 31" and fits: "fits64 keys"
    and caps: "sum_list caps + 8 * length keys < 2 ^ 64"
    and bufs: "list_all2 (\<lambda>c b. c \<le> length b) caps bufs"
    and vs: "vs = map (\<lambda>(k, c). fetch a k c) (zip keys caps)"
  shows "sdskv_get_multi C (sdskv_service M V U) ret0 un st i keys (Some bufs) caps
    = Some (st, rc SDSKV_SUCCESS, Some (map (\<lambda>(v, b). v @ drop (length v) b) (zip vs bufs)), map length vs)"
proof -
  obtain p db where st: "st = Some p" "provider_inv p" "find_db p i = Some db" "inv db" "abs db = a"
    using assms(1) by (rule servesE)
  define num where "num = length keys"
  define mem where "mem = enc_sizes caps @ malloc_bytes un (sum_list caps)"
  define zeros where "zeros = replicate (sum_list caps) (0 :: byte)"
  define data where "data = concat vs @ drop (length (concat vs)) zeros"
  have small: "\<forall>n\<in>set caps. n < 2 ^ 64"
    using caps member_le_sum_list [of _ caps] by fastforce
  have lvs: "length vs = num" using vs len by (simp add: num_def)
  have le: "list_all2 (\<lambda>v c. length v \<le> c) vs caps"
    unfolding vs using len(1) by (auto simp: list_all2_conv_all_nth length_fetch)
  then have lcat: "length (concat vs) \<le> sum_list caps"
    by (induction rule: list_all2_induct) auto
  have small': "\<forall>n\<in>set (map length vs). n < 2 ^ 64"
    using lcat caps member_le_sum_list [of _ "map length vs"] by (fastforce simp: length_concat)
  have loop: "get_multi_loop V db (concat keys) (map length keys) caps zeros 0 = Some (map length vs, data)"
    using get_multi_loop_law [OF st(4) unpack_concat_all len(1), of "[]" 0 zeros vs] vs st(5)
    by (simp add: zeros_def data_def)
  have lmem: "length mem = sum_list caps + 8 * num" using len by (simp add: mem_def malloc_bytes_def num_def)
  have ldata: "length (enc_sizes (map length vs) @ data) = length mem"
    using lmem lvs lcat by (simp add: data_def zeros_def)
  have sl: "buf_slice mem 0 (num * 8) = Some (enc_sizes caps)"
    using len(1) by (simp add: mem_def num_def buffer_simps)
  have rc1: "read_sizes (enc_sizes caps @ zeros) num = Some caps"
    using read_sizes_enc_sizes [OF small] len(1) by (simp add: num_def)
  have num: "num < 2 ^ 31" using len(2) by (simp add: num_def)
  have ks: "read_sizes (expose_sized keys) num = Some (map length keys)"
      "drop (8 * num) (expose_sized keys) = concat keys"
    using fits by (simp_all add: buffer_simps num_def)
  have lz: "length (enc_sizes caps) = 8 * num" using len(1) by (simp add: num_def)
  have server: "sdskv_get_multi_ult M V (Some p)
      \<lparr>get_multi_in_db_id = i, get_multi_in_num_keys = num,
       get_multi_in_keys_bulk = expose_sized keys, get_multi_in_keys_bulk_size = exposed_size keys,
       get_multi_in_vals_bulk = mem, get_multi_in_vals_bulk_size = sum_list caps + 8 * num\<rparr>
     = Some (Some p, rc SDSKV_SUCCESS, enc_sizes (map length vs) @ data)"
    using assms(2) st(3) fits loop rc1 num overwrite_all [OF ldata] ks lz
    by (simp add: sdskv_get_multi_ult_def handler_simps buffer_simps fits64_size unsigned_loop_small wrap64_num
        reliable_pull [OF assms(2) sl] zeros_def Let_def)
  have sizes_back: "read_sizes (enc_sizes (map length vs) @ data) num = Some (map length vs)"
    using read_sizes_enc_sizes [OF small'] lvs by simp
  have "list_all2 (\<lambda>v b. length v \<le> length b) vs bufs"
    using le bufs by (fastforce simp: list_all2_conv_all_nth)
  then have copy: "copy_values data (map length vs) bufs = Some (map (\<lambda>(v, b). v @ drop (length v) b) (zip vs bufs))"
    unfolding data_def by (rule copy_values_law)
  show ?thesis
    using assms(3) server sizes_back copy len caps num lvs
    by (simp add: sdskv_get_multi_def handler_simps st(1) int_loop_small Let_def num_def [symmetric]
        mem_def [symmetric])
qed

lemma client_length_multi:
  assumes "serves inv abs st i a" "margo_reliable M" "client_reliable C"
    and len: "length vsizes = length keys" "length keys + 1 < 2 ^ 31" and fits: "fits64 keys"
    and small: "\<forall>k\<in>set keys. stored_size a k < 2 ^ 64"
  shows "sdskv_length_multi C (sdskv_service M V U) ret0 st i keys vsizes
    = Some (st, rc SDSKV_SUCCESS, map (stored_size a) keys)"
proof -
  obtain p db where st: "st = Some p" "provider_inv p" "find_db p i = Some db" "inv db" "abs db = a"
    using assms(1) by (rule servesE)
  define sizes where "sizes = map (stored_size a) keys"
  have num: "length keys < 2 ^ 31" using len(2) by simp
  have loop: "lengths_loop V db (concat keys) (map length keys) = Some sizes"
    using lengths_loop_law [OF st(4) unpack_concat_all] st(5) by (simp add: sizes_def)
  have ow: "overwrite (enc_sizes vsizes) 0 (enc_sizes sizes) = Some (enc_sizes sizes)"
    by (rule overwrite_all) (simp add: sizes_def len)
  have rd: "read_sizes (enc_sizes sizes) (length keys) = Some sizes"
    using small by (intro read_sizes_enc_sizes') (auto simp: sizes_def)
  have "sdskv_length_multi_ult M V (Some p)
      \<lparr>length_multi_in_db_id = i, length_multi_in_num_keys = length keys,
       length_multi_in_keys_bulk = expose_sized keys, length_multi_in_keys_bulk_size = exposed_size keys,
       length_multi_in_vals_size_bulk = enc_sizes vsizes\<rparr>
     = Some (Some p, rc SDSKV_SUCCESS, enc_sizes sizes)"
    using assms(2) st(3) fits loop num ow
    by (simp add: sdskv_length_multi_ult_def handler_simps buffer_simps fits64_size unsigned_loop_small Let_def)
  then show ?thesis
    using assms(3) len rd
    by (simp add: sdskv_length_multi_def handler_simps st(1) int_loop_small Let_def sizes_def)
qed

lemma client_erase_multi:
  assumes "serves inv abs st i a" "margo_reliable M" "client_reliable C"
    and len: "length keys + 1 < 2 ^ 31" and fits: "fits64 keys"
  shows "\<exists>st'. sdskv_erase_multi C (sdskv_service M V U) ret0 st i keys = Some (st', rc SDSKV_SUCCESS)
    \<and> serves inv abs st' i (foldl kv_erase a keys) \<and> only_db_changed i st st'"
proof -
  obtain p db where st: "st = Some p" "provider_inv p" "find_db p i = Some db" "inv db" "abs db = a"
    using assms(1) by (rule servesE)
  obtain db' where db': "erase_multi_loop V (concat keys) (map length keys) db = Some db'" "inv db'"
      "abs db' = foldl kv_erase a keys"
    using erase_multi_loop_law [OF st(4) unpack_concat_all] st(5) by blast
  have num: "length keys < 2 ^ 31" using len by simp
  have "sdskv_erase_multi C (sdskv_service M V U) ret0 st i keys = Some (Some (set_db p i db'), rc SDSKV_SUCCESS)"
    using assms(2,3) st(1,3) fits num len db'(1)
    by (simp add: sdskv_erase_multi_def sdskv_erase_multi_ult_def handler_simps buffer_simps fits64_size
        int_loop_small unsigned_loop_small Let_def)
  then show ?thesis
    using serves_set_db [OF st(2,3), of inv db' abs] st(1) db'(2,3) by auto
qed

lemma client_exists_multi:
  assumes "serves inv abs st i a" "margo_reliable M" "client_reliable C"
    and len: "length flags = length keys" "length keys + 1 < 2 ^ 31" and fits: "fits64 keys"
  shows "sdskv_exists_multi C (sdskv_service M V U) ret0 st i keys flags
    = Some (st, rc SDSKV_SUCCESS, map (\<lambda>k. if kv_map a k \<noteq> None then 1 else 0) keys)"
proof -
  obtain p db where st: "st = Some p" "provider_inv p" "find_db p i = Some db" "inv db" "abs db = a"
    using assms(1) by (rule servesE)
  define num where "num = length keys"
  define fsize where "fsize = num div 8 + (if num mod 8 = 0 then 0 else 1)"
  have fsize: "num \<le> 8 * fsize" unfolding fsize_def by (cases "num mod 8 = 0") presburger+
  have num: "num < 2 ^ 31" using len(2) by (simp add: num_def)
  obtain fl where fl: "exists_multi_loop V db (concat keys) (map length keys) 0 1 (replicate fsize 0) = Some fl"
      "length fl = fsize"
      "\<And>j. j < 8 * fsize \<Longrightarrow> bit (fl ! (j div 8)) (j mod 8) \<longleftrightarrow> j < num \<and> kv_map a (keys ! j) \<noteq> None"
    using exists_multi_loop_law [OF st(4) unpack_concat_all [of keys], of 0 "replicate fsize 0" 1] fsize st(5)
    by (auto simp: num_def)
  have flags: "read_flags fl num 0 1 = Some (map (\<lambda>k. if kv_map a k \<noteq> None then 1 else 0) keys)"
  proof -
    have "read_flags fl num 0 1 = Some (map (\<lambda>j. if kv_map a (keys ! (0 + j)) \<noteq> None then 1 else 0) [0..<num])"
      using fl(2,3) fsize by (intro read_flags_law) auto
    also have "map (\<lambda>j. if kv_map a (keys ! (0 + j)) \<noteq> None then 1 else 0) [0..<num]
        = map (\<lambda>k. if kv_map a k \<noteq> None then 1 else (0 :: int32)) keys"
      by (rule nth_equalityI) (simp_all add: num_def)
    finally show ?thesis .
  qed
  have "sdskv_exists_multi_ult M V (Some p)
      \<lparr>exists_multi_in_db_id = i, exists_multi_in_num_keys = num,
       exists_multi_in_keys_bulk = expose_sized keys, exists_multi_in_keys_bulk_size = exposed_size keys,
       exists_multi_in_flags_bulk = replicate fsize 0\<rparr>
     = Some (Some p, rc SDSKV_SUCCESS, fl)"
    using assms(2) st(3) fits fl(1,2) num
    by (simp add: sdskv_exists_multi_ult_def handler_simps buffer_simps fits64_size unsigned_loop_small
        overwrite_all Let_def num_def fsize_def)
  then show ?thesis
    using assms(3) len flags
    by (simp add: sdskv_exists_multi_def handler_simps st(1) int_loop_small Let_def num_def fsize_def overwrite_all)
qed

end

section \<open>Packed reads\<close>

text \<open>What \<open>get_packed\<close> reports as the size of a key's value, and the bytes it packs for it.\<close>

definition packed_size :: "kv \<Rightarrow> bulk \<Rightarrow> nat" where
  "packed_size a k = (case kv_map a k of Some v \<Rightarrow> length v | None \<Rightarrow> 2 ^ 64 - 1)"

definition packed_value :: "kv \<Rightarrow> bulk \<Rightarrow> bulk" where
  "packed_value a k = (case kv_map a k of Some v \<Rightarrow> v | None \<Rightarrow> [])"

context datastore
begin

lemma get_packed_loop_law:
  "inv db \<Longrightarrow> unpack packed_keys key_sizes = Some keys \<Longrightarrow> 0 < available \<Longrightarrow>
   \<forall>k\<in>set keys. length (packed_value (abs db) k) \<le> available \<Longrightarrow>
   length pre = off \<Longrightarrow> vs = map (packed_value (abs db)) keys \<Longrightarrow> length (concat vs) \<le> length rest \<Longrightarrow>
   get_packed_loop V db packed_keys key_sizes available (pre @ rest) off out
     = Some (map (packed_size (abs db)) keys, pre @ concat vs @ drop (length (concat vs)) rest,
         out\<lparr>get_packed_out_num_keys := get_packed_out_num_keys out
           + length (filter (\<lambda>k. kv_map (abs db) k \<noteq> None) keys)\<rparr>)"
proof (induction key_sizes arbitrary: packed_keys keys pre off rest vs out)
  case (Cons ks key_sizes)
  obtain k keys' where k: "keys = k # keys'" "buf_slice packed_keys 0 ks = Some k"
      "unpack (drop ks packed_keys) key_sizes = Some keys'"
    using Cons.prems(2) by (rule unpack_Cons)
  define v where "v = packed_value (abs db) k"
  define vs' where "vs' = map (packed_value (abs db)) keys'"
  have vs: "vs = v # vs'" using Cons.prems(6) by (simp add: k v_def vs'_def)
  have v: "length v \<le> available" using Cons.prems(4) by (simp add: k v_def)
  have IH: "get_packed_loop V db (drop ks packed_keys) key_sizes available ((pre @ v) @ drop (length v) rest) (off + length v) out'
     = Some (map (packed_size (abs db)) keys', (pre @ v) @ concat vs' @ drop (length (concat vs')) (drop (length v) rest),
         out'\<lparr>get_packed_out_num_keys := get_packed_out_num_keys out'
           + length (filter (\<lambda>k. kv_map (abs db) k \<noteq> None) keys')\<rparr>)" for out'
    using Cons.prems(4,5,7) vs
    by (intro Cons.IH [OF Cons.prems(1) k(3) Cons.prems(3) _ _ vs'_def]) (simp_all add: k)
  show ?case
  proof (cases "kv_map (abs db) k")
    case None
    then obtain d where "vt_get V db k [] = (False, d)"
      using get_law [OF Cons.prems(1), of k "[]"] by (cases "vt_get V db k []") auto
    moreover have "v = []" using None by (simp add: v_def packed_value_def)
    ultimately show ?thesis
      using IH [of out] None Cons.prems(3) k by (simp add: vs packed_size_def Let_def)
  next
    case (Some w)
    then have "vt_get V db k [] = (True, w)" "v = w"
      using get_eq [OF Cons.prems(1)] by (simp_all add: v_def packed_value_def)
    moreover have "overwrite (pre @ rest) off v = Some ((pre @ v) @ drop (length v) rest)"
      using Cons.prems(5,7) vs by (intro overwrite_at) simp_all
    ultimately show ?thesis
      using IH [of "out\<lparr>get_packed_out_num_keys := get_packed_out_num_keys out + 1\<rparr>"] Some Cons.prems(3) k v
      by (simp add: vs packed_size_def Let_def add.commute)
  qed
qed simp

lemma client_get_packed:
  assumes "serves inv abs st i a" "margo_reliable M" "client_reliable C"
    and len: "length vsizes = length keys" "length keys < 2 ^ 32" and fits: "fits64 keys"
    and buf: "0 < n" "length buf = n" "8 * length keys + n < 2 ^ 64"
    and total: "length (concat (map (packed_value a) keys)) \<le> n"
  shows "sdskv_get_packed C (sdskv_service M V U) st i (length keys) (concat keys) (map length keys) n buf vsizes
    = Some (st, rc SDSKV_SUCCESS, length (filter (\<lambda>k. kv_map a k \<noteq> None) keys),
        concat (map (packed_value a) keys) @ replicate (n - length (concat (map (packed_value a) keys))) 0,
        map (packed_size a) keys)"
proof -
  obtain p db where st: "st = Some p" "provider_inv p" "find_db p i = Some db" "inv db" "abs db = a"
    using assms(1) by (rule servesE)
  define vs where "vs = map (packed_value a) keys"
  define out where "out = \<lparr>get_packed_out_ret = rc SDSKV_SUCCESS,
    get_packed_out_num_keys = length (filter (\<lambda>k. kv_map a k \<noteq> None) keys)\<rparr>"
  define data where "data = concat vs @ replicate (n - length (concat vs)) (0 :: byte)"
  have le: "\<forall>k\<in>set keys. length (packed_value a k) \<le> n"
  proof
    fix k assume "k \<in> set keys"
    then have "length (packed_value a k) \<le> length (concat vs)"
      using member_le_sum_list [of "length (packed_value a k)" "map length vs"] by (simp add: vs_def length_concat)
    then show "length (packed_value a k) \<le> n" using total by (simp add: vs_def)
  qed
  have loop: "get_packed_loop V db (concat keys) (map length keys) n (replicate n 0) 0
      \<lparr>get_packed_out_ret = rc SDSKV_SUCCESS, get_packed_out_num_keys = 0\<rparr>
     = Some (map (packed_size a) keys, data, out)"
    using get_packed_loop_law [OF st(4) unpack_concat_all [of keys] buf(1) _ _ _ _, of "[]" 0 vs "replicate n 0"] le st(5) total
    by (simp add: vs_def data_def out_def)
  have small: "\<forall>s\<in>set (map (packed_size a) keys). s < 2 ^ 64"
    using le buf(3) by (fastforce simp: packed_size_def packed_value_def split: option.splits)
  define sizes where "sizes = map (packed_size a) keys"
  have ow: "overwrite (enc_sizes vsizes @ buf) 0 (enc_sizes sizes @ data) = Some (enc_sizes sizes @ data)"
    using total by (intro overwrite_all) (simp add: len buf data_def vs_def sizes_def)
  have avail: "wrap64 (8 * length keys + n + 2 ^ 64 - wrap64 (8 * length keys)) = n"
    using buf(3) by (simp add: wrap64_def)
  have rz: "read_sizes (replicate (8 * length keys + n) 0) (length keys) \<noteq> None"
    by (simp add: read_sizes_None)
  then obtain zs where zs: "read_sizes (replicate (8 * length keys + n) 0) (length keys) = Some zs" by blast
  have server: "sdskv_get_packed_ult M V (Some p)
      \<lparr>get_packed_in_db_id = i, get_packed_in_num_keys = length keys,
       get_packed_in_keys_bulk_size = exposed_size keys, get_packed_in_keys_bulk = expose_sized keys,
       get_packed_in_vals_bulk_size = 8 * length keys + n, get_packed_in_vals_bulk = enc_sizes vsizes @ buf\<rparr>
     = Some (Some p, out, enc_sizes sizes @ data)"
    using assms(2) st(3) fits loop ow len(2) avail zs
    by (simp add: sdskv_get_packed_ult_def handler_simps buffer_simps fits64_size unsigned_loop_def Let_def
        sizes_def [symmetric])
  have rd: "read_sizes (enc_sizes sizes @ data) (length keys) = Some sizes"
    using small by (intro read_sizes_enc_sizes) (simp_all add: sizes_def)
  have eqs: "take (length keys) (map length keys) = map length keys" "take (length keys) vsizes = vsizes"
    "drop (length keys) vsizes = []" "drop n buf = []"
    "wrap64 (sum_list (map length keys)) = length (concat keys)"
    "wrap64 (length (concat keys) + length keys * 8) = exposed_size keys"
    "wrap64 (length keys * 8 + n) = 8 * length keys + n"
    "enc_sizes (map length keys) @ concat keys = expose_sized keys"
    using len buf fits
    by (simp_all add: exposed_size_def expose_sized_def length_concat fits64_def algebra_simps)
  show ?thesis
    using assms(3) server rd len(2) buf(2)
    unfolding sdskv_get_packed_def Let_def eqs
    by (simp add: handler_simps st(1) eqs buffer_simps data_def vs_def out_def sizes_def [symmetric])
       (simp add: sizes_def)?
qed

text \<open>
  The memory counted as available is not reduced by what has been packed: two values that fit the
  buffer one by one but not together are written beyond its end.
\<close>

lemma client_get_packed_overflow:
  assumes "serves inv abs st i a" "margo_reliable M" "client_reliable C"
    and kv: "kv_map a k1 = Some v1" "kv_map a k2 = Some v2"
    and n: "length v1 \<le> n" "length v2 \<le> n" "n < length v1 + length v2" "n + 16 < 2 ^ 64"
    and fits: "fits64 [k1, k2]" and buf: "length buf = n" "length vsizes = 2"
  shows "sdskv_get_packed C (sdskv_service M V U) st i 2 (k1 @ k2) [length k1, length k2] n buf vsizes = None"
proof -
  obtain p db where st: "st = Some p" "provider_inv p" "find_db p i = Some db" "inv db" "abs db = a"
    using assms(1) by (rule servesE)
  have get: "vt_get V db k1 [] = (True, v1)" "vt_get V db k2 [] = (True, v2)"
    using get_eq [OF st(4)] kv st(5) by simp_all
  have ow: "overwrite (replicate n 0) 0 v1 = Some (v1 @ replicate (n - length v1) 0)"
    "overwrite (v1 @ replicate (n - length v1) 0) (length v1) v2 = None"
    using n by (simp_all add: overwrite_def)
  have "0 < n" using n by simp
  then have loop: "get_packed_loop V db (k1 @ k2) [length k1, length k2] n (replicate n 0) 0 out = None" for out
    using get ow n by (simp add: buffer_simps Let_def)
  obtain zs where zs: "read_sizes (replicate (16 + n) 0) 2 = Some zs"
    using read_sizes_None [of "replicate (16 + n) 0" 2] by fastforce
  have ks: "read_sizes (expose_sized [k1, k2]) 2 = Some [length k1, length k2]"
    "drop 16 (expose_sized [k1, k2]) = k1 @ k2"
    using read_expose_sized [OF fits, of 2] drop_expose_sized [of 2 "[k1, k2]"] by simp_all
  have avail: "wrap64 (16 + n + 2 ^ 64 - wrap64 16) = n"
    using n(4) by (simp add: wrap64_def)
  have server: "sdskv_get_packed_ult M V (Some p)
      \<lparr>get_packed_in_db_id = i, get_packed_in_num_keys = 2,
       get_packed_in_keys_bulk_size = exposed_size [k1, k2], get_packed_in_keys_bulk = expose_sized [k1, k2],
       get_packed_in_vals_bulk_size = 16 + n, get_packed_in_vals_bulk = mem\<rparr> = None" for mem
    using assms(2) st(3) fits loop avail zs ks
    by (simp add: sdskv_get_packed_ult_def handler_simps buffer_simps fits64_size unsigned_loop_def Let_def)
  have eqs: "wrap64 (length k1 + length k2) = length k1 + length k2"
    "wrap64 (length k1 + length k2 + 16) = exposed_size [k1, k2]"
    "wrap64 (16 + n) = 16 + n"
    "enc_sizes [length k1, length k2] @ k1 @ k2 = expose_sized [k1, k2]"
    using n(4) fits by (simp_all add: exposed_size_def expose_sized_def fits64_def add_ac)
  have sl: "buf_slice (k1 @ k2) 0 (length k1 + length k2) = Some (k1 @ k2)" "buf_slice buf 0 n = Some buf"
    using buf by (simp_all add: buf_slice_def)
  show ?thesis
    using assms(3) server sl eqs
    by (simp add: sdskv_get_packed_def handler_simps st(1) Let_def del: enc_sizes_Cons)
qed

lemma client_length_packed:
  assumes "serves inv abs st i a" "margo_reliable M" "client_reliable C"
    and len: "length vsizes = length keys" "length keys < 2 ^ 31" and fits: "fits64 keys"
    and small: "\<forall>k\<in>set keys. stored_size a k < 2 ^ 64"
  shows "sdskv_length_packed C (sdskv_service M V U) st i (length keys) (concat keys) (map length keys) vsizes
    = Some (st, rc SDSKV_SUCCESS, map (stored_size a) keys)"
proof -
  obtain p db where st: "st = Some p" "provider_inv p" "find_db p i = Some db" "inv db" "abs db = a"
    using assms(1) by (rule servesE)
  define sizes where "sizes = map (stored_size a) keys"
  have loop: "lengths_loop V db (concat keys) (map length keys) = Some sizes"
    using lengths_loop_law [OF st(4) unpack_concat_all] st(5) by (simp add: sizes_def)
  have ow: "overwrite (enc_sizes vsizes) 0 (enc_sizes sizes) = Some (enc_sizes sizes)"
    by (rule overwrite_all) (simp add: sizes_def len)
  have rd: "read_sizes (enc_sizes sizes) (length keys) = Some sizes"
    using small by (intro read_sizes_enc_sizes') (auto simp: sizes_def)
  have server: "sdskv_length_packed_ult M V (Some p)
      \<lparr>length_packed_in_db_id = i, length_packed_in_num_keys = length keys,
       length_packed_in_in_bulk_size = exposed_size keys, length_packed_in_in_bulk = expose_sized keys,
       length_packed_in_out_bulk = enc_sizes vsizes\<rparr>
     = Some (Some p, rc SDSKV_SUCCESS, enc_sizes sizes)"
    using assms(2) st(3) fits loop len ow
    by (simp add: sdskv_length_packed_ult_def handler_simps buffer_simps fits64_size unsigned_loop_small Let_def)
  have eqs: "take (length keys) (map length keys) = map length keys" "take (length keys) vsizes = vsizes"
    "drop (length keys) vsizes = []"
    "wrap64 (sum_list (map length keys)) = length (concat keys)"
    "wrap64 (length (concat keys) + length keys * 8) = exposed_size keys"
    "enc_sizes (map length keys) @ concat keys = expose_sized keys"
    using len fits by (simp_all add: exposed_size_def expose_sized_def length_concat fits64_def algebra_simps)
  show ?thesis
    using assms(3) server rd len(2) unfolding sdskv_length_packed_def Let_def eqs
    by (simp add: handler_simps st(1) eqs buffer_simps sizes_def [symmetric])
qed

end

end
