(* ===== verification/Service_List.thy ===== *)
theory Service_List
  imports Service_Multi
begin

text \<open>
  Listing end to end: the client's buffers after \<open>sdskv_list_keys_with_prefix\<close> and
  \<open>sdskv_list_keyvals_with_prefix\<close> when the service is the modelled server, in terms of what the backend lists.
\<close>

section \<open>Filling the client's buffers\<close>

text \<open>Each item at the start of its buffer, the other buffers unchanged.\<close>

fun fill :: "bulk list \<Rightarrow> bulk list \<Rightarrow> bulk list" where
  "fill (k # ks) (b # bs) = (k @ drop (length k) b) # fill ks bs"
| "fill ks bs = bs"

definition items_fit :: "bulk list \<Rightarrow> bulk list \<Rightarrow> bool" where
  "items_fit items bufs \<longleftrightarrow>
     length items \<le> length bufs \<and> (\<forall>j<length items. length (items ! j) \<le> length (bufs ! j))"

lemma items_fit_Cons [simp]: "items_fit (k # ks) (b # bs) \<longleftrightarrow> length k \<le> length b \<and> items_fit ks bs"
  by (auto simp: items_fit_def All_less_Suc2)

lemma items_fit_Cons_Nil [simp]: "\<not> items_fit (k # ks) []"
  by (simp add: items_fit_def)

lemma length_fill [simp]: "length (fill ks bs) = length bs"
  by (induction ks bs rule: fill.induct) auto

lemma map_length_fill: "items_fit ks bs \<Longrightarrow> map length (fill ks bs) = map length bs"
  by (induction ks bs rule: fill.induct) auto

lemma push_items_law:
  "margo_reliable M \<Longrightarrow> items_fit ks bufs \<Longrightarrow> length pre + sum_list (map length bufs) < 2 ^ 64 \<Longrightarrow>
   push_items M n (pre @ concat bufs) (length pre) ks (map length bufs) = (pre @ concat (fill ks bufs), None)"
proof (induction ks bufs arbitrary: n pre rule: fill.induct)
  case (1 k ks b bs)
  have w: "wrap64 (length pre + length b) = length pre + length b" using 1(4) by simp
  have IH: "push_items M (Suc n) ((pre @ b') @ concat bs) (length (pre @ b')) ks (map length bs)
      = ((pre @ b') @ concat (fill ks bs), None)" if "length b' = length b" for b'
    using 1(3,4) that by (intro 1(1) [OF 1(2)]) simp_all
  show ?case
  proof (cases "k = []")
    case True
    then show ?thesis using IH [of b] w by simp
  next
    case False
    have "overwrite (pre @ b @ concat bs) (length pre) k = Some (pre @ (k @ drop (length k) b) @ concat bs)"
      using 1(3) by (simp add: overwrite_def)
    then show ?thesis
      using False IH [of "k @ drop (length k) b"] 1(2,3) w by (simp add: reliable_push)
  qed
qed simp_all

lemma size_error_fit: "items_fit ks bufs \<Longrightarrow> \<not> size_error (map length ks) (map length bufs)"
  by (auto simp: size_error_def items_fit_def list_ex_iff in_set_zip not_le [symmetric])

lemma size_error_unfit:
  "j < length ks \<Longrightarrow> j < length bufs \<Longrightarrow> length (bufs ! j) < length (ks ! j) \<Longrightarrow>
   size_error (map length ks) (map length bufs)"
  unfolding size_error_def list_ex_iff
  by (rule bexI [of _ "(length (ks ! j), length (bufs ! j))"]) (auto simp: in_set_zip intro!: exI [of _ j])

section \<open>Gathering and scattering\<close>

lemma gather_bufs: "gather (map Some bufs) (map length bufs) = Some (concat bufs)"
  by (induction bufs) (simp_all add: buffer_simps)

lemma scatter_bufs:
  "map length bufs' = map length bufs \<Longrightarrow> scatter (concat bufs') (map Some bufs) (map length bufs) = map Some bufs'"
proof (induction bufs arbitrary: bufs')
  case (Cons b bufs)
  then show ?case by (cases bufs') auto
qed simp

lemma not_requesting_sizes:
  "[] \<notin> set bufs \<Longrightarrow> \<not> requesting_sizes (Some (map Some bufs)) (map length bufs) (length bufs)"
  by (auto simp: requesting_sizes_def list_ex_iff in_set_zip in_set_conv_nth)

definition true_sizes :: "bulk list \<Rightarrow> nat \<Rightarrow> nat list" where
  "true_sizes items n = map length items @ replicate (n - length items) 0"

lemma length_true_sizes: "length items \<le> n \<Longrightarrow> length (true_sizes items n) = n"
  by (simp add: true_sizes_def)

section \<open>Listing keys\<close>

lemma list_keys_ult_law:
  assumes M: "margo_reliable M" and db: "find_db p i = Some db"
    and found: "vt_vlist_keys V db start (length bufs) prefix = Some keys"
    and n: "length bufs < 2 ^ 31" "keys \<noteq> []" "length keys \<le> length bufs" and fits: "fits64 bufs"
    and km: "km = concat bufs \<or> \<not> items_fit keys bufs"
  shows "sdskv_list_keys_ult M V (Some p)
      \<lparr>list_keys_in_db_id = i, list_keys_in_start_key = start, list_keys_in_prefix = prefix,
       list_keys_in_max_keys = length bufs, list_keys_in_ksizes_bulk = enc_sizes (map length bufs),
       list_keys_in_keys_bulk = km\<rparr>
    = Some (Some p,
        \<lparr>list_keys_out_nkeys = length keys,
         list_keys_out_ret = (if items_fit keys bufs then rc SDSKV_SUCCESS else rc SDSKV_ERR_SIZE)\<rparr>,
        enc_sizes (true_sizes keys (length bufs)), if items_fit keys bufs then concat (fill keys bufs) else km)"
proof -
  have "bufs \<noteq> []" using n by auto
  have rd: "read_sizes (enc_sizes (map length bufs)) (length bufs) = Some (map length bufs)"
    using fits64_items [OF fits] by (intro read_sizes_enc_sizes') simp_all
  have sl: "buf_slice (enc_sizes (map length bufs)) 0 (8 * length bufs) = Some (enc_sizes (map length bufs))"
    by (simp add: buffer_simps)
  have ow: "overwrite (enc_sizes (map length bufs)) 0
        (enc_sizes (map length keys) @ enc_sizes (replicate (length bufs - length keys) 0))
      = Some (enc_sizes (true_sizes keys (length bufs)))"
    using n(3) by (simp add: overwrite_all true_sizes_def)
  note defs = sdskv_list_keys_ult_def ds_list_keys_def handler_simps reliable_pull [OF M sl] reliable_push [OF M ow]
    unsigned_loop_small wrap64_num rd found Let_def
  show ?thesis
  proof (cases "items_fit keys bufs")
    case True
    have "push_items M 4 (concat bufs) 0 keys (map length bufs) = (concat (fill keys bufs), None)"
      using push_items_law [OF M True, of "[]"] fits by (simp add: fits64_def)
    then show ?thesis
      using M db n True km size_error_fit [OF True] \<open>bufs \<noteq> []\<close> by (simp add: defs)
  next
    case False
    then obtain j where "j < length keys" "length (bufs ! j) < length (keys ! j)"
      using n(3) by (auto simp: items_fit_def not_le)
    then have "size_error (map length keys) (map length bufs)"
      using n(3) by (intro size_error_unfit) simp_all
    then show ?thesis
      using M db n False \<open>bufs \<noteq> []\<close> by (simp add: defs)
  qed
qed

text \<open>With a buffer for every key, all large enough, the client gets the keys and their sizes.\<close>

lemma client_list_keys:
  assumes "st = Some p" "margo_reliable M" "client_reliable C" and db: "find_db p i = Some db"
    and found: "vt_vlist_keys V db start (length bufs) prefix = Some keys"
    and n: "length bufs < 2 ^ 31" "keys \<noteq> []" "length keys \<le> length bufs" and fits: "fits64 bufs"
    and bufs: "[] \<notin> set bufs" and small: "\<forall>k\<in>set keys. length k < 2 ^ 64"
  shows "sdskv_list_keys_with_prefix C (sdskv_service M V U) st i start prefix
      (Some (map Some bufs)) (map length bufs) (length bufs)
    = Some (st, if items_fit keys bufs then rc SDSKV_SUCCESS else rc SDSKV_ERR_SIZE,
        Some (map Some (if items_fit keys bufs then fill keys bufs else bufs)),
        true_sizes keys (length bufs), length keys)"
proof -
  have "bufs \<noteq> []" using n by auto
  moreover have "read_sizes (enc_sizes (true_sizes keys (length bufs))) (length bufs) = Some (true_sizes keys (length bufs))"
    using small n(3) by (intro read_sizes_enc_sizes') (auto simp: true_sizes_def)
  moreover note list_keys_ult_law [OF assms(2) db found n fits, of "concat bufs"]
  moreover have "scatter (concat (fill keys bufs)) (map Some bufs) (map length bufs) = map Some (fill keys bufs)"
    if "items_fit keys bufs"
    using map_length_fill [OF that] by (rule scatter_bufs)
  moreover have "scatter (concat bufs) (map Some bufs) (map length bufs) = map Some bufs"
    by (rule scatter_bufs) simp
  ultimately show ?thesis
    using assms(1,3) n not_requesting_sizes [OF bufs]
    by (simp add: sdskv_list_keys_with_prefix_def handler_simps int_loop_small gather_bufs Let_def)
qed

text \<open>When the backend has no key to list, the buffers and sizes stay as they are and the count is 0.\<close>

lemma client_list_keys_none:
  assumes "st = Some p" "margo_reliable M" "client_reliable C" and db: "find_db p i = Some db"
    and found: "vt_vlist_keys V db start (length bufs) prefix = Some []"
    and n: "length bufs < 2 ^ 31" "bufs \<noteq> []" and fits: "fits64 bufs" and bufs: "[] \<notin> set bufs"
  shows "sdskv_list_keys_with_prefix C (sdskv_service M V U) st i start prefix
      (Some (map Some bufs)) (map length bufs) (length bufs)
    = Some (st, rc SDSKV_SUCCESS, Some (map Some bufs), map length bufs, 0)"
proof -
  have rd: "read_sizes (enc_sizes (map length bufs)) (length bufs) = Some (map length bufs)"
    using fits64_items [OF fits] by (intro read_sizes_enc_sizes') simp_all
  have sl: "buf_slice (enc_sizes (map length bufs)) 0 (8 * length bufs) = Some (enc_sizes (map length bufs))"
    by (simp add: buffer_simps)
  have "scatter (concat bufs) (map Some bufs) (map length bufs) = map Some bufs"
    by (rule scatter_bufs) simp
  then show ?thesis
    using assms(1-5) n not_requesting_sizes [OF bufs]
    by (simp add: sdskv_list_keys_with_prefix_def handler_simps int_loop_small gather_bufs Let_def
        sdskv_list_keys_ult_def ds_list_keys_def reliable_pull [OF assms(2) sl] unsigned_loop_small wrap64_num rd)
qed

section \<open>Listing keys and values\<close>

lemma list_keyvals_ult_law:
  assumes M: "margo_reliable M" and db: "find_db p i = Some db"
    and found: "vt_vlist_keyvals V db start max_keys prefix = Some kvs"
    and n: "max_keys < 2 ^ 31" "kvs \<noteq> []" "length kvs \<le> max_keys"
    and bufs: "length kbufs = max_keys" "length vsizes = max_keys" "fits64 kbufs" "\<forall>n\<in>set vsizes. n < 2 ^ 64"
    and fit: "items_fit (map fst kvs) kbufs"
    and push: "push_items M (8 + length kvs) vm 0 (map snd kvs) vsizes = (vm', None)"
  shows "sdskv_list_keyvals_ult M V (Some p)
      \<lparr>list_keys_in_db_id = i, list_keys_in_start_key = start, list_keys_in_prefix = prefix,
       list_keys_in_max_keys = max_keys, list_keys_in_ksizes_bulk = enc_sizes (map length kbufs),
       list_keys_in_keys_bulk = concat kbufs,
       list_keyvals_in_vsizes_bulk = enc_sizes vsizes, list_keyvals_in_vals_bulk = vm\<rparr>
    = Some (Some p, \<lparr>list_keys_out_nkeys = length kvs, list_keys_out_ret = rc SDSKV_SUCCESS\<rparr>,
        enc_sizes (true_sizes (map fst kvs) max_keys), concat (fill (map fst kvs) kbufs),
        enc_sizes (true_sizes (map snd kvs) max_keys), vm')"
proof -
  have rd: "read_sizes (enc_sizes (map length kbufs)) max_keys = Some (map length kbufs)"
    "read_sizes (enc_sizes vsizes) max_keys = Some vsizes"
    using fits64_items [OF bufs(3)] bufs by (auto intro!: read_sizes_enc_sizes')
  have sl: "buf_slice (enc_sizes (map length kbufs)) 0 (8 * max_keys) = Some (enc_sizes (map length kbufs))"
    "buf_slice (enc_sizes vsizes) 0 (8 * max_keys) = Some (enc_sizes vsizes)"
    using bufs by (simp_all add: buffer_simps)
  have len: "length xs = max_keys \<Longrightarrow> overwrite (enc_sizes xs) 0
        (enc_sizes (map length items) @ enc_sizes (replicate (max_keys - length kvs) 0))
      = Some (enc_sizes (true_sizes items max_keys))" if "length items = length kvs" for xs items
    using n(3) that by (simp add: overwrite_all true_sizes_def)
  have ow: "overwrite (enc_sizes (map length kbufs)) 0
        (enc_sizes (map (\<lambda>x. length (fst x)) kvs) @ enc_sizes (replicate (max_keys - length kvs) 0))
      = Some (enc_sizes (true_sizes (map fst kvs) max_keys))"
    "overwrite (enc_sizes vsizes) 0
        (enc_sizes (map (\<lambda>x. length (snd x)) kvs) @ enc_sizes (replicate (max_keys - length kvs) 0))
      = Some (enc_sizes (true_sizes (map snd kvs) max_keys))"
    using len [of "map fst kvs" "map length kbufs"] len [of "map snd kvs" vsizes] bufs by (simp_all add: comp_def)
  have "push_items M 8 (concat kbufs) 0 (map fst kvs) (map length kbufs) = (concat (fill (map fst kvs) kbufs), None)"
    using push_items_law [OF M fit, of "[]"] bufs(3) by (simp add: fits64_def)
  moreover have "0 < max_keys" using n(2,3) by (cases kvs) auto
  ultimately show ?thesis
    using M db n push
    by (simp add: sdskv_list_keyvals_ult_def ds_list_keyvals_def handler_simps reliable_pull [OF M sl(1)]
        reliable_pull [OF M sl(2)] reliable_push [OF M ow(1)] reliable_push [OF M ow(2)]
        unsigned_loop_small wrap64_num rd found Let_def comp_def)
qed

lemma client_list_keyvals:
  assumes "st = Some p" "margo_reliable M" "client_reliable C" and db: "find_db p i = Some db"
    and found: "vt_vlist_keyvals V db start (length kbufs) prefix = Some kvs"
    and n: "length kbufs < 2 ^ 31" "kvs \<noteq> []" "length kvs \<le> length kbufs" "length vbufs = length kbufs"
    and fits: "fits64 kbufs" "fits64 vbufs"
    and fit: "items_fit (map fst kvs) kbufs" "items_fit (map snd kvs) vbufs"
    and small: "\<forall>kv\<in>set kvs. length (fst kv) < 2 ^ 64 \<and> length (snd kv) < 2 ^ 64"
  shows "sdskv_list_keyvals_with_prefix C (sdskv_service M V U) st i start prefix
      (Some (map Some kbufs)) (map length kbufs) (Some (map Some vbufs)) (map length vbufs) (length kbufs)
    = Some (st, rc SDSKV_SUCCESS,
        Some (map Some (fill (map fst kvs) kbufs)), true_sizes (map fst kvs) (length kbufs),
        Some (map Some (fill (map snd kvs) vbufs)), true_sizes (map snd kvs) (length kbufs), length kvs)"
proof -
  have push: "push_items M (8 + length kvs) (concat vbufs) 0 (map snd kvs) (map length vbufs)
      = (concat (fill (map snd kvs) vbufs), None)"
    using push_items_law [OF assms(2) fit(2), of "[]"] fits(2) by (simp add: fits64_def)
  have rd: "read_sizes (enc_sizes (true_sizes (map fst kvs) (length kbufs))) (length kbufs) = Some (true_sizes (map fst kvs) (length kbufs))"
    "read_sizes (enc_sizes (true_sizes (map snd kvs) (length kbufs))) (length kbufs) = Some (true_sizes (map snd kvs) (length kbufs))"
    using small n(3) by (intro read_sizes_enc_sizes'; auto simp: true_sizes_def)+
  note server = list_keyvals_ult_law [OF assms(2) db found n(1,2,3) refl _ fits(1) _ fit(1) push]
  have "scatter (concat (fill (map fst kvs) kbufs)) (map Some kbufs) (map length kbufs) = map Some (fill (map fst kvs) kbufs)"
    "scatter (concat (fill (map snd kvs) vbufs)) (map Some vbufs) (map length vbufs) = map Some (fill (map snd kvs) vbufs)"
    using map_length_fill [OF fit(1)] map_length_fill [OF fit(2)] by (auto intro: scatter_bufs)
  then show ?thesis
    using assms(1,3) n server fits64_items [OF fits(2)] rd
    by (simp add: sdskv_list_keyvals_with_prefix_def handler_simps gather_bufs Let_def)
qed

text \<open>
  A value larger than its buffer is not reported: it runs over into the buffer that follows, and
  the call returns \<open>SDSKV_SUCCESS\<close>.
\<close>

lemma client_list_keyvals_overrun:
  assumes "st = Some p" "margo_reliable M" "client_reliable C" and db: "find_db p i = Some db"
    and found: "vt_vlist_keyvals V db start 2 prefix = Some [(k, v1 @ v2)]"
    and k: "length k \<le> length k1" "fits64 [k1, k2]" "length k < 2 ^ 64"
    and v: "length v1 = length b1" "v2 \<noteq> []" "length v2 \<le> length b2" "fits64 [b1, b2]"
  shows "sdskv_list_keyvals_with_prefix C (sdskv_service M V U) st i start prefix
      (Some [Some k1, Some k2]) [length k1, length k2] (Some [Some b1, Some b2]) [length b1, length b2] 2
    = Some (st, rc SDSKV_SUCCESS, Some [Some (k @ drop (length k) k1), Some k2], [length k, 0],
        Some [Some v1, Some (v2 @ drop (length v2) b2)], [length v1 + length v2, 0], 1)"
proof -
  have ow: "overwrite (b1 @ b2) 0 (v1 @ v2) = Some (v1 @ v2 @ drop (length v2) b2)"
    using v by (simp add: overwrite_def)
  have push: "push_items M (8 + length [(k, v1 @ v2)]) (b1 @ b2) 0 (map snd [(k, v1 @ v2)]) [length b1, length b2]
      = (v1 @ v2 @ drop (length v2) b2, None)"
    using assms(2) v(2) reliable_push [OF assms(2) ow] by simp
  have fit: "items_fit (map fst [(k, v1 @ v2)]) [k1, k2]" using k(1) by (simp add: items_fit_def)
  have vb: "\<forall>n\<in>set [length b1, length b2]. n < 2 ^ 64" using v(4) by (simp add: fits64_def)
  have ts: "true_sizes [x] 2 = [length x, 0]" for x :: bulk by (simp add: true_sizes_def numeral_2_eq_2)
  have server: "sdskv_list_keyvals_ult M V (Some p)
      \<lparr>list_keys_in_db_id = i, list_keys_in_start_key = start, list_keys_in_prefix = prefix,
       list_keys_in_max_keys = 2, list_keys_in_ksizes_bulk = enc_sizes [length k1, length k2],
       list_keys_in_keys_bulk = k1 @ k2,
       list_keyvals_in_vsizes_bulk = enc_sizes [length b1, length b2], list_keyvals_in_vals_bulk = b1 @ b2\<rparr>
    = Some (Some p, \<lparr>list_keys_out_nkeys = 1, list_keys_out_ret = rc SDSKV_SUCCESS\<rparr>,
        enc_sizes [length k, 0], k @ drop (length k) k1 @ k2,
        enc_sizes [length v1 + length v2, 0], v1 @ v2 @ drop (length v2) b2)"
    using list_keyvals_ult_law [where kvs = "[(k, v1 @ v2)]" and max_keys = 2 and kbufs = "[k1, k2]"
      and vsizes = "[length b1, length b2]", OF assms(2) db found _ _ _ _ _ k(2) vb fit push]
    by (simp add: ts del: enc_sizes_Cons)
  have rd: "read_sizes (enc_sizes [length k, 0]) 2 = Some [length k, 0]"
    "read_sizes (enc_sizes [length v1 + length v2, 0]) 2 = Some [length v1 + length v2, 0]"
    using k(3) v by (auto intro!: read_sizes_enc_sizes' simp: fits64_def simp del: enc_sizes_Cons)
  have g: "gather [Some k1, Some k2] [length k1, length k2] = Some (k1 @ k2)"
    "gather [Some b1, Some b2] [length b1, length b2] = Some (b1 @ b2)"
    using gather_bufs [of "[k1, k2]"] gather_bufs [of "[b1, b2]"] by simp_all
  have sc: "scatter (k @ drop (length k) k1 @ k2) [Some k1, Some k2] [length k1, length k2]
      = [Some (k @ drop (length k) k1), Some k2]"
    "scatter (v1 @ v2 @ drop (length v2) b2) [Some b1, Some b2] [length b1, length b2]
      = [Some v1, Some (v2 @ drop (length v2) b2)]"
    using k(1) v scatter_bufs [of "[k @ drop (length k) k1, k2]" "[k1, k2]"]
      scatter_bufs [of "[v1, v2 @ drop (length v2) b2]" "[b1, b2]"] by simp_all
  show ?thesis
    using assms(1,3) server rd g sc
    by (simp add: sdskv_list_keyvals_with_prefix_def handler_simps Let_def 
        del: enc_sizes_Cons gather.simps scatter.simps read_sizes.simps)
qed

end
