(* ===== verification/Service_Cpp.thy ===== *)
theory Service_Cpp
  imports Service Client_Cpp
begin

text \<open>
  The C++ client against the modelled server: the \<open>get\<close> template returns the stored value whatever buffer it
  starts from, and every sequence of single-key calls has the results of the abstract database.
\<close>

section \<open>The C++ client against the server\<close>

lemma object_resize_self [simp]: "n = length v \<Longrightarrow> object_resize v n = v"
  by (simp add: object_resize_def)

lemma object_resize_Nil [simp]: "object_resize [] n = replicate n 0"
  by (simp add: object_resize_def)

context datastore
begin

text \<open>Whatever the initial buffer, the template returns the stored value or throws \<open>SDSKV_ERR_UNKNOWN_KEY\<close>.\<close>

lemma client_cpp_get:
  assumes "serves inv abs st i a" "margo_reliable M" "\<forall>n. client_reliable (C n)"
  shows "cpp_get C (sdskv_service M V U) st i k val n0
    = Some (st, case kv_map a k of None \<Rightarrow> Inl (rc SDSKV_ERR_UNKNOWN_KEY) | Some v \<Rightarrow> Inr v)"
proof -
  have C: "client_reliable (C n)" for n using assms(3) by simp
  have get: "\<exists>n'. sdskv_get (C j) (sdskv_service M V U) st i k (Some buf) (length buf) =
      Some (st, case kv_map a k of
          None \<Rightarrow> (rc SDSKV_ERR_UNKNOWN_KEY, Some buf, n')
        | Some v \<Rightarrow>
            if length v \<le> length buf then (rc SDSKV_SUCCESS, Some (v @ drop (length v) buf), length v)
            else (rc SDSKV_ERR_SIZE, Some buf, length v))" for j buf
    using client_get [OF assms(1,2) C] by blast
  note len = client_length [OF assms(1,2) C]
  show ?thesis
  proof (cases "kv_map a k")
    case None
    then show ?thesis
      using get [of 1 val] len [of 0] by (auto simp: cpp_get_def cpp_length_def CHECK_RET_def Let_def)
  next
    case (Some v)
    show ?thesis
    proof (cases "val = []")
      case True
      then show ?thesis
        using get [of 1 "replicate (length v) 0"] len [of 0] Some
        by (simp add: cpp_get_def cpp_length_def CHECK_RET_def Let_def)
    next
      case False
      then show ?thesis
        using get [of 1 val] get [of 2 "object_resize val (length v)"] Some
        by (auto simp: cpp_get_def CHECK_RET_def Let_def object_resize_prefix)
    qed
  qed
qed

end

text \<open>The single-key calls of a client of the C++ interface on database \<open>i\<close>.\<close>

definition cpp_res :: "('a \<Rightarrow> ds_res) \<Rightarrow> (int32 \<Rightarrow> ds_res) \<Rightarrow> ('st \<times> (int32 + 'a)) option \<Rightarrow> ('st \<times> ds_res) option" where
  "cpp_res f g r = map_option (\<lambda>(st, x). (st, case x of Inl e \<Rightarrow> g e | Inr y \<Rightarrow> f y)) r"

fun client_step ::
  "(nat \<Rightarrow> client_rt) \<Rightarrow> 'st service \<Rightarrow> db_id \<Rightarrow> 'st \<Rightarrow> ds_op \<Rightarrow> ('st \<times> ds_res) option"
where
  "client_step C S i st (Op_put k v) = cpp_res (\<lambda>_. Res_code 0) Res_code (cpp_put (C 0) S st i k v)"
| "client_step C S i st (Op_get k) = cpp_res (\<lambda>v. Res_value (Some v)) (\<lambda>_. Res_value None) (cpp_get C S st i k [] 0)"
| "client_step C S i st (Op_length k) = cpp_res (\<lambda>n. Res_size (Some n)) (\<lambda>_. Res_size None) (cpp_length (C 0) S st i k 0)"
| "client_step C S i st (Op_exists k) = cpp_res Res_bool Res_code (cpp_exists (C 0) S st i k 0)"
| "client_step C S i st (Op_erase k) = cpp_res (\<lambda>_. Res_bool True) (\<lambda>_. Res_bool False) (cpp_erase (C 0) S st i k)"

fun client_run ::
  "(nat \<Rightarrow> client_rt) \<Rightarrow> 'st service \<Rightarrow> db_id \<Rightarrow> 'st \<Rightarrow> ds_op list \<Rightarrow> ('st \<times> ds_res list) option"
where
  "client_run C S i st [] = Some (st, [])"
| "client_run C S i st (op # ops) = do {
     (st1, r) \<leftarrow> client_step C S i st op;
     (st2, rs) \<leftarrow> client_run C S i st1 ops;
     Some (st2, r # rs)
   }"

lemma only_db_changed_refl: "only_db_changed i (Some p) (Some p)"
  by (simp add: only_db_changed_def)

lemma only_db_changed_trans: "only_db_changed i st st' \<Longrightarrow> only_db_changed i st' st'' \<Longrightarrow> only_db_changed i st st''"
  by (auto simp: only_db_changed_def)

text \<open>
  Backends differ in what \<open>erase\<close> reports for a key that is not there: \<open>absent\<close> is that report.
\<close>

fun reported :: "bool \<Rightarrow> ds_op \<Rightarrow> ds_res \<Rightarrow> ds_res" where
  "reported absent (Op_erase k) (Res_bool b) = Res_bool (b \<or> absent)"
| "reported absent op r = r"

lemma reported_False [simp]: "reported False op r = r"
  by (cases "(False, op, r)" rule: reported.cases) simp_all

lemma length_kv_run [simp]: "length (snd (kv_run a ops)) = length ops"
  by (induction ops arbitrary: a) (simp_all add: case_prod_beta Let_def)

lemma map2_second: "length rs = length ops \<Longrightarrow> map2 (\<lambda>_ r. r) ops rs = rs"
  by (induction ops rs rule: list_induct2') simp_all

context datastore
begin

lemma client_erase_reports:
  assumes "serves inv abs st i a" "margo_reliable M" "client_reliable C"
    and "\<And>s k. inv s \<Longrightarrow> snd (vt_erase V s k) \<longleftrightarrow> kv_map (abs s) k \<noteq> None \<or> absent"
  shows "\<exists>st'. sdskv_erase C (sdskv_service M V U) st i k =
      Some (st', if kv_map a k \<noteq> None \<or> absent then rc SDSKV_SUCCESS else rc SDSKV_ERR_ERASE)
    \<and> serves inv abs st' i (kv_erase a k) \<and> only_db_changed i st st'"
proof -
  obtain p db where st: "st = Some p" "provider_inv p" "find_db p i = Some db" "inv db" "abs db = a"
    using assms(1) by (rule servesE)
  obtain db' b where db': "vt_erase V db k = (db', b)" by fastforce
  have "inv db'" "abs db' = kv_erase a k" "b \<longleftrightarrow> kv_map a k \<noteq> None \<or> absent"
    using erase_inv [OF st(4), of k] erase_law [OF st(4), of k] assms(4) [OF st(4), of k] db' st(5) by auto
  then show ?thesis
    using assms(2,3) st(1,3) db' serves_set_db [OF st(2,3), of inv db' abs]
    by (auto simp: sdskv_erase_def sdskv_erase_ult_def handler_simps Let_def)
qed

lemma client_step_reports:
  assumes "serves inv abs st i a" "margo_reliable M" "\<forall>n. client_reliable (C n)"
    and "\<And>s k. inv s \<Longrightarrow> snd (vt_erase V s k) \<longleftrightarrow> kv_map (abs s) k \<noteq> None \<or> absent"
  shows "\<exists>st'. client_step C (sdskv_service M V U) i st op = Some (st', reported absent op (snd (kv_step a op)))
    \<and> serves inv abs st' i (fst (kv_step a op)) \<and> only_db_changed i st st'"
proof -
  have C: "client_reliable (C 0)" using assms(3) by simp
  have refl: "only_db_changed i st st"
    using assms(1) by (auto elim: servesE intro: only_db_changed_refl)
  show ?thesis
  proof (cases op)
    case (Op_put k v)
    obtain st' where st': "sdskv_put (C 0) (sdskv_service M V U) st i k v = Some (st', snd (kv_put a k v))"
        "serves inv abs st' i (fst (kv_put a k v))" "only_db_changed i st st'"
      using client_put [OF assms(1,2) C] by blast
    have "client_step C (sdskv_service M V U) i st op = Some (st', snd (kv_step a op))"
      by (simp add: Op_put st'(1) cpp_res_def cpp_put_def CHECK_RET_def case_prod_beta)
    then show ?thesis using st'(2,3) Op_put by (simp add: case_prod_beta)
  next
    case (Op_get k)
    then show ?thesis
      using client_cpp_get [OF assms(1-3)] assms(1) refl by (auto simp: cpp_res_def split: option.splits)
  next
    case (Op_length k)
    then show ?thesis
      using client_length [OF assms(1,2) C, of U k 0] assms(1) refl
      by (auto simp: cpp_res_def cpp_length_def CHECK_RET_def split: option.splits)
  next
    case (Op_exists k)
    then show ?thesis
      using client_exists [OF assms(1,2) C, of U k 0] assms(1) refl
      by (auto simp: cpp_res_def cpp_exists_def CHECK_RET_def split: option.splits)
  next
    case (Op_erase k)
    obtain st' where st': "sdskv_erase (C 0) (sdskv_service M V U) st i k
          = Some (st', if kv_map a k \<noteq> None \<or> absent then rc SDSKV_SUCCESS else rc SDSKV_ERR_ERASE)"
        "serves inv abs st' i (kv_erase a k)" "only_db_changed i st st'"
      using client_erase_reports [OF assms(1,2) C assms(4)] by blast
    have "client_step C (sdskv_service M V U) i st op = Some (st', reported absent op (snd (kv_step a op)))"
      by (auto simp add: Op_erase st'(1) cpp_res_def cpp_erase_def CHECK_RET_def)
    then show ?thesis using st'(2,3) Op_erase by simp
  qed
qed

lemma client_run_reports:
  assumes "margo_reliable M" "\<forall>n. client_reliable (C n)"
    and "\<And>s k. inv s \<Longrightarrow> snd (vt_erase V s k) \<longleftrightarrow> kv_map (abs s) k \<noteq> None \<or> absent"
  shows "serves inv abs st i a \<Longrightarrow>
    \<exists>st'. client_run C (sdskv_service M V U) i st ops = Some (st', map2 (reported absent) ops (snd (kv_run a ops)))
      \<and> serves inv abs st' i (fst (kv_run a ops)) \<and> only_db_changed i st st'"
proof (induction ops arbitrary: st a)
  case Nil
  then show ?case by (auto elim: servesE intro: only_db_changed_refl)
next
  case (Cons op ops)
  obtain st1 where st1: "client_step C (sdskv_service M V U) i st op = Some (st1, reported absent op (snd (kv_step a op)))"
      "serves inv abs st1 i (fst (kv_step a op))" "only_db_changed i st st1"
    using client_step_reports [OF Cons.prems assms] by blast
  obtain st2 where "client_run C (sdskv_service M V U) i st1 ops
        = Some (st2, map2 (reported absent) ops (snd (kv_run (fst (kv_step a op)) ops)))"
      "serves inv abs st2 i (fst (kv_run (fst (kv_step a op)) ops))" "only_db_changed i st1 st2"
    using Cons.IH [OF st1(2)] by blast
  with st1 show ?case
    by (auto simp: case_prod_beta Let_def intro: only_db_changed_trans)
qed

end

context exact_datastore
begin

lemma client_run_refines:
  assumes "margo_reliable M" "\<forall>n. client_reliable (C n)" "serves inv abs st i a"
  shows "\<exists>st'. client_run C (sdskv_service M V U) i st ops = Some (st', snd (kv_run a ops))
      \<and> serves inv abs st' i (fst (kv_run a ops)) \<and> only_db_changed i st st'"
  using client_run_reports [of M C False st i a U ops] assms erase_exact by (simp add: map2_second)

end

end
