(* ===== verification/Service_Cpp_Multi.thy ===== *)
theory Service_Cpp_Multi
  imports Client_Cpp_Multi Service_List Service_Cpp
begin

text \<open>
  The C++ templates on several keys against the modelled server: fetching all values of a vector of keys,
  listing into objects that start empty, and what the templates make of the results of the C functions.
\<close>

section \<open>Values of several keys\<close>

context datastore
begin

lemma cpp_length_multi_law:
  assumes "serves inv abs st i a" "margo_reliable M" "client_reliable C"
    and "length keys + 1 < 2 ^ 31" "fits64 keys" "\<forall>k\<in>set keys. stored_size a k < 2 ^ 64"
  shows "cpp_length_multi_vec C (sdskv_service M V U) ret0 st i keys vsizes
    = Some (st, map (stored_size a) keys, Inr True)"
  using client_length_multi [OF assms(1-3) _ assms(4-6)]
  by (simp add: cpp_length_multi_vec_def cpp_length_multi_def checked_def)

text \<open>The two calls of the template agree because nothing changes the database in between.\<close>

lemma cpp_get_multi_values_law:
  assumes "serves inv abs st i a" "margo_reliable M" "client_reliable C1" "client_reliable C2"
    and "length keys + 1 < 2 ^ 31" "fits64 keys"
    and total: "sum_list (map (stored_size a) keys) + 8 * length keys < 2 ^ 64"
  shows "cpp_get_multi_values C1 C2 (sdskv_service M V U) ret0 un st i keys
    = Some (st, Inr (map (packed_value a) keys))"
proof -
  let ?sizes = "map (stored_size a) keys"
  let ?vals = "map (packed_value a) keys"
  let ?bufs = "map (\<lambda>m. replicate m (0 :: byte)) ?sizes"
  have small: "\<forall>k\<in>set keys. stored_size a k < 2 ^ 64"
    using total member_le_sum_list [of _ ?sizes] by fastforce
  have vals: "?vals = map (\<lambda>(k, c). fetch a k c) (zip keys ?sizes)"
    by (induction keys) (simp_all add: packed_value_def fetch_def stored_size_def split: option.splits)
  have lens: "map length ?bufs = ?sizes" "map length ?vals = ?sizes"
    by (simp_all add: packed_value_def stored_size_def comp_def split: option.splits)
  have "list_all2 (\<lambda>c b. c \<le> length b) ?sizes ?bufs"
    by (simp add: list_all2_conv_all_nth)
  with client_get_multi [OF assms(1,2,4) _ assms(5,6) total _ vals]
  have get: "sdskv_get_multi C2 (sdskv_service M V U) ret0 un st i keys (Some ?bufs) ?sizes
      = Some (st, rc SDSKV_SUCCESS, Some (map (\<lambda>(v, b). v @ drop (length v) b) (zip ?vals ?bufs)), ?sizes)"
    by (simp only: lens length_map)
  have full: "map (\<lambda>(v, b). v @ drop (length v) b) (zip ?vals ?bufs) = ?vals"
    by (induction keys) (simp_all add: packed_value_def stored_size_def split: option.splits)
  have same: "resize_objects (length keys) ?vals ?sizes = ?vals"
    by (induction keys)
      (simp_all add: resize_objects_def object_resize_def packed_value_def stored_size_def split: option.splits)
  have first: "cpp_length_multi_vec C1 (sdskv_service M V U) ret0 st i keys (replicate (length keys) 0)
      = Some (st, ?sizes, Inr True)"
    by (rule cpp_length_multi_law [OF assms(1-3,5,6) small])
  have objs: "resize_objects (length keys) (replicate (length keys) []) ?sizes = ?bufs"
    by (rule resize_objects_empty) simp
  have second: "cpp_get_multi_vec C2 (sdskv_service M V U) ret0 un st i keys ?bufs = Some (st, ?vals, Inr True)"
    unfolding cpp_get_multi_vec_def cpp_get_multi_ptrs_def cpp_get_multi_def lens(1) items_at_objects
      Option.bind.bind_lunit get full
    using same by (simp add: checked_def)
  show ?thesis
    unfolding cpp_get_multi_values_def first objs second Option.bind.bind_lunit prod.case sum.case by simp
qed

text \<open>\<open>get_packed\<close> on strings cuts the array of sizes to the number of keys found.\<close>

lemma cpp_get_packed_str_law:
  assumes "serves inv abs st i a" "margo_reliable M" "client_reliable C"
    and "length keys < 2 ^ 32" "fits64 keys" "0 < length buf" "8 * length keys + length buf < 2 ^ 64"
    and "length (concat (map (packed_value a) keys)) \<le> length buf"
  shows "cpp_get_packed_str C (sdskv_service M V U) st i (concat keys) (map length keys) buf vsizes
    = Some (st, concat (map (packed_value a) keys)
          @ replicate (length buf - length (concat (map (packed_value a) keys))) 0,
        take (length (filter (\<lambda>k. kv_map a k \<noteq> None) keys)) (map (packed_size a) keys), Inr True)"
proof -
  have "vec_resize 0 (map (packed_size a) keys) (length (filter P keys))
      = take (length (filter P keys)) (map (packed_size a) keys)" for P
    using length_filter_le [of P keys] by (simp add: vec_resize_def)
  then show ?thesis
    using client_get_packed [OF assms(1-3) _ assms(4,5,6) refl assms(7,8), of "vec_resize 0 vsizes (length keys)" U]
    by (simp add: cpp_get_packed_str_def cpp_get_packed_def checked_def)
qed

end

section \<open>Listing into empty objects\<close>

text \<open>Entries of the caller's arrays beyond \<open>max_keys\<close> are not touched.\<close>

lemma list_keys_frame:
  assumes "client_reliable C" "length ks1 = length b1"
    and "sdskv_list_keys_with_prefix C S st i start prefix (Some (map Some b1)) ks1 (length b1)
      = Some (st', r, Some kb, ks, m)"
  shows "sdskv_list_keys_with_prefix C S st i start prefix (Some (map Some (b1 @ b2))) (ks1 @ ks2) (length b1)
      = Some (st', r, Some (kb @ map Some b2), ks @ ks2, m)"
proof -
  have "take (length b1) (zip (map Some (b1 @ b2)) (ks1 @ ks2)) = take (length b1) (zip (map Some b1) ks1)"
    using assms(2) by simp
  then have "requesting_sizes (Some (map Some (b1 @ b2))) (ks1 @ ks2) (length b1)
      = requesting_sizes (Some (map Some b1)) ks1 (length b1)"
    unfolding requesting_sizes_def by (simp del: zip_append map_append)
  then show ?thesis
    using assms(2,3)
    unfolding sdskv_list_keys_with_prefix_def
    by (auto simp: client_reliable_calls [OF assms(1)] int_loop_def Let_def split: if_splits bind_splits)
qed

lemma client_list_keys_sizes:
  assumes "st = Some p" "margo_reliable M" "client_reliable C" and db: "find_db p i = Some db"
    and found: "vt_vlist_keys V db start n prefix = Some keys"
    and n: "n < 2 ^ 31" "keys \<noteq> []" "length keys \<le> n" and first: "hd keys \<noteq> []"
    and small: "\<forall>k\<in>set keys. length k < 2 ^ 64"
  shows "sdskv_list_keys_with_prefix C (sdskv_service M V U) st i start prefix
      (Some (map Some (replicate n []))) (replicate n 0) n
    = Some (st, rc SDSKV_ERR_SIZE, Some (map Some (replicate n [])), true_sizes keys n, length keys)"
proof -
  have n0: "0 < n" using n(2,3) by (cases keys) auto
  have req: "requesting_sizes (Some (map Some (replicate n []))) (replicate n 0) n"
    using n0 by (cases n) (simp_all add: requesting_sizes_def)
  have unfit: "\<not> items_fit keys (replicate n [])"
    using n(2) first n0 by (cases keys; cases n) auto
  have "read_sizes (enc_sizes (true_sizes keys n)) n = Some (true_sizes keys n)"
    using small n(3) by (intro read_sizes_enc_sizes') (auto simp: true_sizes_def)
  moreover have "fits64 (replicate n [])" using n(1) by (simp add: fits64_def sum_list_replicate)
  moreover note list_keys_ult_law [OF assms(2) db, of V start "replicate n []" prefix keys "[]"]
  ultimately show ?thesis
    using assms(1,3) found n n0 req unfit
    by (simp add: sdskv_list_keys_with_prefix_def handler_simps int_loop_small Let_def)
qed

lemma client_list_keys_sizes_none:
  assumes "st = Some p" "margo_reliable M" "client_reliable C" and db: "find_db p i = Some db"
    and found: "vt_vlist_keys V db start n prefix = Some []" and n: "n < 2 ^ 31" "0 < n"
  shows "sdskv_list_keys_with_prefix C (sdskv_service M V U) st i start prefix
      (Some (map Some (replicate n []))) (replicate n 0) n
    = Some (st, rc SDSKV_SUCCESS, Some (map Some (replicate n [])), replicate n 0, 0)"
proof -
  have req: "requesting_sizes (Some (map Some (replicate n []))) (replicate n 0) n"
    using n by (cases n) (simp_all add: requesting_sizes_def)
  have rd: "read_sizes (enc_sizes (replicate n 0)) n = Some (replicate n 0)"
    by (intro read_sizes_enc_sizes') simp_all
  have sl: "buf_slice (enc_sizes (replicate n 0)) 0 (8 * n) = Some (enc_sizes (replicate n 0))"
    by (simp add: buffer_simps)
  show ?thesis
    using assms(1-5) n req
    by (simp add: sdskv_list_keys_with_prefix_def handler_simps int_loop_small Let_def
        sdskv_list_keys_ult_def ds_list_keys_def reliable_pull [OF assms(2) sl] unsigned_loop_small wrap64_num rd)
qed

lemma fill_exact: "fill keys (map (\<lambda>k. replicate (length k) 0) keys) = keys"
  by (induction keys) simp_all

lemma items_fit_exact: "items_fit keys (map (\<lambda>k. replicate (length k) 0) keys)"
  by (simp add: items_fit_def)

lemma resize_exact: "map2 object_resize keys (map length keys) = keys"
  by (induction keys) (simp_all add: object_resize_def)

text \<open>
  The template started with \<open>n\<close> empty objects returns what the backend lists, provided no listed key is
  empty: the first call gets the sizes, the second the keys.
\<close>

lemma cpp_list_keys_law:
  assumes st: "st = Some p" "margo_reliable M" "\<forall>c. client_reliable (C c)" and db: "find_db p i = Some db"
    and found: "vt_vlist_keys V db start n prefix = Some keys"
      "vt_vlist_keys V db start (length keys) prefix = Some keys"
    and n: "0 < n" "n < 2 ^ 31" "length keys \<le> n" and keys: "[] \<notin> set keys" "fits64 keys"
  shows "cpp_list_keys_prefix C (sdskv_service M V U) st i start prefix (replicate n []) = Some (st, keys, Inr ())"
proof (cases "keys = []")
  case True
  then show ?thesis
    using client_list_keys_sizes_none [OF st(1,2) _ db _ n(2,1), of "C 0" V start prefix U] found(1) st(3)
    by (simp add: cpp_list_keys_prefix_def cpp_list_keys_raw_def CHECK_RET_def resize_objects_def)
next
  case False
  let ?b1 = "map (\<lambda>k. replicate (length k) (0 :: byte)) keys"
  let ?m = "length keys"
  have small: "\<forall>k\<in>set keys. length k < 2 ^ 64" using fits64_items [OF keys(2)] by simp
  have first: "hd keys \<noteq> []" using False keys(1) by (cases keys) auto
  have call1: "sdskv_list_keys_with_prefix (C 0) (sdskv_service M V U) st i start prefix
      (Some (map Some (replicate n []))) (replicate n 0) n
    = Some (st, rc SDSKV_ERR_SIZE, Some (map Some (replicate n [])), true_sizes keys n, ?m)"
    using client_list_keys_sizes [OF st(1,2) _ db found(1) n(2) False n(3) first small, of "C 0" U] st(3) by simp
  have objs: "resize_objects ?m (replicate n []) (true_sizes keys n) = ?b1 @ replicate (n - ?m) []"
    using n(3) resize_objects_empty [of "map length keys" ?m]
    by (simp add: resize_objects_def true_sizes_def min_def comp_def)
  have "fits64 ?b1" "[] \<notin> set ?b1" using keys by (auto simp: fits64_def comp_def)
  then have "sdskv_list_keys_with_prefix (C 1) (sdskv_service M V U) st i start prefix
      (Some (map Some ?b1)) (map length ?b1) (length ?b1)
    = Some (st, rc SDSKV_SUCCESS, Some (map Some keys), map length keys, ?m)"
    using client_list_keys [OF st(1,2) _ db, of "C 1" V start ?b1 prefix keys U] st(3) found(2) False n small
      items_fit_exact [of keys] by (simp add: fill_exact true_sizes_def)
  from list_keys_frame [OF _ _ this, of "replicate (n - ?m) []" "replicate (n - ?m) 0"] st(3)
  have call2: "sdskv_list_keys_with_prefix (C 1) (sdskv_service M V U) st i start prefix
      (Some (map Some (?b1 @ replicate (n - ?m) []))) (true_sizes keys n) ?m
    = Some (st, rc SDSKV_SUCCESS, Some (map Some (keys @ replicate (n - ?m) [])), true_sizes keys n, ?m)"
    by (simp add: true_sizes_def comp_def)
  have res: "take ?m (resize_objects ?m (keys @ replicate (n - ?m) []) (true_sizes keys n)) = keys"
    by (simp add: resize_objects_def true_sizes_def resize_exact)
  have some: "objects_of (Some (map Some xs)) = xs" for xs
    by (simp add: objects_of_def comp_def)
  have raw1: "cpp_list_keys_raw (C 0) (sdskv_service M V U) st i start prefix (Some (map Some (replicate n [])))
      (map length (replicate n ([] :: bulk))) (length (replicate n ([] :: bulk)))
    = Some (st, Some (map Some (replicate n [])), true_sizes keys n, ?m, Inl (rc SDSKV_ERR_SIZE))"
    using call1 by (simp add: cpp_list_keys_raw_def CHECK_RET_def)
  have raw2: "cpp_list_keys_raw (C 1) (sdskv_service M V U) st i start prefix
      (Some (map Some (?b1 @ replicate (n - ?m) []))) (true_sizes keys n) ?m
    = Some (st, Some (map Some (keys @ replicate (n - ?m) [])), true_sizes keys n, ?m, Inr ())"
    unfolding cpp_list_keys_raw_def call2 by (simp add: CHECK_RET_def)
  have empty: "map length (take 1 (replicate n ([] :: bulk))) = [0]" using n(1) by (cases n) simp_all
  show ?thesis
    unfolding cpp_list_keys_prefix_def raw1 Option.bind.bind_lunit prod.case sum.case Let_def some empty objs raw2
    by (simp add: res)
qed

section \<open>The retry of \<open>list_keyvals\<close>\<close>

lemma hg_error_not_size: "SDSKV_MAKE_HG_ERROR h \<noteq> rc SDSKV_ERR_SIZE"
proof
  assume "SDSKV_MAKE_HG_ERROR h = rc SDSKV_ERR_SIZE"
  then have "take_bit 24 (push_bit 24 h :: int32) = take_bit 24 (rc SDSKV_ERR_SIZE)"
    by (simp add: SDSKV_MAKE_HG_ERROR_def)
  then show False by (simp add: take_bit_push_bit)
qed

lemma list_keyvals_ult_no_size_error:
  assumes "sdskv_list_keyvals_ult M V prov inp = Some (prov', out, rest)"
  shows "list_keys_out_ret out \<noteq> rc SDSKV_ERR_SIZE"
  using assms hg_error_not_size
  unfolding sdskv_list_keyvals_ult_def FIND_PROVIDER_def GET_INPUT_def FIND_DATABASE_def CHECK_HG_def
    BULK_TRANSFER_def unsigned_loop_def Let_def
  by (auto split: option.splits list.splits if_splits sum.splits bind_splits prod.splits)

lemma list_keyvals_no_size_error:
  assumes "sdskv_list_keyvals_with_prefix C (sdskv_service M V U) st i start prefix keys ksizes vals vsizes n
    = Some (st', ret, rest)"
  shows "ret \<noteq> rc SDSKV_ERR_SIZE"
  using assms hg_error_not_size
  unfolding sdskv_list_keyvals_with_prefix_def rpc_def sdskv_service_sel Let_def
  by (auto split: option.splits if_splits bind_splits prod.splits dest: list_keyvals_ult_no_size_error)

lemma cpp_list_keyvals_one_call:
  "cpp_list_keyvals_prefix C (sdskv_service M V U) st i start prefix keys vals
   = cpp_list_keyvals_prefix (C(1 := C')) (sdskv_service M V U) st i start prefix keys vals"
proof -
  have "r \<noteq> Inl (rc SDSKV_ERR_SIZE)"
    if "cpp_list_keyvals_raw D (sdskv_service M V U) st i start prefix ks kz vs vz n = Some (st1, a, b, c, d, m, r)"
    for D ks kz vs vz n st1 a b c d m r
    using that
    by (auto simp: cpp_list_keyvals_raw_def CHECK_RET_def split: if_splits dest!: list_keyvals_no_size_error)
  then show ?thesis
    unfolding cpp_list_keyvals_prefix_def
    by (auto simp: Let_def split: sum.splits intro!: Option.bind_cong [OF refl])
qed

end
