(* ===== verification/Client_Handles.thy ===== *)
theory Client_Handles
  imports Client_Basic
begin

text \<open>
  The class \<open>provider_handle\<close> of include/sdskv-client.hpp: C++ objects that share the reference-counted handles of
  one C client. An object is named by its address, which is not null; \<open>objs x = Some m\<close> says that an object lives
  at \<open>x\<close> and that its member \<open>m_ph\<close> is \<open>m\<close> (\<open>None\<close> for \<open>SDSKV_PROVIDER_HANDLE_NULL\<close>). Each operation returns the
  new state and whether it threw an exception (its code); using a freed handle is \<open>None\<close>.

  The invariant \<open>handles_counted\<close> says that the reference count of every handle is the number of objects that
  point to it, and that the client's own count is the number of its handles.
\<close>

section \<open>Objects\<close>

record cpp_handles =
  ch_client :: client
  objs :: "64 word \<Rightarrow> nat option option"

type_synonym handle_res = "(cpp_handles \<times> int32 option) option"

definition ph_default :: "cpp_handles \<Rightarrow> 64 word \<Rightarrow> handle_res" where
  "ph_default s x = Some (s\<lparr>objs := (objs s)(x \<mapsto> None)\<rparr>, None)"

text \<open>\<open>provider_handle(client&, hg_addr_t, uint16_t)\<close>; when it throws no object is constructed.\<close>

definition ph_create ::
  "cpp_handles \<Rightarrow> 64 word \<Rightarrow> nat option \<Rightarrow> hg_return \<Rightarrow> nat \<Rightarrow> 16 word \<Rightarrow> handle_res" where
  "ph_create s x loc dup addr provider_id =
     (case sdskv_provider_handle_create (Some (ch_client s)) loc dup addr provider_id of
        (c, ret, ph) \<Rightarrow>
          let s' = s\<lparr>ch_client := (case c of Some c' \<Rightarrow> c' | None \<Rightarrow> ch_client s)\<rparr> in
          if ret \<noteq> rc SDSKV_SUCCESS then Some (s', Some ret)
          else Some (s'\<lparr>objs := (objs s')(x \<mapsto> ph)\<rparr>, None))"

definition ph_copy :: "cpp_handles \<Rightarrow> 64 word \<Rightarrow> 64 word \<Rightarrow> handle_res" where
  "ph_copy s x other = do {
     ph \<leftarrow> objs s other;
     if ph \<noteq> None then do {
       (c, ret) \<leftarrow> sdskv_provider_handle_ref_incr (ch_client s) ph;
       if ret \<noteq> rc SDSKV_SUCCESS then Some (s\<lparr>ch_client := c\<rparr>, Some ret)
       else Some (s\<lparr>ch_client := c, objs := (objs s)(x \<mapsto> ph)\<rparr>, None)
     } else Some (s\<lparr>objs := (objs s)(x \<mapsto> ph)\<rparr>, None)
   }"

definition ph_move :: "cpp_handles \<Rightarrow> 64 word \<Rightarrow> 64 word \<Rightarrow> handle_res" where
  "ph_move s x other = do {
     ph \<leftarrow> objs s other;
     Some (s\<lparr>objs := (objs s)(x \<mapsto> ph, other \<mapsto> None)\<rparr>, None)
   }"

text \<open>What both assignment operators do first; \<open>Inl\<close> is an exception.\<close>

definition ph_release_old :: "cpp_handles \<Rightarrow> 64 word \<Rightarrow> (cpp_handles \<times> int32 option) option" where
  "ph_release_old s x = do {
     ph \<leftarrow> objs s x;
     if ph \<noteq> None then do {
       (c, ret) \<leftarrow> sdskv_provider_handle_release (ch_client s) ph;
       Some (s\<lparr>ch_client := c\<rparr>, if ret \<noteq> rc SDSKV_SUCCESS then Some ret else None)
     } else Some (s, None)
   }"

text \<open>\<open>operator=(const provider_handle&)\<close>\<close>

definition ph_assign :: "cpp_handles \<Rightarrow> 64 word \<Rightarrow> 64 word \<Rightarrow> handle_res" where
  "ph_assign s x other =
     (if x = other then Some (s, None)
      else do {
        (s1, e) \<leftarrow> ph_release_old s x;
        if e \<noteq> None then Some (s1, e)
        else do {
          ph \<leftarrow> objs s1 other;
          (c, ret) \<leftarrow> sdskv_provider_handle_ref_incr (ch_client s1) ph;
          Some (s1\<lparr>ch_client := c, objs := (objs s1)(x \<mapsto> ph)\<rparr>,
            if ret \<noteq> rc SDSKV_SUCCESS then Some ret else None)
        }
      })"

text \<open>
  \<open>operator=(provider_handle&)\<close>, documented as the move assignment: overload resolution selects it for every
  source that is a non-constant lvalue.
\<close>

definition ph_assign_lvalue :: "cpp_handles \<Rightarrow> 64 word \<Rightarrow> 64 word \<Rightarrow> handle_res" where
  "ph_assign_lvalue s x other =
     (if x = other then Some (s, None)
      else do {
        (s1, e) \<leftarrow> ph_release_old s x;
        if e \<noteq> None then Some (s1, e)
        else do {
          ph \<leftarrow> objs s1 other;
          Some (s1\<lparr>objs := (objs s1)(x \<mapsto> ph, other \<mapsto> None)\<rparr>, None)
        }
      })"

text \<open>The destructor ignores the return code.\<close>

definition ph_destroy :: "cpp_handles \<Rightarrow> 64 word \<Rightarrow> handle_res" where
  "ph_destroy s x = do {
     ph \<leftarrow> objs s x;
     if ph \<noteq> None then do {
       (c, ret) \<leftarrow> sdskv_provider_handle_release (ch_client s) ph;
       Some (s\<lparr>ch_client := c, objs := (objs s)(x := None)\<rparr>, None)
     } else Some (s\<lparr>objs := (objs s)(x := None)\<rparr>, None)
   }"

section \<open>Counting\<close>

text \<open>How many objects point to a handle.\<close>

definition pointing :: "(64 word \<Rightarrow> nat option option) \<Rightarrow> nat \<Rightarrow> nat" where
  "pointing ob l = card {x. ob x = Some (Some l)}"

definition counted :: "client \<Rightarrow> (nat \<Rightarrow> nat) \<Rightarrow> bool" where
  "counted c n \<longleftrightarrow>
     (\<forall>l. ph_heap c l = None \<longrightarrow> n l = 0)
     \<and> (\<forall>l h. ph_heap c l = Some h \<longrightarrow> 0 < n l \<and> n l < 2 ^ 64 \<and> ph_refcount h = word_of_nat (n l))
     \<and> finite (dom (ph_heap c)) \<and> num_provider_handles c = word_of_nat (card (dom (ph_heap c)))"

definition handles_counted :: "cpp_handles \<Rightarrow> bool" where
  "handles_counted s \<longleftrightarrow> counted (ch_client s) (pointing (objs s)) \<and> objs s 0 = None"

lemma countedD:
  assumes "counted c n"
  shows "ph_heap c l = None \<Longrightarrow> n l = 0"
    and "ph_heap c l = Some h \<Longrightarrow> 0 < n l \<and> n l < 2 ^ 64 \<and> ph_refcount h = word_of_nat (n l)"
    and "finite (dom (ph_heap c))" "num_provider_handles c = word_of_nat (card (dom (ph_heap c)))"
  using assms unfolding counted_def by blast+

lemma counted_heap:
  assumes "counted c n" "0 < n l"
  obtains h where "ph_heap c l = Some h"
  using countedD(1) [OF assms(1), of l] assms(2) by (cases "ph_heap c l") auto

lemma counted_incr:
  assumes "counted c n" "0 < n l" "n l + 1 < 2 ^ 64"
  shows "\<exists>c'. sdskv_provider_handle_ref_incr c (Some l) = Some (c', rc SDSKV_SUCCESS) \<and> counted c' (n(l := n l + 1))"
proof -
  obtain h where h: "ph_heap c l = Some h" using counted_heap [OF assms(1,2)] .
  let ?c = "c\<lparr>ph_heap := (ph_heap c)(l \<mapsto> h\<lparr>ph_refcount := ph_refcount h + 1\<rparr>)\<rparr>"
  have dom: "dom (ph_heap ?c) = dom (ph_heap c)" using h by auto
  have "counted ?c (n(l := n l + 1))"
    unfolding counted_def dom using countedD [OF assms(1)] h assms(3) by auto
  moreover have "sdskv_provider_handle_ref_incr c (Some l) = Some (?c, rc SDSKV_SUCCESS)"
    using h by (simp add: sdskv_provider_handle_ref_incr_def)
  ultimately show ?thesis by blast
qed

lemma word_of_nat_small_zero: "m < 2 ^ 64 \<Longrightarrow> (word_of_nat m :: 64 word) = 0 \<longleftrightarrow> m = 0"
  by (auto simp: word_of_nat_eq_0_iff dest: dvd_imp_le)

lemma counted_release:
  assumes "counted c n" "0 < n l"
  shows "\<exists>c'. sdskv_provider_handle_release c (Some l) = Some (c', rc SDSKV_SUCCESS) \<and> counted c' (n(l := n l - 1))"
proof -
  obtain h where h: "ph_heap c l = Some h" using counted_heap [OF assms] .
  note cnt = countedD(2) [OF assms(1) h]
  have dec: "ph_refcount h - 1 = word_of_nat (n l - 1)" using cnt assms(2) by (simp add: of_nat_diff)
  have zero: "ph_refcount h - 1 = 0 \<longleftrightarrow> n l = 1"
    unfolding dec using cnt by (subst word_of_nat_small_zero) auto
  show ?thesis
  proof (cases "n l = 1")
    case True
    let ?c = "c\<lparr>num_provider_handles := num_provider_handles c - 1, ph_heap := (ph_heap c)(l := None)\<rparr>"
    have dom: "dom (ph_heap ?c) = dom (ph_heap c) - {l}" by simp
    have "card (dom (ph_heap c)) = Suc (card (dom (ph_heap c) - {l}))"
      using countedD(3) [OF assms(1)] h by (intro card.remove) auto
    then have "num_provider_handles ?c = word_of_nat (card (dom (ph_heap c) - {l}))"
      using countedD(4) [OF assms(1)] by simp
    then have "counted ?c (n(l := n l - 1))"
      unfolding counted_def dom using countedD [OF assms(1)] True by auto
    moreover have "sdskv_provider_handle_release c (Some l) = Some (?c, rc SDSKV_SUCCESS)"
      using h zero True by (simp add: sdskv_provider_handle_release_def Let_def)
    ultimately show ?thesis by blast
  next
    case False
    let ?c = "c\<lparr>ph_heap := (ph_heap c)(l \<mapsto> h\<lparr>ph_refcount := ph_refcount h - 1\<rparr>)\<rparr>"
    have dom: "dom (ph_heap ?c) = dom (ph_heap c)" using h by auto
    have "counted ?c (n(l := n l - 1))"
      unfolding counted_def dom using countedD [OF assms(1)] cnt False dec by auto
    moreover have "sdskv_provider_handle_release c (Some l) = Some (?c, rc SDSKV_SUCCESS)"
      using h zero False by (simp add: sdskv_provider_handle_release_def Let_def)
    ultimately show ?thesis by blast
  qed
qed

lemma pointing_upd:
  "pointing (ob(x := v)) l + (if ob x = Some (Some l) then 1 else 0)
   = pointing ob l + (if v = Some (Some l) then 1 else 0)"
proof -
  let ?A = "{y. ob y = Some (Some l)} - {x}"
  have "pointing (ob(x := v)) l = card ?A + (if v = Some (Some l) then 1 else 0)"
  proof (cases "v = Some (Some l)")
    case True
    then have "{y. (ob(x := v)) y = Some (Some l)} = insert x ?A" by auto
    then have "pointing (ob(x := v)) l = card (insert x ?A)" unfolding pointing_def by (rule arg_cong)
    also have "\<dots> = Suc (card ?A)" by (rule card_insert_disjoint) simp_all
    finally show ?thesis using True by simp
  next
    case False
    then have "{y. (ob(x := v)) y = Some (Some l)} = ?A" by auto
    then show ?thesis using False by (simp add: pointing_def)
  qed
  moreover have "pointing ob l = card ?A + (if ob x = Some (Some l) then 1 else 0)"
    using card_Suc_Diff1 [of "{y. ob y = Some (Some l)}" x] by (auto simp: pointing_def)
  ultimately show ?thesis by simp
qed

lemma pointing_live: "ob x = Some (Some l) \<Longrightarrow> 0 < pointing ob l"
  by (auto simp: pointing_def card_gt_0_iff)

lemma pointing_bound:
  assumes "ob 0 = None"
  shows "pointing ob l < 2 ^ 64"
proof -
  have "{x. ob x = Some (Some l)} \<subset> (UNIV :: 64 word set)" using assms by (auto simp: psubset_eq set_eq_iff intro!: exI [of _ 0])
  then have "card {x. ob x = Some (Some l)} < card (UNIV :: 64 word set)"
    by (intro psubset_card_mono) simp_all
  then show ?thesis by (simp add: pointing_def card_word)
qed

text \<open>An object takes a handle that another object holds, or gives up its own.\<close>

lemma counted_point:
  assumes "counted c (pointing ob)" "ob 0 = None" "x \<noteq> 0" "ob x = None \<or> ob x = Some None" "0 < pointing ob l"
  shows "\<exists>c'. sdskv_provider_handle_ref_incr c (Some l) = Some (c', rc SDSKV_SUCCESS)
    \<and> counted c' (pointing (ob(x \<mapsto> Some l)))"
proof -
  have eq: "pointing (ob(x \<mapsto> Some l)) = (pointing ob)(l := pointing ob l + 1)"
    using pointing_upd [of ob x "Some (Some l)"] assms(4) by (auto simp: fun_eq_iff)
  have "pointing (ob(x \<mapsto> Some l)) l < 2 ^ 64" using assms(2,3) by (intro pointing_bound) simp
  then have "pointing ob l + 1 < 2 ^ 64" by (simp add: eq)
  from counted_incr [OF assms(1,5) this] show ?thesis by (simp add: eq)
qed

lemma counted_unpoint:
  assumes "counted c (pointing ob)" "ob x = Some (Some l)" "v = None \<or> v = Some None"
  shows "\<exists>c'. sdskv_provider_handle_release c (Some l) = Some (c', rc SDSKV_SUCCESS)
    \<and> counted c' (pointing (ob(x := v)))"
proof -
  have "pointing (ob(x := v)) = (pointing ob)(l := pointing ob l - 1)"
  proof
    fix l' show "pointing (ob(x := v)) l' = ((pointing ob)(l := pointing ob l - 1)) l'"
      using pointing_upd [of ob x v l'] assms(2,3) by (auto split: if_splits)
  qed
  then show ?thesis using counted_release [OF assms(1) pointing_live [of ob x, OF assms(2)]] by simp
qed

lemma pointing_null:
  assumes "ob x = None \<or> ob x = Some None" "v = None \<or> v = Some None"
  shows "pointing (ob(x := v)) = pointing ob"
  using pointing_upd [of ob x v] assms by (auto simp: fun_eq_iff)

section \<open>Every operation keeps the counts\<close>

lemma ph_create_counted:
  assumes "handles_counted s" "x \<noteq> 0" "objs s x = None" "\<forall>l. loc = Some l \<longrightarrow> ph_heap (ch_client s) l = None"
  shows "\<exists>s' e. ph_create s x loc dup addr pid = Some (s', e) \<and> handles_counted s'"
proof (cases "loc = None \<or> dup \<noteq> hg_success")
  case True
  have "handles_counted s \<Longrightarrow> handles_counted (s\<lparr>ch_client := ch_client s\<rparr>)" by simp
  with True assms(1,2,3) show ?thesis
    by (cases loc) (auto simp: ph_create_def sdskv_provider_handle_create_def Let_def handles_counted_def
        pointing_null split: if_splits)
next
  case False
  then obtain l where l: "loc = Some l" "dup = hg_success" by auto
  let ?h = "\<lparr>ph_addr = addr, ph_provider_id = pid, ph_refcount = 1\<rparr>"
  let ?c = "(ch_client s)\<lparr>num_provider_handles := num_provider_handles (ch_client s) + 1,
      ph_heap := (ph_heap (ch_client s))(l \<mapsto> ?h)\<rparr>"
  have cnt: "counted (ch_client s) (pointing (objs s))" and o0: "objs s 0 = None"
    using assms(1) by (auto simp: handles_counted_def)
  have fresh: "ph_heap (ch_client s) l = None" using assms(4) l by simp
  then have none: "pointing (objs s) l = 0" using countedD(1) [OF cnt] by simp
  have pt: "pointing ((objs s)(x \<mapsto> Some l)) = (pointing (objs s))(l := 1)"
  proof
    fix l' show "pointing ((objs s)(x \<mapsto> Some l)) l' = ((pointing (objs s))(l := 1)) l'"
      using pointing_upd [of "objs s" x "Some (Some l)" l'] assms(3) none by auto
  qed
  have dom: "dom (ph_heap ?c) = insert l (dom (ph_heap (ch_client s)))" by auto
  have "l \<notin> dom (ph_heap (ch_client s))" using fresh by auto
  then have "counted ?c ((pointing (objs s))(l := 1))"
    unfolding counted_def dom using countedD [OF cnt] by auto
  then have "handles_counted (s\<lparr>ch_client := ?c, objs := (objs s)(x \<mapsto> Some l)\<rparr>)"
    using assms(2) o0 by (simp add: handles_counted_def pt)
  then show ?thesis
    using l by (simp add: ph_create_def sdskv_provider_handle_create_def Let_def)
qed

lemma ph_copy_counted:
  assumes "handles_counted s" "x \<noteq> 0" "objs s x = None" "objs s y = Some ph"
  shows "\<exists>s'. ph_copy s x y = Some (s', None) \<and> handles_counted s' \<and> objs s' = (objs s)(x \<mapsto> ph)"
proof (cases ph)
  case None
  then show ?thesis
    using assms by (auto simp: ph_copy_def handles_counted_def pointing_null)
next
  case (Some l)
  have o: "objs s 0 = None" "counted (ch_client s) (pointing (objs s))"
    using assms(1) by (auto simp: handles_counted_def)
  obtain c' where "sdskv_provider_handle_ref_incr (ch_client s) (Some l) = Some (c', rc SDSKV_SUCCESS)"
    "counted c' (pointing ((objs s)(x \<mapsto> Some l)))"
    using counted_point [OF o(2,1) assms(2)] assms(3,4) Some pointing_live by blast
  then show ?thesis
    using assms o Some by (auto simp: ph_copy_def handles_counted_def)
qed

lemma ph_release_old_counted:
  assumes "handles_counted s" "objs s x = Some ph"
  shows "\<exists>c'. ph_release_old s x = Some (s\<lparr>ch_client := c'\<rparr>, None)
    \<and> counted c' (pointing ((objs s)(x \<mapsto> None)))"
proof (cases ph)
  case None
  then show ?thesis
    using assms by (intro exI [of _ "ch_client s"]) (simp add: ph_release_old_def handles_counted_def pointing_null)
next
  case (Some l)
  obtain c' where "sdskv_provider_handle_release (ch_client s) (Some l) = Some (c', rc SDSKV_SUCCESS)"
    "counted c' (pointing ((objs s)(x \<mapsto> None)))"
    using counted_unpoint [of "ch_client s" "objs s" x l "Some None"] assms Some
    by (auto simp: handles_counted_def)
  then show ?thesis using assms Some by (auto simp: ph_release_old_def)
qed

lemma pointing_swap:
  assumes "ob x = None \<or> ob x = Some None" "ob y = Some ph" "x \<noteq> y"
  shows "pointing (ob(x \<mapsto> ph, y \<mapsto> None)) = pointing ob"
proof
  fix l
  show "pointing (ob(x \<mapsto> ph, y \<mapsto> None)) l = pointing ob l"
    using pointing_upd [of ob x "Some ph" l] pointing_upd [of "ob(x \<mapsto> ph)" y "Some None" l] assms
    by (auto split: if_splits)
qed

lemma ph_move_counted:
  assumes "handles_counted s" "x \<noteq> 0" "objs s x = None" "objs s y = Some ph"
  shows "\<exists>s'. ph_move s x y = Some (s', None) \<and> handles_counted s' \<and> objs s' = (objs s)(x \<mapsto> ph, y \<mapsto> None)"
proof -
  have "x \<noteq> y" "y \<noteq> 0" using assms by (auto simp: handles_counted_def)
  then show ?thesis
    using assms pointing_swap [of "objs s" x y ph] by (simp add: ph_move_def handles_counted_def)
qed

lemma ph_assign_counted:
  assumes "handles_counted s" "objs s x = Some phx" "objs s y = Some ph" "x \<noteq> y"
  shows "\<exists>s'. ph_assign s x y = Some (s', if ph = None then Some (rc SDSKV_ERR_INVALID_ARG) else None)
    \<and> handles_counted s' \<and> objs s' = (objs s)(x \<mapsto> ph)"
proof -
  let ?ob = "(objs s)(x \<mapsto> None)"
  have nz: "objs s 0 = None" "x \<noteq> 0" using assms by (auto simp: handles_counted_def)
  obtain c1 where rel: "ph_release_old s x = Some (s\<lparr>ch_client := c1\<rparr>, None)" "counted c1 (pointing ?ob)"
    using ph_release_old_counted [OF assms(1,2)] by blast
  show ?thesis
  proof (cases ph)
    case None
    then show ?thesis
      using rel assms(3,4) nz
      by (simp add: ph_assign_def sdskv_provider_handle_ref_incr_def handles_counted_def)
  next
    case (Some l)
    have "0 < pointing ?ob l" using assms(3,4) Some by (intro pointing_live [of _ y]) simp
    then obtain c2 where c2: "sdskv_provider_handle_ref_incr c1 (Some l) = Some (c2, rc SDSKV_SUCCESS)"
      "counted c2 (pointing (?ob(x \<mapsto> Some l)))"
      using counted_point [OF rel(2), of x l] nz by auto
    then show ?thesis
      using rel(1) assms(3,4) Some nz by (simp add: ph_assign_def handles_counted_def)
  qed
qed

lemma ph_assign_lvalue_counted:
  assumes "handles_counted s" "objs s x = Some phx" "objs s y = Some ph" "x \<noteq> y"
  shows "\<exists>s'. ph_assign_lvalue s x y = Some (s', None) \<and> handles_counted s'
    \<and> objs s' = (objs s)(x \<mapsto> ph, y \<mapsto> None)"
proof -
  have nz: "objs s 0 = None" "x \<noteq> 0" "y \<noteq> 0" using assms by (auto simp: handles_counted_def)
  obtain c1 where rel: "ph_release_old s x = Some (s\<lparr>ch_client := c1\<rparr>, None)"
    "counted c1 (pointing ((objs s)(x \<mapsto> None)))"
    using ph_release_old_counted [OF assms(1,2)] by blast
  have "pointing ((objs s)(x \<mapsto> ph, y \<mapsto> None)) = pointing ((objs s)(x \<mapsto> None))"
    using pointing_swap [of "(objs s)(x \<mapsto> None)" x y ph] assms(3,4) by simp
  then show ?thesis
    using rel assms(3,4) nz by (simp add: ph_assign_lvalue_def handles_counted_def)
qed

lemma ph_destroy_counted:
  assumes "handles_counted s" "objs s x = Some ph"
  shows "\<exists>s'. ph_destroy s x = Some (s', None) \<and> handles_counted s' \<and> objs s' = (objs s)(x := None)"
proof (cases ph)
  case None
  then show ?thesis using assms by (simp add: ph_destroy_def handles_counted_def pointing_null)
next
  case (Some l)
  obtain c' where "sdskv_provider_handle_release (ch_client s) (Some l) = Some (c', rc SDSKV_SUCCESS)"
    "counted c' (pointing ((objs s)(x := None)))"
    using counted_unpoint [of "ch_client s" "objs s" x l None] assms Some by (auto simp: handles_counted_def)
  then show ?thesis using assms Some by (simp add: ph_destroy_def handles_counted_def)
qed

section \<open>Programs\<close>

text \<open>
  The steps of a program that uses the class: objects are constructed at free addresses, assigned and
  destroyed while they live. An exception leaves the state the operation had reached.
\<close>

inductive handle_step :: "cpp_handles \<Rightarrow> cpp_handles \<Rightarrow> bool" where
  default: "x \<noteq> 0 \<Longrightarrow> objs s x = None \<Longrightarrow> ph_default s x = Some (s', e) \<Longrightarrow> handle_step s s'"
| create: "x \<noteq> 0 \<Longrightarrow> objs s x = None \<Longrightarrow> (\<forall>l. loc = Some l \<longrightarrow> ph_heap (ch_client s) l = None) \<Longrightarrow>
    ph_create s x loc dup addr pid = Some (s', e) \<Longrightarrow> handle_step s s'"
| copy: "x \<noteq> 0 \<Longrightarrow> objs s x = None \<Longrightarrow> objs s y \<noteq> None \<Longrightarrow> ph_copy s x y = Some (s', e) \<Longrightarrow> handle_step s s'"
| move: "x \<noteq> 0 \<Longrightarrow> objs s x = None \<Longrightarrow> objs s y \<noteq> None \<Longrightarrow> ph_move s x y = Some (s', e) \<Longrightarrow> handle_step s s'"
| assign: "objs s x \<noteq> None \<Longrightarrow> objs s y \<noteq> None \<Longrightarrow> ph_assign s x y = Some (s', e) \<Longrightarrow> handle_step s s'"
| assign_lvalue: "objs s x \<noteq> None \<Longrightarrow> objs s y \<noteq> None \<Longrightarrow> ph_assign_lvalue s x y = Some (s', e) \<Longrightarrow> handle_step s s'"
| destroy: "objs s x \<noteq> None \<Longrightarrow> ph_destroy s x = Some (s', e) \<Longrightarrow> handle_step s s'"

definition handles_init :: cpp_handles where
  "handles_init = \<lparr>ch_client = fst sdskv_client_init, objs = Map.empty\<rparr>"

inductive handle_reachable :: "cpp_handles \<Rightarrow> bool" where
  init: "handle_reachable handles_init"
| step: "handle_reachable s \<Longrightarrow> handle_step s s' \<Longrightarrow> handle_reachable s'"

lemma handle_step_counted:
  assumes "handle_step s s'" "handles_counted s"
  shows "handles_counted s'"
  using assms
proof (induction rule: handle_step.induct)
  case (default x s s' e)
  then show ?case by (auto simp: ph_default_def handles_counted_def pointing_null)
next
  case (create x s loc dup addr pid s' e)
  then show ?case using ph_create_counted [of s x loc dup addr pid] by auto
next
  case (copy x s y s' e)
  then show ?case using ph_copy_counted [of s x y] by fastforce
next
  case (move x s y s' e)
  then show ?case using ph_move_counted [of s x y] by fastforce
next
  case (assign s x y s' e)
  then show ?case using ph_assign_counted [of s x _ y] by (cases "x = y") (fastforce simp: ph_assign_def)+
next
  case (assign_lvalue s x y s' e)
  then show ?case using ph_assign_lvalue_counted [of s x _ y] by (cases "x = y") (fastforce simp: ph_assign_lvalue_def)+
next
  case (destroy s x s' e)
  then show ?case using ph_destroy_counted [of s x] by fastforce
qed

lemma handle_reachable_counted: "handle_reachable s \<Longrightarrow> handles_counted s"
proof (induction rule: handle_reachable.induct)
  case init
  show ?case by (simp add: handles_init_def handles_counted_def counted_def sdskv_client_init_def pointing_def)
qed (rule handle_step_counted)

section \<open>Properties\<close>

text \<open>
  C38. Sharing of provider handles is safe in every program: no object points to a freed handle, the reference
  count of a handle is the number of objects that point to it, so that assignments and destructors always
  have a defined result, and when no object is left every handle has been freed and \<open>sdskv_client_finalize\<close>
  has nothing to warn about.
\<close>

theorem cpp_handles_counted:
  assumes "handle_reachable s"
  shows "(\<forall>x l. objs s x = Some (Some l) \<longrightarrow>
        (\<exists>h. ph_heap (ch_client s) l = Some h \<and> unat (ph_refcount h) = pointing (objs s) l))
    \<and> (\<forall>x y. objs s x \<noteq> None \<longrightarrow> objs s y \<noteq> None \<longrightarrow>
        ph_assign s x y \<noteq> None \<and> ph_assign_lvalue s x y \<noteq> None \<and> ph_destroy s x \<noteq> None)
    \<and> ((\<forall>x. objs s x = None \<or> objs s x = Some None) \<longrightarrow>
        ph_heap (ch_client s) = Map.empty \<and> sdskv_client_finalize (ch_client s) = (False, rc SDSKV_SUCCESS))"
proof (intro conjI allI impI)
  have inv: "handles_counted s" by (rule handle_reachable_counted [OF assms])
  then have cnt: "counted (ch_client s) (pointing (objs s))" by (simp add: handles_counted_def)
  fix x l assume "objs s x = Some (Some l)"
  then have "0 < pointing (objs s) l" by (rule pointing_live)
  then obtain h where h: "ph_heap (ch_client s) l = Some h" using counted_heap [OF cnt] by blast
  with countedD(2) [OF cnt h] show "\<exists>h. ph_heap (ch_client s) l = Some h \<and> unat (ph_refcount h) = pointing (objs s) l"
    by (auto simp: unat_of_nat)
next
  have inv: "handles_counted s" by (rule handle_reachable_counted [OF assms])
  fix x y assume ne: "objs s x \<noteq> None" "objs s y \<noteq> None"
  then obtain px py where xy: "objs s x = Some px" "objs s y = Some py" by blast
  show "ph_assign s x y \<noteq> None"
    using ph_assign_counted [OF inv xy] by (cases "x = y") (auto simp: ph_assign_def)
  show "ph_assign_lvalue s x y \<noteq> None"
    using ph_assign_lvalue_counted [OF inv xy] by (cases "x = y") (auto simp: ph_assign_lvalue_def)
  show "ph_destroy s x \<noteq> None"
    using ph_destroy_counted [OF inv xy(1)] by auto
next
  have cnt: "counted (ch_client s) (pointing (objs s))"
    using handle_reachable_counted [OF assms] by (simp add: handles_counted_def)
  assume none: "\<forall>x. objs s x = None \<or> objs s x = Some None"
  have "ph_heap (ch_client s) l = None" for l
  proof (rule ccontr)
    assume "ph_heap (ch_client s) l \<noteq> None"
    then have "0 < pointing (objs s) l" using countedD(2) [OF cnt] by blast
    then obtain x where "objs s x = Some (Some l)" by (auto simp: pointing_def card_gt_0_iff)
    with none show False by (metis option.distinct(1) option.inject)
  qed
  then show empty: "ph_heap (ch_client s) = Map.empty" by auto
  then show "sdskv_client_finalize (ch_client s) = (False, rc SDSKV_SUCCESS)"
    using countedD(4) [OF cnt] by (simp add: sdskv_client_finalize_def)
qed

theorem cpp_handles_counted_witness:
  "\<exists>s1 s2 s3 s4. ph_create handles_init 8 (Some 5) 0 1 2 = Some (s1, None) \<and> ph_copy s1 16 8 = Some (s2, None)
    \<and> ph_destroy s2 8 = Some (s3, None) \<and> (\<exists>h. ph_heap (ch_client s3) 5 = Some h \<and> ph_refcount h = 1)
    \<and> ph_destroy s3 16 = Some (s4, None) \<and> ph_heap (ch_client s4) = Map.empty
    \<and> sdskv_client_finalize (ch_client s4) = (False, rc SDSKV_SUCCESS)"
proof -
  note ops = handles_init_def ph_create_def ph_copy_def ph_destroy_def sdskv_client_init_def
    sdskv_provider_handle_create_def sdskv_provider_handle_ref_incr_def sdskv_provider_handle_release_def
  obtain s1 where s1: "ph_create handles_init 8 (Some 5) 0 1 2 = Some (s1, None)" "objs s1 = [8 \<mapsto> Some 5]"
    "ph_heap (ch_client s1) = [5 \<mapsto> \<lparr>ph_addr = 1, ph_provider_id = 2, ph_refcount = 1\<rparr>]"
    by (simp add: ops)
  obtain s2 where s2: "ph_copy s1 16 8 = Some (s2, None)" "objs s2 = [8 \<mapsto> Some 5, 16 \<mapsto> Some 5]"
    "ph_heap (ch_client s2) = [5 \<mapsto> \<lparr>ph_addr = 1, ph_provider_id = 2, ph_refcount = 2\<rparr>]"
    using s1 by (simp add: ops)
  obtain s3 where s3: "ph_destroy s2 8 = Some (s3, None)" "objs s3 = [16 \<mapsto> Some 5]"
    "ph_heap (ch_client s3) = [5 \<mapsto> \<lparr>ph_addr = 1, ph_provider_id = 2, ph_refcount = 1\<rparr>]"
    using s2 by (simp add: ops Let_def fun_upd_def fun_eq_iff)
  obtain s4 where s4: "ph_destroy s3 16 = Some (s4, None)" "objs s4 = Map.empty"
    using s3 by (simp add: ops Let_def)
  have "handle_reachable s1"
    by (rule handle_reachable.step [OF handle_reachable.init handle_step.create [OF _ _ _ s1(1)]])
      (simp_all add: handles_init_def sdskv_client_init_def)
  then have "handle_reachable s2"
    by (rule handle_reachable.step [OF _ handle_step.copy [OF _ _ _ s2(1)]]) (simp_all add: s1)
  then have "handle_reachable s3"
    by (rule handle_reachable.step [OF _ handle_step.destroy [OF _ s3(1)]]) (simp add: s2)
  then have "handle_reachable s4"
    by (rule handle_reachable.step [OF _ handle_step.destroy [OF _ s4(1)]]) (simp add: s3)
  from cpp_handles_counted [OF this] s4(2) show ?thesis
    using s1(1) s2(1) s3(1) s4(1) s3(3) by (intro exI conjI) (assumption | simp)+
qed

text \<open>
  Assigning from a provider handle that is an lvalue takes the handle away from it: overload resolution
  prefers \<open>operator=(provider_handle&)\<close>, so that the source of a plain assignment is left null.
\<close>

theorem lvalue_assignment_steals:
  assumes "handle_reachable s" "objs s x = Some px" "objs s y = Some (Some l)" "x \<noteq> y"
  shows "\<exists>s'. ph_assign_lvalue s x y = Some (s', None) \<and> objs s' x = Some (Some l) \<and> objs s' y = Some None"
  using ph_assign_lvalue_counted [OF handle_reachable_counted [OF assms(1)] assms(2-4)] assms(4) by auto

theorem lvalue_assignment_steals_witness:
  "\<exists>s1 s2 s'. ph_default handles_init 16 = Some (s1, None) \<and> ph_create s1 8 (Some 5) 0 1 2 = Some (s2, None)
    \<and> ph_assign_lvalue s2 16 8 = Some (s', None) \<and> objs s' 16 = Some (Some 5) \<and> objs s' 8 = Some None"
proof -
  obtain s1 where s1: "ph_default handles_init 16 = Some (s1, None)" "objs s1 = [16 \<mapsto> None]"
    "ph_heap (ch_client s1) = Map.empty"
    by (simp add: ph_default_def handles_init_def sdskv_client_init_def)
  obtain s2 where s2: "ph_create s1 8 (Some 5) 0 1 2 = Some (s2, None)" "objs s2 = [16 \<mapsto> None, 8 \<mapsto> Some 5]"
    using s1 by (simp add: ph_create_def sdskv_provider_handle_create_def Let_def)
  have "handle_reachable s1"
    by (rule handle_reachable.step [OF handle_reachable.init handle_step.default [OF _ _ s1(1)]])
      (simp_all add: handles_init_def)
  then have "handle_reachable s2"
    by (rule handle_reachable.step [OF _ handle_step.create [OF _ _ _ s2(1)]]) (simp_all add: s1)
  from lvalue_assignment_steals [OF this, of 16 None 8 5] s1(1) s2 show ?thesis by auto
qed

end
