(* ===== verification/Provider_Steps.thy ===== *)
theory Provider_Steps
  imports Server_Basic
begin

text \<open>
  The life of a provider as a transition system: the calls of the administration interface and the requests
  that reach one of its databases, in any order. The id of a new database is the address of its object, so
  it is never the id of a live one; this is the only thing assumed of the addresses. Handles of \<open>dlopen\<close> are numbers.

  Every reachable provider satisfies the registry invariant, and databases are all reachable by name as long
  as no name is attached twice.
\<close>

section \<open>Steps\<close>

inductive provider_step ::
  "'ds vtable \<Rightarrow> (sdskv_db_type_t \<Rightarrow> string \<Rightarrow> string \<Rightarrow> 'ds option) \<Rightarrow> 'ds provider \<Rightarrow> 'ds provider \<Rightarrow> bool"
  for V open_ds
where
  attach: "find_db p addr = None \<Longrightarrow>
    provider_step V open_ds p (fst (sdskv_provider_attach_database V open_ds p config addr))"
| remove: "provider_step V open_ds p (fst (sdskv_provider_remove_database p i))"
| remove_all: "provider_step V open_ds p (fst (sdskv_provider_remove_all_databases p))"
| add_comparison: "provider_step V open_ds p (fst (sdskv_provider_add_comparison_function p n f))"
| find_comparison: "provider_step V open_ds p
    (fst (sdskv_provider_find_comparison_function (dlopen :: string option \<Rightarrow> nat option) dlsym p lib n))"
| request: "find_db p i = Some db \<Longrightarrow> provider_step V open_ds p (set_db p i db')"

inductive provider_reachable ::
  "'ds vtable \<Rightarrow> (sdskv_db_type_t \<Rightarrow> string \<Rightarrow> string \<Rightarrow> 'ds option) \<Rightarrow> 'ds provider \<Rightarrow> bool"
  for V open_ds
where
  registered: "provider_reachable V open_ds provider_new"
| step: "provider_reachable V open_ds p \<Longrightarrow> provider_step V open_ds p p' \<Longrightarrow> provider_reachable V open_ds p'"

inductive_cases provider_stepE: "provider_step V open_ds p p'"

lemma provider_step_inv: "provider_step V open_ds p p' \<Longrightarrow> provider_inv p \<Longrightarrow> provider_inv p'"
  by (erule provider_stepE)
    (auto intro: attach_inv remove_inv remove_all_inv add_comparison_inv find_comparison_inv set_db_inv)

lemma provider_reachable_inv: "provider_reachable V open_ds p \<Longrightarrow> provider_inv p"
  by (induction rule: provider_reachable.induct) (auto intro: provider_inv_new provider_step_inv)

section \<open>Unique names\<close>

text \<open>The same steps, with \<open>attach\<close> restricted to names that are not in use.\<close>

inductive named_step ::
  "'ds vtable \<Rightarrow> (sdskv_db_type_t \<Rightarrow> string \<Rightarrow> string \<Rightarrow> 'ds option) \<Rightarrow> 'ds provider \<Rightarrow> 'ds provider \<Rightarrow> bool"
  for V open_ds
where
  attach_new: "find_db p addr = None \<Longrightarrow> find_name p (cfg_db_name config) = None \<Longrightarrow>
    named_step V open_ds p (fst (sdskv_provider_attach_database V open_ds p config addr))"
| remove_named: "named_step V open_ds p (fst (sdskv_provider_remove_database p i))"
| remove_all_named: "named_step V open_ds p (fst (sdskv_provider_remove_all_databases p))"
| add_comparison_named: "named_step V open_ds p (fst (sdskv_provider_add_comparison_function p n f))"
| find_comparison_named: "named_step V open_ds p
    (fst (sdskv_provider_find_comparison_function (dlopen :: string option \<Rightarrow> nat option) dlsym p lib n))"
| request_named: "find_db p i = Some db \<Longrightarrow> named_step V open_ds p (set_db p i db')"

inductive named_reachable ::
  "'ds vtable \<Rightarrow> (sdskv_db_type_t \<Rightarrow> string \<Rightarrow> string \<Rightarrow> 'ds option) \<Rightarrow> 'ds provider \<Rightarrow> bool"
  for V open_ds
where
  registered_named: "named_reachable V open_ds provider_new"
| step_named: "named_reachable V open_ds p \<Longrightarrow> named_step V open_ds p p' \<Longrightarrow> named_reachable V open_ds p'"

lemma named_step_provider: "named_step V open_ds p p' \<Longrightarrow> provider_step V open_ds p p'"
  by (induction rule: named_step.induct) (auto intro: provider_step.intros)

lemma named_reachable_provider: "named_reachable V open_ds p \<Longrightarrow> provider_reachable V open_ds p"
  by (induction rule: named_reachable.induct) (auto intro: provider_reachable.intros named_step_provider)

lemma names_unique_kept:
  "names_unique p \<Longrightarrow> names_unique (fst (sdskv_provider_remove_all_databases p))"
  "names_unique p \<Longrightarrow> names_unique (fst (sdskv_provider_add_comparison_function p n f))"
  "names_unique p \<Longrightarrow> names_unique (fst (sdskv_provider_find_comparison_function dlopen dlsym p lib n))"
  "names_unique p \<Longrightarrow> names_unique (set_db p i db)"
  "names_unique provider_new"
  by (auto simp: names_unique_def sdskv_provider_remove_all_databases_def set_db_def provider_new_def
      sdskv_provider_add_comparison_function_def sdskv_provider_find_comparison_function_def Let_def
      split: option.splits)

lemma named_step_unique: "named_step V open_ds p p' \<Longrightarrow> provider_inv p \<Longrightarrow> names_unique p \<Longrightarrow> names_unique p'"
  by (induction rule: named_step.induct)
    (auto intro: attach_names_unique remove_names_unique names_unique_kept)

lemma named_reachable_unique: "named_reachable V open_ds p \<Longrightarrow> names_unique p"
  by (induction rule: named_reachable.induct)
    (auto intro: names_unique_kept named_step_unique provider_reachable_inv named_reachable_provider)

text \<open>Then the two ways of counting databases agree: \<open>name2id\<close> lists exactly the live ids, each once.\<close>

lemma live_ids:
  assumes inv: "provider_inv p" and uniq: "names_unique p"
  shows "set (map snd (name2id p)) = {i. find_db p i \<noteq> None} \<and> distinct (map snd (name2id p))
    \<and> length (name2id p) = length (databases p)"
proof -
  have srt: "find_name p = map_of (name2id p)" "find_db p = map_of (databases p)"
    using provider_inv_sorted [OF inv] string_order.om_lookup_map_of id_order.om_lookup_map_of by blast+
  have dist: "distinct (map fst (name2id p))" "distinct (map fst (databases p))"
    using provider_inv_sorted [OF inv] string_order.om_sorted_distinct id_order.om_sorted_distinct by blast+
  have mem: "(n, i) \<in> set (name2id p) \<longleftrightarrow> find_name p n = Some i" for n i
    using dist(1) by (simp add: srt)
  have ids: "find_name p n = Some i \<longleftrightarrow> find_id p i = Some n" for n i
    using provider_inv_name [OF inv] names_uniqueD [OF uniq] by blast
  have live: "find_db p i \<noteq> None \<longleftrightarrow> (\<exists>n. find_id p i = Some n)" for i
    using provider_inv_live [OF inv, of i] by auto
  have set_eq: "set (map snd (name2id p)) = {i. find_db p i \<noteq> None}"
  proof (intro set_eqI iffI)
    fix i assume "i \<in> set (map snd (name2id p))"
    then obtain n where "(n, i) \<in> set (name2id p)" by auto
    then have "find_id p i = Some n" using mem ids by blast
    then show "i \<in> {i. find_db p i \<noteq> None}" using live by blast
  next
    fix i assume "i \<in> {i. find_db p i \<noteq> None}"
    then obtain n where "find_id p i = Some n" using live by blast
    then have "(n, i) \<in> set (name2id p)" using mem ids by blast
    then show "i \<in> set (map snd (name2id p))" by force
  qed
  have "inj_on snd (set (name2id p))"
  proof (rule inj_onI)
    fix x y assume x: "x \<in> set (name2id p)" "y \<in> set (name2id p)" "snd x = snd y"
    obtain n m i where xy: "x = (n, i)" "y = (m, i)" using x(3) by (cases x; cases y) simp
    have "find_id p i = Some n" "find_id p i = Some m" using x(1,2) mem ids unfolding xy by blast+
    then show "x = y" by (simp add: xy)
  qed
  then have d: "distinct (map snd (name2id p))"
    using dist(1) by (simp add: distinct_map)
  have "{i. find_db p i \<noteq> None} = set (map fst (databases p))"
    by (simp add: srt map_of_eq_None_iff set_eq_iff)
  then have "length (map snd (name2id p)) = length (map fst (databases p))"
    using set_eq d dist(2) by (metis distinct_card)
  then show ?thesis using set_eq d by simp
qed

end
