(* ===== verification/Fs_Util.thy ===== *)
theory Fs_Util
  imports Sdskv_Prelude
begin

text \<open>
  \<open>mkdirs\<close> of datastore/fs_util.h, by which the persistent backends create the directory of a database, with
  its parents. The model is the list of paths \<open>mkdir\<close> is called with, in order; the results of \<open>mkdir\<close> are
  ignored by the code. An access outside the buffer of 256 characters is \<open>None\<close>.
\<close>

text \<open>A \<open>std::string\<close> passed as a C string ends at its first null character.\<close>

definition c_str :: "string \<Rightarrow> string" where
  "c_str s = takeWhile (\<lambda>c. c \<noteq> CHR 0x00) s"

lemma c_str_id: "CHR 0x00 \<notin> set s \<Longrightarrow> c_str s = s"
  by (auto simp: c_str_def takeWhile_eq_all_conv)

text \<open>The loop; the first argument is what lies before \<open>p\<close>.\<close>

fun mkdirs_loop :: "string \<Rightarrow> string \<Rightarrow> string list" where
  "mkdirs_loop before [] = []"
| "mkdirs_loop before (c # cs) =
     (if c = CHR ''/'' then before # mkdirs_loop (before @ [c]) cs else mkdirs_loop (before @ [c]) cs)"

definition mkdirs :: "string \<Rightarrow> string list option" where
  "mkdirs dir =
     (let len = length dir in
      if len = 0 \<or> len > 256 then None
      else
        let tmp = take 255 dir;
            tmp = (if len \<le> 255 \<and> last dir = CHR ''/'' then butlast tmp else tmp)
        in case tmp of
             [] \<Rightarrow> Some [[]]
           | c # cs \<Rightarrow> Some (mkdirs_loop [c] cs @ [tmp]))"

lemma mkdirs_loop_positions:
  "mkdirs_loop before rest
   = map (\<lambda>i. take i (before @ rest))
       (filter (\<lambda>i. (before @ rest) ! i = CHR ''/'') [length before..<length before + length rest])"
proof (induction before rest rule: mkdirs_loop.induct)
  case (2 before c cs)
  have "[length before..<length before + length (c # cs)] =
      length before # [length (before @ [c])..<length (before @ [c]) + length cs]"
    by (simp add: upt_conv_Cons del: upt_Suc)
  with 2 show ?case by simp
qed simp

text \<open>
  \<open>mkdirs\<close> creates exactly the ancestors of the directory, from the outermost one on, and then the directory
  itself: for a path of at most 255 characters the paths passed to \<open>mkdir\<close> are, in order, what lies before each
  slash other than a leading one, and the path without a trailing slash. A path longer than 256 characters
  makes it access memory outside its buffer.
\<close>

theorem mkdirs_ancestors:
  assumes "dir \<noteq> []" "dir \<noteq> ''/''"
  shows "mkdirs dir =
    (if length dir > 256 then None
     else let d = (if length dir \<le> 255 \<and> last dir = CHR ''/'' then butlast dir else take 255 dir)
          in Some (map (\<lambda>i. take i d) (filter (\<lambda>i. d ! i = CHR ''/'') [1..<length d]) @ [d]))"
proof (cases "length dir > 256")
  case False
  define d where "d = (if length dir \<le> 255 \<and> last dir = CHR ''/'' then butlast dir else take 255 dir)"
  have "d \<noteq> []" using assms by (cases dir) (auto simp: d_def split: if_splits)
  then obtain c cs where d: "d = c # cs" by (cases d) auto
  have "mkdirs dir = Some (mkdirs_loop [c] cs @ [d])"
    using False assms(1) d by (cases "length dir \<le> 255") (auto simp: mkdirs_def Let_def d_def split: if_splits)
  also have "\<dots> = Some (map (\<lambda>i. take i d) (filter (\<lambda>i. d ! i = CHR ''/'') [1..<length d]) @ [d])"
    by (simp add: mkdirs_loop_positions d)
  finally show ?thesis using False by (simp add: Let_def flip: d_def)
qed (use assms in \<open>simp add: mkdirs_def\<close>)

theorem mkdirs_ancestors_witness:
  "mkdirs ''/a/bc/d/'' = Some [''/a'', ''/a/bc'', ''/a/bc/d''] \<and> mkdirs (replicate 300 (CHR ''x'')) = None"
proof
  have ne: "''/a/bc/d/'' \<noteq> ''/''" by simp
  show "mkdirs ''/a/bc/d/'' = Some [''/a'', ''/a/bc'', ''/a/bc/d'']"
    unfolding mkdirs_ancestors [of "''/a/bc/d/''", OF list.distinct(2) ne] by code_simp
  have "replicate 300 (CHR ''x'') \<noteq> []" "replicate 300 (CHR ''x'') \<noteq> ''/''"
    by (metis length_replicate list.size(3) zero_neq_numeral)
      (metis length_replicate length_Cons list.size(3) One_nat_def numeral_eq_one_iff semiring_norm(83))
  from mkdirs_ancestors [OF this] show "mkdirs (replicate 300 (CHR ''x'')) = None" by simp
qed

end
