(* ===== verification/Provider_Config.thy ===== *)
theory Provider_Config
  imports Provider_Steps Fs_Util
begin

text \<open>
  The JSON configuration of a provider (sdskv-server.cc): \<open>validate_and_complete_config\<close> and
  \<open>check_provider_config\<close> check the document and fill in default values, \<open>populate_provider_from_config\<close> registers
  the comparison functions and attaches the databases it lists.

  The library JsonCpp is the parameter \<open>jsoncpp\<close>: its values have an arbitrary type \<open>'j\<close>, and the record has the
  members of \<open>Json::Value\<close> the code calls. A member whose precondition on the type of the value is violated throws
  \<open>Json::LogicError\<close>, which the code does not catch; the result is \<open>None\<close>. \<open>json_ok\<close> states the
  documented behaviour the theorems use. A reference into a document is written back at the end of the
  loop that holds it.
\<close>

section \<open>Documents\<close>

record 'j jsoncpp =
  isNull :: "'j \<Rightarrow> bool"
  isObject :: "'j \<Rightarrow> bool"
  isArray :: "'j \<Rightarrow> bool"
  isString :: "'j \<Rightarrow> bool"
  isBool :: "'j \<Rightarrow> bool"
  isMember :: "'j \<Rightarrow> string \<Rightarrow> bool option"
  member_at :: "'j \<Rightarrow> string \<Rightarrow> 'j option"
  assign_at :: "'j \<Rightarrow> string \<Rightarrow> 'j \<Rightarrow> 'j option"
  elements :: "'j \<Rightarrow> 'j list"
  with_elements :: "'j \<Rightarrow> 'j list \<Rightarrow> 'j"
  asString :: "'j \<Rightarrow> string"
  asBool :: "'j \<Rightarrow> bool"
  nullValue :: 'j
  objectValue :: 'j
  arrayValue :: 'j
  stringValue :: "string \<Rightarrow> 'j"
  boolValue :: "bool \<Rightarrow> 'j"
  uintValue :: "db_id \<Rightarrow> 'j"

definition json_members_ok :: "'j jsoncpp \<Rightarrow> bool" where
  "json_members_ok J \<longleftrightarrow>
     (\<forall>j k. isObject J j \<longrightarrow> (\<exists>b. isMember J j k = Some b))
     \<and> (\<forall>j k b. isMember J j k = Some b \<longrightarrow> isObject J j \<or> isNull J j)
     \<and> (\<forall>j k. isMember J j k = Some True \<longrightarrow> isObject J j \<and> (\<exists>v. member_at J j k = Some v))
     \<and> (\<forall>j k v. isObject J j \<longrightarrow> (\<exists>j'. assign_at J j k v = Some j'))
     \<and> (\<forall>j k v. isMember J j k = Some True \<longrightarrow> member_at J j k = Some v \<longrightarrow> assign_at J j k v = Some j)"

definition json_assign_ok :: "'j jsoncpp \<Rightarrow> bool" where
  "json_assign_ok J \<longleftrightarrow>
     (\<forall>j k v j'. isObject J j \<longrightarrow> assign_at J j k v = Some j' \<longrightarrow>
          isObject J j' \<and> isMember J j' k = Some True \<and> member_at J j' k = Some v
          \<and> (\<forall>k'. k' \<noteq> k \<longrightarrow> isMember J j' k' = isMember J j k'
               \<and> (isMember J j k' = Some True \<longrightarrow> member_at J j' k' = member_at J j k')))"

definition json_values_ok :: "'j jsoncpp \<Rightarrow> bool" where
  "json_values_ok J \<longleftrightarrow>
     (\<forall>j xs. isArray J j \<longrightarrow> isArray J (with_elements J j xs) \<and> elements J (with_elements J j xs) = xs)
     \<and> (\<forall>j. isArray J j \<longrightarrow> with_elements J j (elements J j) = j)
     \<and> (\<forall>j. isObject J j \<longrightarrow> \<not> isNull J j)
     \<and> isNull J (nullValue J) \<and> isObject J (objectValue J) \<and> isArray J (arrayValue J) \<and> elements J (arrayValue J) = []
     \<and> (\<forall>s. isString J (stringValue J s) \<and> asString J (stringValue J s) = s)
     \<and> (\<forall>b. isBool J (boolValue J b) \<and> asBool J (boolValue J b) = b)
     \<and> (\<forall>k. isMember J (objectValue J) k = Some False)"

definition json_ok :: "'j jsoncpp \<Rightarrow> bool" where
  "json_ok J \<longleftrightarrow> json_members_ok J \<and> json_assign_ok J \<and> json_values_ok J"

section \<open>Validation\<close>

abbreviation config_error :: "int32 + 'a" where
  "config_error \<equiv> Inl (rc SDSKV_ERR_CONFIG)"

text \<open>\<open>if (!j.isMember(k)) j[k] = v;\<close>\<close>

definition field_default :: "'j jsoncpp \<Rightarrow> 'j \<Rightarrow> string \<Rightarrow> 'j \<Rightarrow> 'j option" where
  "field_default J j k v = do { m \<leftarrow> isMember J j k; if m then Some j else assign_at J j k v }"

text \<open>The field \<open>comparators\<close> or \<open>databases\<close>, an array that defaults to the empty one.\<close>

definition array_field :: "'j jsoncpp \<Rightarrow> 'j \<Rightarrow> string \<Rightarrow> (int32 + 'j) option" where
  "array_field J config k = do {
     m \<leftarrow> isMember J config k;
     if m then do {
       v \<leftarrow> member_at J config k;
       if \<not> isArray J v then Some config_error else Some (Inr config)
     } else map_option Inr (assign_at J config k (arrayValue J))
   }"

text \<open>One entry of \<open>comparators\<close>; \<open>names\<close> are those of the entries before. The result is the completed entry and its name.\<close>

definition validate_comparator :: "'j jsoncpp \<Rightarrow> string list \<Rightarrow> 'j \<Rightarrow> (int32 + 'j \<times> string) option" where
  "validate_comparator J names it =
     (if \<not> isObject J it then Some config_error
      else do {
        m \<leftarrow> isMember J it ''name'';
        if \<not> m then Some config_error
        else do {
          name \<leftarrow> member_at J it ''name'';
          if \<not> isString J name then Some config_error
          else if asString J name = [] then Some config_error
          else do {
            it \<leftarrow> field_default J it ''library'' (stringValue J []);
            library \<leftarrow> member_at J it ''library'';
            if \<not> isString J library then Some config_error
            else if asString J name \<in> set names then Some config_error
            else Some (Inr (it, asString J name))
          }
        }
      })"

text \<open>One entry of \<open>databases\<close>: that it is an object is not checked.\<close>

definition validate_database :: "'j jsoncpp \<Rightarrow> string list \<Rightarrow> 'j \<Rightarrow> (int32 + 'j \<times> string) option" where
  "validate_database J names db = do {
     m \<leftarrow> isMember J db ''name'';
     if \<not> m then Some config_error
     else do {
       name \<leftarrow> member_at J db ''name'';
       if \<not> isString J name then Some config_error
       else if asString J name = [] then Some config_error
       else do {
         m \<leftarrow> isMember J db ''type'';
         if \<not> m then Some config_error
         else do {
           type \<leftarrow> member_at J db ''type'';
           if \<not> isString J type then Some config_error
           else if asString J type = [] then Some config_error
           else do {
             db \<leftarrow> field_default J db ''path'' (stringValue J []);
             db \<leftarrow> field_default J db ''comparator'' (stringValue J []);
             db \<leftarrow> field_default J db ''no_overwrite'' (boolValue J False);
             path \<leftarrow> member_at J db ''path'';
             comparator \<leftarrow> member_at J db ''comparator'';
             no_overwrite \<leftarrow> member_at J db ''no_overwrite'';
             if \<not> isString J path then Some config_error
             else if \<not> isString J comparator then Some config_error
             else if \<not> isBool J no_overwrite then Some config_error
             else if asString J name \<in> set names then Some config_error
             else Some (Inr (db, asString J name))
           }
         }
       }
     }
   }"

text \<open>A loop over the entries of an array.\<close>

fun validate_entries ::
  "(string list \<Rightarrow> 'j \<Rightarrow> (int32 + 'j \<times> string) option) \<Rightarrow> string list \<Rightarrow> 'j list \<Rightarrow> (int32 + 'j list) option" where
  "validate_entries chk names [] = Some (Inr [])"
| "validate_entries chk names (x # xs) = do {
     r \<leftarrow> chk names x;
     case r of
       Inl e \<Rightarrow> Some (Inl e)
     | Inr (x', name) \<Rightarrow> map_option (map_sum id ((#) x')) (validate_entries chk (name # names) xs)
   }"

definition validate_array ::
  "'j jsoncpp \<Rightarrow> (string list \<Rightarrow> 'j \<Rightarrow> (int32 + 'j \<times> string) option) \<Rightarrow> 'j \<Rightarrow> string \<Rightarrow> (int32 + 'j) option" where
  "validate_array J chk config k = do {
     r \<leftarrow> array_field J config k;
     case r of
       Inl e \<Rightarrow> Some (Inl e)
     | Inr config1 \<Rightarrow> do {
         arr \<leftarrow> member_at J config1 k;
         r \<leftarrow> validate_entries chk [] (elements J arr);
         case r of
           Inl e \<Rightarrow> Some (Inl e)
         | Inr xs \<Rightarrow> map_option Inr (assign_at J config1 k (with_elements J arr xs))
       }
   }"

definition validate_and_complete_config :: "'j jsoncpp \<Rightarrow> 'j \<Rightarrow> (int32 + 'j) option" where
  "validate_and_complete_config J config = do {
     let config = (if isNull J config then objectValue J else config);
     r \<leftarrow> validate_array J (validate_comparator J) config ''comparators'';
     case r of
       Inl e \<Rightarrow> Some (Inl e)
     | Inr config \<Rightarrow> validate_array J (validate_database J) config ''databases''
   }"

section \<open>The second check\<close>

definition check_string_field :: "'j jsoncpp \<Rightarrow> 'j \<Rightarrow> string \<Rightarrow> (int32 + 'j) option" where
  "check_string_field J it k = do {
     m \<leftarrow> isMember J it k;
     if \<not> m then Some config_error
     else do { v \<leftarrow> member_at J it k; if \<not> isString J v then Some config_error else Some (Inr it) }
   }"

definition check_default_field ::
  "'j jsoncpp \<Rightarrow> 'j \<Rightarrow> string \<Rightarrow> 'j \<Rightarrow> ('j \<Rightarrow> bool) \<Rightarrow> (int32 + 'j) option" where
  "check_default_field J it k v ok = do {
     it \<leftarrow> field_default J it k v;
     w \<leftarrow> member_at J it k;
     if \<not> ok w then Some config_error else Some (Inr it)
   }"

text \<open>Checks in sequence, each on the entry the one before has completed.\<close>

fun check_seq :: "('j \<Rightarrow> (int32 + 'j) option) list \<Rightarrow> 'j \<Rightarrow> (int32 + 'j) option" where
  "check_seq [] it = Some (Inr it)"
| "check_seq (c # cs) it = do {
     r \<leftarrow> c it;
     case r of Inl e \<Rightarrow> Some (Inl e) | Inr it' \<Rightarrow> check_seq cs it'
   }"

definition check_comparator :: "'j jsoncpp \<Rightarrow> 'j \<Rightarrow> (int32 + 'j) option" where
  "check_comparator J it =
     (if \<not> isObject J it then Some config_error
      else check_seq
        [\<lambda>it. check_string_field J it ''name'',
         \<lambda>it. check_default_field J it ''library'' (stringValue J []) (isString J)] it)"

definition check_database :: "'j jsoncpp \<Rightarrow> 'j \<Rightarrow> (int32 + 'j) option" where
  "check_database J it =
     (if \<not> isObject J it then Some config_error
      else check_seq
        [\<lambda>it. check_string_field J it ''name'',
         \<lambda>it. check_string_field J it ''type'',
         \<lambda>it. check_default_field J it ''path'' (stringValue J []) (isString J),
         \<lambda>it. check_default_field J it ''no_overwrite'' (boolValue J False) (isBool J),
         \<lambda>it. check_default_field J it ''comparator'' (stringValue J []) (isString J)] it)"

fun check_entries :: "('j \<Rightarrow> (int32 + 'j) option) \<Rightarrow> 'j list \<Rightarrow> (int32 + 'j list) option" where
  "check_entries chk [] = Some (Inr [])"
| "check_entries chk (x # xs) = do {
     r \<leftarrow> chk x;
     case r of
       Inl e \<Rightarrow> Some (Inl e)
     | Inr x' \<Rightarrow> map_option (map_sum id ((#) x')) (check_entries chk xs)
   }"

definition check_array :: "'j jsoncpp \<Rightarrow> ('j \<Rightarrow> (int32 + 'j) option) \<Rightarrow> string \<Rightarrow> 'j \<Rightarrow> (int32 + 'j) option" where
  "check_array J chk k cfg = do {
     m \<leftarrow> isMember J cfg k;
     if \<not> m then Some (Inr cfg)
     else do {
       arr \<leftarrow> member_at J cfg k;
       if \<not> isArray J arr then Some config_error
       else do {
         r \<leftarrow> check_entries chk (elements J arr);
         case r of
           Inl e \<Rightarrow> Some (Inl e)
         | Inr xs \<Rightarrow> map_option Inr (assign_at J cfg k (with_elements J arr xs))
       }
     }
   }"

definition check_provider_config :: "'j jsoncpp \<Rightarrow> 'j \<Rightarrow> (int32 + 'j) option" where
  "check_provider_config J cfg =
     (if isNull J cfg then Some (Inr cfg)
      else if \<not> isObject J cfg then Some config_error
      else check_seq [check_array J (check_comparator J) ''comparators'',
                      check_array J (check_database J) ''databases''] cfg)"

section \<open>Populating a provider\<close>

fun populate_comparators ::
  "(string option \<Rightarrow> 'h option) \<Rightarrow> ('h \<Rightarrow> string \<Rightarrow> sdskv_compare_fn option) \<Rightarrow> 'j jsoncpp \<Rightarrow>
   'ds provider \<Rightarrow> 'j list \<Rightarrow> ('ds provider \<times> int32) option" where
  "populate_comparators dlopen dlsym J p [] = Some (p, rc SDSKV_SUCCESS)"
| "populate_comparators dlopen dlsym J p (it # its) = do {
     library \<leftarrow> member_at J it ''library'';
     name \<leftarrow> member_at J it ''name'';
     let (p', ret) = sdskv_provider_find_comparison_function dlopen dlsym p
       (Some (c_str (asString J library))) (c_str (asString J name));
     if ret \<noteq> rc SDSKV_SUCCESS then Some (p', ret) else populate_comparators dlopen dlsym J p' its
   }"

definition db_type_of :: "string \<Rightarrow> sdskv_db_type_t option" where
  "db_type_of type =
     (if type = ''map'' then Some KVDB_MAP
      else if type = ''null'' then Some KVDB_NULL
      else if type = ''leveldb'' \<or> type = ''ldb'' then Some KVDB_LEVELDB
      else if type = ''berkeleydb'' \<or> type = ''bdb'' then Some KVDB_BERKELEYDB
      else if type = ''forward'' \<or> type = ''fwd'' then Some KVDB_FORWARDDB
      else None)"

text \<open>
  The loop over the databases: the \<open>n\<close>-th object is allocated at \<open>addr n\<close>. Only an unknown type ends the loop; the
  return code of an attachment is overwritten by the next one.
\<close>

fun populate_databases ::
  "'ds vtable \<Rightarrow> (sdskv_db_type_t \<Rightarrow> string \<Rightarrow> string \<Rightarrow> 'ds option) \<Rightarrow> 'j jsoncpp \<Rightarrow> (nat \<Rightarrow> db_id) \<Rightarrow> nat \<Rightarrow>
   'ds provider \<Rightarrow> int32 \<Rightarrow> 'j list \<Rightarrow> ('ds provider \<times> int32 \<times> 'j list) option" where
  "populate_databases V open_ds J addr n p ret [] = Some (p, ret, [])"
| "populate_databases V open_ds J addr n p ret (it # its) = do {
     name \<leftarrow> member_at J it ''name'';
     type \<leftarrow> member_at J it ''type'';
     path \<leftarrow> member_at J it ''path'';
     comp \<leftarrow> member_at J it ''comparator'';
     no_overwrite \<leftarrow> member_at J it ''no_overwrite'';
     case db_type_of (asString J type) of
       None \<Rightarrow> Some (p, rc SDSKV_ERR_CONFIG, it # its)
     | Some t \<Rightarrow> do {
         let (p', ret', i) = sdskv_provider_attach_database V open_ds p
           \<lparr>cfg_db_name = c_str (asString J name), cfg_db_path = c_str (asString J path), cfg_db_type = t,
            cfg_db_comp_fn_name = Some (c_str (asString J comp)),
            cfg_db_no_overwrite = asBool J no_overwrite\<rparr> (addr n);
         it' \<leftarrow> (case i of
           Some new_id \<Rightarrow> assign_at J it ''__database_id__'' (uintValue J new_id)
         | None \<Rightarrow> Some it);
         (p'', ret'', its') \<leftarrow> populate_databases V open_ds J addr (Suc n) p' ret' its;
         Some (p'', ret'', it' # its')
       }
   }"

definition populate_provider_from_config ::
  "(string option \<Rightarrow> 'h option) \<Rightarrow> ('h \<Rightarrow> string \<Rightarrow> sdskv_compare_fn option) \<Rightarrow> 'ds vtable \<Rightarrow>
   (sdskv_db_type_t \<Rightarrow> string \<Rightarrow> string \<Rightarrow> 'ds option) \<Rightarrow> 'j jsoncpp \<Rightarrow> (nat \<Rightarrow> db_id) \<Rightarrow>
   'ds provider \<Rightarrow> 'j \<Rightarrow> ('ds provider \<times> 'j \<times> int32) option" where
  "populate_provider_from_config dlopen dlsym V open_ds J addr p cfg = do {
     r \<leftarrow> check_provider_config J cfg;
     case r of
       Inl e \<Rightarrow> Some (p, cfg, e)
     | Inr cfg \<Rightarrow> do {
         comparators \<leftarrow> member_at J cfg ''comparators'';
         (p1, ret) \<leftarrow> populate_comparators dlopen dlsym J p (elements J comparators);
         if ret \<noteq> rc SDSKV_SUCCESS then Some (p1, cfg, ret)
         else do {
           databases \<leftarrow> member_at J cfg ''databases'';
           (p2, ret, its) \<leftarrow> populate_databases V open_ds J addr 0 p1 ret (elements J databases);
           cfg' \<leftarrow> assign_at J cfg ''databases'' (with_elements J databases its);
           Some (if ret \<noteq> rc SDSKV_SUCCESS then fst (sdskv_provider_remove_all_databases p2) else p2, cfg', ret)
         }
       }
   }"

text \<open>
  \<open>sdskv_provider_register\<close>: \<open>parse\<close> reads a document from a string, \<open>registered\<close> says whether Margo knows a
  provider with the same id, \<open>abt\<close> is the result of \<open>ABT_rwlock_create\<close>. The result is the return code and,
  on success, the provider with its configuration; a provider that cannot be populated is destroyed.
\<close>

definition sdskv_provider_register ::
  "(string option \<Rightarrow> 'h option) \<Rightarrow> ('h \<Rightarrow> string \<Rightarrow> sdskv_compare_fn option) \<Rightarrow> 'ds vtable \<Rightarrow>
   (sdskv_db_type_t \<Rightarrow> string \<Rightarrow> string \<Rightarrow> 'ds option) \<Rightarrow> 'j jsoncpp \<Rightarrow> (string \<Rightarrow> 'j option) \<Rightarrow> (nat \<Rightarrow> db_id) \<Rightarrow>
   bool \<Rightarrow> int32 \<Rightarrow> string option \<Rightarrow> (int32 \<times> ('ds provider \<times> 'j) option) option" where
  "sdskv_provider_register dlopen dlsym V open_ds J parse addr registered abt json_config =
     (case (case json_config of Some (c # cs) \<Rightarrow> parse (c # cs) | _ \<Rightarrow> Some (nullValue J)) of
        None \<Rightarrow> Some (rc SDSKV_ERR_CONFIG, None)
      | Some config \<Rightarrow>
          if registered then Some (rc SDSKV_ERR_PR_EXISTS, None)
          else do {
            r \<leftarrow> validate_and_complete_config J config;
            case r of
              Inl e \<Rightarrow> Some (e, None)
            | Inr config \<Rightarrow>
                if abt \<noteq> 0 then Some (SDSKV_MAKE_ABT_ERROR abt, None)
                else do {
                  (p, cfg, ret) \<leftarrow>
                    populate_provider_from_config dlopen dlsym V open_ds J addr provider_new config;
                  if ret \<noteq> rc SDSKV_SUCCESS then Some (ret, None)
                  else Some (rc SDSKV_SUCCESS, Some (p, cfg))
                }
          })"

end
