(* ===== verification/Provider_Config_Laws.thy ===== *)
theory Provider_Config_Laws
  imports Provider_Config
begin

text \<open>
  What the configuration of a provider guarantees: validation completes a document so that the later check
  finds nothing to do, and populating a provider from it attaches no name twice. \<open>sample_json\<close> is an
  implementation of the JSON library to evaluate the theorems on.
\<close>

section \<open>What validation guarantees\<close>

lemma json_okD:
  assumes "json_ok J"
  shows "isObject J j \<Longrightarrow> \<exists>b. isMember J j k = Some b"
    and "isMember J j k = Some True \<Longrightarrow> isObject J j"
    and "isMember J j k = Some True \<Longrightarrow> \<exists>v. member_at J j k = Some v"
    and "isObject J j \<Longrightarrow> \<exists>j'. assign_at J j k v = Some j'"
    and "isMember J j k = Some True \<Longrightarrow> member_at J j k = Some v \<Longrightarrow> assign_at J j k v = Some j"
    and "isMember J j k = Some b \<Longrightarrow> isObject J j \<or> isNull J j"
  using assms unfolding json_ok_def json_members_ok_def by blast+

lemma json_valuesD:
  assumes "json_ok J"
  shows "isArray J a \<Longrightarrow> isArray J (with_elements J a xs)" "isArray J a \<Longrightarrow> elements J (with_elements J a xs) = xs"
    and "isArray J a \<Longrightarrow> with_elements J a (elements J a) = a" "isObject J j \<Longrightarrow> \<not> isNull J j"
    and "isObject J (objectValue J)" "isArray J (arrayValue J)" "elements J (arrayValue J) = []"
    and "isNull J (nullValue J)" "isMember J (objectValue J) k = Some False"
  using assms unfolding json_ok_def json_values_ok_def by blast+

text \<open>A completed document has all the members of the old one, with the same values.\<close>

definition keeps :: "'j jsoncpp \<Rightarrow> 'j \<Rightarrow> 'j \<Rightarrow> bool" where
  "keeps J j j' \<longleftrightarrow> isObject J j' \<and>
     (\<forall>k. isMember J j k = Some True \<longrightarrow> isMember J j' k = Some True \<and> member_at J j' k = member_at J j k)"

lemma keeps_trans: "keeps J j j' \<Longrightarrow> keeps J j' j'' \<Longrightarrow> keeps J j j''"
  by (simp add: keeps_def)

lemma keeps_at:
  "keeps J j j' \<Longrightarrow> isMember J j k = Some True \<Longrightarrow> isMember J j' k = Some True"
  "keeps J j j' \<Longrightarrow> isMember J j k = Some True \<Longrightarrow> member_at J j' k = member_at J j k"
  "keeps J j j' \<Longrightarrow> isObject J j'"
  by (simp_all add: keeps_def)

lemma assign_at_new:
  assumes "json_ok J" "isObject J j" "assign_at J j k v = Some j'"
  shows "isObject J j'" "isMember J j' k = Some True" "member_at J j' k = Some v"
    and "k' \<noteq> k \<Longrightarrow> isMember J j k' = Some True \<Longrightarrow> isMember J j' k' = Some True \<and> member_at J j' k' = member_at J j k'"
proof -
  have "json_assign_ok J" using assms(1) by (simp add: json_ok_def)
  note a = this [unfolded json_assign_ok_def, rule_format, OF assms(2,3)]
  from a show "isObject J j'" "isMember J j' k = Some True" "member_at J j' k = Some v" by blast+
  assume "k' \<noteq> k" "isMember J j k' = Some True"
  with a show "isMember J j' k' = Some True \<and> member_at J j' k' = member_at J j k'" by simp
qed

lemma field_default_keeps:
  assumes "json_ok J" "isObject J j" "field_default J j k v = Some j'"
  shows "keeps J j j' \<and> isMember J j' k = Some True"
proof -
  obtain b where b: "isMember J j k = Some b" using json_okD(1) [OF assms(1,2)] by blast
  show ?thesis
  proof (cases b)
    case True
    then show ?thesis using assms(2,3) b by (simp add: field_default_def keeps_def)
  next
    case False
    then have set: "assign_at J j k v = Some j'" using assms(3) b by (simp add: field_default_def)
    have "k' \<noteq> k" if "isMember J j k' = Some True" for k' using that b False by auto
    then show ?thesis
      using assign_at_new [OF assms(1,2) set] by (auto simp: keeps_def)
  qed
qed

lemma field_default_present: "isMember J j k = Some True \<Longrightarrow> field_default J j k v = Some j"
  by (simp add: field_default_def)

lemma check_default_present:
  "isMember J j k = Some True \<Longrightarrow> member_at J j k = Some w \<Longrightarrow> ok w \<Longrightarrow> check_default_field J j k v ok = Some (Inr j)"
  by (simp add: check_default_field_def field_default_present)

lemma check_string_present:
  "isMember J j k = Some True \<Longrightarrow> member_at J j k = Some w \<Longrightarrow> isString J w \<Longrightarrow> check_string_field J j k = Some (Inr j)"
  by (simp add: check_string_field_def)

definition entry_name :: "'j jsoncpp \<Rightarrow> 'j \<Rightarrow> string" where
  "entry_name J j = (case member_at J j ''name'' of Some v \<Rightarrow> asString J v | None \<Rightarrow> [])"

lemma validate_comparator_ok:
  assumes "json_ok J" "validate_comparator J names it = Some (Inr (it', name))"
  shows "check_comparator J it' = Some (Inr it') \<and> entry_name J it' = name \<and> name \<notin> set names"
proof -
  from assms(2) obtain nv lv where it: "isObject J it" "isMember J it ''name'' = Some True"
    "member_at J it ''name'' = Some nv" "isString J nv" "field_default J it ''library'' (stringValue J []) = Some it'"
    "member_at J it' ''library'' = Some lv" "isString J lv" "name = asString J nv" "name \<notin> set names"
    unfolding validate_comparator_def by (auto split: if_splits bind_splits)
  have k: "keeps J it it'" "isMember J it' ''library'' = Some True"
    using field_default_keeps [OF assms(1) it(1,5)] by auto
  note at = keeps_at [OF k(1)]
  have "check_comparator J it' = Some (Inr it')"
    using it at(3) at(1) [OF it(2)] at(2) [OF it(2)] k(2)
    by (simp add: check_comparator_def check_string_present check_default_present)
  then show ?thesis using it at(2) [OF it(2)] by (simp add: entry_name_def)
qed

lemma validate_database_ok:
  assumes "json_ok J" "validate_database J names db = Some (Inr (db', name))"
  shows "check_database J db' = Some (Inr db') \<and> entry_name J db' = name \<and> name \<notin> set names"
proof -
  from assms(2) obtain nv tv pv cv ov db1 db2 where db: "isMember J db ''name'' = Some True"
    "member_at J db ''name'' = Some nv" "isString J nv" "isMember J db ''type'' = Some True"
    "member_at J db ''type'' = Some tv" "isString J tv"
    "field_default J db ''path'' (stringValue J []) = Some db1"
    "field_default J db1 ''comparator'' (stringValue J []) = Some db2"
    "field_default J db2 ''no_overwrite'' (boolValue J False) = Some db'"
    and vals: "member_at J db' ''path'' = Some pv" "member_at J db' ''comparator'' = Some cv"
    "member_at J db' ''no_overwrite'' = Some ov" "isString J pv" "isString J cv" "isBool J ov"
    and name: "name = asString J nv" "name \<notin> set names"
    unfolding validate_database_def by (auto split: if_splits bind_splits)
  have o: "isObject J db" by (rule json_okD(2) [OF assms(1) db(1)])
  have k1: "keeps J db db1 \<and> isMember J db1 ''path'' = Some True"
    by (rule field_default_keeps [OF assms(1) o db(7)])
  then have o1: "isObject J db1" by (simp add: keeps_def)
  have k2: "keeps J db1 db2 \<and> isMember J db2 ''comparator'' = Some True"
    by (rule field_default_keeps [OF assms(1) o1 db(8)])
  then have o2: "isObject J db2" by (simp add: keeps_def)
  have k3: "keeps J db2 db' \<and> isMember J db' ''no_overwrite'' = Some True"
    by (rule field_default_keeps [OF assms(1) o2 db(9)])
  from k1 k2 k3 have k: "keeps J db db'" "keeps J db1 db'" by (blast intro: keeps_trans)+
  have mem: "isMember J db' ''path'' = Some True" "isMember J db' ''comparator'' = Some True"
    "isMember J db' ''name'' = Some True" "isMember J db' ''type'' = Some True" "isObject J db'"
    "member_at J db' ''name'' = Some nv" "member_at J db' ''type'' = Some tv"
    using k1 k2 k3 k db by (simp_all add: keeps_def)
  have "check_database J db' = Some (Inr db')"
    using mem vals db k3 by (simp add: check_database_def check_string_present check_default_present)
  then show ?thesis using mem name by (simp add: entry_name_def)
qed

lemma map_sum_eq_Inr: "map_sum f g s = Inr y \<longleftrightarrow> (\<exists>x. s = Inr x \<and> y = g x)"
  by (cases s) auto

lemma validate_entries_ok:
  assumes "\<And>names x x' name. chk names x = Some (Inr (x', name)) \<Longrightarrow>
      chk' x' = Some (Inr x') \<and> entry_name J x' = name \<and> name \<notin> set names"
    and "validate_entries chk names xs = Some (Inr ys)"
  shows "check_entries chk' ys = Some (Inr ys) \<and> distinct (map (entry_name J) ys)
    \<and> set names \<inter> set (map (entry_name J) ys) = {}"
  using assms(2)
proof (induction xs arbitrary: names ys)
  case (Cons x xs)
  then obtain x' name zs where x: "chk names x = Some (Inr (x', name))"
    and zs: "validate_entries chk (name # names) xs = Some (Inr zs)" "ys = x' # zs"
    by (auto split: bind_splits sum.splits prod.splits simp: map_sum_eq_Inr)
  from assms(1) [OF x] Cons.IH [OF zs(1)] zs(2) show ?case by auto
qed simp

lemma array_field_ok:
  assumes "json_ok J" "isObject J cfg" "array_field J cfg k = Some (Inr cfg')"
  shows "keeps J cfg cfg' \<and> isMember J cfg' k = Some True \<and> (\<exists>a. member_at J cfg' k = Some a \<and> isArray J a)"
proof -
  obtain b where b: "isMember J cfg k = Some b" using json_okD(1) [OF assms(1,2)] by blast
  show ?thesis
  proof (cases b)
    case True
    then show ?thesis
      using assms(2,3) b by (auto simp: array_field_def keeps_def split: if_splits bind_splits)
  next
    case False
    then have set: "field_default J cfg k (arrayValue J) = Some cfg'" "assign_at J cfg k (arrayValue J) = Some cfg'"
      using assms(3) b by (auto simp: array_field_def field_default_def)
    then show ?thesis
      using field_default_keeps [OF assms(1,2) set(1)] assign_at_new(3) [OF assms(1,2) set(2)]
        json_valuesD(6) [OF assms(1)] by auto
  qed
qed

text \<open>An array that was validated: it has an entry, and checking it again changes nothing.\<close>

definition array_done :: "'j jsoncpp \<Rightarrow> ('j \<Rightarrow> (int32 + 'j) option) \<Rightarrow> 'j \<Rightarrow> string \<Rightarrow> bool" where
  "array_done J chk cfg k \<longleftrightarrow> isMember J cfg k = Some True \<and>
     (\<exists>a. member_at J cfg k = Some a \<and> isArray J a \<and> check_entries chk (elements J a) = Some (Inr (elements J a))
        \<and> distinct (map (entry_name J) (elements J a)))"

lemma array_done_check:
  assumes "json_ok J" "array_done J chk cfg k"
  shows "check_array J chk k cfg = Some (Inr cfg)"
  using assms(2) json_okD(5) [OF assms(1)] json_valuesD(3) [OF assms(1)]
  by (auto simp: array_done_def check_array_def)

lemma validate_array_ok:
  assumes J: "json_ok J" and o: "isObject J cfg" and v: "validate_array J chk cfg k = Some (Inr cfg')"
    and chk: "\<And>names x x' name. chk names x = Some (Inr (x', name)) \<Longrightarrow>
      chk' x' = Some (Inr x') \<and> entry_name J x' = name \<and> name \<notin> set names"
  shows "isObject J cfg' \<and> array_done J chk' cfg' k
    \<and> (\<forall>k'. k' \<noteq> k \<longrightarrow> isMember J cfg k' = Some True \<longrightarrow>
          isMember J cfg' k' = Some True \<and> member_at J cfg' k' = member_at J cfg k')"
proof -
  from v obtain cfg1 a xs where c: "array_field J cfg k = Some (Inr cfg1)" "member_at J cfg1 k = Some a"
    "validate_entries chk [] (elements J a) = Some (Inr xs)" "assign_at J cfg1 k (with_elements J a xs) = Some cfg'"
    by (auto simp: validate_array_def split: bind_splits sum.splits)
  have f: "keeps J cfg cfg1" "isMember J cfg1 k = Some True" "isArray J a" "isObject J cfg1"
    using array_field_ok [OF J o c(1)] c(2) by (auto simp: keeps_def)
  note new = assign_at_new [OF J f(4) c(4)]
  have "array_done J chk' cfg' k"
    using new(2,3) json_valuesD(1,2) [OF J f(3)] validate_entries_ok [OF chk c(3)]
    by (auto simp: array_done_def)
  then show ?thesis using new(1,4) keeps_at(1,2) [OF f(1)] by metis
qed

lemma validated_config:
  assumes J: "json_ok J" and v: "validate_and_complete_config J config = Some (Inr cfg)"
  shows "isObject J cfg \<and> array_done J (check_comparator J) cfg ''comparators''
    \<and> array_done J (check_database J) cfg ''databases''"
proof -
  let ?c0 = "if isNull J config then objectValue J else config"
  from v obtain cfg1 where c: "validate_array J (validate_comparator J) ?c0 ''comparators'' = Some (Inr cfg1)"
    "validate_array J (validate_database J) cfg1 ''databases'' = Some (Inr cfg)"
    by (auto simp: validate_and_complete_config_def Let_def split: bind_splits sum.splits)
  from c(1) obtain b where "isMember J ?c0 ''comparators'' = Some b"
    by (auto simp: validate_array_def array_field_def split: bind_splits)
  then have o: "isObject J ?c0"
    using json_okD(6) [OF J] json_valuesD(5) [OF J] by (cases "isNull J config") auto
  have v1: "isObject J cfg1" "array_done J (check_comparator J) cfg1 ''comparators''"
    using validate_array_ok [OF J o c(1) validate_comparator_ok [OF J]] by auto
  then have "isMember J cfg1 ''comparators'' = Some True" by (simp add: array_done_def)
  then have v2: "isObject J cfg \<and> array_done J (check_database J) cfg ''databases''
      \<and> isMember J cfg ''comparators'' = Some True
      \<and> member_at J cfg ''comparators'' = member_at J cfg1 ''comparators''"
    using validate_array_ok [OF J v1(1) c(2) validate_database_ok [OF J]] by simp
  with v1(2) show ?thesis by (simp add: array_done_def)
qed

text \<open>The loops of validation and of the second check agree on a validated document.\<close>

lemma validated_config_check:
  assumes "json_ok J" "validate_and_complete_config J config = Some (Inr cfg)"
  shows "check_provider_config J cfg = Some (Inr cfg)"
  using validated_config [OF assms] array_done_check [OF assms(1)] json_valuesD(4) [OF assms(1)]
  by (simp add: check_provider_config_def)

section \<open>Populated providers\<close>

lemma find_comparison_frame:
  "find_db (fst (sdskv_provider_find_comparison_function dlopen dlsym p lib n)) = find_db p"
  "find_name (fst (sdskv_provider_find_comparison_function dlopen dlsym p lib n)) = find_name p"
  by (auto simp: sdskv_provider_find_comparison_function_def Let_def split: option.splits)

lemma populate_comparators_named:
  assumes "named_reachable V open_ds p"
    and "populate_comparators (dlopen :: string option \<Rightarrow> nat option) dlsym J p its = Some (p', ret)"
  shows "named_reachable V open_ds p' \<and> find_db p' = find_db p \<and> find_name p' = find_name p"
  using assms
proof (induction its arbitrary: p)
  case (Cons it its)
  from Cons.prems(2) obtain lib n where ln: "member_at J it ''library'' = Some lib" "member_at J it ''name'' = Some n"
    by (auto split: bind_splits)
  obtain p1 r where p1: "sdskv_provider_find_comparison_function dlopen dlsym p
      (Some (c_str (asString J lib))) (c_str (asString J n)) = (p1, r)"
    by (metis surj_pair)
  have n1: "named_reachable V open_ds p1"
    using step_named [OF Cons.prems(1) find_comparison_named] p1 by (metis fst_conv)
  have f1: "find_db p1 = find_db p" "find_name p1 = find_name p"
    using find_comparison_frame p1 by (metis fst_conv)+
  show ?case
  proof (cases "r = rc SDSKV_SUCCESS")
    case True
    then have "populate_comparators dlopen dlsym J p1 its = Some (p', ret)" using Cons.prems(2) ln p1 by simp
    then show ?thesis using Cons.IH [OF n1] f1 by simp
  next
    case False
    then show ?thesis using Cons.prems(2) ln p1 n1 f1 by simp
  qed
qed simp

lemma attach_frame:
  assumes "provider_inv p"
  shows "i \<noteq> addr \<Longrightarrow> find_db (fst (sdskv_provider_attach_database V open_ds p config addr)) i = find_db p i"
    and "nm \<noteq> cfg_db_name config \<Longrightarrow>
      find_name (fst (sdskv_provider_attach_database V open_ds p config addr)) nm = find_name p nm"
  using provider_inv_sorted [OF assms]
  by (auto simp: sdskv_provider_attach_database_def om_lookup_simps split: sum.splits option.splits)

lemma populate_databases_named:
  assumes "named_reachable V open_ds p" "inj_on addr {n..<n + length its}"
    and "\<forall>m\<in>{n..<n + length its}. find_db p (addr m) = None"
    and "\<forall>e\<in>set its. CHR 0x00 \<notin> set (entry_name J e) \<and> find_name p (entry_name J e) = None"
    and "distinct (map (entry_name J) its)"
    and "populate_databases V open_ds J addr n p ret its = Some (p', ret', its')"
  shows "named_reachable V open_ds p'"
  using assms
proof (induction its arbitrary: n p ret its')
  case (Cons e its)
  obtain nm ty pa co ow where m: "member_at J e ''name'' = Some nm" "member_at J e ''type'' = Some ty"
    "member_at J e ''path'' = Some pa" "member_at J e ''comparator'' = Some co" "member_at J e ''no_overwrite'' = Some ow"
    using Cons.prems(6) by (auto split: bind_splits)
  have name: "c_str (asString J nm) = entry_name J e" "asString J nm = entry_name J e"
  proof -
    show "asString J nm = entry_name J e" by (simp add: entry_name_def m)
    moreover have "CHR 0x00 \<notin> set (entry_name J e)" using Cons.prems(4) by simp
    ultimately show "c_str (asString J nm) = entry_name J e" using c_str_id by metis
  qed
  show ?case
  proof (cases "db_type_of (asString J ty)")
    case None
    then show ?thesis using Cons.prems(1,6) m by simp
  next
    case (Some t)
    define config where "config = \<lparr>cfg_db_name = c_str (asString J nm), cfg_db_path = c_str (asString J pa),
      cfg_db_type = t, cfg_db_comp_fn_name = Some (c_str (asString J co)), cfg_db_no_overwrite = asBool J ow\<rparr>"
    obtain p1 r i where p1: "sdskv_provider_attach_database V open_ds p config (addr n) = (p1, r, i)"
      by (metis prod_cases3)
    have cn: "cfg_db_name config = entry_name J e" by (simp add: config_def name(1))
    have "find_db p (addr n) = None" "find_name p (cfg_db_name config) = None"
      using Cons.prems(3,4) cn by auto
    from step_named [OF Cons.prems(1) attach_new [OF this]] have n1: "named_reachable V open_ds p1"
      using p1 by (metis fst_conv)
    note inv = provider_reachable_inv [OF named_reachable_provider [OF Cons.prems(1)]]
    have fr: "i' \<noteq> addr n \<Longrightarrow> find_db p1 i' = find_db p i'" "nm' \<noteq> entry_name J e \<Longrightarrow> find_name p1 nm' = find_name p nm'"
      for i' nm'
      using attach_frame [OF inv, where V = V and open_ds = open_ds and config = config and addr = "addr n"] p1 cn
      by auto
    have i: "inj_on addr {Suc n..<Suc n + length its}"
      by (rule inj_on_subset [OF Cons.prems(2)]) auto
    have a: "\<forall>m\<in>{Suc n..<Suc n + length its}. find_db p1 (addr m) = None"
    proof
      fix m assume m: "m \<in> {Suc n..<Suc n + length its}"
      then have "addr m \<noteq> addr n" using Cons.prems(2) by (auto dest: inj_onD)
      then show "find_db p1 (addr m) = None" using fr(1) Cons.prems(3) m by simp
    qed
    have b: "\<forall>x\<in>set its. CHR 0x00 \<notin> set (entry_name J x) \<and> find_name p1 (entry_name J x) = None"
    proof
      fix x assume "x \<in> set its"
      moreover from this have "entry_name J x \<noteq> entry_name J e" using Cons.prems(5) by (auto simp: image_iff)
      ultimately show "CHR 0x00 \<notin> set (entry_name J x) \<and> find_name p1 (entry_name J x) = None"
        using fr(2) Cons.prems(4) by simp
    qed
    obtain zs where "populate_databases V open_ds J addr (Suc n) p1 r its = Some (p', ret', zs)"
      using Cons.prems(6) m Some p1 [unfolded config_def] by (auto split: bind_splits prod.splits)
    then show ?thesis using Cons.IH [OF n1 i a b] Cons.prems(5) by simp
  qed
qed simp

text \<open>
  A provider populated from a validated document keeps the discipline of \<open>named_step\<close>: validation has made sure
  that no name is attached twice.
\<close>

lemma populate_named:
  assumes "json_ok J" "validate_and_complete_config J config = Some (Inr cfg)"
    and "inj_on addr {..<length (elements J dbs)}"
    and "member_at J cfg ''databases'' = Some dbs" "\<forall>e\<in>set (elements J dbs). CHR 0x00 \<notin> set (entry_name J e)"
    and "populate_provider_from_config (dlopen :: string option \<Rightarrow> nat option) dlsym V open_ds J addr provider_new cfg
      = Some (p, cfg', ret)"
  shows "named_reachable V open_ds p"
proof -
  have dist: "distinct (map (entry_name J) (elements J dbs))"
    using validated_config [OF assms(1,2)] assms(4) by (auto simp: array_done_def)
  from assms(6) validated_config_check [OF assms(1,2)] obtain cs p1 r1 where
    p1: "populate_comparators dlopen dlsym J provider_new (elements J cs) = Some (p1, r1)"
    and rest: "r1 \<noteq> rc SDSKV_SUCCESS \<longrightarrow> p = p1"
      "r1 = rc SDSKV_SUCCESS \<longrightarrow> (\<exists>p2 r2 its. populate_databases V open_ds J addr 0 p1 r1 (elements J dbs) = Some (p2, r2, its)
        \<and> p = (if r2 \<noteq> rc SDSKV_SUCCESS then fst (sdskv_provider_remove_all_databases p2) else p2))"
    by (auto simp: populate_provider_from_config_def assms(4) split: bind_splits if_splits)
  have c: "named_reachable V open_ds p1" "find_db p1 i = None" "find_name p1 nm = None" for i nm
    using populate_comparators_named [OF registered_named p1, of V open_ds]
    by (simp_all add: provider_new_def)
  show ?thesis
  proof (cases "r1 = rc SDSKV_SUCCESS")
    case True
    then obtain p2 r2 its where p2: "populate_databases V open_ds J addr 0 p1 r1 (elements J dbs) = Some (p2, r2, its)"
      "p = (if r2 \<noteq> rc SDSKV_SUCCESS then fst (sdskv_provider_remove_all_databases p2) else p2)"
      using rest(2) by blast
    have "named_reachable V open_ds p2"
      by (rule populate_databases_named [OF c(1) _ _ _ dist p2(1)])
        (use assms(3,5) c(2,3) in \<open>auto simp: atLeast0LessThan\<close>)
    then show ?thesis using p2(2) step_named [OF _ remove_all_named] by auto
  qed (use rest(1) c(1) in simp)
qed

lemma check_entry_members:
  assumes "json_ok J" "check_database J e = Some (Inr e)"
  obtains nm ty pa co ow where "member_at J e ''name'' = Some nm" "member_at J e ''type'' = Some ty"
    "member_at J e ''path'' = Some pa" "member_at J e ''comparator'' = Some co" "member_at J e ''no_overwrite'' = Some ow"
    "isObject J e"
proof -
  from assms(2) obtain e1 e2 where o: "isObject J e" and nt: "isMember J e ''name'' = Some True" "isMember J e ''type'' = Some True"
    and d: "field_default J e ''path'' (stringValue J []) = Some e1"
      "field_default J e1 ''no_overwrite'' (boolValue J False) = Some e2"
      "field_default J e2 ''comparator'' (stringValue J []) = Some e"
    by (auto simp: check_database_def check_string_field_def check_default_field_def split: if_splits bind_splits)
  note k1 = field_default_keeps [OF assms(1) o d(1)]
  note k2 = field_default_keeps [OF assms(1) keeps_at(3) [OF conjunct1 [OF k1]] d(2)]
  note k3 = field_default_keeps [OF assms(1) keeps_at(3) [OF conjunct1 [OF k2]] d(3)]
  have mem: "isMember J e ''path'' = Some True" "isMember J e ''no_overwrite'' = Some True"
    "isMember J e ''comparator'' = Some True"
    using k1 k2 k3 by (meson keeps_at(1))+
  note at = json_okD(3) [OF assms(1)]
  show thesis
    using at [OF nt(1)] at [OF nt(2)] at [OF mem(1)] at [OF mem(2)] at [OF mem(3)] o that by blast
qed

text \<open>
  When every type is known, the return code of the loop is that of the last attachment, whatever happened to the others.
\<close>

definition known_type :: "'j jsoncpp \<Rightarrow> 'j \<Rightarrow> bool" where
  "known_type J e \<longleftrightarrow> (\<exists>ty. member_at J e ''type'' = Some ty \<and> db_type_of (asString J ty) \<noteq> None)"

lemma populate_databases_last:
  assumes "json_ok J" "\<forall>e\<in>set its. check_database J e = Some (Inr e) \<and> known_type J e"
    and "check_database J e = Some (Inr e)"
    and "member_at J e ''name'' = Some nm" "member_at J e ''type'' = Some ty" "db_type_of (asString J ty) = Some t"
    and "member_at J e ''path'' = Some pa" "open_ds t (c_str (asString J nm)) (c_str (asString J pa)) = Some db"
    and "member_at J e ''comparator'' = Some co" "c_str (asString J co) = []"
  shows "\<exists>p' its'. populate_databases V open_ds J addr n p ret (its @ [e]) = Some (p', rc SDSKV_SUCCESS, its')"
  using assms(2)
proof (induction its arbitrary: n p ret)
  case Nil
  obtain ow where ow: "member_at J e ''no_overwrite'' = Some ow" "isObject J e"
    using check_entry_members [OF assms(1,3)] by metis
  obtain e' where "assign_at J e ''__database_id__'' (uintValue J (addr n)) = Some e'"
    using json_okD(4) [OF assms(1) ow(2)] by blast
  then show ?case
    using assms(4-) ow by (simp add: sdskv_provider_attach_database_def attach_comp_fn_def)
next
  case (Cons x its)
  obtain nm' ty' pa' co' ow' where m: "member_at J x ''name'' = Some nm'" "member_at J x ''type'' = Some ty'"
    "member_at J x ''path'' = Some pa'" "member_at J x ''comparator'' = Some co'" "member_at J x ''no_overwrite'' = Some ow'"
    "isObject J x"
    using check_entry_members [OF assms(1)] Cons.prems by (metis list.set_intros(1))
  obtain t' where t': "db_type_of (asString J ty') = Some t'"
    using Cons.prems m(2) by (auto simp: known_type_def)
  have "\<exists>j'. assign_at J x ''__database_id__'' v = Some j'" for v
    using json_okD(4) [OF assms(1) m(6)] by blast
  then have asg: "\<exists>x'. (case i of Some new_id \<Rightarrow> assign_at J x ''__database_id__'' (uintValue J new_id) | None \<Rightarrow> Some x) = Some x'"
    for i by (cases i) auto
  obtain p1 r i where att: "sdskv_provider_attach_database V open_ds p
      \<lparr>cfg_db_name = c_str (asString J nm'), cfg_db_path = c_str (asString J pa'), cfg_db_type = t',
       cfg_db_comp_fn_name = Some (c_str (asString J co')), cfg_db_no_overwrite = asBool J ow'\<rparr> (addr n) = (p1, r, i)"
    by (metis prod_cases3)
  obtain x' where x': "(case i of Some new_id \<Rightarrow> assign_at J x ''__database_id__'' (uintValue J new_id) | None \<Rightarrow> Some x) = Some x'"
    using asg by blast
  obtain p' its' where "populate_databases V open_ds J addr (Suc n) p1 r (its @ [e]) = Some (p', rc SDSKV_SUCCESS, its')"
    using Cons.IH [of "Suc n" p1 r] Cons.prems by auto
  then have "populate_databases V open_ds J addr n p ret ((x # its) @ [e]) = Some (p', rc SDSKV_SUCCESS, x' # its')"
    using m t' att x' by simp
  then show ?case by blast
qed

section \<open>Documents for evaluation\<close>

text \<open>JSON values with the operations of \<open>jsoncpp\<close>; members are kept in the order they were added.\<close>

datatype json =
    JNull
  | JBool bool
  | JUint db_id
  | JString string
  | JArray "json list"
  | JObject "(string \<times> json) list"

fun set_member :: "string \<Rightarrow> json \<Rightarrow> (string \<times> json) list \<Rightarrow> (string \<times> json) list" where
  "set_member k v [] = [(k, v)]"
| "set_member k v ((k', w) # ms) = (if k' = k then (k, v) # ms else (k', w) # set_member k v ms)"

definition sample_json :: "json jsoncpp" where
  "sample_json =
     \<lparr>isNull = (\<lambda>j. j = JNull), isObject = (\<lambda>j. case j of JObject _ \<Rightarrow> True | _ \<Rightarrow> False),
      isArray = (\<lambda>j. case j of JArray _ \<Rightarrow> True | _ \<Rightarrow> False),
      isString = (\<lambda>j. case j of JString _ \<Rightarrow> True | _ \<Rightarrow> False),
      isBool = (\<lambda>j. case j of JBool _ \<Rightarrow> True | _ \<Rightarrow> False),
      isMember = (\<lambda>j k. case j of JObject ms \<Rightarrow> Some (map_of ms k \<noteq> None) | JNull \<Rightarrow> Some False | _ \<Rightarrow> None),
      member_at = (\<lambda>j k. case j of
        JObject ms \<Rightarrow> Some (case map_of ms k of Some v \<Rightarrow> v | None \<Rightarrow> JNull) | JNull \<Rightarrow> Some JNull | _ \<Rightarrow> None),
      assign_at = (\<lambda>j k v. case j of
        JObject ms \<Rightarrow> Some (JObject (set_member k v ms)) | JNull \<Rightarrow> Some (JObject [(k, v)]) | _ \<Rightarrow> None),
      elements = (\<lambda>j. case j of JArray xs \<Rightarrow> xs | _ \<Rightarrow> []),
      with_elements = (\<lambda>j xs. case j of JArray _ \<Rightarrow> JArray xs | _ \<Rightarrow> j),
      asString = (\<lambda>j. case j of JString s \<Rightarrow> s | _ \<Rightarrow> []),
      asBool = (\<lambda>j. case j of JBool b \<Rightarrow> b | _ \<Rightarrow> False),
      nullValue = JNull, objectValue = JObject [], arrayValue = JArray [],
      stringValue = JString, boolValue = JBool, uintValue = JUint\<rparr>"

lemma map_of_set_member: "map_of (set_member k v ms) = (map_of ms)(k \<mapsto> v)"
  by (induction ms) (auto simp: fun_eq_iff)

lemma set_member_same: "map_of ms k = Some v \<Longrightarrow> set_member k v ms = ms"
  by (induction ms) (auto split: if_splits)

lemma json_ok_sample: "json_ok sample_json"
  unfolding json_ok_def
proof (intro conjI)
  show "json_members_ok sample_json"
    by (auto simp: json_members_ok_def sample_json_def set_member_same split: json.splits option.splits)
  show "json_assign_ok sample_json"
    by (auto simp: json_assign_ok_def sample_json_def map_of_set_member split: json.splits)
  show "json_values_ok sample_json"
    by (auto simp: json_values_ok_def sample_json_def split: json.splits)
qed

section \<open>Properties\<close>

text \<open>
  An entry of \<open>databases\<close> on which \<open>isMember\<close> throws, such as a number, makes the whole validation throw: unlike
  the entries of \<open>comparators\<close>, it is not checked to be an object.
\<close>

lemma non_object_database_throws:
  "isMember J e ''name'' = None \<Longrightarrow> validate_entries (validate_database J) names (e # es) = None"
  by (simp add: validate_database_def)




definition sample_entry :: "string \<Rightarrow> string \<Rightarrow> json" where
  "sample_entry name type =
     JObject [(''name'', JString name), (''type'', JString type), (''path'', JString []),
       (''comparator'', JString []), (''no_overwrite'', JBool False)]"

definition sample_document :: "json list \<Rightarrow> json" where
  "sample_document entries = JObject [(''comparators'', JArray []), (''databases'', JArray entries)]"

lemma sample_document_valid:
  "validate_and_complete_config sample_json (sample_document [sample_entry ''b'' ''leveldb'', sample_entry ''a'' ''map''])
   = Some (Inr (sample_document [sample_entry ''b'' ''leveldb'', sample_entry ''a'' ''map'']))"
  by (simp add: validate_and_complete_config_def validate_array_def array_field_def validate_database_def
      field_default_def sample_json_def sample_entry_def sample_document_def)

lemma sample_populate:
  "\<exists>p cfg'. populate_provider_from_config (\<lambda>_. None :: nat option) (\<lambda>_ _. None) store_vtable open_datastore sample_json
      (\<lambda>n. word_of_nat n) provider_new (sample_document [sample_entry ''b'' ''leveldb'', sample_entry ''a'' ''map''])
    = Some (p, cfg', rc SDSKV_SUCCESS) \<and> name2id p = [(''a'', 1)]"
proof -
  have check: "check_provider_config sample_json (sample_document [sample_entry ''b'' ''leveldb'', sample_entry ''a'' ''map''])
      = Some (Inr (sample_document [sample_entry ''b'' ''leveldb'', sample_entry ''a'' ''map'']))"
    by (rule validated_config_check [OF json_ok_sample sample_document_valid])
  show ?thesis
    unfolding populate_provider_from_config_def check
    by (simp add: sample_json_def sample_document_def sample_entry_def db_type_of_def
        sdskv_provider_attach_database_def attach_comp_fn_def c_str_def provider_new_def open_datastore_def
        open_leveldb_datastore_def open_map_datastore_def map_openDatabase_def)
qed


text \<open>
  A database that cannot be attached goes unreported: if every type is known and the last database of the
  configuration can be opened, \<open>populate_provider_from_config\<close> ends its loop with success, since each return code
  overwrites the one before.
\<close>

theorem config_failure_hidden:
  assumes "json_ok J" "\<forall>e\<in>set its. check_database J e = Some (Inr e) \<and> known_type J e"
    and "check_database J e = Some (Inr e)"
    and "member_at J e ''name'' = Some nm" "member_at J e ''type'' = Some ty" "db_type_of (asString J ty) = Some t"
    and "member_at J e ''path'' = Some pa" "open_ds t (c_str (asString J nm)) (c_str (asString J pa)) = Some db"
    and "member_at J e ''comparator'' = Some co" "c_str (asString J co) = []"
  shows "\<exists>p' its'. populate_databases V open_ds J addr n p ret (its @ [e]) = Some (p', rc SDSKV_SUCCESS, its')"
  by (rule populate_databases_last) (fact assms)+

theorem config_failure_hidden_witness:
  "\<exists>p' its'. populate_databases store_vtable open_datastore sample_json (\<lambda>n. word_of_nat n) 0 provider_new 0
      [sample_entry ''b'' ''leveldb'', sample_entry ''a'' ''map''] = Some (p', rc SDSKV_SUCCESS, its')"
proof -
  have chk: "check_database sample_json (sample_entry nm ty) = Some (Inr (sample_entry nm ty))" for nm ty
    by (simp add: check_database_def check_string_field_def check_default_field_def field_default_def
        sample_json_def sample_entry_def)
  have mem: "member_at sample_json (sample_entry nm ty) ''name'' = Some (JString nm)"
    "member_at sample_json (sample_entry nm ty) ''type'' = Some (JString ty)"
    "member_at sample_json (sample_entry nm ty) ''path'' = Some (JString [])"
    "member_at sample_json (sample_entry nm ty) ''comparator'' = Some (JString [])"
    "asString sample_json (JString s) = s" for nm ty s
    by (simp_all add: sample_json_def sample_entry_def)
  obtain db where db: "open_datastore KVDB_MAP (c_str ''a'') (c_str []) = Some db"
    by (simp add: open_datastore_def open_map_datastore_def map_openDatabase_def)
  show ?thesis
    using config_failure_hidden [OF json_ok_sample _ chk mem(1,2) _ mem(3) _ mem(4),
        of "[sample_entry ''b'' ''leveldb'']" "''map''" KVDB_MAP open_datastore "''a''" db store_vtable
          "\<lambda>n. word_of_nat n" 0 provider_new 0] db
    by (simp add: chk mem known_type_def db_type_of_def c_str_def)
qed

end
