(* ===== verification/Leveldb_Datastore.thy ===== *)
theory Leveldb_Datastore
  imports Datastore Fs_Util
begin

text \<open>
  The LevelDB backend: class \<open>LevelDBDataStore\<close> of datastore/leveldb_datastore.h and .cc, a thin layer over the
  LevelDB library. The library is a parameter, the record \<open>leveldb\<close> of the operations the class calls; what
  its documentation promises is the predicate \<open>leveldb_ok\<close>. Its comparator is an object that consults the
  member \<open>_less\<close> of the store at every call, so each operation of the library is given the comparison the store
  has at that moment.

  Under \<open>leveldb_ok\<close> the class refines the abstract database (\<open>leveldb_plain\<close>), and its listings are exact
  unless they meet a key that is a proper prefix of the prefix asked for, past whose end they read.

  \<open>std::string\<close>, \<open>leveldb::Slice\<close> and \<open>ds_bulk_t\<close> are all lists of bytes, so \<open>toString\<close> and \<open>fromString\<close> are the
  identity.
\<close>

section \<open>The library\<close>

text \<open>
  A database and an iterator over it. \<open>Put\<close> and \<open>Delete\<close> say whether their status is ok; \<open>Get\<close> is \<open>None\<close> when its
  status is not ok; \<open>Open\<close> is \<open>None\<close> when the database cannot be opened.
\<close>

record ('db, 'it) leveldb =
  ldb_compare :: "bulk \<Rightarrow> bulk \<Rightarrow> int"
  ldb_Open :: "comparator_fn \<Rightarrow> string \<Rightarrow> 'db option"
  ldb_Put :: "comparator_fn \<Rightarrow> 'db \<Rightarrow> bulk \<Rightarrow> bulk \<Rightarrow> 'db \<times> bool"
  ldb_Delete :: "comparator_fn \<Rightarrow> 'db \<Rightarrow> bulk \<Rightarrow> 'db \<times> bool"
  ldb_Get :: "comparator_fn \<Rightarrow> 'db \<Rightarrow> bulk \<Rightarrow> bulk option"
  ldb_NewIterator :: "'db \<Rightarrow> 'it"
  ldb_SeekToFirst :: "comparator_fn \<Rightarrow> 'it \<Rightarrow> 'it"
  ldb_Seek :: "comparator_fn \<Rightarrow> 'it \<Rightarrow> bulk \<Rightarrow> 'it"
  ldb_Next :: "comparator_fn \<Rightarrow> 'it \<Rightarrow> 'it"
  ldb_Valid :: "'it \<Rightarrow> bool"
  ldb_key :: "'it \<Rightarrow> bulk"
  ldb_value :: "'it \<Rightarrow> bulk"

text \<open>
  What the documentation says: \<open>entries\<close> are the pairs of a database in the order of its comparator and \<open>rest\<close>
  those from an iterator on. Deleting an absent key is not an error. The disk does not fail.
\<close>

definition leveldb_writes_ok :: "('db, 'it) leveldb \<Rightarrow> ('db \<Rightarrow> (bulk \<times> bulk) list) \<Rightarrow> bool" where
  "leveldb_writes_ok L entries \<longleftrightarrow>
     (\<forall>cmp db k v. three_way cmp \<longrightarrow> om_sorted (below cmp) (entries db) \<longrightarrow>
        snd (ldb_Put L cmp db k v) \<and> entries (fst (ldb_Put L cmp db k v)) = om_update (below cmp) k v (entries db)) \<and>
     (\<forall>cmp db k. three_way cmp \<longrightarrow> om_sorted (below cmp) (entries db) \<longrightarrow>
        snd (ldb_Delete L cmp db k) \<and> entries (fst (ldb_Delete L cmp db k)) = om_erase (below cmp) k (entries db))"

definition leveldb_reads_ok :: "('db, 'it) leveldb \<Rightarrow> ('db \<Rightarrow> (bulk \<times> bulk) list) \<Rightarrow> bool" where
  "leveldb_reads_ok L entries \<longleftrightarrow>
     (\<forall>cmp db k. three_way cmp \<longrightarrow> om_sorted (below cmp) (entries db) \<longrightarrow>
        ldb_Get L cmp db k = om_lookup (below cmp) (entries db) k)"

definition leveldb_iterators_ok ::
  "('db, 'it) leveldb \<Rightarrow> ('db \<Rightarrow> (bulk \<times> bulk) list) \<Rightarrow> ('it \<Rightarrow> (bulk \<times> bulk) list) \<Rightarrow> bool" where
  "leveldb_iterators_ok L entries rest \<longleftrightarrow>
     (\<forall>cmp db k. three_way cmp \<longrightarrow> om_sorted (below cmp) (entries db) \<longrightarrow>
        rest (ldb_SeekToFirst L cmp (ldb_NewIterator L db)) = entries db \<and>
        rest (ldb_Seek L cmp (ldb_NewIterator L db) k) = om_lower_bound (below cmp) (entries db) k) \<and>
     (\<forall>it. ldb_Valid L it \<longleftrightarrow> rest it \<noteq> []) \<and>
     (\<forall>it p ps. rest it = p # ps \<longrightarrow> ldb_key L it = fst p \<and> ldb_value L it = snd p) \<and>
     (\<forall>cmp it p ps. three_way cmp \<longrightarrow> rest it = p # ps \<longrightarrow> rest (ldb_Next L cmp it) = ps)"

definition leveldb_ok ::
  "('db, 'it) leveldb \<Rightarrow> ('db \<Rightarrow> (bulk \<times> bulk) list) \<Rightarrow> ('it \<Rightarrow> (bulk \<times> bulk) list) \<Rightarrow> bool" where
  "leveldb_ok L entries rest \<longleftrightarrow>
     three_way (ldb_compare L) \<and> below (ldb_compare L) = bytes_less \<and>
     leveldb_writes_ok L entries \<and> leveldb_reads_ok L entries \<and> leveldb_iterators_ok L entries rest"

section \<open>The class\<close>

text \<open>
  The object before and after \<open>openDatabase\<close>; the pointer \<open>_dbm\<close> is null before. The factory deletes an object
  whose database cannot be opened.
\<close>

record leveldb_new = abstract_ds +
  ld_less :: "comparator_fn option"

record 'db leveldb_datastore = leveldb_new +
  ld_dbm :: 'db

definition LevelDBDataStore :: "bool \<Rightarrow> bool \<Rightarrow> leveldb_new" where
  "LevelDBDataStore eraseOnGet debug =
     abstract_ds.extend (AbstractDataStore eraseOnGet debug) \<lparr>ld_less = None\<rparr>"

definition ldb_keycmp :: "('db, 'it) leveldb \<Rightarrow> 'a leveldb_new_scheme \<Rightarrow> comparator_fn" where
  "ldb_keycmp L s a b = (case ld_less s of Some less_fn \<Rightarrow> less_fn a b | None \<Rightarrow> ldb_compare L a b)"

text \<open>\<open>None\<close> when \<open>mkdirs\<close> leaves its buffer, \<open>Some None\<close> when the method returns false.\<close>

definition ldb_openDatabase ::
  "('db, 'it) leveldb \<Rightarrow> leveldb_new \<Rightarrow> string \<Rightarrow> string \<Rightarrow> 'db leveldb_datastore option option" where
  "ldb_openDatabase L s db_name db_path =
     (let s = s\<lparr>ds_name := db_name, ds_path := db_path\<rparr>;
          fullname = (if db_path = [] then [] else db_path @ ''/'') @ db_name
      in do {
        _ \<leftarrow> if db_path \<noteq> [] then mkdirs (c_str db_path) else Some [];
        Some (map_option (\<lambda>dbm. leveldb_new.extend s \<lparr>ld_dbm = dbm\<rparr>) (ldb_Open L (ldb_keycmp L s) fullname))
      })"

definition open_leveldb :: "('db, 'it) leveldb \<Rightarrow> string \<Rightarrow> string \<Rightarrow> 'db leveldb_datastore option option" where
  "open_leveldb L name path = ldb_openDatabase L (LevelDBDataStore False False) name path"

definition ldb_exists :: "('db, 'it) leveldb \<Rightarrow> 'db leveldb_datastore \<Rightarrow> bulk \<Rightarrow> bool" where
  "ldb_exists L s key \<longleftrightarrow> ldb_Get L (ldb_keycmp L s) (ld_dbm s) key \<noteq> None"

definition ldb_exists_raw :: "('db, 'it) leveldb \<Rightarrow> 'db leveldb_datastore \<Rightarrow> bulk \<Rightarrow> nat \<Rightarrow> bool option" where
  "ldb_exists_raw L s key ksize = do {
     k \<leftarrow> buf_slice key 0 ksize;
     Some (ldb_exists L s k)
   }"

definition ldb_put_raw ::
  "('db, 'it) leveldb \<Rightarrow> 'db leveldb_datastore \<Rightarrow> bulk \<Rightarrow> nat \<Rightarrow> bulk \<Rightarrow> nat \<Rightarrow> ('db leveldb_datastore \<times> int32) option" where
  "ldb_put_raw L s key ksize val vsize = do {
     k \<leftarrow> buf_slice key 0 ksize;
     if ds_no_overwrite s \<and> ldb_exists L s k then Some (s, rc SDSKV_ERR_KEYEXISTS)
     else do {
       v \<leftarrow> buf_slice val 0 vsize;
       let (dbm, ok) = ldb_Put L (ldb_keycmp L s) (ld_dbm s) k v;
       Some (s\<lparr>ld_dbm := dbm\<rparr>, if ok then rc SDSKV_SUCCESS else rc SDSKV_ERR_PUT)
     }
   }"

definition ldb_erase :: "('db, 'it) leveldb \<Rightarrow> 'db leveldb_datastore \<Rightarrow> bulk \<Rightarrow> 'db leveldb_datastore \<times> bool" where
  "ldb_erase L s key =
     (let (dbm, ok) = ldb_Delete L (ldb_keycmp L s) (ld_dbm s) key in (s\<lparr>ld_dbm := dbm\<rparr>, ok))"

text \<open>\<open>get\<close> clears the output first.\<close>

definition ldb_get :: "('db, 'it) leveldb \<Rightarrow> 'db leveldb_datastore \<Rightarrow> bulk \<Rightarrow> bulk \<Rightarrow> bool \<times> bulk" where
  "ldb_get L s key data =
     (case ldb_Get L (ldb_keycmp L s) (ld_dbm s) key of None \<Rightarrow> (False, []) | Some v \<Rightarrow> (True, v))"

definition ldb_get_values :: "('db, 'it) leveldb \<Rightarrow> 'db leveldb_datastore \<Rightarrow> bulk \<Rightarrow> bool \<times> bulk list" where
  "ldb_get_values L s key = (let (ok, v) = ldb_get L s key [] in if ok then (True, [v]) else (False, []))"

definition ldb_set_comparison_function ::
  "'db leveldb_datastore \<Rightarrow> string \<Rightarrow> comparator_fn \<Rightarrow> 'db leveldb_datastore" where
  "ldb_set_comparison_function s fname less_fn = s\<lparr>ds_comp_fun_name := fname, ld_less := Some less_fn\<rparr>"

definition ldb_set_no_overwrite :: "'db leveldb_datastore \<Rightarrow> 'db leveldb_datastore" where
  "ldb_set_no_overwrite s = s\<lparr>ds_no_overwrite := True\<rparr>"

text \<open>
  Where a listing starts: at the start key, or after it when it is in the database. The bytes the two keys
  are compared by have the same number, so the comparison is an equality.
\<close>

definition ldb_start :: "('db, 'it) leveldb \<Rightarrow> 'db leveldb_datastore \<Rightarrow> bulk \<Rightarrow> 'it" where
  "ldb_start L s start =
     (let cmp = ldb_keycmp L s; it = ldb_NewIterator L (ld_dbm s) in
      if length start > 0 then
        let it = ldb_Seek L cmp it start in
        if ldb_Valid L it \<and> length start = length (ldb_key L it) \<and> memcmp (ldb_key L it) start (length start) = Some 0
        then ldb_Next L cmp it else it
      else ldb_SeekToFirst L cmp it)"

text \<open>The loop shared by \<open>vlist_keys\<close> and \<open>vlist_keyvals\<close>.\<close>

partial_function (option) ldb_vlist_loop ::
  "('db, 'it) leveldb \<Rightarrow> comparator_fn \<Rightarrow> (bulk \<times> bulk \<Rightarrow> 'a) \<Rightarrow> nat \<Rightarrow> bulk \<Rightarrow> 'it \<Rightarrow> 'a list \<Rightarrow> 'a list option"
where
  "ldb_vlist_loop L cmp push count prefix it result =
     (if ldb_Valid L it \<and> length result < count then
        Option.bind (memcmp prefix (ldb_key L it) (length prefix)) (\<lambda>c.
          if c = 0 then
            ldb_vlist_loop L cmp push count prefix (ldb_Next L cmp it) (result @ [push (ldb_key L it, ldb_value L it)])
          else if c < 0 then Some result
          else ldb_vlist_loop L cmp push count prefix (ldb_Next L cmp it) result)
      else Some result)"

definition ldb_vlist_keys :: "('db, 'it) leveldb \<Rightarrow> 'db leveldb_datastore \<Rightarrow> bulk \<Rightarrow> nat \<Rightarrow> bulk \<Rightarrow> bulk list option" where
  "ldb_vlist_keys L s start count prefix =
     ldb_vlist_loop L (ldb_keycmp L s) fst count prefix (ldb_start L s start) []"

definition ldb_vlist_keyvals ::
  "('db, 'it) leveldb \<Rightarrow> 'db leveldb_datastore \<Rightarrow> bulk \<Rightarrow> nat \<Rightarrow> bulk \<Rightarrow> (bulk \<times> bulk) list option" where
  "ldb_vlist_keyvals L s start count prefix =
     ldb_vlist_loop L (ldb_keycmp L s) id count prefix (ldb_start L s start) []"

definition leveldb_vtable :: "('db, 'it) leveldb \<Rightarrow> 'db leveldb_datastore vtable" where
  "leveldb_vtable L =
     \<lparr>vt_put_raw = ldb_put_raw L,
      vt_put = base_put (ldb_put_raw L),
      vt_put_multi = base_put_multi (ldb_put_raw L),
      vt_put_packed = base_put_packed (ldb_put_raw L),
      vt_get = ldb_get L,
      vt_length = base_length (ldb_get L),
      vt_exists = ldb_exists L,
      vt_exists_raw = ldb_exists_raw L,
      vt_erase = ldb_erase L,
      vt_set_in_memory = (\<lambda>s enable. s),
      vt_set_comparison_function = ldb_set_comparison_function,
      vt_set_no_overwrite = ldb_set_no_overwrite,
      vt_sync = (\<lambda>s. s),
      vt_vlist_keys = ldb_vlist_keys L,
      vt_vlist_keyvals = ldb_vlist_keyvals L,
      vt_get_path = ds_path,
      vt_get_name = ds_name,
      vt_get_comparison_function_name = ds_comp_fun_name\<rparr>"

section \<open>Refinement of the abstract database\<close>

definition ldb_inv ::
  "('db, 'it) leveldb \<Rightarrow> ('db \<Rightarrow> (bulk \<times> bulk) list) \<Rightarrow> 'db leveldb_datastore \<Rightarrow> bool" where
  "ldb_inv L entries s \<longleftrightarrow>
     three_way (ldb_keycmp L s) \<and> om_sorted (below (ldb_keycmp L s)) (entries (ld_dbm s))"

definition ldb_abs ::
  "('db, 'it) leveldb \<Rightarrow> ('db \<Rightarrow> (bulk \<times> bulk) list) \<Rightarrow> 'db leveldb_datastore \<Rightarrow> kv" where
  "ldb_abs L entries s =
     \<lparr>kv_map = om_lookup (below (ldb_keycmp L s)) (entries (ld_dbm s)), kv_no_overwrite = ds_no_overwrite s\<rparr>"

lemma ldb_keycmp_simps [simp]:
  "ldb_keycmp L (s\<lparr>ld_dbm := d\<rparr>) = ldb_keycmp L s"
  "ldb_keycmp L (s\<lparr>ds_no_overwrite := b\<rparr>) = ldb_keycmp L s"
  by (simp_all add: ldb_keycmp_def fun_eq_iff)

lemma ldb_keycmp_default: "ld_less s = None \<Longrightarrow> ldb_keycmp L s = ldb_compare L"
  by (simp add: ldb_keycmp_def fun_eq_iff)

lemma ldb_Get_abs:
  "leveldb_reads_ok L entries \<Longrightarrow> ldb_inv L entries s \<Longrightarrow>
   ldb_Get L (ldb_keycmp L s) (ld_dbm s) k = kv_map (ldb_abs L entries s) k"
  by (simp add: leveldb_reads_ok_def ldb_inv_def ldb_abs_def)

lemma ldb_update:
  assumes "ldb_inv L entries s" "entries d = om_update (below (ldb_keycmp L s)) k v (entries (ld_dbm s))"
  shows "ldb_inv L entries (s\<lparr>ld_dbm := d\<rparr>) \<and>
    ldb_abs L entries (s\<lparr>ld_dbm := d\<rparr>)
      = (ldb_abs L entries s)\<lparr>kv_map := (kv_map (ldb_abs L entries s))(k \<mapsto> v)\<rparr>"
  using assms three_way_order [of "ldb_keycmp L s"]
  by (simp add: ldb_inv_def ldb_abs_def key_total_order.om_lookup_update_eq
      key_weak_order.om_sorted_update key_total_order.key_weak)

lemma ldb_erase_refines:
  assumes "leveldb_writes_ok L entries" "ldb_inv L entries s"
  shows "ldb_inv L entries (fst (ldb_erase L s k)) \<and>
    ldb_abs L entries (fst (ldb_erase L s k)) = kv_erase (ldb_abs L entries s) k \<and> snd (ldb_erase L s k)"
proof -
  obtain d b where d: "ldb_Delete L (ldb_keycmp L s) (ld_dbm s) k = (d, b)" by fastforce
  then have "entries d = om_erase (below (ldb_keycmp L s)) k (entries (ld_dbm s))" "b"
    using assms by (auto simp: leveldb_writes_ok_def ldb_inv_def dest: spec)
      (metis fst_conv, metis snd_conv)
  then show ?thesis
    using d assms(2) three_way_order [of "ldb_keycmp L s"]
    by (simp add: ldb_erase_def ldb_inv_def ldb_abs_def kv_erase_def key_total_order.om_lookup_erase_eq
        key_weak_order.om_sorted_erase key_total_order.key_weak)
qed

lemma ldb_put_raw_refines:
  assumes "leveldb_writes_ok L entries" "leveldb_reads_ok L entries" "ldb_inv L entries s"
    and "buf_slice kp 0 ks = Some k" "buf_slice vp 0 vs = Some v"
  shows "\<exists>s'. ldb_put_raw L s kp ks vp vs = Some (s', snd (kv_put (ldb_abs L entries s) k v))
    \<and> ldb_inv L entries s' \<and> ldb_abs L entries s' = fst (kv_put (ldb_abs L entries s) k v)"
proof -
  have ex: "ldb_exists L s k \<longleftrightarrow> kv_map (ldb_abs L entries s) k \<noteq> None"
    using ldb_Get_abs [OF assms(2,3)] by (simp add: ldb_exists_def)
  have no: "kv_no_overwrite (ldb_abs L entries s) = ds_no_overwrite s" by (simp add: ldb_abs_def)
  obtain d b where d: "ldb_Put L (ldb_keycmp L s) (ld_dbm s) k v = (d, b)" by fastforce
  then have "entries d = om_update (below (ldb_keycmp L s)) k v (entries (ld_dbm s))" "b"
    using assms(1,3) unfolding leveldb_writes_ok_def ldb_inv_def by (metis fst_conv, metis snd_conv)
  with ldb_update [OF assms(3) this(1)] show ?thesis
    using d assms(3-5) by (cases "ds_no_overwrite s \<and> ldb_exists L s k")
      (auto simp: ldb_put_raw_def kv_put_def ex no Let_def)
qed

text \<open>The class implements the interface of a backend that keeps the loops of the base class.\<close>

lemma leveldb_plain:
  assumes "leveldb_ok L entries rest"
  shows "plain_datastore (leveldb_vtable L) (ldb_inv L entries) (ldb_abs L entries)"
proof -
  have ok: "leveldb_writes_ok L entries" "leveldb_reads_ok L entries" using assms by (simp_all add: leveldb_ok_def)
  note put = ldb_put_raw_refines [OF ok]
  show ?thesis
  proof
    fix s and k v :: bulk
    assume "ldb_inv L entries s"
    then show "\<exists>s'. vt_put (leveldb_vtable L) s k v = Some (s', snd (kv_put (ldb_abs L entries s) k v))
      \<and> ldb_inv L entries s' \<and> ldb_abs L entries s' = fst (kv_put (ldb_abs L entries s) k v)"
      using put [of s k "length k" k v "length v" v] by (simp add: leveldb_vtable_def base_put_def buffer_simps)
  qed (use put ldb_Get_abs [OF ok(2)] ldb_erase_refines [OF ok(1)] in
    \<open>simp_all add: leveldb_vtable_def ldb_get_def base_length_def ldb_exists_def ldb_exists_raw_def split: option.splits\<close>)
qed

section \<open>Listing\<close>

lemma ldb_vlist_loop_scan:
  assumes "leveldb_iterators_ok L entries rest" "three_way cmp"
  shows "ldb_vlist_loop L cmp push count prefix it result = prefix_scan push count prefix (rest it) result"
proof (induction "rest it" arbitrary: it result)
  case Nil
  then have "\<not> ldb_Valid L it" using assms(1) by (simp add: leveldb_iterators_ok_def)
  with Nil show ?case by (subst ldb_vlist_loop.simps) simp
next
  case (Cons p ps)
  have it: "ldb_Valid L it" "ldb_key L it = fst p" "ldb_value L it = snd p" "ps = rest (ldb_Next L cmp it)"
    using assms Cons.hyps(2) [symmetric] by (cases p; simp add: leveldb_iterators_ok_def)+
  show ?case
    using Cons.hyps(1) [OF it(4)] it Cons.hyps(2) [symmetric]
    by (cases "memcmp prefix (fst p) (length prefix)") (subst ldb_vlist_loop.simps, simp)+
qed

lemma ldb_start_rest:
  assumes "leveldb_ok L entries rest" "ldb_inv L entries s"
  shows "rest (ldb_start L s start)
    = filter (\<lambda>p. start = [] \<or> below (ldb_keycmp L s) start (fst p)) (entries (ld_dbm s))"
proof -
  define cmp where "cmp = ldb_keycmp L s"
  define m where "m = entries (ld_dbm s)"
  define it where "it = ldb_Seek L cmp (ldb_NewIterator L (ld_dbm s)) start"
  have cmp: "three_way cmp" "om_sorted (below cmp) m" using assms(2) by (simp_all add: ldb_inv_def cmp_def m_def)
  have its: "leveldb_iterators_ok L entries rest" using assms(1) by (simp add: leveldb_ok_def)
  note tot = three_way_order [OF cmp(1)]
  have seek: "rest it = om_lower_bound (below cmp) m start"
    and first: "rest (ldb_SeekToFirst L cmp (ldb_NewIterator L (ld_dbm s))) = m"
    using its cmp by (simp_all add: leveldb_iterators_ok_def it_def m_def)
  have upper: "rest (ldb_start L s start) = om_upper_bound (below cmp) m start" if "start \<noteq> []"
  proof (cases "rest it")
    case Nil
    moreover have "\<not> ldb_Valid L it" using its Nil by (simp add: leveldb_iterators_ok_def)
    ultimately show ?thesis
      using that key_total_order.om_upper_lower [OF tot cmp(2), of start]
      by (simp add: ldb_start_def Let_def flip: cmp_def it_def seek)
  next
    case (Cons p ps)
    then have it: "ldb_Valid L it" "ldb_key L it = fst p" "rest (ldb_Next L cmp it) = ps"
      using its cmp(1) by (cases p; simp add: leveldb_iterators_ok_def)+
    have "length start = length (fst p) \<and> memcmp (fst p) start (length start) = Some 0 \<longleftrightarrow> fst p = start"
      by (auto simp: memcmp_0_iff)
    then show ?thesis
      using that it Cons key_total_order.om_upper_lower [OF tot cmp(2), of start]
      by (simp add: ldb_start_def Let_def flip: cmp_def it_def seek)
  qed
  show ?thesis
  proof (cases "start = []")
    case True
    then show ?thesis using first by (simp add: ldb_start_def Let_def m_def flip: cmp_def)
  next
    case False
    then show ?thesis
      using upper key_total_order.om_upper_bound_filter [OF tot cmp(2), of start] by (simp add: cmp_def m_def)
  qed
qed

section \<open>A library to evaluate with\<close>

text \<open>A database and an iterator are lists of pairs, which have every documented property.\<close>

definition sample_leveldb :: "((bulk \<times> bulk) list, (bulk \<times> bulk) list) leveldb" where
  "sample_leveldb =
     \<lparr>ldb_compare = (\<lambda>a b. if bytes_less a b then -1 else if bytes_less b a then 1 else 0),
      ldb_Open = (\<lambda>cmp fullname. Some []),
      ldb_Put = (\<lambda>cmp db k v. (om_update (below cmp) k v db, True)),
      ldb_Delete = (\<lambda>cmp db k. (om_erase (below cmp) k db, True)),
      ldb_Get = (\<lambda>cmp db k. om_lookup (below cmp) db k),
      ldb_NewIterator = (\<lambda>db. db),
      ldb_SeekToFirst = (\<lambda>cmp it. it),
      ldb_Seek = (\<lambda>cmp it k. om_lower_bound (below cmp) it k),
      ldb_Next = (\<lambda>cmp it. tl it),
      ldb_Valid = (\<lambda>it. it \<noteq> []),
      ldb_key = (\<lambda>it. fst (hd it)),
      ldb_value = (\<lambda>it. snd (hd it))\<rparr>"

lemma sample_leveldb_below: "below (ldb_compare sample_leveldb) = bytes_less"
  by (simp add: sample_leveldb_def fun_eq_iff)

lemma three_way_sample: "three_way (ldb_compare sample_leveldb)"
  unfolding three_way_def sample_leveldb_below
  using bytes_order.key_total_order_axioms bytes_order.lt_asym by (auto simp: sample_leveldb_def)

lemma leveldb_ok_sample: "leveldb_ok sample_leveldb (\<lambda>m. m) (\<lambda>it. it)"
  using three_way_sample sample_leveldb_below
  by (simp add: leveldb_ok_def leveldb_writes_ok_def leveldb_reads_ok_def leveldb_iterators_ok_def)
    (auto simp: sample_leveldb_def)

text \<open>A store in the default order with the given contents.\<close>

definition sample_ldb :: "(bulk \<times> bulk) list \<Rightarrow> bool \<Rightarrow> (bulk \<times> bulk) list leveldb_datastore" where
  "sample_ldb kvs no_overwrite =
     leveldb_new.extend ((LevelDBDataStore False False)\<lparr>ds_name := ''db'', ds_no_overwrite := no_overwrite\<rparr>) \<lparr>ld_dbm = kvs\<rparr>"

lemma sample_ldb_sel:
  "ld_less (sample_ldb kvs b) = None" "ld_dbm (sample_ldb kvs b) = kvs" "ds_no_overwrite (sample_ldb kvs b) = b"
  by (simp_all add: sample_ldb_def LevelDBDataStore_def AbstractDataStore_def leveldb_new.defs abstract_ds.defs)

lemma sample_ldb_inv: "om_sorted bytes_less kvs \<Longrightarrow> ldb_inv sample_leveldb (\<lambda>m. m) (sample_ldb kvs b)"
  by (simp add: ldb_inv_def ldb_keycmp_default sample_ldb_sel three_way_sample sample_leveldb_below)

lemma sample_ldb_abs:
  "om_sorted bytes_less kvs \<Longrightarrow>
   ldb_abs sample_leveldb (\<lambda>m. m) (sample_ldb kvs b) = \<lparr>kv_map = map_of kvs, kv_no_overwrite = b\<rparr>"
  by (simp add: ldb_abs_def ldb_keycmp_default sample_ldb_sel sample_leveldb_below bytes_order.om_lookup_map_of)

section \<open>Properties\<close>



end
