(* ===== verification/Service_Attach.thy ===== *)
theory Service_Attach
  imports Service
begin

text \<open>
  Databases as a whole, end to end: attaching a database to a provider, opening it by name, counting and
  listing databases.
\<close>

section \<open>Attaching\<close>

definition comp_fn_ok :: "(string \<times> sdskv_compare_fn) option \<Rightarrow> bool" where
  "comp_fn_ok cf \<longleftrightarrow> (case cf of None \<Rightarrow> True | Some (_, f) \<Rightarrow> key_total_order (\<lambda>a b. cf_code f a b < 0))"

lemma attach_setup_map:
  assumes "comp_fn_ok cf" "open_datastore KVDB_MAP n path = Some db"
  shows "store_inv (attach_setup store_vtable config cf db)
    \<and> store_abs (attach_setup store_vtable config cf db)
        = \<lparr>kv_map = Map.empty, kv_no_overwrite = cfg_db_no_overwrite config\<rparr>"
proof -
  obtain m where m: "db = Map_store m" "md_map m = []" "md_less m = None" "ds_no_overwrite m = False"
    using assms(2) that [of "fst (map_openDatabase (MapDataStore False False) n path)"]
    by (simp add: open_datastore_def open_map_datastore_def map_openDatabase_def MapDataStore_def
        abstract_ds.defs AbstractDataStore_def)
  have look: "om_lookup lt [] = Map.empty" for lt :: "bulk \<Rightarrow> bulk \<Rightarrow> bool"
    by (simp add: fun_eq_iff om_lookup_def om_find_def om_lower_bound_def)
  have srt: "om_sorted lt []" for lt :: "bulk \<Rightarrow> bulk \<Rightarrow> bool" by (simp add: om_sorted_def)
  show ?thesis
  proof (cases cf)
    case None
    then show ?thesis
      using m by (simp add: attach_setup_def store_setters map_set_no_overwrite_def Let_def
          store_inv_def store_abs_def map_inv_default map_abs_def look srt)
  next
    case (Some fc)
    then obtain fname f where f: "cf = Some (fname, f)" "key_total_order (\<lambda>a b. cf_code f a b < 0)"
      using assms(1) by (cases fc) (auto simp: comp_fn_ok_def)
    define s where "s = m\<lparr>ds_comp_fun_name := fname, md_less := Some (cf_code f),
      ds_no_overwrite := cfg_db_no_overwrite config\<rparr>"
    have "attach_setup store_vtable config cf db = Map_store s"
      using m f by (cases "cfg_db_no_overwrite config") (simp_all add: attach_setup_def store_setters
          map_set_no_overwrite_def map_set_comparison_function_def s_def Let_def)
    moreover have "map_inv s"
      using map_inv_empty_custom [of s "cf_code f"] f(2) m by (simp add: s_def)
    ultimately show ?thesis
      using m by (simp add: store_inv_def store_abs_def map_abs_def look s_def)
  qed
qed

lemma attach_map_serves:
  assumes inv: "provider_inv p" and fresh: "find_db p addr = None"
    and cfg: "cfg_db_type config = KVDB_MAP" "attach_comp_fn p config = Inr cf" "comp_fn_ok cf"
  shows "\<exists>p'. sdskv_provider_attach_database store_vtable open_datastore p config addr
        = (p', rc SDSKV_SUCCESS, Some addr)
    \<and> serves store_inv store_abs (Some p') addr
        \<lparr>kv_map = Map.empty, kv_no_overwrite = cfg_db_no_overwrite config\<rparr>
    \<and> find_name p' (cfg_db_name config) = Some addr
    \<and> (\<forall>j. j \<noteq> addr \<longrightarrow> find_db p' j = find_db p j)"
proof -
  obtain db where db: "open_datastore KVDB_MAP (cfg_db_name config) (cfg_db_path config) = Some db"
    by (simp add: open_datastore_def open_map_datastore_def map_openDatabase_def)
  define db' where "db' = attach_setup store_vtable config cf db"
  define p' where "p' = p\<lparr>name2id := om_update string_less (cfg_db_name config) addr (name2id p),
                  id2name := om_update (<) addr (cfg_db_name config) (id2name p),
                  databases := om_update (<) addr db' (databases p)\<rparr>"
  have att: "sdskv_provider_attach_database store_vtable open_datastore p config addr = (p', rc SDSKV_SUCCESS, Some addr)"
    using cfg db by (simp add: sdskv_provider_attach_database_def p'_def db'_def)
  have "provider_inv p'"
    using attach_inv [OF inv fresh, of store_vtable open_datastore config] att by simp
  moreover have "find_db p' = (find_db p)(addr \<mapsto> db')" "find_name p' (cfg_db_name config) = Some addr"
    using provider_inv_sorted [OF inv] by (simp_all add: p'_def om_lookup_simps fun_eq_iff)
  ultimately show ?thesis
    using att attach_setup_map [OF cfg(3) db, of config] by (auto simp: serves_def db'_def)
qed

section \<open>Opening, counting and listing\<close>

lemma client_open:
  assumes "st = Some p" "margo_reliable M" "client_reliable C"
  shows "sdskv_open C (sdskv_service M V U) st name i0 =
    Some (st, case find_name p name of Some i \<Rightarrow> (rc SDSKV_SUCCESS, i)
      | None \<Rightarrow> (rc SDSKV_ERR_DB_NAME, open_out_db_id (un_open U)))"
  using assms by (auto simp: sdskv_open_def sdskv_open_ult_def handler_simps om_lookup_def Let_def split: list.splits)

lemma client_count:
  assumes "st = Some p" "client_reliable C"
  shows "sdskv_count_databases C (sdskv_service M V U) st n = Some (st, rc SDSKV_SUCCESS, length (databases p))"
  using assms by (simp add: sdskv_count_databases_def sdskv_count_db_ult_def handler_simps
      sdskv_provider_count_databases_def)

lemma client_list_databases:
  assumes "st = Some p" "margo_reliable M" "client_reliable C" "length names = count" "length ids = count"
    and "0 < count" "name2id p \<noteq> []"
  shows "sdskv_list_databases C (sdskv_service M V U) out0 st count (Some names) (Some ids) =
    (let l = take count (name2id p) in
     Some (st, rc SDSKV_SUCCESS, length l, Some (map fst l @ drop (length l) names), Some (map snd l @ drop (length l) ids)))"
  using assms
  by (simp add: sdskv_list_databases_def sdskv_list_db_ult_def handler_simps list_db_loop_take write_array_def
      received_list_db_def overwrite_def Let_def)

end
