(* ===== verification/Service_Migrate.thy ===== *)
theory Service_Migrate
  imports Service_Attach Service_Multi Client_Migrate
begin

text \<open>
  Migration end to end: what \<open>sdskv_migrate_all_keys_ult\<close> and \<open>sdskv_migrate_keys_ult\<close> do to the source
  database and to the target provider. Two interfaces carry the proofs: \<open>listed_datastore\<close>, a backend whose
  \<open>list_keyvals\<close> enumerates its entries in a fixed order from a start key, and \<open>put_target\<close>, a service whose
  \<open>put\<close> RPC is executed on an abstract database. Both are interpreted on the modelled code, the first on the
  map backend with its default order and the second on the put handler of another provider.
\<close>

section \<open>Maps of lists\<close>

lemma map_of_take_drop:
  assumes "distinct (map fst xs)"
  shows "m ++ map_of (take n xs) ++ map_of (drop n xs) = m ++ map_of xs"
proof -
  have "distinct (map fst (take n xs) @ map fst (drop n xs))" using assms by (simp flip: map_append)
  then have "map_of (take n xs) ++ map_of (drop n xs) = map_of (drop n xs) ++ map_of (take n xs)"
    by (intro map_add_comm) (auto simp: dom_map_of_conv_image_fst)
  also have "\<dots> = map_of (take n xs @ drop n xs)" by (rule map_of_append [symmetric])
  finally show ?thesis by (simp flip: map_add_assoc)
qed

section \<open>Enumerating a database\<close>

locale listed_datastore =
  fixes V :: "'ds vtable"
    and linv :: "'ds \<Rightarrow> bool"
    and entries :: "'ds \<Rightarrow> (bulk \<times> bulk) list"
  assumes entries_distinct: "linv s \<Longrightarrow> distinct (map fst (entries s))"
    and entries_empty_key: "linv s \<Longrightarrow> entries s = xs @ (k, v) # ys \<Longrightarrow> xs \<noteq> [] \<Longrightarrow> k \<noteq> []"
    and list_first: "linv s \<Longrightarrow> vt_vlist_keyvals V s [] n [] = Some (take n (entries s))"
    and list_next: "linv s \<Longrightarrow> entries s = xs @ (k, v) # ys \<Longrightarrow> k \<noteq> [] \<Longrightarrow>
      vt_vlist_keyvals V s k n [] = Some (take n ys)"
    and erase_linv: "linv s \<Longrightarrow> linv (fst (vt_erase V s k))"
    and erase_entries: "linv s \<Longrightarrow> entries (fst (vt_erase V s k)) = filter (\<lambda>e. fst e \<noteq> k) (entries s)"

section \<open>The target of a migration\<close>

locale put_target =
  fixes T :: "'t target"
    and target_db :: db_id
    and tinv :: "'t \<Rightarrow> bool"
    and tabs :: "'t \<Rightarrow> kv"
  assumes target_calls: "rp_create T = hg_success" "rp_forward T n = hg_success" "rp_output T n = hg_success"
    and target_put: "tinv t \<Longrightarrow>
      \<exists>t'. rp_put T t \<lparr>put_in_db_id = target_db, put_in_key = k, put_in_value = v\<rparr>
            = Some (t', snd (kv_put (tabs t) k v))
        \<and> tinv t' \<and> tabs t' = fst (kv_put (tabs t) k v)"
begin

lemma put_on_target_law:
  assumes "tinv t" "\<not> kv_no_overwrite (tabs t)"
  shows "\<exists>t'. put_on_target T n t target_db k v = Some (t', True) \<and> tinv t'
    \<and> tabs t' = (tabs t)\<lparr>kv_map := (kv_map (tabs t))(k \<mapsto> v)\<rparr>"
  using target_put [OF assms(1), of k v] assms(2)
  by (auto simp: put_on_target_def target_calls kv_put_def)

end

section \<open>Migrating all the keys\<close>

locale migration = listed_datastore V linv entries + put_target T target_db tinv tabs
  for V :: "'ds vtable" and linv entries and T :: "'t target" and target_db tinv tabs
begin

lemma migrate_batch_law:
  "linv db \<Longrightarrow> tinv t \<Longrightarrow> \<not> kv_no_overwrite (tabs t) \<Longrightarrow> distinct (map fst kvs) \<Longrightarrow>
   \<exists>db' t'. migrate_batch V T target_db flag n kvs db t = Some (db', t', True)
     \<and> linv db' \<and> tinv t'
     \<and> (flag \<noteq> SDSKV_REMOVE_ORIGINAL \<longrightarrow> db' = db)
     \<and> (flag = SDSKV_REMOVE_ORIGINAL \<longrightarrow> entries db' = filter (\<lambda>e. fst e \<notin> fst ` set kvs) (entries db))
     \<and> tabs t' = (tabs t)\<lparr>kv_map := kv_map (tabs t) ++ map_of kvs\<rparr>"
proof (induction kvs arbitrary: n db t)
  case (Cons kv kvs)
  obtain k v where kv: "kv = (k, v)" by fastforce
  obtain t1 where t1: "put_on_target T n t target_db k v = Some (t1, True)" "tinv t1"
      "tabs t1 = (tabs t)\<lparr>kv_map := (kv_map (tabs t))(k \<mapsto> v)\<rparr>"
    using put_on_target_law [OF Cons.prems(2,3)] by blast
  define db1 where "db1 = (if flag = SDSKV_REMOVE_ORIGINAL then fst (vt_erase V db k) else db)"
  have db1: "linv db1" using erase_linv Cons.prems(1) by (simp add: db1_def)
  have "\<not> kv_no_overwrite (tabs t1)" "distinct (map fst kvs)" using t1(3) Cons.prems(3,4) by simp_all
  then obtain db' t' where IH: "migrate_batch V T target_db flag (Suc n) kvs db1 t1 = Some (db', t', True)"
      "linv db'" "tinv t'" "flag \<noteq> SDSKV_REMOVE_ORIGINAL \<longrightarrow> db' = db1"
      "flag = SDSKV_REMOVE_ORIGINAL \<longrightarrow> entries db' = filter (\<lambda>e. fst e \<notin> fst ` set kvs) (entries db1)"
      "tabs t' = (tabs t1)\<lparr>kv_map := kv_map (tabs t1) ++ map_of kvs\<rparr>"
    using Cons.IH [OF db1 t1(2)] by blast
  have none: "map_of kvs k = None" using Cons.prems(4) by (simp add: kv map_of_eq_None_iff)
  have "kv_map (tabs t1) ++ map_of kvs = kv_map (tabs t) ++ map_of (kv # kvs)"
    using none t1(3) by (auto simp: kv map_add_def fun_eq_iff split: option.splits)
  then have tab: "tabs t' = (tabs t)\<lparr>kv_map := kv_map (tabs t) ++ map_of (kv # kvs)\<rparr>"
    using IH(6) t1(3) by (simp del: map_of.simps)
  have ent: "entries db' = filter (\<lambda>e. fst e \<notin> fst ` set (kv # kvs)) (entries db)"
    if "flag = SDSKV_REMOVE_ORIGINAL"
    using IH(5) that erase_entries [OF Cons.prems(1), of k]
    by (auto simp: kv db1_def conj_commute intro!: filter_cong)
  have "migrate_batch V T target_db flag n (kv # kvs) db t = Some (db', t', True)"
    using IH(1) t1(1) by (simp add: kv db1_def)
  then show ?case
    using IH(2,3,4) tab ent
    by (intro exI [of _ db'] exI [of _ t'] conjI impI) (simp_all add: db1_def del: map_of.simps)
qed simp

lemma filter_take_entries:
  assumes "linv db"
  shows "filter (\<lambda>e. fst e \<notin> fst ` set (take m (entries db))) (entries db) = drop m (entries db)"
proof -
  have d: "distinct (map fst (take m (entries db) @ drop m (entries db)))"
    using entries_distinct [OF assms] by simp
  have "filter (\<lambda>e. fst e \<notin> fst ` set (take m (entries db))) (take m (entries db) @ drop m (entries db))
      = drop m (entries db)"
    using d unfolding map_append distinct_append filter_append by (auto simp: filter_id_conv filter_empty_conv)
  then show ?thesis by simp
qed

text \<open>Removing the originals: the loop takes the first 64 entries until none is left.\<close>

lemma migrate_loop_remove:
  "linv db \<Longrightarrow> tinv t \<Longrightarrow> \<not> kv_no_overwrite (tabs t) \<Longrightarrow>
   \<exists>db' t'. migrate_loop V T target_db SDSKV_REMOVE_ORIGINAL [] n [] db t = Some (db', t', True)
     \<and> linv db' \<and> tinv t' \<and> entries db' = []
     \<and> tabs t' = (tabs t)\<lparr>kv_map := kv_map (tabs t) ++ map_of (entries db)\<rparr>"
proof (induction "length (entries db)" arbitrary: n db t rule: less_induct)
  case less
  define batch where "batch = take 64 (entries db)"
  have lst: "ds_list_keyvals V db [] 64 [] = Some batch"
    using list_first [OF less.prems(1)] by (simp add: ds_list_keyvals_def batch_def)
  show ?case
  proof (cases "batch = []")
    case True
    then have "entries db = []" by (simp add: batch_def)
    with True lst less.prems show ?thesis by (subst migrate_loop.simps) auto
  next
    case False
    have "distinct (map fst batch)"
      using entries_distinct [OF less.prems(1)] by (simp add: batch_def take_map [symmetric])
    then obtain db1 t1 where b: "migrate_batch V T target_db SDSKV_REMOVE_ORIGINAL n batch db t = Some (db1, t1, True)"
        "linv db1" "tinv t1" "entries db1 = drop 64 (entries db)"
        "tabs t1 = (tabs t)\<lparr>kv_map := kv_map (tabs t) ++ map_of batch\<rparr>"
      using migrate_batch_law [OF less.prems, of batch SDSKV_REMOVE_ORIGINAL n]
        filter_take_entries [OF less.prems(1), of 64] by (auto simp: batch_def)
    show ?thesis
    proof (cases "length batch = 64")
      case True
      have "length (entries db1) < length (entries db)" "\<not> kv_no_overwrite (tabs t1)"
        using False b(4,5) less.prems(3) by (auto simp: batch_def)
      then obtain db' t' where r: "migrate_loop V T target_db SDSKV_REMOVE_ORIGINAL [] (n + 64) [] db1 t1 = Some (db', t', True)"
          "linv db'" "tinv t'" "entries db' = []"
          "tabs t' = (tabs t1)\<lparr>kv_map := kv_map (tabs t1) ++ map_of (entries db1)\<rparr>"
        using less.hyps [OF _ b(2,3)] by blast
      have "tabs t' = (tabs t)\<lparr>kv_map := kv_map (tabs t) ++ map_of (entries db)\<rparr>"
        using r(5) b(4,5) map_of_take_drop [OF entries_distinct [OF less.prems(1)]] by (simp add: batch_def)
      with r False True lst b(1) show ?thesis by (subst migrate_loop.simps) auto
    next
      case no: False
      then have "batch = entries db" "length (entries db) \<le> 64" by (auto simp: batch_def)
      with b lst False no show ?thesis by (subst migrate_loop.simps) auto
    qed
  qed
qed

text \<open>Keeping the originals: each round starts after the last key of the round before.\<close>

lemma migrate_loop_keep:
  "linv db \<Longrightarrow> tinv t \<Longrightarrow> \<not> kv_no_overwrite (tabs t) \<Longrightarrow> flag \<noteq> SDSKV_REMOVE_ORIGINAL \<Longrightarrow>
   entries db = done @ todo \<Longrightarrow> start_key = (if done = [] then [] else fst (last done)) \<Longrightarrow>
   length done \<noteq> 1 \<Longrightarrow>
   \<exists>t'. migrate_loop V T target_db flag [] n start_key db t = Some (db, t', True)
     \<and> tinv t' \<and> tabs t' = (tabs t)\<lparr>kv_map := kv_map (tabs t) ++ map_of todo\<rparr>"
proof (induction "length todo" arbitrary: n "done" todo start_key t rule: less_induct)
  case less
  define batch where "batch = take 64 todo"
  have lst: "ds_list_keyvals V db start_key 64 [] = Some batch"
  proof (cases "done" rule: rev_cases)
    case Nil
    then show ?thesis
      using list_first [OF less.prems(1)] less.prems(5,6) by (simp add: ds_list_keyvals_def batch_def)
  next
    case (snoc ks e)
    then have e: "entries db = ks @ (fst e, snd e) # todo" "ks \<noteq> []" "start_key = fst e"
      using less.prems(5,6,7) by auto
    then have "fst e \<noteq> []" using entries_empty_key [OF less.prems(1)] by blast
    then show ?thesis
      using list_next [OF less.prems(1) e(1)] e(3) by (simp add: ds_list_keyvals_def batch_def)
  qed
  have dist: "distinct (map fst todo)"
    using entries_distinct [OF less.prems(1)] less.prems(5) by simp
  then have "distinct (map fst batch)" by (simp add: batch_def take_map [symmetric])
  then obtain t1 where b: "migrate_batch V T target_db flag n batch db t = Some (db, t1, True)" "tinv t1"
      "tabs t1 = (tabs t)\<lparr>kv_map := kv_map (tabs t) ++ map_of batch\<rparr>"
    using migrate_batch_law [OF less.prems(1-3), of batch flag n] less.prems(4) by auto
  show ?case
  proof (cases "length batch = 64")
    case True
    define done' where "done' = done @ batch"
    define todo' where "todo' = drop 64 todo"
    have "batch \<noteq> []" using True by auto
    then have hyps: "length todo' < length todo" "\<not> kv_no_overwrite (tabs t1)" "entries db = done' @ todo'"
      "fst (last batch) = (if done' = [] then [] else fst (last done'))" "length done' \<noteq> 1"
      using True b(3) less.prems(3,5) by (auto simp: batch_def done'_def todo'_def)
    obtain t' where r: "migrate_loop V T target_db flag [] (n + 64) (fst (last batch)) db t1 = Some (db, t', True)"
        "tinv t'" "tabs t' = (tabs t1)\<lparr>kv_map := kv_map (tabs t1) ++ map_of todo'\<rparr>"
      using less.hyps [OF hyps(1) less.prems(1) b(2) hyps(2) less.prems(4) hyps(3,4,5)] by blast
    have "kv_map (tabs t) ++ map_of batch ++ map_of todo' = kv_map (tabs t) ++ map_of todo"
      using map_of_take_drop [OF dist] by (simp add: batch_def todo'_def)
    then have "tabs t' = (tabs t)\<lparr>kv_map := kv_map (tabs t) ++ map_of todo\<rparr>"
      using r(3) b(3) by simp
    with r True lst b(1) less.prems(4) show ?thesis by (subst migrate_loop.simps) auto
  next
    case False
    then have "batch = todo" "length todo \<le> 64" by (auto simp: batch_def)
    with b lst False less.prems(4) show ?thesis by (subst migrate_loop.simps) auto
  qed
qed

lemma migrate_all_keys_ult_law:
  assumes "margo_reliable M" "find_db p i = Some db" "linv db" "tinv t" "\<not> kv_no_overwrite (tabs t)"
  shows "\<exists>db' t'. sdskv_migrate_all_keys_ult M V T (Some p) t
        \<lparr>ma_source_db_id = i, ma_target_db_id = target_db, ma_flag = flag\<rparr>
      = Some (Some (set_db p i db'), t', rc SDSKV_SUCCESS)
    \<and> linv db' \<and> (flag \<noteq> SDSKV_REMOVE_ORIGINAL \<longrightarrow> db' = db)
    \<and> (flag = SDSKV_REMOVE_ORIGINAL \<longrightarrow> entries db' = [])
    \<and> tinv t' \<and> tabs t' = (tabs t)\<lparr>kv_map := kv_map (tabs t) ++ map_of (entries db)\<rparr>"
proof -
  obtain db' t' where run: "migrate_loop V T target_db flag [] 0 [] db t = Some (db', t', True)" "linv db'"
      "flag \<noteq> SDSKV_REMOVE_ORIGINAL \<longrightarrow> db' = db" "flag = SDSKV_REMOVE_ORIGINAL \<longrightarrow> entries db' = []"
      "tinv t'" "tabs t' = (tabs t)\<lparr>kv_map := kv_map (tabs t) ++ map_of (entries db)\<rparr>"
    using migrate_loop_remove [OF assms(3-5), of 0] assms(3)
      migrate_loop_keep [OF assms(3-5), of flag "[]" "entries db" "[]" 0]
    by (cases "flag = SDSKV_REMOVE_ORIGINAL") auto
  moreover from run(1) have "sdskv_migrate_all_keys_ult M V T (Some p) t
        \<lparr>ma_source_db_id = i, ma_target_db_id = target_db, ma_flag = flag\<rparr>
      = Some (Some (set_db p i db'), t', rc SDSKV_SUCCESS)"
    using assms(1,2) by (simp add: sdskv_migrate_all_keys_ult_def handler_simps target_calls Let_def)
  ultimately show ?thesis by blast
qed

end

section \<open>Migrating given keys\<close>

locale key_migration = datastore V inv abs + put_target T target_db tinv tabs
  for V :: "'ds vtable" and inv abs and T :: "'t target" and target_db tinv tabs
begin

lemma migrate_keys_loop_law:
  "inv db \<Longrightarrow> tinv t \<Longrightarrow> \<not> kv_no_overwrite (tabs t) \<Longrightarrow> unpack packed_keys sizes = Some keys \<Longrightarrow>
   \<exists>db' t'. migrate_keys_loop V T target_db flag n packed_keys sizes db t = Some (db', t', True)
     \<and> inv db' \<and> tinv t'
     \<and> abs db' = (if flag = SDSKV_REMOVE_ORIGINAL
         then (abs db)\<lparr>kv_map := kv_map (abs db) |` (- set keys)\<rparr> else abs db)
     \<and> tabs t' = (tabs t)\<lparr>kv_map := kv_map (tabs t) ++ (kv_map (abs db) |` set keys)\<rparr>"
proof (induction sizes arbitrary: packed_keys keys n db t)
  case (Cons sz sizes)
  obtain k keys' where k: "keys = k # keys'" "buf_slice packed_keys 0 sz = Some k"
      "unpack (drop sz packed_keys) sizes = Some keys'"
    using Cons.prems(4) by (rule unpack_Cons)
  show ?case
  proof (cases "kv_map (abs db) k")
    case None
    then have "\<not> fst (vt_get V db k [])" using get_law [OF Cons.prems(1)] by blast
    then have run: "migrate_keys_loop V T target_db flag n packed_keys (sz # sizes) db t
        = migrate_keys_loop V T target_db flag n (drop sz packed_keys) sizes db t"
      using k(2) by (simp add: case_prod_beta)
    have eq: "kv_map (abs db) |` set keys = kv_map (abs db) |` set keys'"
      "kv_map (abs db) |` (- set keys) = kv_map (abs db) |` (- set keys')"
      using None by (auto simp: k(1) restrict_map_def fun_eq_iff)
    show ?thesis unfolding run eq by (rule Cons.IH [OF Cons.prems(1-3) k(3)])
  next
    case (Some v)
    then have got: "vt_get V db k [] = (True, v)" using get_eq [OF Cons.prems(1)] by blast
    obtain t1 where t1: "put_on_target T n t target_db k v = Some (t1, True)" "tinv t1"
        "tabs t1 = (tabs t)\<lparr>kv_map := (kv_map (tabs t))(k \<mapsto> v)\<rparr>"
      using put_on_target_law [OF Cons.prems(2,3)] by blast
    define db1 where "db1 = (if flag = SDSKV_REMOVE_ORIGINAL then fst (vt_erase V db k) else db)"
    have db1: "inv db1" "abs db1 = (if flag = SDSKV_REMOVE_ORIGINAL then kv_erase (abs db) k else abs db)"
      using Cons.prems(1) erase_inv erase_law by (simp_all add: db1_def)
    have run: "migrate_keys_loop V T target_db flag n packed_keys (sz # sizes) db t
        = migrate_keys_loop V T target_db flag (Suc n) (drop sz packed_keys) sizes db1 t1"
      using k(2) got t1(1) by (simp add: db1_def)
    have m: "(kv_map (tabs t))(k \<mapsto> v) ++ (kv_map (abs db1) |` set keys')
        = kv_map (tabs t) ++ (kv_map (abs db) |` set keys)"
      using Some db1(2)
      by (auto simp: k(1) kv_erase_def restrict_map_def map_add_def fun_eq_iff split: option.splits)
    have r: "kv_map (kv_erase (abs db) k) |` (- set keys') = kv_map (abs db) |` (- set keys)"
      by (auto simp: k(1) kv_erase_def restrict_map_def fun_eq_iff)
    have "\<not> kv_no_overwrite (tabs t1)" using t1(3) Cons.prems(3) by simp
    then obtain db' t' where IH:
        "migrate_keys_loop V T target_db flag (Suc n) (drop sz packed_keys) sizes db1 t1 = Some (db', t', True)"
        "inv db'" "tinv t'"
        "abs db' = (if flag = SDSKV_REMOVE_ORIGINAL
          then (abs db1)\<lparr>kv_map := kv_map (abs db1) |` (- set keys')\<rparr> else abs db1)"
        "tabs t' = (tabs t1)\<lparr>kv_map := kv_map (tabs t1) ++ (kv_map (abs db1) |` set keys')\<rparr>"
      using Cons.IH [OF db1(1) t1(2) _ k(3), of "Suc n"] by blast
    have "tabs t' = (tabs t)\<lparr>kv_map := (kv_map (tabs t))(k \<mapsto> v) ++ (kv_map (abs db1) |` set keys')\<rparr>"
      using IH(5) t1(3) by simp
    then have tab: "tabs t' = (tabs t)\<lparr>kv_map := kv_map (tabs t) ++ (kv_map (abs db) |` set keys)\<rparr>"
      unfolding m .
    have "abs db' = (if flag = SDSKV_REMOVE_ORIGINAL
         then (abs db)\<lparr>kv_map := kv_map (kv_erase (abs db) k) |` (- set keys')\<rparr> else abs db)"
      using IH(4) db1(2) by (simp add: kv_erase_def)
    then show ?thesis unfolding run r using IH(1-3) tab by blast
  qed
qed (auto simp: restrict_map_def)

lemma migrate_keys_ult_law:
  assumes "serves inv abs st i a" "margo_reliable M" "tinv t" "\<not> kv_no_overwrite (tabs t)"
    and "length keys < 2 ^ 31" "fits64 keys"
  shows "\<exists>st' t'. sdskv_migrate_keys_ult M V T st t
        \<lparr>mk_source_db_id = i, mk_target_db_id = target_db, mk_num_keys = length keys,
         mk_bulk_size = exposed_size keys, mk_keys_bulk = expose_sized keys, mk_flag = flag\<rparr>
      = Some (st', t', rc SDSKV_SUCCESS)
    \<and> serves inv abs st' i (if flag = SDSKV_REMOVE_ORIGINAL then a\<lparr>kv_map := kv_map a |` (- set keys)\<rparr> else a)
    \<and> only_db_changed i st st'
    \<and> tinv t' \<and> tabs t' = (tabs t)\<lparr>kv_map := kv_map (tabs t) ++ (kv_map a |` set keys)\<rparr>"
proof -
  obtain p db where st: "st = Some p" "provider_inv p" "find_db p i = Some db" "inv db" "abs db = a"
    using assms(1) by (rule servesE)
  obtain db' t' where loop: "migrate_keys_loop V T target_db flag 0 (concat keys) (map length keys) db t = Some (db', t', True)"
      "inv db'" "tinv t'"
      "abs db' = (if flag = SDSKV_REMOVE_ORIGINAL then a\<lparr>kv_map := kv_map a |` (- set keys)\<rparr> else a)"
      "tabs t' = (tabs t)\<lparr>kv_map := kv_map (tabs t) ++ (kv_map a |` set keys)\<rparr>"
    using migrate_keys_loop_law [OF st(4) assms(3,4) unpack_concat_all, of flag 0 keys] st(5) by auto
  have "sdskv_migrate_keys_ult M V T st t
        \<lparr>mk_source_db_id = i, mk_target_db_id = target_db, mk_num_keys = length keys,
         mk_bulk_size = exposed_size keys, mk_keys_bulk = expose_sized keys, mk_flag = flag\<rparr>
      = Some (Some (set_db p i db'), t', rc SDSKV_SUCCESS)"
    using assms(2,5,6) st(1,3) loop(1)
    by (simp add: sdskv_migrate_keys_ult_def handler_simps buffer_simps fits64_size unsigned_loop_small
        target_calls Let_def)
  then show ?thesis
    using serves_set_db [OF st(2,3), of inv db' abs] st(1) loop(2-5) by auto
qed

end

section \<open>The map backend enumerates its entries\<close>

definition listed_inv :: "store \<Rightarrow> bool" where
  "listed_inv s = (case s of Map_store m \<Rightarrow> md_less m = None \<and> map_inv m | Null_store _ \<Rightarrow> False)"

definition store_entries :: "store \<Rightarrow> (bulk \<times> bulk) list" where
  "store_entries s = (case s of Map_store m \<Rightarrow> md_map m | Null_store _ \<Rightarrow> [])"

lemma sorted_after:
  assumes "om_sorted ds_bulk_less (xs @ (k, v) # ys)"
  shows "filter (\<lambda>p. ds_bulk_less k (fst p)) (xs @ (k, v) # ys) = ys" and "xs \<noteq> [] \<Longrightarrow> k \<noteq> []"
proof -
  have lt: "\<forall>x\<in>set xs. ds_bulk_less (fst x) k" "\<forall>y\<in>set ys. ds_bulk_less k (fst y)"
    using assms by (auto simp: om_sorted_def sorted_wrt_append)
  then have "\<forall>x\<in>set xs. \<not> ds_bulk_less k (fst x)" using ds_bulk_order.lt_asym by blast
  with lt show "filter (\<lambda>p. ds_bulk_less k (fst p)) (xs @ (k, v) # ys) = ys"
    by (auto simp: filter_id_conv filter_empty_conv ds_bulk_order.lt_irrefl)
  show "k \<noteq> []" if "xs \<noteq> []"
    using lt(1) that by (cases xs) (auto simp: ds_bulk_less_def)
qed

lemma store_list_no_prefix:
  assumes "listed_inv s"
  shows "vt_vlist_keyvals store_vtable s start_key n []
      = Some (take n (filter (\<lambda>p. start_key = [] \<or> ds_bulk_less start_key (fst p)) (store_entries s)))"
    and "vt_vlist_keys store_vtable s start_key n []
      = Some (map fst (take n (filter (\<lambda>p. start_key = [] \<or> ds_bulk_less start_key (fst p)) (store_entries s))))"
proof -
  obtain m where m: "s = Map_store m" "md_less m = None" "map_inv m"
    using assms by (auto simp: listed_inv_def split: store.splits)
  then show "vt_vlist_keyvals store_vtable s start_key n []
      = Some (take n (filter (\<lambda>p. start_key = [] \<or> ds_bulk_less start_key (fst p)) (store_entries s)))"
    "vt_vlist_keys store_vtable s start_key n []
      = Some (map fst (take n (filter (\<lambda>p. start_key = [] \<or> ds_bulk_less start_key (fst p)) (store_entries s))))"
    using map_start [OF m(3), of start_key]
    by (simp_all add: store_vtable_def map_vtable_def map_vlist_keyvals_def map_vlist_keys_def map_vlist_loop_scan
        map_scan_no_prefix keycmp_default store_entries_def del: length_greater_0_conv)
qed

interpretation store_listed: listed_datastore store_vtable listed_inv store_entries
proof
  fix s xs k v ys n
  assume s: "listed_inv s"
  then have srt: "om_sorted ds_bulk_less (store_entries s)"
    by (auto simp: listed_inv_def store_entries_def map_inv_default split: store.splits)
  show "distinct (map fst (store_entries s))" using srt by (rule ds_bulk_order.om_sorted_distinct)
  show "vt_vlist_keyvals store_vtable s [] n [] = Some (take n (store_entries s))"
    using store_list_no_prefix(1) [OF s, of "[]"] by simp
  obtain m where m: "s = Map_store m" "md_less m = None" "map_inv m"
    using s by (auto simp: listed_inv_def split: store.splits)
  have er: "fst (vt_erase store_vtable s k) = Map_store (fst (map_erase m k))" for k
    by (simp add: m(1) store_vtable_def map_vtable_def)
  show "listed_inv (fst (vt_erase store_vtable s k))"
    using m map_erase_refines [OF m(3), of k] unfolding er by (simp add: listed_inv_def map_erase_def)
  show "store_entries (fst (vt_erase store_vtable s k)) = filter (\<lambda>e. fst e \<noteq> k) (store_entries s)"
    using m srt unfolding er
    by (simp add: store_entries_def map_erase_def ds_bulk_order.om_erase_filter keycmp_default)
  assume e: "store_entries s = xs @ (k, v) # ys"
  show "k \<noteq> []" if "xs \<noteq> []" using sorted_after(2) [OF srt [unfolded e] that] .
  have "filter (\<lambda>p. ds_bulk_less k (fst p)) (store_entries s) = ys"
    using sorted_after(1) [OF srt [unfolded e]] by (simp only: e)
  then show "vt_vlist_keyvals store_vtable s k n [] = Some (take n ys)" if "k \<noteq> []"
    using store_list_no_prefix(1) [OF s, of k n] that by simp
qed

section \<open>Another provider as target\<close>

definition provider_target :: "margo \<Rightarrow> store provider option target" where
  "provider_target M =
     \<lparr>rp_create = 0, rp_forward = (\<lambda>_. 0), rp_executed = (\<lambda>_. True), rp_output = (\<lambda>_. 0),
      rp_put = sdskv_put_ult M store_vtable\<rparr>"

definition served :: "db_id \<Rightarrow> store provider option \<Rightarrow> bool" where
  "served j t \<longleftrightarrow> (\<exists>a. serves store_inv store_abs t j a)"

definition served_kv :: "db_id \<Rightarrow> store provider option \<Rightarrow> kv" where
  "served_kv j t = store_abs (the (find_db (the t) j))"

lemma serves_served: "serves store_inv store_abs t j a \<longleftrightarrow> served j t \<and> served_kv j t = a"
  by (auto simp: served_def served_kv_def serves_def)

lemma put_target_provider:
  assumes "margo_reliable M"
  shows "put_target (provider_target M) j (served j) (served_kv j)"
proof
  fix t k v
  assume "served j t"
  then obtain p db where st: "t = Some p" "provider_inv p" "find_db p j = Some db" "store_inv db"
    by (auto simp: served_def elim: servesE)
  obtain db' where db': "vt_put store_vtable db k v = Some (db', snd (kv_put (store_abs db) k v))" "store_inv db'"
      "store_abs db' = fst (kv_put (store_abs db) k v)"
    using store_ds.put_law [OF st(4)] by blast
  have "served_kv j t = store_abs db" using st(1,3) by (simp add: served_kv_def)
  moreover have "rp_put (provider_target M) t \<lparr>put_in_db_id = j, put_in_key = k, put_in_value = v\<rparr>
      = Some (Some (set_db p j db'), snd (kv_put (store_abs db) k v))"
    using assms st(1,3) db'(1) by (simp add: provider_target_def sdskv_put_ult_def handler_simps Let_def)
  moreover have "serves store_inv store_abs (Some (set_db p j db')) j (store_abs db')"
    using serves_set_db [OF st(2,3), of store_inv db' store_abs] db'(2) by simp
  ultimately show "\<exists>t'. rp_put (provider_target M) t \<lparr>put_in_db_id = j, put_in_key = k, put_in_value = v\<rparr>
        = Some (t', snd (kv_put (served_kv j t) k v))
      \<and> served j t' \<and> served_kv j t' = fst (kv_put (served_kv j t) k v)"
    using db'(3) by (auto simp: serves_served)
qed (simp_all add: provider_target_def)

interpretation prov_target: put_target "provider_target ideal_margo" j "served j" "served_kv j" for j
  by (rule put_target_provider [OF margo_reliable_ideal])

interpretation store_migration: migration store_vtable listed_inv store_entries
  "provider_target ideal_margo" j "served j" "served_kv j" for j
  by unfold_locales

interpretation store_key_migration: key_migration store_vtable store_inv store_abs
  "provider_target ideal_margo" j "served j" "served_kv j" for j
  by unfold_locales

section \<open>End to end\<close>

lemma listed_entries: "listed_inv s \<Longrightarrow> kv_map (store_abs s) = map_of (store_entries s)"
  by (auto simp: listed_inv_def store_entries_def store_abs_def map_abs_def map_inv_def
      key_total_order.om_lookup_map_of split: store.splits)

lemma listed_store: "listed_inv s \<Longrightarrow> store_inv s"
  by (auto simp: listed_inv_def store_inv_def split: store.splits)

lemma store_migration_reliable:
  "margo_reliable M \<Longrightarrow>
   migration store_vtable listed_inv store_entries (provider_target M) j (served j) (served_kv j)"
  by (intro migration.intro store_listed.listed_datastore_axioms put_target_provider)

lemma store_key_migration_reliable:
  "margo_reliable M \<Longrightarrow>
   key_migration store_vtable store_inv store_abs (provider_target M) j (served j) (served_kv j)"
  by (intro key_migration.intro store_ds.datastore_axioms put_target_provider)

lemma client_migrate_all_keys:
  assumes src: "serves listed_inv store_abs st i a" and tgt: "serves store_inv store_abs t j b"
    and M: "margo_reliable M" "margo_reliable M'" "client_reliable C" and over: "\<not> kv_no_overwrite b"
  shows "\<exists>st' t'. sdskv_migrate_all_keys C (sdskv_migrate_service M store_vtable (provider_target M') ret0)
        (st, t) i j flag = Some ((st', t'), rc SDSKV_SUCCESS)
    \<and> (\<exists>a'. serves listed_inv store_abs st' i a'
        \<and> kv_map a' = (if flag = SDSKV_REMOVE_ORIGINAL then Map.empty else kv_map a))
    \<and> only_db_changed i st st'
    \<and> serves store_inv store_abs t' j (b\<lparr>kv_map := kv_map b ++ kv_map a\<rparr>)"
proof -
  obtain p db where st: "st = Some p" "provider_inv p" "find_db p i = Some db" "listed_inv db" "store_abs db = a"
    using src by (rule servesE)
  have t: "served j t" "served_kv j t = b" using tgt by (simp_all add: serves_served)
  obtain db' t' where run: "sdskv_migrate_all_keys_ult M store_vtable (provider_target M') (Some p) t
        \<lparr>ma_source_db_id = i, ma_target_db_id = j, ma_flag = flag\<rparr>
      = Some (Some (set_db p i db'), t', rc SDSKV_SUCCESS)" "listed_inv db'"
      "flag \<noteq> SDSKV_REMOVE_ORIGINAL \<longrightarrow> db' = db" "flag = SDSKV_REMOVE_ORIGINAL \<longrightarrow> store_entries db' = []"
      "served j t'" "served_kv j t' = b\<lparr>kv_map := kv_map b ++ map_of (store_entries db)\<rparr>"
    using migration.migrate_all_keys_ult_law [OF store_migration_reliable [OF M(2)] M(1) st(3,4) t(1), of flag]
      over t(2) by auto
  have "serves listed_inv store_abs (Some (set_db p i db')) i (store_abs db')"
    "only_db_changed i (Some p) (Some (set_db p i db'))"
    using serves_set_db [OF st(2,3), of listed_inv db' store_abs] run(2) by simp_all
  moreover have "kv_map (store_abs db') = (if flag = SDSKV_REMOVE_ORIGINAL then Map.empty else kv_map a)"
    using run(2-4) st(5) listed_entries [OF run(2)] by auto
  moreover have "serves store_inv store_abs t' j (b\<lparr>kv_map := kv_map b ++ kv_map a\<rparr>)"
    using run(5,6) listed_entries [OF st(4)] st(5) by (simp add: serves_served)
  moreover have "sdskv_migrate_all_keys C (sdskv_migrate_service M store_vtable (provider_target M') ret0) (st, t) i j flag
      = Some ((Some (set_db p i db'), t'), rc SDSKV_SUCCESS)"
    using M(3) run(1) st(1) by (simp add: sdskv_migrate_all_keys_def migrate_rpc_def handler_simps)
  ultimately show ?thesis using st(1) by blast
qed

end
