(* ===== verification/Service_Errors.thy ===== *)
theory Service_Errors
  imports Service_Cpp Service_Multi Service_Attach
begin

text \<open>
  What is left when something fails: a put under a runtime that may fail at every step, requests on a
  database that is not there, databases attached under the same name, and the reference counts of provider
  handles.
\<close>

section \<open>A put under failures\<close>

text \<open>The error codes of Mercury are small numbers.\<close>

definition hg_codes_small :: "margo \<Rightarrow> client_rt \<Rightarrow> bool" where
  "hg_codes_small M C \<longleftrightarrow>
     unat (mg_get_input M) < 128 \<and> (\<forall>i n. unat (mg_bulk_create M i n) < 128)
     \<and> (\<forall>i l mem off n e. mg_pull M i l mem off n = Inl e \<longrightarrow> unat e < 128)
     \<and> (\<forall>i. unat (cl_bulk_create C i) < 128) \<and> unat (cl_create C) < 128 \<and> unat (cl_forward C) < 128
     \<and> unat (cl_output C) < 128"

lemma hg_error_not_success: "h \<noteq> 0 \<Longrightarrow> unat h < 128 \<Longrightarrow> SDSKV_MAKE_HG_ERROR h \<noteq> 0"
  using make_hg_error_eq_rc [of h SDSKV_SUCCESS] by simp

text \<open>
  Outcomes of a request: it is refused and nothing changes, or it is executed. An answer that gets lost is an
  error although the request was executed.
\<close>

definition put_outcome :: "'st \<Rightarrow> 'st \<Rightarrow> int32 \<Rightarrow> 'st \<times> int32 \<Rightarrow> bool" where
  "put_outcome st st1 r1 res \<longleftrightarrow> res = (st1, r1) \<or> fst res \<in> {st, st1} \<and> snd res \<noteq> 0"

lemma rpc_put_outcome:
  assumes "call = Some res" "put_outcome st st1 r1 res" "hg_codes_small M C"
  shows "\<exists>res'. rpc C st call (\<lambda>st' _ e. Some (st', e)) (\<lambda>st' ret. Some (st', ret)) = Some res'
    \<and> put_outcome st st1 r1 res'"
  using assms hg_error_not_success [of "cl_create C"] hg_error_not_success [of "cl_forward C"]
    hg_error_not_success [of "cl_output C"]
  by (cases res) (auto simp: rpc_def put_outcome_def hg_codes_small_def)

context datastore
begin

lemma put_ult_outcome:
  assumes "find_db p i = Some db" "vt_put V db k v = Some (db', r)" "hg_codes_small M C"
  shows "\<exists>res. sdskv_put_ult M V (Some p) \<lparr>put_in_db_id = i, put_in_key = k, put_in_value = v\<rparr> = Some res
    \<and> put_outcome (Some p) (Some (set_db p i db')) r res"
  using assms hg_error_not_success [of "mg_get_input M"]
  by (auto simp: sdskv_put_ult_def GET_INPUT_def CHECK_HG_def handler_simps put_outcome_def hg_codes_small_def
      FIND_DATABASE_lookup Let_def)

lemma bulk_put_ult_outcome:
  assumes "find_db p i = Some db" "vt_put V db k v = Some (db', r)" "hg_codes_small M C" "margo_faithful M"
  shows "\<exists>res. sdskv_bulk_put_ult M V (Some p)
        \<lparr>bulk_put_in_db_id = i, bulk_put_in_key = k, bulk_put_in_vsize = length v, bulk_put_in_handle = v\<rparr> = Some res
    \<and> put_outcome (Some p) (Some (set_db p i db')) r res"
proof -
  have pull_err: "SDSKV_MAKE_HG_ERROR e \<noteq> 0" if "mg_pull M j l v 0 (length v) = Inl e" for j l e
    using assms(3,4) that hg_error_not_success [of e] by (fastforce simp: margo_faithful_def hg_codes_small_def)
  have pull: "d = v" if "mg_pull M j l v 0 (length v) = Inr d" for j l d
  proof -
    have "buf_slice v 0 (length v) = Some d" using assms(4) that by (simp add: margo_faithful_def)
    then show ?thesis by (simp add: buf_slice_def)
  qed
  have eqs: "mg_pull M 1 (length v) v 0 (length v) = Inr v
      \<or> (\<exists>e. mg_pull M 1 (length v) v 0 (length v) = Inl e \<and> SDSKV_MAKE_HG_ERROR e \<noteq> 0)"
    using pull pull_err by (cases "mg_pull M 1 (length v) v 0 (length v)") auto
  have create: "mg_bulk_create M 0 (length v) = 0 \<or> SDSKV_MAKE_HG_ERROR (mg_bulk_create M 0 (length v)) \<noteq> 0"
    "mg_get_input M = 0 \<or> SDSKV_MAKE_HG_ERROR (mg_get_input M) \<noteq> 0"
    using assms(3) hg_error_not_success by (auto simp: hg_codes_small_def)
  show ?thesis
    using assms(1,2) eqs create
    by (cases "v = []") (auto simp: sdskv_bulk_put_ult_def GET_INPUT_def CHECK_HG_def BULK_TRANSFER_simps
        FIND_PROVIDER_simps put_outcome_def FIND_DATABASE_lookup Let_def)
qed

lemma client_put_outcome:
  assumes "serves inv abs st i a" "margo_faithful M" "hg_codes_small M C"
  shows "\<exists>st' r. sdskv_put C (sdskv_service M V U) st i k v = Some (st', r)
    \<and> (serves inv abs st' i (fst (kv_put a k v)) \<and> r = snd (kv_put a k v)
       \<or> (serves inv abs st' i a \<or> serves inv abs st' i (fst (kv_put a k v))) \<and> r \<noteq> rc SDSKV_SUCCESS)"
proof -
  obtain p db where st: "st = Some p" "provider_inv p" "find_db p i = Some db" "inv db" "abs db = a"
    using assms(1) by (rule servesE)
  obtain db' where db': "vt_put V db k v = Some (db', snd (kv_put a k v))" "inv db'" "abs db' = fst (kv_put a k v)"
    using put_law [OF st(4), of k v] st(5) by auto
  define st1 where "st1 = Some (set_db p i db')"
  have st1: "serves inv abs st1 i (fst (kv_put a k v))"
    using serves_set_db [OF st(2,3), of inv db' abs] db'(2,3) by (simp add: st1_def)
  obtain res where res: "sdskv_put C (sdskv_service M V U) st i k v = Some res"
      "put_outcome st st1 (snd (kv_put a k v)) res"
  proof (cases "wrap64 (length k + length v + 2 * 8) \<le> MAX_RPC_MESSAGE_SIZE")
    case True
    obtain res0 where "sdskv_put_ult M V st \<lparr>put_in_db_id = i, put_in_key = k, put_in_value = v\<rparr> = Some res0"
        "put_outcome st st1 (snd (kv_put a k v)) res0"
      using put_ult_outcome [OF st(3) db'(1) assms(3)] st(1) by (auto simp: st1_def)
    from rpc_put_outcome [OF this assms(3)] show ?thesis
      using True that by (auto simp: sdskv_put_def sdskv_service_sel Let_def)
  next
    case big: False
    obtain res0 where res0: "sdskv_bulk_put_ult M V st
        \<lparr>bulk_put_in_db_id = i, bulk_put_in_key = k, bulk_put_in_vsize = length v, bulk_put_in_handle = v\<rparr> = Some res0"
        "put_outcome st st1 (snd (kv_put a k v)) res0"
      using bulk_put_ult_outcome [OF st(3) db'(1) assms(3,2)] st(1) by (auto simp: st1_def)
    show ?thesis
    proof (cases "cl_bulk_create C 0 = 0")
      case True
      from rpc_put_outcome [OF res0 assms(3)] show ?thesis
        using big True that by (auto simp: sdskv_put_def sdskv_service_sel Let_def)
    next
      case False
      then have "SDSKV_MAKE_HG_ERROR (cl_bulk_create C 0) \<noteq> 0"
        using assms(3) hg_error_not_success by (simp add: hg_codes_small_def)
      then show ?thesis
        using False big by (intro that [of "(st, SDSKV_MAKE_HG_ERROR (cl_bulk_create C 0))"])
          (simp_all add: sdskv_put_def put_outcome_def Let_def)
    qed
  qed
  then show ?thesis
    using st1 assms(1) by (cases res) (auto simp: put_outcome_def)
qed

end

section \<open>Unknown databases\<close>

lemma client_unknown_db:
  assumes "st = Some p" "find_db p i = None" "margo_reliable M" "client_reliable C"
  shows "sdskv_put C (sdskv_service M V U) st i k v = Some (st, rc SDSKV_ERR_UNKNOWN_DB)"
    and "sdskv_erase C (sdskv_service M V U) st i k = Some (st, rc SDSKV_ERR_UNKNOWN_DB)"
    and "sdskv_length C (sdskv_service M V U) st i k n = Some (st, rc SDSKV_ERR_UNKNOWN_DB, n)"
    and "\<exists>f'. sdskv_exists C (sdskv_service M V U) st i k f = Some (st, rc SDSKV_ERR_UNKNOWN_DB, f')"
    and "m \<le> length buf \<Longrightarrow> \<exists>m'. sdskv_get C (sdskv_service M V U) st i k (Some buf) m
      = Some (st, rc SDSKV_ERR_UNKNOWN_DB, Some buf, m')"
  using assms
  by (auto simp: sdskv_put_def sdskv_put_ult_def sdskv_bulk_put_ult_def sdskv_erase_def sdskv_erase_ult_def
      sdskv_length_def sdskv_length_ult_def sdskv_exists_def sdskv_exists_ult_def sdskv_get_def sdskv_get_ult_def
      sdskv_bulk_get_ult_def handler_simps FIND_DATABASE_lookup buf_slice_def Let_def)

section \<open>Two databases of one name\<close>

text \<open>
  Attaching a second database under a name redirects the name to it; removing the first one then erases the
  name, so that the second one is open but can no longer be found by its name.
\<close>

lemma duplicate_name_lost:
  assumes inv: "provider_inv p" and fresh: "i \<noteq> j"
    and cfg: "cfg_db_name c2 = cfg_db_name c1" "attach_comp_fn p c1 = Inr f1" "attach_comp_fn p c2 = Inr f2"
    and opens: "open_ds (cfg_db_type c1) (cfg_db_name c1) (cfg_db_path c1) = Some db1"
      "open_ds (cfg_db_type c2) (cfg_db_name c1) (cfg_db_path c2) = Some db2"
    and p1: "p1 = fst (sdskv_provider_attach_database V open_ds p c1 i)"
    and p2: "p2 = fst (sdskv_provider_attach_database V open_ds p1 c2 j)"
    and p3: "p3 = fst (sdskv_provider_remove_database p2 i)"
  shows "find_name p2 (cfg_db_name c1) = Some j" "find_db p3 j \<noteq> None" "find_name p3 (cfg_db_name c1) = None"
proof -
  note srt = provider_inv_sorted [OF inv]
  have p1': "p1 = p\<lparr>name2id := om_update string_less (cfg_db_name c1) i (name2id p),
        id2name := om_update (<) i (cfg_db_name c1) (id2name p),
        databases := om_update (<) i (attach_setup V c1 f1 db1) (databases p)\<rparr>"
    using cfg(2) opens(1) by (simp add: p1 sdskv_provider_attach_database_def)
  have cmp: "compfunctions p1 = compfunctions p" by (simp add: p1')
  have "attach_comp_fn p1 c2 = Inr f2" using cfg(3) unfolding attach_comp_fn_def cmp .
  then have p2': "p2 = p1\<lparr>name2id := om_update string_less (cfg_db_name c1) j (name2id p1),
        id2name := om_update (<) j (cfg_db_name c1) (id2name p1),
        databases := om_update (<) j (attach_setup V c2 f2 db2) (databases p1)\<rparr>"
    using cfg(1) opens(2) by (simp add: p2 sdskv_provider_attach_database_def)
  have srt1: "om_sorted (<) (databases p1)" "om_sorted string_less (name2id p1)" "om_sorted (<) (id2name p1)"
    using srt by (simp_all add: p1' om_sorted_simps)
  have srt2: "om_sorted (<) (databases p2)" "om_sorted string_less (name2id p2)"
    using srt1 by (simp_all add: p2' om_sorted_simps)
  have ids: "find_id p2 i = Some (cfg_db_name c1)" "find_db p2 i \<noteq> None" "find_db p2 j \<noteq> None"
    using srt1 srt fresh by (simp_all add: p2' p1' om_lookup_simps)
  show "find_name p2 (cfg_db_name c1) = Some j" using srt1 by (simp add: p2' om_lookup_simps)
  have p3': "p3 = p2\<lparr>id2name := om_erase (<) i (id2name p2), name2id := om_erase string_less (cfg_db_name c1) (name2id p2),
        databases := om_erase (<) i (databases p2)\<rparr>"
    using ids(1,2) by (auto simp: p3 sdskv_provider_remove_database_def id_order.om_count_lookup)
  show "find_db p3 j \<noteq> None" "find_name p3 (cfg_db_name c1) = None"
    using srt2 ids(3) fresh by (simp_all add: p3' om_lookup_simps)
qed

section \<open>Reference counts of provider handles\<close>

primrec times_call :: "nat \<Rightarrow> (client \<Rightarrow> (client \<times> int32) option) \<Rightarrow> client \<Rightarrow> client option" where
  "times_call 0 f c = Some c"
| "times_call (Suc n) f c = do { (c', r) \<leftarrow> f c; times_call n f c' }"

lemma ref_incr_times:
  "ph_heap c l = Some h \<Longrightarrow>
   \<exists>c'. times_call n (\<lambda>c. sdskv_provider_handle_ref_incr c (Some l)) c = Some c'
     \<and> ph_heap c' = (ph_heap c)(l \<mapsto> h\<lparr>ph_refcount := ph_refcount h + of_nat n\<rparr>)
     \<and> num_provider_handles c' = num_provider_handles c"
proof (induction n arbitrary: c h)
  case 0
  then show ?case by (simp add: fun_upd_idem)
next
  case (Suc n)
  define c1 where "c1 = c\<lparr>ph_heap := (ph_heap c)(l \<mapsto> h\<lparr>ph_refcount := ph_refcount h + 1\<rparr>)\<rparr>"
  have "sdskv_provider_handle_ref_incr c (Some l) = Some (c1, rc SDSKV_SUCCESS)"
    using Suc.prems by (simp add: sdskv_provider_handle_ref_incr_def c1_def)
  moreover have "ph_heap c1 l = Some (h\<lparr>ph_refcount := ph_refcount h + 1\<rparr>)" by (simp add: c1_def)
  ultimately show ?case
    using Suc.IH [of c1] by (fastforce simp: c1_def algebra_simps)
qed

lemma release_times:
  "ph_heap c l = Some h \<Longrightarrow> n < unat (ph_refcount h) \<Longrightarrow>
   \<exists>c'. times_call n (\<lambda>c. sdskv_provider_handle_release c (Some l)) c = Some c'
     \<and> ph_heap c' = (ph_heap c)(l \<mapsto> h\<lparr>ph_refcount := ph_refcount h - of_nat n\<rparr>)
     \<and> num_provider_handles c' = num_provider_handles c"
proof (induction n arbitrary: c h)
  case 0
  then show ?case by (simp add: fun_upd_idem)
next
  case (Suc n)
  define r where "r = ph_refcount h - 1"
  have ne: "ph_refcount h \<noteq> 0" using Suc.prems(2) by auto
  then have ur: "unat r = unat (ph_refcount h) - 1" unfolding r_def by (rule unat_minus_one)
  then have r: "r \<noteq> 0" "n < unat r" using Suc.prems(2) by (auto simp flip: unat_eq_zero)
  define c1 where "c1 = c\<lparr>ph_heap := (ph_heap c)(l \<mapsto> h\<lparr>ph_refcount := r\<rparr>)\<rparr>"
  have "sdskv_provider_handle_release c (Some l) = Some (c1, rc SDSKV_SUCCESS)"
    using Suc.prems(1) r(1) by (simp add: sdskv_provider_handle_release_def c1_def r_def Let_def)
  moreover have "ph_heap c1 l = Some (h\<lparr>ph_refcount := r\<rparr>)" by (simp add: c1_def)
  ultimately show ?case
    using Suc.IH [of c1 "h\<lparr>ph_refcount := r\<rparr>"] r(2) by (fastforce simp: c1_def r_def algebra_simps)
qed

text \<open>The last release frees the handle and takes it off the count of the client.\<close>

lemma release_last:
  assumes "ph_heap c l = Some h" "ph_refcount h = 1"
  shows "sdskv_provider_handle_release c (Some l)
    = Some (c\<lparr>num_provider_handles := num_provider_handles c - 1, ph_heap := (ph_heap c)(l := None)\<rparr>, rc SDSKV_SUCCESS)"
  using assms by (simp add: sdskv_provider_handle_release_def Let_def)

end
