(* ===== verification/Sample_Service.thy ===== *)
theory Sample_Service
  imports Service_Cpp Service_Multi Service_List Service_Migrate Service_Errors Provider_Steps
begin

text \<open>
  A concrete service to evaluate the theorems on: one provider with one database of the map backend, named
  \<open>db\<close> and with id 4096, in its default order.
\<close>

definition sample_uninit :: uninit_out where
  "sample_uninit =
     \<lparr>un_open = \<lparr>open_out_db_id = 0, open_out_ret = 0\<rparr>,
      un_count = \<lparr>count_db_out_count = 0, count_db_out_ret = 0\<rparr>,
      un_list = \<lparr>list_db_out_count = 0, list_db_out_names = [], list_db_out_ids = [], list_db_out_ret = 0\<rparr>,
      un_length = \<lparr>length_out_size = 0, length_out_ret = 0\<rparr>,
      un_exists = \<lparr>exists_out_flag = 0, exists_out_ret = 0\<rparr>\<rparr>"

definition sample_store :: "(bulk \<times> bulk) list \<Rightarrow> bool \<Rightarrow> store" where
  "sample_store kvs no_overwrite =
     Map_store ((MapDataStore False False)\<lparr>ds_name := ''db'', ds_no_overwrite := no_overwrite, md_map := kvs\<rparr>)"

definition sample_provider :: "(bulk \<times> bulk) list \<Rightarrow> bool \<Rightarrow> store provider" where
  "sample_provider kvs no_overwrite =
     \<lparr>databases = [(4096, sample_store kvs no_overwrite)], name2id = [(''db'', 4096)], id2name = [(4096, ''db'')],
      compfunctions = []\<rparr>"

definition sample_config :: sdskv_config_t where
  "sample_config = \<lparr>cfg_db_name = ''db'', cfg_db_path = ''/tmp'', cfg_db_type = KVDB_MAP,
     cfg_db_comp_fn_name = None, cfg_db_no_overwrite = False\<rparr>"

abbreviation sample_service :: "store provider option service" where
  "sample_service \<equiv> sdskv_service ideal_margo store_vtable sample_uninit"

lemma sample_provider_inv: "provider_inv (sample_provider kvs b)"
  by (auto simp: provider_inv_def sample_provider_def om_sorted_def om_lookup_singleton
      string_order.same_iff_eq split: if_splits)

lemma sample_listed_inv: "om_sorted ds_bulk_less kvs \<Longrightarrow> listed_inv (sample_store kvs b)"
  by (simp add: listed_inv_def sample_store_def map_inv_default MapDataStore_def abstract_ds.defs)

lemma sample_abs:
  "om_sorted ds_bulk_less kvs \<Longrightarrow> store_abs (sample_store kvs b) = \<lparr>kv_map = map_of kvs, kv_no_overwrite = b\<rparr>"
  by (simp add: store_abs_def sample_store_def map_abs_def keycmp_default MapDataStore_def abstract_ds.defs
      ds_bulk_order.om_lookup_map_of)

lemma sample_find: "find_db (sample_provider kvs b) i = (if i = 4096 then Some (sample_store kvs b) else None)"
  by (auto simp: sample_provider_def om_lookup_singleton)

lemma sample_serves_listed:
  "om_sorted ds_bulk_less kvs \<Longrightarrow>
   serves listed_inv store_abs (Some (sample_provider kvs b)) 4096 \<lparr>kv_map = map_of kvs, kv_no_overwrite = b\<rparr>"
  by (simp add: serves_def sample_provider_inv sample_find sample_listed_inv sample_abs)

lemma sample_serves:
  "om_sorted ds_bulk_less kvs \<Longrightarrow>
   serves store_inv store_abs (Some (sample_provider kvs b)) 4096 \<lparr>kv_map = map_of kvs, kv_no_overwrite = b\<rparr>"
  by (simp add: serves_def sample_provider_inv sample_find sample_listed_inv sample_abs listed_store)

lemmas sample_reliable = margo_reliable_ideal client_reliable_ideal

lemma margo_faithful_ideal: "margo_faithful ideal_margo"
  using margo_reliable_ideal by (simp add: margo_reliable_def)

lemma sample_clients: "\<forall>n. client_reliable ((\<lambda>_. ideal_client) n)"
  by (simp add: client_reliable_ideal)

end
