(* ===== verification/Service_Leveldb.thy ===== *)
theory Service_Leveldb
  imports Leveldb_Datastore Sample_Service
begin

text \<open>
  The whole service over the LevelDB backend: what a client sees of a provider whose databases are
  \<open>LevelDBDataStore\<close> objects, for any library that behaves as documented.
\<close>

text \<open>
  C14. Refinement over LevelDB: any sequence of put, get, length, exists and erase calls of the C++ client on a
  database of the LevelDB backend, in the default order or under any comparison function that is a three-way
  comparison, returns the results of the abstract key-value store, with one exception: erasing a key that is
  not there reports success. Other databases and the names are untouched.
\<close>

theorem leveldb_client_trace:
  assumes "leveldb_ok L entries rest" "serves (ldb_inv L entries) (ldb_abs L entries) st i a"
    and "margo_reliable M" "\<forall>n. client_reliable (C n)"
  shows "\<exists>st'. client_run C (sdskv_service M (leveldb_vtable L) U) i st ops
        = Some (st', map2 (reported True) ops (snd (kv_run a ops)))
    \<and> serves (ldb_inv L entries) (ldb_abs L entries) st' i (fst (kv_run a ops)) \<and> only_db_changed i st st'"
proof -
  have ds: "datastore (leveldb_vtable L) (ldb_inv L entries) (ldb_abs L entries)"
    using leveldb_plain [OF assms(1)] by (rule plain_datastore.axioms)
  have "snd (vt_erase (leveldb_vtable L) s k)" if "ldb_inv L entries s" for s k
    using ldb_erase_refines [OF _ that, of k] assms(1) by (simp add: leveldb_ok_def leveldb_vtable_def)
  then show ?thesis
    using datastore.client_run_reports [OF ds assms(3,4) _ assms(2), of True] by simp
qed

definition sample_ldb_provider :: "(bulk \<times> bulk) list \<Rightarrow> (bulk \<times> bulk) list leveldb_datastore provider" where
  "sample_ldb_provider kvs =
     \<lparr>databases = [(4096, sample_ldb kvs False)], name2id = [(''db'', 4096)], id2name = [(4096, ''db'')],
      compfunctions = []\<rparr>"

lemma sample_ldb_serves:
  assumes "om_sorted bytes_less kvs"
  shows "serves (ldb_inv sample_leveldb (\<lambda>m. m)) (ldb_abs sample_leveldb (\<lambda>m. m)) (Some (sample_ldb_provider kvs)) 4096
    \<lparr>kv_map = map_of kvs, kv_no_overwrite = False\<rparr>"
proof -
  have "provider_inv (sample_ldb_provider kvs)"
    by (auto simp: provider_inv_def sample_ldb_provider_def om_sorted_def om_lookup_singleton
        string_order.same_iff_eq split: if_splits)
  moreover have "find_db (sample_ldb_provider kvs) 4096 = Some (sample_ldb kvs False)"
    by (simp add: sample_ldb_provider_def om_lookup_singleton)
  ultimately show ?thesis by (simp add: serves_def sample_ldb_inv [OF assms] sample_ldb_abs [OF assms])
qed

theorem leveldb_client_trace_witness:
  "\<exists>st'. client_run (\<lambda>_. ideal_client) (sdskv_service ideal_margo (leveldb_vtable sample_leveldb) sample_uninit) 4096
      (Some (sample_ldb_provider [([200], [1])]))
      [Op_get [200], Op_put [1] [10, 11], Op_get [1], Op_erase [200], Op_exists [200], Op_erase [200]]
    = Some (st', [Res_value (Some [1]), Res_code 0, Res_value (Some [10, 11]), Res_bool True, Res_bool False,
        Res_bool True])"
  using leveldb_client_trace [OF leveldb_ok_sample sample_ldb_serves [of "[([200], [1])]"] margo_reliable_ideal
      sample_clients, of sample_uninit
      "[Op_get [200], Op_put [1] [10, 11], Op_get [1], Op_erase [200], Op_exists [200], Op_erase [200]]"]
  by (auto simp: kv_put_def kv_erase_def om_sorted_def)

end
