(* ===== verification/Berkeleydb_Datastore.thy ===== *)
theory Berkeleydb_Datastore
  imports Datastore Fs_Util
begin

text \<open>
  The BerkeleyDB backend: class \<open>BerkeleyDBDataStore\<close> of datastore/berkeleydb_datastore.h and .cc. The library is
  a parameter, the record \<open>berkeleydb\<close> of the operations the class calls, and its documented behaviour the
  predicate \<open>berkeleydb_ok\<close>.

  The library orders the keys by the callback \<open>compkeys\<close>, which takes the address of the \<open>Db\<close> object for that of
  the member that points to it. What it finds there instead of \<open>_less\<close> is a parameter as well; the theorems
  are about the case that it is null, in which the keys are in the order of their bytes whatever
  \<open>set_comparison_function\<close> was given.
\<close>

section \<open>The library\<close>

text \<open>
  \<open>bdb_env_open\<close> is \<open>None\<close> when an exception is thrown, \<open>bdb_open\<close> when the status is not 0. A status is a number, 0
  for success. \<open>bdb_room\<close> says whether a buffer of a size, with items of the given sizes in it, has room for
  one more item. A step of a cursor yields the pair it is on now, or nothing when its status is not 0.
\<close>

record ('env, 'db, 'cu) berkeleydb =
  bdb_env_open :: "bool \<Rightarrow> string \<Rightarrow> 'env option"
  bdb_open :: "'env \<Rightarrow> comparator_fn \<Rightarrow> bool \<Rightarrow> string \<Rightarrow> 'db option"
  DB_KEYEXIST :: int
  DB_NOTFOUND :: int
  DB_KEYEMPTY :: int
  bdb_db_put :: "comparator_fn \<Rightarrow> 'db \<Rightarrow> bool \<Rightarrow> bulk \<Rightarrow> bulk \<Rightarrow> 'db \<times> int"
  bdb_db_put_multiple :: "comparator_fn \<Rightarrow> 'db \<Rightarrow> bool \<Rightarrow> bulk list \<Rightarrow> bulk list \<Rightarrow> 'db \<times> int"
  bdb_room :: "nat \<Rightarrow> nat list \<Rightarrow> nat \<Rightarrow> bool"
  bdb_db_exists :: "comparator_fn \<Rightarrow> 'db \<Rightarrow> bulk \<Rightarrow> int"
  bdb_db_del :: "comparator_fn \<Rightarrow> 'db \<Rightarrow> bulk \<Rightarrow> 'db \<times> int"
  bdb_db_get :: "comparator_fn \<Rightarrow> 'db \<Rightarrow> bulk \<Rightarrow> int \<times> bulk"
  bdb_db_sync :: "'db \<Rightarrow> 'db"
  bdb_cursor :: "'db \<Rightarrow> 'cu"
  bdb_set_range :: "comparator_fn \<Rightarrow> 'cu \<Rightarrow> bulk \<Rightarrow> 'cu \<times> (bulk \<times> bulk) option"
  bdb_first :: "comparator_fn \<Rightarrow> 'cu \<Rightarrow> 'cu \<times> (bulk \<times> bulk) option"
  bdb_next :: "comparator_fn \<Rightarrow> 'cu \<Rightarrow> 'cu \<times> (bulk \<times> bulk) option"

section \<open>The class\<close>

text \<open>
  \<open>compkeys\<close>; \<open>lessp\<close> is what it reads in place of \<open>_less\<close>. Both keys have at least as many bytes as are compared.
\<close>

definition compkeys :: "comparator_fn option \<Rightarrow> comparator_fn" where
  "compkeys lessp a b =
     (case lessp of
        Some less_fn \<Rightarrow> less_fn a b
      | None \<Rightarrow>
          let s = (if length a > length b then length b else length a);
              c = (case memcmp a b s of Some c \<Rightarrow> c | None \<Rightarrow> 0)
          in if c \<noteq> 0 then c else if length a < length b then -1 else if length a > length b then 1 else 0)"

record bdb_new = abstract_ds +
  bd_less :: "comparator_fn option"

record 'db bdb_datastore = bdb_new +
  bd_dbm :: 'db

definition BerkeleyDBDataStore :: "bool \<Rightarrow> bool \<Rightarrow> bdb_new" where
  "BerkeleyDBDataStore eraseOnGet debug =
     abstract_ds.extend (AbstractDataStore eraseOnGet debug) \<lparr>bd_less = None\<rparr>"

text \<open>
  \<open>None\<close> when the character before the start of an empty path is read or \<open>mkdirs\<close> leaves its buffer, \<open>Some None\<close>
  when the method returns false.
\<close>

definition bdb_openDatabase ::
  "('env, 'db, 'cu) berkeleydb \<Rightarrow> comparator_fn option \<Rightarrow> bdb_new \<Rightarrow> string \<Rightarrow> string \<Rightarrow> 'db bdb_datastore option option" where
  "bdb_openDatabase B lessp s db_name db_path =
     (if db_path = [] then None
      else
        let s = s\<lparr>ds_name := db_name, ds_path := db_path\<rparr>;
            fullpath = (if last db_path \<noteq> CHR ''/'' then db_path @ ''/'' else db_path) @ db_name
        in do {
          _ \<leftarrow> mkdirs (c_str fullpath);
          Some (do {
            env \<leftarrow> bdb_env_open B (ds_in_memory s) (c_str fullpath);
            dbm \<leftarrow> bdb_open B env (compkeys lessp) (ds_in_memory s) (c_str db_name);
            Some (bdb_new.extend s \<lparr>bd_dbm = dbm\<rparr>)
          })
        })"

definition open_bdb ::
  "('env, 'db, 'cu) berkeleydb \<Rightarrow> comparator_fn option \<Rightarrow> string \<Rightarrow> string \<Rightarrow> 'db bdb_datastore option option" where
  "open_bdb B lessp name path = bdb_openDatabase B lessp (BerkeleyDBDataStore False False) name path"

definition bdb_put_code :: "('env, 'db, 'cu) berkeleydb \<Rightarrow> int \<Rightarrow> int32" where
  "bdb_put_code B status =
     (if status = 0 then rc SDSKV_SUCCESS
      else if status = DB_KEYEXIST B then rc SDSKV_ERR_KEYEXISTS else rc SDSKV_ERR_PUT)"

definition bdb_put_raw ::
  "('env, 'db, 'cu) berkeleydb \<Rightarrow> comparator_fn option \<Rightarrow> 'db bdb_datastore \<Rightarrow> bulk \<Rightarrow> nat \<Rightarrow> bulk \<Rightarrow> nat \<Rightarrow>
   ('db bdb_datastore \<times> int32) option" where
  "bdb_put_raw B lessp s key ksize val vsize = do {
     k \<leftarrow> buf_slice key 0 ksize;
     v \<leftarrow> buf_slice val 0 vsize;
     let (dbm, status) = bdb_db_put B (compkeys lessp) (bd_dbm s) (ds_no_overwrite s) k v;
     Some (s\<lparr>bd_dbm := dbm\<rparr>, bdb_put_code B status)
   }"

text \<open>
  \<open>put_multi\<close>: the sizes of the two buffers, and the items that end up in a builder, whose \<open>append\<close> does nothing
  when there is no room.
\<close>

fun bdb_buffer_sizes :: "nat \<Rightarrow> nat \<Rightarrow> nat list \<Rightarrow> nat list \<Rightarrow> nat \<Rightarrow> nat \<Rightarrow> (nat \<times> nat) option" where
  "bdb_buffer_sizes 0 i ksizes vsizes sk sv = Some (sk, sv)"
| "bdb_buffer_sizes (Suc n) i ksizes vsizes sk sv = do {
     ks \<leftarrow> arr ksizes i;
     vs \<leftarrow> arr vsizes i;
     bdb_buffer_sizes n (Suc i) ksizes vsizes (wrap64 (sk + ks)) (wrap64 (sv + vs + 8))
   }"

definition round4 :: "nat \<Rightarrow> nat" where
  "round4 n = (if n mod 4 \<noteq> 0 then wrap64 (n + (4 - n mod 4)) else n)"

fun bdb_append_items ::
  "('env, 'db, 'cu) berkeleydb \<Rightarrow> nat \<Rightarrow> nat \<Rightarrow> nat \<Rightarrow> bulk list \<Rightarrow> nat list \<Rightarrow> bulk list \<Rightarrow> bulk list option" where
  "bdb_append_items B ulen 0 i items sizes acc = Some acc"
| "bdb_append_items B ulen (Suc n) i items sizes acc = do {
     p \<leftarrow> arr items i;
     z \<leftarrow> arr sizes i;
     if bdb_room B ulen (map length acc) z then do {
       d \<leftarrow> buf_slice p 0 z;
       bdb_append_items B ulen n (Suc i) items sizes (acc @ [d])
     } else bdb_append_items B ulen n (Suc i) items sizes acc
   }"

definition bdb_put_multi ::
  "('env, 'db, 'cu) berkeleydb \<Rightarrow> comparator_fn option \<Rightarrow> 'db bdb_datastore \<Rightarrow> nat \<Rightarrow> bulk list \<Rightarrow> nat list \<Rightarrow>
   bulk list \<Rightarrow> nat list \<Rightarrow> ('db bdb_datastore \<times> int32) option" where
  "bdb_put_multi B lessp s num_items keys ksizes vals vsizes = do {
     (sk, sv) \<leftarrow> bdb_buffer_sizes num_items 0 ksizes vsizes 0 0;
     let sk = round4 (wrap64 (sk * 2));
     let sv = round4 (wrap64 (sv * 2));
     ks \<leftarrow> bdb_append_items B sk num_items 0 keys ksizes [];
     vs \<leftarrow> bdb_append_items B sv num_items 0 vals vsizes [];
     let (dbm, status) = bdb_db_put_multiple B (compkeys lessp) (bd_dbm s) (\<not> ds_no_overwrite s) ks vs;
     Some (s\<lparr>bd_dbm := dbm\<rparr>,
       if status = DB_KEYEXIST B then rc SDSKV_ERR_KEYEXISTS
       else if status \<noteq> 0 then rc SDSKV_ERR_PUT else rc SDSKV_SUCCESS)
   }"

definition bdb_exists :: "('env, 'db, 'cu) berkeleydb \<Rightarrow> comparator_fn option \<Rightarrow> 'db bdb_datastore \<Rightarrow> bulk \<Rightarrow> bool" where
  "bdb_exists B lessp s key \<longleftrightarrow> bdb_db_exists B (compkeys lessp) (bd_dbm s) key \<noteq> DB_NOTFOUND B"

definition bdb_exists_raw ::
  "('env, 'db, 'cu) berkeleydb \<Rightarrow> comparator_fn option \<Rightarrow> 'db bdb_datastore \<Rightarrow> bulk \<Rightarrow> nat \<Rightarrow> bool option" where
  "bdb_exists_raw B lessp s key ksize = do {
     k \<leftarrow> buf_slice key 0 ksize;
     Some (bdb_exists B lessp s k)
   }"

definition bdb_erase ::
  "('env, 'db, 'cu) berkeleydb \<Rightarrow> comparator_fn option \<Rightarrow> 'db bdb_datastore \<Rightarrow> bulk \<Rightarrow> 'db bdb_datastore \<times> bool" where
  "bdb_erase B lessp s key =
     (let (dbm, status) = bdb_db_del B (compkeys lessp) (bd_dbm s) key in (s\<lparr>bd_dbm := dbm\<rparr>, status = 0))"

text \<open>\<open>get\<close> deletes the key it has found when the store was made with \<open>eraseOnGet\<close>.\<close>

definition bdb_get ::
  "('env, 'db, 'cu) berkeleydb \<Rightarrow> comparator_fn option \<Rightarrow> 'db bdb_datastore \<Rightarrow> bulk \<Rightarrow> 'db bdb_datastore \<times> bool \<times> bulk" where
  "bdb_get B lessp s key =
     (let (status, v) = bdb_db_get B (compkeys lessp) (bd_dbm s) key in
      if status \<noteq> DB_NOTFOUND B \<and> status \<noteq> DB_KEYEMPTY B then
        if ds_eraseOnGet s then
          let (dbm, status) = bdb_db_del B (compkeys lessp) (bd_dbm s) key in (s\<lparr>bd_dbm := dbm\<rparr>, status = 0, v)
        else (s, True, v)
      else (s, False, []))"

definition bdb_get_values ::
  "('env, 'db, 'cu) berkeleydb \<Rightarrow> comparator_fn option \<Rightarrow> 'db bdb_datastore \<Rightarrow> bulk \<Rightarrow> 'db bdb_datastore \<times> bool \<times> bulk list" where
  "bdb_get_values B lessp s key =
     (let (s', ok, v) = bdb_get B lessp s key in (s', ok, if ok then [v] else []))"

definition bdb_set_in_memory :: "'db bdb_datastore \<Rightarrow> bool \<Rightarrow> 'db bdb_datastore" where
  "bdb_set_in_memory s enable = s\<lparr>ds_in_memory := enable\<rparr>"

definition bdb_set_comparison_function ::
  "'db bdb_datastore \<Rightarrow> string \<Rightarrow> comparator_fn \<Rightarrow> 'db bdb_datastore" where
  "bdb_set_comparison_function s fname less_fn = s\<lparr>ds_comp_fun_name := fname, bd_less := Some less_fn\<rparr>"

definition bdb_set_no_overwrite :: "'db bdb_datastore \<Rightarrow> 'db bdb_datastore" where
  "bdb_set_no_overwrite s = s\<lparr>ds_no_overwrite := True\<rparr>"

definition bdb_sync :: "('env, 'db, 'cu) berkeleydb \<Rightarrow> 'db bdb_datastore \<Rightarrow> 'db bdb_datastore" where
  "bdb_sync B s = s\<lparr>bd_dbm := bdb_db_sync B (bd_dbm s)\<rparr>"

text \<open>The loop of the two listings; \<open>c\<close> is the last comparison with the prefix.\<close>

partial_function (option) bdb_vlist_loop ::
  "('env, 'db, 'cu) berkeleydb \<Rightarrow> comparator_fn option \<Rightarrow> (bulk \<times> bulk \<Rightarrow> 'a) \<Rightarrow> nat \<Rightarrow> bulk \<Rightarrow> 'cu \<Rightarrow> int \<Rightarrow> 'a list \<Rightarrow>
   'a list option"
where
  "bdb_vlist_loop B lessp push count prefix cu c result =
     (if length result < count \<and> c \<ge> 0 then
        (case bdb_next B (compkeys lessp) cu of
           (cu', None) \<Rightarrow> Some result
         | (cu', Some p) \<Rightarrow>
             Option.bind (memcmp prefix (fst p) (length prefix)) (\<lambda>c.
               bdb_vlist_loop B lessp push count prefix cu' c (if c = 0 then result @ [push p] else result)))
      else Some result)"

definition bdb_vlist ::
  "('env, 'db, 'cu) berkeleydb \<Rightarrow> comparator_fn option \<Rightarrow> (bulk \<times> bulk \<Rightarrow> 'a) \<Rightarrow> 'db bdb_datastore \<Rightarrow> bulk \<Rightarrow> nat \<Rightarrow>
   bulk \<Rightarrow> 'a list option" where
  "bdb_vlist B lessp push s start count prefix =
     (let cu = bdb_cursor B (bd_dbm s) in
      case (if length start \<noteq> 0 then bdb_set_range B (compkeys lessp) cu start else bdb_first B (compkeys lessp) cu) of
        (cu, None) \<Rightarrow> Some []
      | (cu, Some p) \<Rightarrow>
          if fst p \<noteq> start then do {
            c \<leftarrow> memcmp prefix (fst p) (length prefix);
            bdb_vlist_loop B lessp push count prefix cu c (if c = 0 then [push p] else [])
          } else bdb_vlist_loop B lessp push count prefix cu 0 [])"

definition bdb_vlist_keys ::
  "('env, 'db, 'cu) berkeleydb \<Rightarrow> comparator_fn option \<Rightarrow> 'db bdb_datastore \<Rightarrow> bulk \<Rightarrow> nat \<Rightarrow> bulk \<Rightarrow> bulk list option" where
  "bdb_vlist_keys B lessp = bdb_vlist B lessp fst"

definition bdb_vlist_keyvals ::
  "('env, 'db, 'cu) berkeleydb \<Rightarrow> comparator_fn option \<Rightarrow> 'db bdb_datastore \<Rightarrow> bulk \<Rightarrow> nat \<Rightarrow> bulk \<Rightarrow> (bulk \<times> bulk) list option" where
  "bdb_vlist_keyvals B lessp = bdb_vlist B lessp id"

text \<open>
  The table of the class. The interface of \<open>get\<close> has no room for a changed store: the factory makes stores
  without \<open>eraseOnGet\<close>, whose \<open>get\<close> does not change them.
\<close>

definition bdb_vtable :: "('env, 'db, 'cu) berkeleydb \<Rightarrow> comparator_fn option \<Rightarrow> 'db bdb_datastore vtable" where
  "bdb_vtable B lessp =
     \<lparr>vt_put_raw = bdb_put_raw B lessp,
      vt_put = base_put (bdb_put_raw B lessp),
      vt_put_multi = bdb_put_multi B lessp,
      vt_put_packed = base_put_packed (bdb_put_raw B lessp),
      vt_get = (\<lambda>s k d. snd (bdb_get B lessp s k)),
      vt_length = base_length (\<lambda>s k d. snd (bdb_get B lessp s k)),
      vt_exists = bdb_exists B lessp,
      vt_exists_raw = bdb_exists_raw B lessp,
      vt_erase = bdb_erase B lessp,
      vt_set_in_memory = bdb_set_in_memory,
      vt_set_comparison_function = bdb_set_comparison_function,
      vt_set_no_overwrite = bdb_set_no_overwrite,
      vt_sync = bdb_sync B,
      vt_vlist_keys = bdb_vlist_keys B lessp,
      vt_vlist_keyvals = bdb_vlist_keyvals B lessp,
      vt_get_path = ds_path,
      vt_get_name = ds_name,
      vt_get_comparison_function_name = ds_comp_fun_name\<rparr>"

section \<open>What the library promises\<close>

text \<open>
  \<open>entries\<close> are the pairs of a database in the order of its comparison, \<open>rest\<close> those after the one a cursor is on.
  A put replaces the value of a key that is there unless it is told not to. The disk does not fail.
\<close>

definition berkeleydb_codes_ok :: "('env, 'db, 'cu) berkeleydb \<Rightarrow> bool" where
  "berkeleydb_codes_ok B \<longleftrightarrow> DB_KEYEXIST B \<noteq> 0 \<and> DB_NOTFOUND B \<noteq> 0 \<and> DB_KEYEMPTY B \<noteq> 0"

definition berkeleydb_put_ok :: "('env, 'db, 'cu) berkeleydb \<Rightarrow> ('db \<Rightarrow> (bulk \<times> bulk) list) \<Rightarrow> bool" where
  "berkeleydb_put_ok B entries \<longleftrightarrow>
     (\<forall>cmp db no_overwrite k v. three_way cmp \<and> om_sorted (below cmp) (entries db) \<longrightarrow>
        (let (db', status) = bdb_db_put B cmp db no_overwrite k v in
         if no_overwrite \<and> om_lookup (below cmp) (entries db) k \<noteq> None
         then entries db' = entries db \<and> status = DB_KEYEXIST B
         else entries db' = om_update (below cmp) k v (entries db) \<and> status = 0))"

definition berkeleydb_put_multiple_ok :: "('env, 'db, 'cu) berkeleydb \<Rightarrow> ('db \<Rightarrow> (bulk \<times> bulk) list) \<Rightarrow> bool" where
  "berkeleydb_put_multiple_ok B entries \<longleftrightarrow>
     (\<forall>cmp db dup ks vs. three_way cmp \<and> om_sorted (below cmp) (entries db) \<and> length ks = length vs \<longrightarrow>
        (let (db', status) = bdb_db_put_multiple B cmp db dup ks vs in
         entries db' = fold (\<lambda>(k, v). om_update (below cmp) k v) (zip ks vs) (entries db) \<and> status = 0))"

definition berkeleydb_del_ok :: "('env, 'db, 'cu) berkeleydb \<Rightarrow> ('db \<Rightarrow> (bulk \<times> bulk) list) \<Rightarrow> bool" where
  "berkeleydb_del_ok B entries \<longleftrightarrow>
     (\<forall>cmp db k. three_way cmp \<and> om_sorted (below cmp) (entries db) \<longrightarrow>
        (let (db', status) = bdb_db_del B cmp db k in
         entries db' = om_erase (below cmp) k (entries db) \<and>
         status = (if om_lookup (below cmp) (entries db) k \<noteq> None then 0 else DB_NOTFOUND B)))"

definition berkeleydb_reads_ok :: "('env, 'db, 'cu) berkeleydb \<Rightarrow> ('db \<Rightarrow> (bulk \<times> bulk) list) \<Rightarrow> bool" where
  "berkeleydb_reads_ok B entries \<longleftrightarrow>
     (\<forall>cmp db k. three_way cmp \<and> om_sorted (below cmp) (entries db) \<longrightarrow>
        bdb_db_exists B cmp db k = (if om_lookup (below cmp) (entries db) k \<noteq> None then 0 else DB_NOTFOUND B) \<and>
        (case om_lookup (below cmp) (entries db) k of
           None \<Rightarrow> fst (bdb_db_get B cmp db k) = DB_NOTFOUND B
         | Some v \<Rightarrow> bdb_db_get B cmp db k = (0, v)))"

definition cursor_on :: "('cu \<Rightarrow> (bulk \<times> bulk) list) \<Rightarrow> (bulk \<times> bulk) list \<Rightarrow> 'cu \<times> (bulk \<times> bulk) option \<Rightarrow> bool" where
  "cursor_on rest m r \<longleftrightarrow> (case m of [] \<Rightarrow> snd r = None | p # ps \<Rightarrow> snd r = Some p \<and> rest (fst r) = ps)"

definition berkeleydb_cursors_ok ::
  "('env, 'db, 'cu) berkeleydb \<Rightarrow> ('db \<Rightarrow> (bulk \<times> bulk) list) \<Rightarrow> ('cu \<Rightarrow> (bulk \<times> bulk) list) \<Rightarrow> bool" where
  "berkeleydb_cursors_ok B entries rest \<longleftrightarrow>
     (\<forall>cmp db k. three_way cmp \<and> om_sorted (below cmp) (entries db) \<longrightarrow>
        cursor_on rest (om_lower_bound (below cmp) (entries db) k) (bdb_set_range B cmp (bdb_cursor B db) k) \<and>
        cursor_on rest (entries db) (bdb_first B cmp (bdb_cursor B db))) \<and>
     (\<forall>cmp cu. three_way cmp \<longrightarrow> cursor_on rest (rest cu) (bdb_next B cmp cu))"

definition berkeleydb_ok ::
  "('env, 'db, 'cu) berkeleydb \<Rightarrow> ('db \<Rightarrow> (bulk \<times> bulk) list) \<Rightarrow> ('cu \<Rightarrow> (bulk \<times> bulk) list) \<Rightarrow> bool" where
  "berkeleydb_ok B entries rest \<longleftrightarrow>
     berkeleydb_codes_ok B \<and> berkeleydb_put_ok B entries \<and> berkeleydb_put_multiple_ok B entries \<and>
     berkeleydb_del_ok B entries \<and> (\<forall>db. entries (bdb_db_sync B db) = entries db) \<and> berkeleydb_reads_ok B entries \<and>
     berkeleydb_cursors_ok B entries rest"

section \<open>The order of the keys\<close>

lemma compkeys_default:
  "compkeys None a b = (if bytes_less a b then -1 else if bytes_less b a then 1 else 0)"
  unfolding bytes_less_def
proof (induction "(<) :: byte \<Rightarrow> byte \<Rightarrow> bool" a b rule: lex_less.induct)
  case (1 a)
  then show ?case by (cases a) (simp_all add: compkeys_def)
next
  case (3 a as b bs)
  then show ?case by (auto simp: compkeys_def Let_def split: if_splits option.splits)
qed (simp add: compkeys_def)

lemma compkeys_below: "below (compkeys None) = bytes_less"
  by (simp add: fun_eq_iff compkeys_default)

lemma compkeys_three_way: "three_way (compkeys None)"
  unfolding three_way_def compkeys_below
  using bytes_order.key_total_order_axioms bytes_order.lt_asym by (auto simp: compkeys_default)

section \<open>Refinement of the abstract database\<close>

definition bdb_inv :: "comparator_fn option \<Rightarrow> ('db \<Rightarrow> (bulk \<times> bulk) list) \<Rightarrow> 'db bdb_datastore \<Rightarrow> bool" where
  "bdb_inv lessp entries s \<longleftrightarrow>
     three_way (compkeys lessp) \<and> om_sorted (below (compkeys lessp)) (entries (bd_dbm s)) \<and> \<not> ds_eraseOnGet s"

definition bdb_abs :: "comparator_fn option \<Rightarrow> ('db \<Rightarrow> (bulk \<times> bulk) list) \<Rightarrow> 'db bdb_datastore \<Rightarrow> kv" where
  "bdb_abs lessp entries s =
     \<lparr>kv_map = om_lookup (below (compkeys lessp)) (entries (bd_dbm s)), kv_no_overwrite = ds_no_overwrite s\<rparr>"

lemma bdb_update:
  assumes "bdb_inv lessp entries s" "entries d = om_update (below (compkeys lessp)) k v (entries (bd_dbm s))"
  shows "bdb_inv lessp entries (s\<lparr>bd_dbm := d\<rparr>) \<and>
    bdb_abs lessp entries (s\<lparr>bd_dbm := d\<rparr>)
      = (bdb_abs lessp entries s)\<lparr>kv_map := (kv_map (bdb_abs lessp entries s))(k \<mapsto> v)\<rparr>"
  using assms three_way_order [of "compkeys lessp"]
  by (simp add: bdb_inv_def bdb_abs_def key_total_order.om_lookup_update_eq
      key_weak_order.om_sorted_update key_total_order.key_weak)

lemma bdb_get_abs:
  assumes "berkeleydb_codes_ok B" "berkeleydb_reads_ok B entries" "bdb_inv lessp entries s"
  shows "bdb_get B lessp s k =
    (s, case kv_map (bdb_abs lessp entries s) k of None \<Rightarrow> (False, []) | Some v \<Rightarrow> (True, v))"
proof -
  obtain st v where g: "bdb_db_get B (compkeys lessp) (bd_dbm s) k = (st, v)" by fastforce
  have "case kv_map (bdb_abs lessp entries s) k of None \<Rightarrow> st = DB_NOTFOUND B | Some w \<Rightarrow> (st, v) = (0, w)"
    using assms(2) [unfolded berkeleydb_reads_ok_def, rule_format, of "compkeys lessp" "bd_dbm s" k] assms(3) g
    by (simp add: bdb_inv_def bdb_abs_def split: option.splits)
  then show ?thesis
    using assms(1,3) g by (auto simp: bdb_get_def bdb_inv_def berkeleydb_codes_ok_def split: option.splits)
qed

lemma bdb_exists_abs:
  assumes "berkeleydb_codes_ok B" "berkeleydb_reads_ok B entries" "bdb_inv lessp entries s"
  shows "bdb_exists B lessp s k \<longleftrightarrow> kv_map (bdb_abs lessp entries s) k \<noteq> None"
  using assms by (auto simp: berkeleydb_reads_ok_def bdb_inv_def berkeleydb_codes_ok_def bdb_abs_def bdb_exists_def)

lemma bdb_erase_refines:
  assumes "berkeleydb_codes_ok B" "berkeleydb_del_ok B entries" "bdb_inv lessp entries s"
  shows "bdb_inv lessp entries (fst (bdb_erase B lessp s k)) \<and>
    bdb_abs lessp entries (fst (bdb_erase B lessp s k)) = kv_erase (bdb_abs lessp entries s) k \<and>
    (snd (bdb_erase B lessp s k) \<longleftrightarrow> kv_map (bdb_abs lessp entries s) k \<noteq> None)"
proof -
  obtain d st where d: "bdb_db_del B (compkeys lessp) (bd_dbm s) k = (d, st)" by fastforce
  have "entries d = om_erase (below (compkeys lessp)) k (entries (bd_dbm s)) \<and>
      st = (if om_lookup (below (compkeys lessp)) (entries (bd_dbm s)) k \<noteq> None then 0 else DB_NOTFOUND B)"
    using assms(2) [unfolded berkeleydb_del_ok_def, rule_format, of "compkeys lessp" "bd_dbm s" k] assms(3) d
    by (simp add: bdb_inv_def)
  then show ?thesis
    using d assms(1,3) three_way_order [of "compkeys lessp"]
    by (auto simp: bdb_erase_def bdb_inv_def bdb_abs_def kv_erase_def berkeleydb_codes_ok_def
        key_total_order.om_lookup_erase_eq key_weak_order.om_sorted_erase key_total_order.key_weak)
qed

lemma bdb_put_raw_refines:
  assumes "berkeleydb_codes_ok B" "berkeleydb_put_ok B entries" "bdb_inv lessp entries s"
    and "buf_slice kp 0 ks = Some k" "buf_slice vp 0 vs = Some v"
  shows "\<exists>s'. bdb_put_raw B lessp s kp ks vp vs = Some (s', snd (kv_put (bdb_abs lessp entries s) k v))
    \<and> bdb_inv lessp entries s' \<and> bdb_abs lessp entries s' = fst (kv_put (bdb_abs lessp entries s) k v)"
proof -
  obtain d st where d: "bdb_db_put B (compkeys lessp) (bd_dbm s) (ds_no_overwrite s) k v = (d, st)" by fastforce
  have law: "if ds_no_overwrite s \<and> om_lookup (below (compkeys lessp)) (entries (bd_dbm s)) k \<noteq> None
      then entries d = entries (bd_dbm s) \<and> st = DB_KEYEXIST B
      else entries d = om_update (below (compkeys lessp)) k v (entries (bd_dbm s)) \<and> st = 0"
    using assms(2) [unfolded berkeleydb_put_ok_def, rule_format, of "compkeys lessp" "bd_dbm s" "ds_no_overwrite s" k v]
      assms(3) d by (simp add: bdb_inv_def split: if_splits)
  have eq: "bdb_put_raw B lessp s kp ks vp vs = Some (s\<lparr>bd_dbm := d\<rparr>, bdb_put_code B st)"
    using d assms(4,5) by (simp add: bdb_put_raw_def)
  show ?thesis
  proof (cases "ds_no_overwrite s \<and> om_lookup (below (compkeys lessp)) (entries (bd_dbm s)) k \<noteq> None")
    case True
    then show ?thesis
      using eq law assms(1,3)
      by (auto simp: kv_put_def bdb_abs_def bdb_inv_def bdb_put_code_def berkeleydb_codes_ok_def)
  next
    case False
    then have "entries d = om_update (below (compkeys lessp)) k v (entries (bd_dbm s))" "st = 0" using law by auto
    then show ?thesis
      using eq False bdb_update [OF assms(3)] by (auto simp: kv_put_def bdb_put_code_def) (auto simp: bdb_abs_def)
  qed
qed

lemma berkeleydb_datastore:
  assumes "berkeleydb_ok B entries rest"
  shows "datastore (bdb_vtable B lessp) (bdb_inv lessp entries) (bdb_abs lessp entries)"
proof -
  have ok: "berkeleydb_codes_ok B" "berkeleydb_put_ok B entries" "berkeleydb_reads_ok B entries" "berkeleydb_del_ok B entries"
    using assms by (simp_all add: berkeleydb_ok_def)
  note put = bdb_put_raw_refines [OF ok(1,2)]
  show ?thesis
  proof
    fix s and k v :: bulk
    assume "bdb_inv lessp entries s"
    then show "\<exists>s'. vt_put (bdb_vtable B lessp) s k v = Some (s', snd (kv_put (bdb_abs lessp entries s) k v))
      \<and> bdb_inv lessp entries s' \<and> bdb_abs lessp entries s' = fst (kv_put (bdb_abs lessp entries s) k v)"
      using put [of lessp s k "length k" k v "length v" v] by (simp add: bdb_vtable_def base_put_def buffer_simps)
  qed (use put bdb_get_abs [OF ok(1,3)] bdb_exists_abs [OF ok(1,3)] bdb_erase_refines [OF ok(1,4)] in
    \<open>simp_all add: bdb_vtable_def base_length_def bdb_exists_raw_def split: option.splits\<close>)
qed

section \<open>Listing\<close>

lemma bdb_vlist_loop_scan:
  assumes "berkeleydb_cursors_ok B entries rest" "three_way (compkeys lessp)"
  shows "bdb_vlist_loop B lessp push count prefix cu c result
    = (if c \<ge> 0 then prefix_scan push count prefix (rest cu) result else Some result)"
proof (induction "rest cu" arbitrary: cu c result)
  case Nil
  have "cursor_on rest (rest cu) (bdb_next B (compkeys lessp) cu)"
    using assms by (simp add: berkeleydb_cursors_ok_def)
  then have "snd (bdb_next B (compkeys lessp) cu) = None" by (simp add: cursor_on_def Nil [symmetric])
  then show ?case
    by (subst bdb_vlist_loop.simps) (auto simp: Nil [symmetric] split: prod.splits)
next
  case (Cons p ps)
  have "cursor_on rest (p # ps) (bdb_next B (compkeys lessp) cu)"
    using assms by (simp add: berkeleydb_cursors_ok_def Cons.hyps(2))
  then obtain cu' where nx: "bdb_next B (compkeys lessp) cu = (cu', Some p)" "ps = rest cu'"
    by (cases "bdb_next B (compkeys lessp) cu") (auto simp: cursor_on_def)
  show ?case
    using Cons.hyps(1) [OF nx(2)] nx(1)
    by (cases "memcmp prefix (fst p) (length prefix)")
      (subst bdb_vlist_loop.simps, auto simp: Cons.hyps(2) [symmetric] nx(2))+
qed

lemma om_lower_bound_Nil: "om_lower_bound bytes_less m [] = m"
  by (cases m) (auto simp: om_lower_bound_def bytes_less_def)

lemma bdb_vlist_scan:
  assumes "berkeleydb_cursors_ok B entries rest" "bdb_inv None entries s" "0 < count"
  shows "bdb_vlist B None push s start count prefix
    = prefix_scan push count prefix (filter (\<lambda>p. bytes_less start (fst p)) (entries (bd_dbm s))) []"
proof -
  define m where "m = entries (bd_dbm s)"
  define lo where "lo = om_lower_bound bytes_less m start"
  define r where "r = (if length start \<noteq> 0 then bdb_set_range B (compkeys None) (bdb_cursor B (bd_dbm s)) start
      else bdb_first B (compkeys None) (bdb_cursor B (bd_dbm s)))"
  have m: "om_sorted bytes_less m" using assms(2) by (simp add: bdb_inv_def compkeys_below m_def)
  have on: "cursor_on rest lo r"
    using assms(1) [unfolded berkeleydb_cursors_ok_def, THEN conjunct1, rule_format, of "compkeys None" "bd_dbm s" start]
      m compkeys_three_way
    by (simp add: r_def lo_def m_def compkeys_below om_lower_bound_Nil)
  have after: "filter (\<lambda>p. bytes_less start (fst p)) m = (case lo of [] \<Rightarrow> [] | p # it \<Rightarrow> if fst p = start then it else p # it)"
    using bytes_order.om_upper_lower [OF m, of start] bytes_order.om_upper_bound_filter [OF m, of start]
    by (simp add: lo_def)
  show ?thesis
    using on assms(3) bdb_vlist_loop_scan [OF assms(1) compkeys_three_way, of push count prefix]
    unfolding bdb_vlist_def Let_def r_def [symmetric] m_def [symmetric] after
    by (cases lo; cases r; cases "memcmp prefix (fst (hd lo)) (length prefix)")
      (auto simp: cursor_on_def)
qed

lemma bdb_vlist_comparison: "bdb_vlist B lessp push (bdb_set_comparison_function s fname f) = bdb_vlist B lessp push s"
  by (simp add: bdb_vlist_def bdb_set_comparison_function_def fun_eq_iff)

section \<open>Putting several pairs\<close>

lemma length_buf_slice: "buf_slice p 0 z = Some d \<Longrightarrow> length d = z"
  by (auto simp: buf_slice_def split: if_splits)

lemma bdb_append_all:
  assumes "length items = length xs" "length sizes = length xs"
    and "\<forall>j<length xs. buf_slice (items ! j) 0 (sizes ! j) = Some (xs ! j)"
    and "\<forall>j<length xs. bdb_room B ulen (take j sizes) (sizes ! j)"
  shows "i + n = length xs \<Longrightarrow> bdb_append_items B ulen n i items sizes (take i xs) = Some xs"
proof (induction n arbitrary: i)
  case (Suc n)
  have "map length xs = sizes"
    using assms(2,3) by (intro nth_equalityI) (auto dest: length_buf_slice)
  then have "map length (take i xs) = take i sizes" by (simp flip: take_map)
  moreover have "take (Suc i) xs = take i xs @ [xs ! i]" using Suc.prems by (simp add: take_Suc_conv_app_nth)
  ultimately show ?case
    using Suc.IH [of "Suc i"] Suc.prems assms by (simp add: arr_def)
qed simp

section \<open>A library to evaluate with\<close>

text \<open>Databases and cursors are lists of pairs; an item of a buffer takes its size and 8 bytes, and the end 4.\<close>

definition cursor_at :: "(bulk \<times> bulk) list \<Rightarrow> (bulk \<times> bulk) list \<times> (bulk \<times> bulk) option" where
  "cursor_at m = (case m of [] \<Rightarrow> ([], None) | p # ps \<Rightarrow> (ps, Some p))"

definition sample_berkeleydb :: "(unit, (bulk \<times> bulk) list, (bulk \<times> bulk) list) berkeleydb" where
  "sample_berkeleydb =
     \<lparr>bdb_env_open = (\<lambda>mem path. Some ()),
      bdb_open = (\<lambda>env cmp mem path. Some []),
      DB_KEYEXIST = - 30994, DB_NOTFOUND = - 30988, DB_KEYEMPTY = - 30995,
      bdb_db_put = (\<lambda>cmp db no_overwrite k v.
        if no_overwrite \<and> om_lookup (below cmp) db k \<noteq> None then (db, - 30994)
        else (om_update (below cmp) k v db, 0)),
      bdb_db_put_multiple = (\<lambda>cmp db dup ks vs. (fold (\<lambda>(k, v). om_update (below cmp) k v) (zip ks vs) db, 0)),
      bdb_room = (\<lambda>ulen sizes z. sum_list sizes + z + 8 * (length sizes + 1) + 4 \<le> ulen),
      bdb_db_exists = (\<lambda>cmp db k. if om_lookup (below cmp) db k \<noteq> None then 0 else - 30988),
      bdb_db_del = (\<lambda>cmp db k.
        (om_erase (below cmp) k db, if om_lookup (below cmp) db k \<noteq> None then 0 else - 30988)),
      bdb_db_get = (\<lambda>cmp db k. case om_lookup (below cmp) db k of None \<Rightarrow> (- 30988, []) | Some v \<Rightarrow> (0, v)),
      bdb_db_sync = (\<lambda>db. db),
      bdb_cursor = (\<lambda>db. db),
      bdb_set_range = (\<lambda>cmp cu k. cursor_at (om_lower_bound (below cmp) cu k)),
      bdb_first = (\<lambda>cmp cu. cursor_at cu),
      bdb_next = (\<lambda>cmp cu. cursor_at cu)\<rparr>"

lemma berkeleydb_ok_sample: "berkeleydb_ok sample_berkeleydb (\<lambda>m. m) (\<lambda>cu. cu)"
proof -
  have "cursor_on (\<lambda>cu. cu) m (cursor_at m)" for m :: "(bulk \<times> bulk) list"
    by (cases m) (simp_all add: cursor_on_def cursor_at_def)
  then have "berkeleydb_cursors_ok sample_berkeleydb (\<lambda>m. m) (\<lambda>cu. cu)"
    by (simp add: berkeleydb_cursors_ok_def sample_berkeleydb_def)
  moreover have "berkeleydb_reads_ok sample_berkeleydb (\<lambda>m. m)"
    by (simp add: berkeleydb_reads_ok_def sample_berkeleydb_def split: option.splits)
  ultimately show ?thesis
    by (simp add: berkeleydb_ok_def berkeleydb_codes_ok_def berkeleydb_put_ok_def berkeleydb_put_multiple_ok_def
        berkeleydb_del_ok_def) (simp add: sample_berkeleydb_def)
qed

definition sample_bdb :: "(bulk \<times> bulk) list \<Rightarrow> bool \<Rightarrow> (bulk \<times> bulk) list bdb_datastore" where
  "sample_bdb kvs no_overwrite =
     bdb_new.extend ((BerkeleyDBDataStore False False)\<lparr>ds_name := ''db'', ds_no_overwrite := no_overwrite\<rparr>) \<lparr>bd_dbm = kvs\<rparr>"

lemma sample_bdb_sel:
  "bd_dbm (sample_bdb kvs b) = kvs" "ds_no_overwrite (sample_bdb kvs b) = b" "\<not> ds_eraseOnGet (sample_bdb kvs b)"
  by (simp_all add: sample_bdb_def BerkeleyDBDataStore_def AbstractDataStore_def bdb_new.defs abstract_ds.defs)

lemma sample_bdb_inv: "om_sorted bytes_less kvs \<Longrightarrow> bdb_inv None (\<lambda>m. m) (sample_bdb kvs b)"
  by (simp add: bdb_inv_def compkeys_three_way compkeys_below sample_bdb_sel)

lemma sample_bdb_abs:
  "om_sorted bytes_less kvs \<Longrightarrow>
   bdb_abs None (\<lambda>m. m) (sample_bdb kvs b) = \<lparr>kv_map = map_of kvs, kv_no_overwrite = b\<rparr>"
  by (simp add: bdb_abs_def compkeys_below sample_bdb_sel bytes_order.om_lookup_map_of)

section \<open>Properties\<close>

text \<open>
  The listings of the BerkeleyDB backend: when no key after the start key is a proper prefix of the prefix,
  \<open>vlist_keys\<close> and \<open>vlist_keyvals\<close> return the first \<open>count\<close> keys or pairs, at least one of which was asked for,
  that follow the start key in the order of the bytes and have the prefix. The empty key is never listed. The
  comparison function of the store has no influence.
\<close>

theorem bdb_list_exact:
  assumes "berkeleydb_ok B entries rest" "bdb_inv None entries s" "0 < count"
    and "after = filter (\<lambda>p. bytes_less start (fst p)) (entries (bd_dbm s))"
    and "\<forall>p\<in>set after. \<not> cut_short prefix (fst p)"
  shows "bdb_vlist_keys B None s start count prefix = Some (map fst (take count (filter (has_prefix prefix) after))) \<and>
    bdb_vlist_keyvals B None s start count prefix = Some (take count (filter (has_prefix prefix) after)) \<and>
    bdb_vlist_keys B None (bdb_set_comparison_function s fname f) start count prefix
      = bdb_vlist_keys B None s start count prefix"
proof -
  have cu: "berkeleydb_cursors_ok B entries rest" using assms(1) by (simp add: berkeleydb_ok_def)
  have "om_sorted bytes_less after"
    using assms(2,4) by (auto simp: bdb_inv_def compkeys_below om_sorted_def sorted_wrt_map intro: sorted_wrt_filter)
  then show ?thesis
    unfolding bdb_vlist_keys_def bdb_vlist_keyvals_def bdb_vlist_comparison bdb_vlist_scan [OF cu assms(2,3)]
      assms(4) [symmetric]
    using assms(5) by (simp add: prefix_scan_exact)
qed

theorem bdb_list_exact_witness:
  "bdb_vlist_keys sample_berkeleydb None (sample_bdb [([], [0]), ([97], [1]), ([97, 200], [2]), ([98], [3])] False) [] 10 [97]
     = Some [[97], [97, 200]]"
proof -
  have inv: "bdb_inv None (\<lambda>m. m) (sample_bdb [([], [0]), ([97], [1]), ([97, 200], [2]), ([98], [3])] False)"
    by (simp add: sample_bdb_inv om_sorted_def bytes_less_def)
  show ?thesis
    using bdb_list_exact [OF berkeleydb_ok_sample inv _ refl, of 10 "[]" "[97]"]
    by (simp add: sample_bdb_sel cut_short_def has_prefix_def bytes_less_def)
qed

text \<open>
  \<open>put_multi\<close> of the BerkeleyDB backend, when the buffers have room for every item, stores all the pairs and
  reports success also on a store that refuses overwriting: the values of keys that are there are replaced,
  which \<open>put\<close> and the abstract database would refuse.
\<close>

theorem bdb_put_multi_overwrites:
  assumes "berkeleydb_ok B entries rest" "bdb_inv lessp entries s"
    and "length keys = length kvs" "length ksizes = length kvs" "length vals = length kvs" "length vsizes = length kvs"
    and "\<forall>j<length kvs. buf_slice (keys ! j) 0 (ksizes ! j) = Some (fst (kvs ! j))
       \<and> buf_slice (vals ! j) 0 (vsizes ! j) = Some (snd (kvs ! j))"
    and "bdb_buffer_sizes (length kvs) 0 ksizes vsizes 0 0 = Some (sk, sv)"
    and "\<forall>j<length kvs. bdb_room B (round4 (wrap64 (sk * 2))) (take j ksizes) (ksizes ! j)
       \<and> bdb_room B (round4 (wrap64 (sv * 2))) (take j vsizes) (vsizes ! j)"
  shows "\<exists>s'. bdb_put_multi B lessp s (length kvs) keys ksizes vals vsizes = Some (s', rc SDSKV_SUCCESS)
    \<and> bdb_inv lessp entries s' \<and> ds_no_overwrite s' = ds_no_overwrite s
    \<and> kv_map (bdb_abs lessp entries s') = kv_map (bdb_abs lessp entries s) ++ map_of (rev kvs)"
proof -
  have items: "bdb_append_items B (round4 (wrap64 (sk * 2))) (length kvs) 0 keys ksizes [] = Some (map fst kvs)"
      "bdb_append_items B (round4 (wrap64 (sv * 2))) (length kvs) 0 vals vsizes [] = Some (map snd kvs)"
    using bdb_append_all [of keys "map fst kvs" ksizes B "round4 (wrap64 (sk * 2))" 0 "length kvs"]
      bdb_append_all [of vals "map snd kvs" vsizes B "round4 (wrap64 (sv * 2))" 0 "length kvs"] assms(3-7,9)
    by simp_all
  define d where "d = fst (bdb_db_put_multiple B (compkeys lessp) (bd_dbm s) (\<not> ds_no_overwrite s) (map fst kvs) (map snd kvs))"
  have law: "bdb_db_put_multiple B (compkeys lessp) (bd_dbm s) (\<not> ds_no_overwrite s) (map fst kvs) (map snd kvs) = (d, 0)"
      "entries d = fold (\<lambda>(k, v). om_update (below (compkeys lessp)) k v) kvs (entries (bd_dbm s))"
    using assms(1) [unfolded berkeleydb_ok_def berkeleydb_put_multiple_ok_def, THEN conjunct2, THEN conjunct2,
        THEN conjunct1, rule_format, of "compkeys lessp" "bd_dbm s" "map fst kvs" "map snd kvs" "\<not> ds_no_overwrite s"]
      assms(2)
    by (auto simp: bdb_inv_def zip_map_fst_snd d_def case_prod_beta prod_eq_iff)
  have put: "bdb_put_multi B lessp s (length kvs) keys ksizes vals vsizes = Some (s\<lparr>bd_dbm := d\<rparr>, rc SDSKV_SUCCESS)"
    using assms(1) by (simp add: bdb_put_multi_def assms(8) items law(1) berkeleydb_ok_def berkeleydb_codes_ok_def)
  show ?thesis
    unfolding put
    using assms(2) law(2) key_total_order.om_updates [OF three_way_order, of "compkeys lessp" "entries (bd_dbm s)" kvs]
    by (simp add: bdb_inv_def bdb_abs_def)
qed

theorem bdb_put_multi_overwrites_witness:
  "\<exists>s'. bdb_put_multi sample_berkeleydb None (sample_bdb [(replicate 12 97, [1])] True) 1
      [replicate 12 97] [12] [[7]] [1] = Some (s', rc SDSKV_SUCCESS)
    \<and> kv_map (bdb_abs None (\<lambda>m. m) s') (replicate 12 97) = Some [7] \<and> ds_no_overwrite s'"
proof -
  have inv: "bdb_inv None (\<lambda>m. m) (sample_bdb [(replicate 12 97, [1])] True)"
    by (simp add: sample_bdb_inv om_sorted_def)
  have room: "bdb_room sample_berkeleydb ulen [] z \<longleftrightarrow> 12 + z \<le> ulen" for ulen z
    by (simp add: sample_berkeleydb_def)
  have put: "\<exists>s'. bdb_put_multi sample_berkeleydb None (sample_bdb [(replicate 12 97, [1])] True)
      (length [(replicate 12 (97::byte), [7::byte])]) [replicate 12 97] [12] [[7]] [1] = Some (s', rc SDSKV_SUCCESS)
    \<and> bdb_inv None (\<lambda>m. m) s' \<and> ds_no_overwrite s' = ds_no_overwrite (sample_bdb [(replicate 12 97, [1])] True)
    \<and> kv_map (bdb_abs None (\<lambda>m. m) s')
        = kv_map (bdb_abs None (\<lambda>m. m) (sample_bdb [(replicate 12 97, [1])] True)) ++ map_of (rev [(replicate 12 97, [7])])"
    by (rule bdb_put_multi_overwrites [OF berkeleydb_ok_sample inv, where sk = 12 and sv = 9])
      (simp_all add: round4_def room arr_def buf_slice_def wrap64_def)
  then show ?thesis by (auto simp: sample_bdb_sel)
qed

end
