(* ===== verification/Service_Berkeleydb.thy ===== *)
theory Service_Berkeleydb
  imports Berkeleydb_Datastore Sample_Service
begin

text \<open>
  The whole service over the BerkeleyDB backend: what a client sees of a provider whose databases are
  \<open>BerkeleyDBDataStore\<close> objects, for any library that behaves as documented.
\<close>


definition sample_bdb_provider :: "(bulk \<times> bulk) list \<Rightarrow> (bulk \<times> bulk) list bdb_datastore provider" where
  "sample_bdb_provider kvs =
     \<lparr>databases = [(4096, sample_bdb kvs False)], name2id = [(''db'', 4096)], id2name = [(4096, ''db'')],
      compfunctions = []\<rparr>"

lemma sample_bdb_serves:
  assumes "om_sorted bytes_less kvs"
  shows "serves (bdb_inv None (\<lambda>m. m)) (bdb_abs None (\<lambda>m. m)) (Some (sample_bdb_provider kvs)) 4096
    \<lparr>kv_map = map_of kvs, kv_no_overwrite = False\<rparr>"
proof -
  have "provider_inv (sample_bdb_provider kvs)"
    by (auto simp: provider_inv_def sample_bdb_provider_def om_sorted_def om_lookup_singleton
        string_order.same_iff_eq split: if_splits)
  moreover have "find_db (sample_bdb_provider kvs) 4096 = Some (sample_bdb kvs False)"
    by (simp add: sample_bdb_provider_def om_lookup_singleton)
  ultimately show ?thesis by (simp add: serves_def sample_bdb_inv [OF assms] sample_bdb_abs [OF assms])
qed


end
