(* ===== verification/Remi_Migration.thy ===== *)
theory Remi_Migration
  imports Server_Migrate Leveldb_Datastore Berkeleydb_Datastore
begin

text \<open>
  Migration of whole databases by REMI (sdskv-server.cc with \<open>USE_REMI\<close>): the filesets of the backends, the
  handler of \<open>migrate_database\<close> at the source, and the callbacks REMI calls at the destination before and after it
  has copied the files. The REMI library is a parameter, the record \<open>remi\<close> of the operations on filesets with
  what they promise, \<open>remi_ok\<close>, and the outcome of a migration.
\<close>

section \<open>Filesets\<close>

text \<open>\<open>remi_metadata\<close> are the pairs \<open>remi_fileset_foreach_metadata\<close> passes to its callback, in order.\<close>

record 'fs remi =
  remi_fileset_create :: "string \<Rightarrow> string \<Rightarrow> 'fs"
  remi_fileset_register_directory :: "'fs \<Rightarrow> string \<Rightarrow> 'fs"
  remi_fileset_register_metadata :: "'fs \<Rightarrow> string \<Rightarrow> string \<Rightarrow> 'fs"
  remi_metadata :: "'fs \<Rightarrow> (string \<times> string) list"
  remi_root :: "'fs \<Rightarrow> string"
  remi_fileset_compute_size :: "'fs \<Rightarrow> int32 \<times> nat"

text \<open>What \<open>get_metadata\<close> has entered into the map when it was called for every pair.\<close>

definition fileset_metadata :: "'fs remi \<Rightarrow> 'fs \<Rightarrow> string \<Rightarrow> string option" where
  "fileset_metadata R f = map_of (rev (remi_metadata R f))"

definition remi_ok :: "'fs remi \<Rightarrow> bool" where
  "remi_ok R \<longleftrightarrow>
     (\<forall>c r. fileset_metadata R (remi_fileset_create R c r) = Map.empty) \<and>
     (\<forall>f d. fileset_metadata R (remi_fileset_register_directory R f d) = fileset_metadata R f) \<and>
     (\<forall>f k v. fileset_metadata R (remi_fileset_register_metadata R f k v) = (fileset_metadata R f)(k \<mapsto> v))"

text \<open>
  \<open>create_and_populate_fileset\<close> of the two persistent backends, which differ in the type they register. An
  empty path is read before its start. The other backends return \<open>REMI_FILESET_NULL\<close>.
\<close>

definition populate_fileset :: "'fs remi \<Rightarrow> string \<Rightarrow> 'a abstract_ds_scheme \<Rightarrow> 'fs option" where
  "populate_fileset R database_type s =
     (if ds_path s = [] then None
      else
        let local_root = (if last (ds_path s) \<noteq> CHR ''/'' then ds_path s @ ''/'' else ds_path s);
            f = remi_fileset_create R ''sdskv'' (c_str local_root);
            f = remi_fileset_register_directory R f (c_str (ds_name s @ ''/''));
            f = remi_fileset_register_metadata R f ''database_type'' database_type;
            f = remi_fileset_register_metadata R f ''comparison_function'' (c_str (ds_comp_fun_name s));
            f = remi_fileset_register_metadata R f ''database_name'' (c_str (ds_name s))
        in Some (if ds_no_overwrite s then remi_fileset_register_metadata R f ''no_overwrite'' [] else f))"

definition ldb_create_and_populate_fileset :: "'fs remi \<Rightarrow> 'db leveldb_datastore \<Rightarrow> 'fs option option" where
  "ldb_create_and_populate_fileset R s = map_option Some (populate_fileset R ''leveldb'' s)"

definition bdb_create_and_populate_fileset :: "'fs remi \<Rightarrow> 'db bdb_datastore \<Rightarrow> 'fs option option" where
  "bdb_create_and_populate_fileset R s = map_option Some (populate_fileset R ''berkeleydb'' s)"

section \<open>The size of a database\<close>

text \<open>
  \<open>sdskv_provider_compute_database_size\<close>; \<open>fileset\<close> is \<open>create_and_populate_fileset\<close> of the backends. The last component
  is what \<open>*size\<close> is set to.
\<close>

definition sdskv_provider_compute_database_size_remi ::
  "'fs remi \<Rightarrow> 'ds vtable \<Rightarrow> ('ds \<Rightarrow> 'fs option option) \<Rightarrow> 'ds provider \<Rightarrow> db_id \<Rightarrow> ('ds provider \<times> int32 \<times> nat option) option" where
  "sdskv_provider_compute_database_size_remi R V fileset p i =
     (case find_db p i of
        None \<Rightarrow> Some (p, rc SDSKV_ERR_UNKNOWN_DB, None)
      | Some database \<Rightarrow> do {
          let database = vt_sync V database;
          let p = set_db p i database;
          f \<leftarrow> fileset database;
          case f of
            None \<Rightarrow> Some (p, rc SDSKV_OP_NOT_IMPL, None)
          | Some f \<Rightarrow>
              let (ret, n) = remi_fileset_compute_size R f in
              Some (p, if ret \<noteq> 0 then rc SDSKV_ERR_REMI else rc SDSKV_SUCCESS, Some n)
        })"

section \<open>The callbacks at the destination\<close>

text \<open>
  The configuration both callbacks fill in; \<open>type0\<close> is the type it has when the metadata names none of the two
  types, which \<open>sdskv_post_migration_callback\<close> leaves uninitialised.
\<close>

definition migration_config ::
  "(string \<Rightarrow> string option) \<Rightarrow> string \<Rightarrow> string \<Rightarrow> string \<Rightarrow> string \<Rightarrow> sdskv_db_type_t \<Rightarrow> sdskv_config_t" where
  "migration_config md db_name db_type comp_fn db_root type0 =
     \<lparr>cfg_db_name = c_str db_name, cfg_db_path = c_str db_root,
      cfg_db_type =
        (if db_type = ''berkeleydb'' then KVDB_BERKELEYDB else if db_type = ''leveldb'' then KVDB_LEVELDB else type0),
      cfg_db_comp_fn_name = (if comp_fn \<noteq> [] then Some (c_str comp_fn) else None),
      cfg_db_no_overwrite = (md ''no_overwrite'' \<noteq> None)\<rparr>"

text \<open>The result is the return code and what a user callback is given, when there is one and it is called.\<close>

definition sdskv_pre_migration_callback ::
  "'fs remi \<Rightarrow> 'ds provider \<Rightarrow> bool \<Rightarrow> sdskv_db_type_t \<Rightarrow> 'fs \<Rightarrow> int32 \<times> sdskv_config_t option" where
  "sdskv_pre_migration_callback R p has_callback type0 f =
     (let md = fileset_metadata R f in
      case (md ''database_type'', md ''database_name'', md ''comparison_function'') of
        (Some db_type, Some db_name, Some comp_fn) \<Rightarrow>
          if find_name p db_name \<noteq> None then (- 102, None)
          else if db_type \<noteq> ''berkeleydb'' \<and> db_type \<noteq> ''leveldb'' then (- 103, None)
          else if comp_fn \<noteq> [] \<and> om_lookup string_less (compfunctions p) comp_fn = None then (- 104, None)
          else (0, if has_callback then Some (migration_config md db_name db_type comp_fn (remi_root R f) type0) else None)
      | _ \<Rightarrow> (- 101, None))"

text \<open>A key that is not in the metadata is entered with an empty string when it is looked up.\<close>

definition sdskv_post_migration_callback ::
  "'fs remi \<Rightarrow> 'ds vtable \<Rightarrow> (sdskv_db_type_t \<Rightarrow> string \<Rightarrow> string \<Rightarrow> 'ds option) \<Rightarrow> 'ds provider \<Rightarrow> bool \<Rightarrow> sdskv_db_type_t \<Rightarrow>
   'fs \<Rightarrow> db_id \<Rightarrow> 'ds provider \<times> int32 \<times> (sdskv_config_t \<times> db_id) option" where
  "sdskv_post_migration_callback R V open_ds p has_callback type0 f addr =
     (let md = fileset_metadata R f;
          text = (\<lambda>k. case md k of None \<Rightarrow> [] | Some v \<Rightarrow> v);
          config = migration_config md (text ''database_name'') (text ''database_type'') (text ''comparison_function'')
            (remi_root R f) type0;
          (p', ret, i) = sdskv_provider_attach_database V open_ds p config addr
      in if ret \<noteq> rc SDSKV_SUCCESS then (p', - 106, None)
         else (p', 0, if has_callback then Some (config, addr) else None))"

section \<open>The handler at the source\<close>

record migrate_database_in_t =
  md_source_db_id :: db_id
  md_remove_src :: bool
  md_dest_root :: string

text \<open>
  The REMI client of the provider, if it has one, with the outcomes of its calls; \<open>rr_migrate\<close> also says how the
  destination, whose state is \<open>'t\<close>, is changed and which status its callbacks returned.
\<close>

record ('fs, 't) remi_client =
  rr_lookup :: hg_return
  rr_handle_create :: int32
  rr_migrate :: "'t \<Rightarrow> 'fs \<Rightarrow> string \<Rightarrow> bool \<Rightarrow> 't \<times> int32 \<times> int32"
  REMI_ERR_USER :: int32

definition sdskv_migrate_database_remi_ult ::
  "margo \<Rightarrow> 'ds vtable \<Rightarrow> ('ds \<Rightarrow> 'fs option option) \<Rightarrow> ('fs, 't) remi_client option \<Rightarrow> 'ds provider option \<Rightarrow> 't \<Rightarrow>
   migrate_database_in_t \<Rightarrow> ('ds provider option \<times> 't \<times> migrate_database_out_t) option" where
  "sdskv_migrate_database_remi_ult M V fileset client prov t inp =
     (let out = (\<lambda>r rr. \<lparr>md_out_ret = r, md_out_remi_ret = rr\<rparr>); fail = (\<lambda>r. Some (prov, t, out r 0)) in
      FIND_PROVIDER prov fail (\<lambda>p.
      GET_INPUT M fail (
      FIND_DATABASE p (md_source_db_id inp) fail (\<lambda>db.
      case client of
        None \<Rightarrow> fail (rc SDSKV_ERR_REMI)
      | Some RC \<Rightarrow>
          let db = vt_sync V db; p = set_db p (md_source_db_id inp) db; fail = (\<lambda>r rr. Some (Some p, t, out r rr)) in
          if rr_lookup RC \<noteq> hg_success then fail (SDSKV_MAKE_HG_ERROR (rr_lookup RC)) 0
          else if rr_handle_create RC \<noteq> 0 then fail (rc SDSKV_ERR_REMI) (rr_handle_create RC)
          else do {
            f \<leftarrow> fileset db;
            case f of
              None \<Rightarrow> fail (rc SDSKV_OP_NOT_IMPL) 0
            | Some local_fileset \<Rightarrow>
                let (t', ret, status) = rr_migrate RC t local_fileset (md_dest_root inp) (md_remove_src inp) in
                if ret \<noteq> 0 then
                  Some (Some p, t', out (if ret = REMI_ERR_USER RC then status else rc SDSKV_ERR_REMI) ret)
                else if md_remove_src inp then
                  let (p', r) = sdskv_provider_remove_database p (md_source_db_id inp) in Some (Some p', t', out r 0)
                else Some (Some p, t', out 0 0)
          }))))"

section \<open>A migration from end to end\<close>

text \<open>
  What a migration by REMI is when nothing fails in between: the fileset arrives at the destination with the
  same metadata and the root that was asked for; the callback before it decides whether anything is copied, and
  a callback that fails gives its code to the source.
\<close>

definition remi_migrates ::
  "'fs remi \<Rightarrow> 'ds vtable \<Rightarrow> (sdskv_db_type_t \<Rightarrow> string \<Rightarrow> string \<Rightarrow> 'ds option) \<Rightarrow> ('fs \<Rightarrow> string \<Rightarrow> 'fs) \<Rightarrow> bool \<Rightarrow> bool \<Rightarrow>
   sdskv_db_type_t \<Rightarrow> db_id \<Rightarrow> ('fs, 'ds provider) remi_client \<Rightarrow> bool" where
  "remi_migrates R V open_ds moved has_pre has_post type0 addr RC \<longleftrightarrow>
     rr_lookup RC = hg_success \<and> rr_handle_create RC = 0 \<and> REMI_ERR_USER RC \<noteq> 0 \<and>
     (\<forall>f r. fileset_metadata R (moved f r) = fileset_metadata R f \<and> remi_root R (moved f r) = r) \<and>
     (\<forall>q f r b. rr_migrate RC q f r b =
        (case sdskv_pre_migration_callback R q has_pre type0 (moved f r) of
           (code, _) \<Rightarrow>
             if code \<noteq> 0 then (q, REMI_ERR_USER RC, code)
             else
               (case sdskv_post_migration_callback R V open_ds q has_post type0 (moved f r) addr of
                  (q', code, _) \<Rightarrow> if code \<noteq> 0 then (q', REMI_ERR_USER RC, code) else (q', 0, 0))))"

text \<open>The metadata of a populated fileset.\<close>

lemma populate_fileset_metadata:
  assumes "remi_ok R" "populate_fileset R ty s = Some f"
  shows "fileset_metadata R f ''database_type'' = Some ty"
    "fileset_metadata R f ''database_name'' = Some (c_str (ds_name s))"
    "fileset_metadata R f ''comparison_function'' = Some (c_str (ds_comp_fun_name s))"
    "fileset_metadata R f ''no_overwrite'' \<noteq> None \<longleftrightarrow> ds_no_overwrite s"
  using assms by (auto simp: populate_fileset_def remi_ok_def Let_def split: if_splits)

lemma c_str_c_str [simp]: "c_str (c_str s) = c_str s"
  by (simp add: c_str_def takeWhile_idem)

text \<open>The configuration a database arrives with.\<close>

definition arriving_config :: "sdskv_db_type_t \<Rightarrow> 'a abstract_ds_scheme \<Rightarrow> string \<Rightarrow> sdskv_config_t" where
  "arriving_config type s dest_root =
     \<lparr>cfg_db_name = c_str (ds_name s), cfg_db_path = c_str dest_root, cfg_db_type = type,
      cfg_db_comp_fn_name = (if c_str (ds_comp_fun_name s) \<noteq> [] then Some (c_str (ds_comp_fun_name s)) else None),
      cfg_db_no_overwrite = ds_no_overwrite s\<rparr>"

lemma pre_migration_arriving:
  assumes "remi_ok R" "populate_fileset R ''leveldb'' s = Some f" "fileset_metadata R f' = fileset_metadata R f"
  shows "fst (sdskv_pre_migration_callback R q has_pre type0 f') =
    (if find_name q (c_str (ds_name s)) \<noteq> None then - 102
     else if c_str (ds_comp_fun_name s) \<noteq> [] \<and> om_lookup string_less (compfunctions q) (c_str (ds_comp_fun_name s)) = None
     then - 104 else 0)"
  using populate_fileset_metadata [OF assms(1,2)] assms(3) by (simp add: sdskv_pre_migration_callback_def Let_def)

lemma post_migration_arriving:
  assumes "remi_ok R" "populate_fileset R ''leveldb'' s = Some f" "fileset_metadata R f' = fileset_metadata R f"
    and "sdskv_provider_attach_database V open_ds q (arriving_config KVDB_LEVELDB s (remi_root R f')) addr = (q', ret, i)"
  shows "fst (sdskv_post_migration_callback R V open_ds q has_post type0 f' addr) = q'"
    "fst (snd (sdskv_post_migration_callback R V open_ds q has_post type0 f' addr)) = (if ret = rc SDSKV_SUCCESS then 0 else - 106)"
proof -
  have "migration_config (fileset_metadata R f') (case fileset_metadata R f' ''database_name'' of None \<Rightarrow> [] | Some v \<Rightarrow> v)
      (case fileset_metadata R f' ''database_type'' of None \<Rightarrow> [] | Some v \<Rightarrow> v)
      (case fileset_metadata R f' ''comparison_function'' of None \<Rightarrow> [] | Some v \<Rightarrow> v) (remi_root R f') type0
    = arriving_config KVDB_LEVELDB s (remi_root R f')"
    using populate_fileset_metadata [OF assms(1,2)] assms(3) by (simp add: migration_config_def arriving_config_def)
  then show "fst (sdskv_post_migration_callback R V open_ds q has_post type0 f' addr) = q'"
    "fst (snd (sdskv_post_migration_callback R V open_ds q has_post type0 f' addr)) = (if ret = rc SDSKV_SUCCESS then 0 else - 106)"
    unfolding sdskv_post_migration_callback_def Let_def using assms(4) by simp_all
qed

text \<open>
  C17. Migration of a LevelDB database by REMI: the handler reports success, and the destination, which had no
  database of that name and knows the comparison function, has attached one under the same name, with the same
  comparison function and overwrite policy, from the root that was asked for; the source has removed its
  database when it was told to and keeps it otherwise. When the name is in use at the destination nothing is
  changed there, the source keeps its database and the client gets the code of the callback.
\<close>

theorem remi_migration_moves:
  assumes "remi_ok R" "remi_migrates R (leveldb_vtable L) open_ds moved has_pre has_post type0 addr RC"
    and "mg_get_input M = hg_success" "find_db p i = Some db" "ds_path db \<noteq> []"
    and "cmp_name = c_str (ds_comp_fun_name db)" "cmp_name = [] \<or> om_lookup string_less (compfunctions q) cmp_name \<noteq> None"
    and "config = arriving_config KVDB_LEVELDB db root"
    and "open_ds KVDB_LEVELDB (cfg_db_name config) (cfg_db_path config) = Some db'" "provider_inv q" "provider_inv p"
  shows "sdskv_migrate_database_remi_ult M (leveldb_vtable L) (ldb_create_and_populate_fileset R) (Some RC) (Some p) q
      \<lparr>md_source_db_id = i, md_remove_src = remove, md_dest_root = root\<rparr> =
    (if find_name q (cfg_db_name config) \<noteq> None
     then Some (Some (set_db p i db), q, \<lparr>md_out_ret = - 102, md_out_remi_ret = REMI_ERR_USER RC\<rparr>)
     else Some (Some (if remove then fst (sdskv_provider_remove_database (set_db p i db) i) else set_db p i db),
       fst (sdskv_provider_attach_database (leveldb_vtable L) open_ds q config addr),
       \<lparr>md_out_ret = rc SDSKV_SUCCESS, md_out_remi_ret = 0\<rparr>))
    \<and> find_name (fst (sdskv_provider_attach_database (leveldb_vtable L) open_ds q config addr)) (cfg_db_name config) = Some addr"
proof -
  obtain f where f: "populate_fileset R ''leveldb'' db = Some f"
    using assms(5) by (auto simp: populate_fileset_def Let_def)
  have mv: "fileset_metadata R (moved f root) = fileset_metadata R f" "remi_root R (moved f root) = root"
      "rr_lookup RC = hg_success" "rr_handle_create RC = 0" "REMI_ERR_USER RC \<noteq> 0"
    using assms(2) by (simp_all add: remi_migrates_def)
  define q' where "q' = fst (sdskv_provider_attach_database (leveldb_vtable L) open_ds q config addr)"
  have att: "sdskv_provider_attach_database (leveldb_vtable L) open_ds q config addr = (q', rc SDSKV_SUCCESS, Some addr)"
      "find_name q' (cfg_db_name config) = Some addr"
    using assms(6-10)
    by (auto simp: q'_def sdskv_provider_attach_database_def attach_comp_fn_def arriving_config_def
        string_order.om_lookup_update_eq provider_inv_sorted split: option.splits list.splits)
  have pre: "fst (sdskv_pre_migration_callback R q has_pre type0 (moved f root))
      = (if find_name q (cfg_db_name config) \<noteq> None then - 102 else 0)"
    using pre_migration_arriving [OF assms(1) f mv(1), of q has_pre type0] assms(6,7,8) by (auto simp: arriving_config_def)
  have post: "fst (sdskv_post_migration_callback R (leveldb_vtable L) open_ds q has_post type0 (moved f root) addr) = q'"
      "fst (snd (sdskv_post_migration_callback R (leveldb_vtable L) open_ds q has_post type0 (moved f root) addr)) = 0"
    using post_migration_arriving [OF assms(1) f mv(1), of "leveldb_vtable L" open_ds q addr q' "rc SDSKV_SUCCESS"
        "Some addr" has_post type0] att(1) assms(8) mv(2) by simp_all
  have mig: "rr_migrate RC q f root b =
      (if find_name q (cfg_db_name config) \<noteq> None then (q, REMI_ERR_USER RC, - 102) else (q', 0, 0))" for b
    using assms(2) pre post by (simp add: remi_migrates_def case_prod_beta)
  have fs: "ldb_create_and_populate_fileset R db = Some (Some f)" "vt_sync (leveldb_vtable L) db = db"
    by (simp_all add: ldb_create_and_populate_fileset_def f leveldb_vtable_def)
  have rem: "snd (sdskv_provider_remove_database (set_db p i db) i) = rc SDSKV_SUCCESS"
    using assms(11) by (simp add: sdskv_provider_remove_database_def id_order.om_count_lookup find_db_set_db Let_def)
  show ?thesis
    using assms(3,4) mv(3-5) att rem
    by (simp add: mig case_prod_beta sdskv_migrate_database_remi_ult_def fs FIND_PROVIDER_def GET_INPUT_def CHECK_HG_def
        FIND_DATABASE_lookup q'_def Let_def)
qed

text \<open>A library to evaluate with: a fileset is its root and its metadata.\<close>

definition sample_remi :: "(string \<times> (string \<times> string) list) remi" where
  "sample_remi =
     \<lparr>remi_fileset_create = (\<lambda>c r. (r, [])),
      remi_fileset_register_directory = (\<lambda>f d. f),
      remi_fileset_register_metadata = (\<lambda>f k v. (fst f, snd f @ [(k, v)])),
      remi_metadata = snd, remi_root = fst,
      remi_fileset_compute_size = (\<lambda>f. (0, 0))\<rparr>"

lemma remi_ok_sample: "remi_ok sample_remi"
  by (simp add: remi_ok_def fileset_metadata_def sample_remi_def)

definition sample_remi_client ::
  "(sdskv_db_type_t \<Rightarrow> string \<Rightarrow> string \<Rightarrow> (bulk \<times> bulk) list leveldb_datastore option) \<Rightarrow> db_id \<Rightarrow>
   (string \<times> (string \<times> string) list, (bulk \<times> bulk) list leveldb_datastore provider) remi_client" where
  "sample_remi_client open_ds addr =
     \<lparr>rr_lookup = 0, rr_handle_create = 0,
      rr_migrate = (\<lambda>q f r b.
        case sdskv_pre_migration_callback sample_remi q False KVDB_NULL (r, snd f) of
          (code, _) \<Rightarrow>
            if code \<noteq> 0 then (q, - 12, code)
            else
              (case sdskv_post_migration_callback sample_remi (leveldb_vtable sample_leveldb) open_ds q False KVDB_NULL
                  (r, snd f) addr of
                 (q', code, _) \<Rightarrow> if code \<noteq> 0 then (q', - 12, code) else (q', 0, 0))),
      REMI_ERR_USER = - 12\<rparr>"

lemma remi_migrates_sample:
  "remi_migrates sample_remi (leveldb_vtable sample_leveldb) open_ds (\<lambda>f r. (r, snd f)) False False KVDB_NULL addr
     (sample_remi_client open_ds addr)"
  by (simp add: remi_migrates_def sample_remi_client_def case_prod_beta) (simp add: fileset_metadata_def sample_remi_def)

definition sample_migrating :: "(bulk \<times> bulk) list leveldb_datastore" where
  "sample_migrating = (sample_ldb [([1], [2])] True)\<lparr>ds_path := ''/a''\<rparr>"

definition sample_source :: "(bulk \<times> bulk) list leveldb_datastore provider" where
  "sample_source =
     \<lparr>databases = [(4096, sample_migrating)], name2id = [(''db'', 4096)], id2name = [(4096, ''db'')], compfunctions = []\<rparr>"

definition sample_open :: "sdskv_db_type_t \<Rightarrow> string \<Rightarrow> string \<Rightarrow> (bulk \<times> bulk) list leveldb_datastore option" where
  "sample_open type name path = Some ((sample_ldb [([1], [2])] False)\<lparr>ds_name := name, ds_path := path\<rparr>)"

lemma sample_source_inv: "provider_inv sample_source" "find_db sample_source 4096 = Some sample_migrating"
  by (auto simp: provider_inv_def sample_source_def om_sorted_def om_lookup_singleton
      string_order.same_iff_eq split: if_splits)

lemma sample_migrating_sel:
  "ds_path sample_migrating = ''/a''" "ds_comp_fun_name sample_migrating = []" "ds_name sample_migrating = ''db''"
  by (simp_all add: sample_migrating_def sample_ldb_def LevelDBDataStore_def AbstractDataStore_def
      leveldb_new.defs abstract_ds.defs)

theorem remi_migration_moves_witness:
  "\<exists>q'. sdskv_migrate_database_remi_ult ideal_margo (leveldb_vtable sample_leveldb)
      (ldb_create_and_populate_fileset sample_remi) (Some (sample_remi_client sample_open 64)) (Some sample_source)
      provider_new \<lparr>md_source_db_id = 4096, md_remove_src = True, md_dest_root = ''/b''\<rparr>
    = Some (Some (fst (sdskv_provider_remove_database (set_db sample_source 4096 sample_migrating) 4096)), q',
        \<lparr>md_out_ret = rc SDSKV_SUCCESS, md_out_remi_ret = 0\<rparr>)
    \<and> find_name q' ''db'' = Some 64"
proof -
  have cfg: "cfg_db_name (arriving_config KVDB_LEVELDB sample_migrating ''/b'') = ''db''"
    by (simp add: arriving_config_def sample_migrating_sel c_str_def)
  have inp: "mg_get_input ideal_margo = hg_success" by (simp add: ideal_margo_def)
  show ?thesis
    using remi_migration_moves [OF remi_ok_sample remi_migrates_sample inp sample_source_inv(2), where cmp_name = "[]"
        and q = provider_new and config = "arriving_config KVDB_LEVELDB sample_migrating ''/b''" and root = "''/b''"
        and remove = True and open_ds = sample_open and addr = 64]
      provider_inv_new sample_source_inv(1)
    by (simp add: cfg sample_migrating_sel sample_open_def c_str_def) (auto simp: provider_new_def)
qed

end
