(* ===== verification/Rpc_Registration.thy ===== *)
theory Rpc_Registration
  imports Sdskv_Prelude
begin

text \<open>
  The registration of the RPCs: by a provider in \<open>sdskv_provider_register\<close> (sdskv-server.cc), with the message types
  and the handler of each; by a client in \<open>sdskv_client_register\<close> (sdskv-client.c); and what the finalize callback
  of the provider takes back. The ids are kept in fields of the structures of provider and client, which have
  the same names in both.

  The registry of a Margo instance maps ids to entries. The id of an RPC is computed by Margo from its name and
  a provider id, the parameter \<open>hash\<close>; a client registers its RPCs for the provider id \<open>dflt\<close>, and a
  request sent to a provider reaches the id of the same name for that provider.
\<close>

section \<open>Registries\<close>

datatype rpc_field =
    sdskv_open_id
  | sdskv_count_databases_id
  | sdskv_list_databases_id
  | sdskv_put_id
  | sdskv_put_multi_id
  | sdskv_put_packed_id
  | sdskv_bulk_put_id
  | sdskv_get_id
  | sdskv_get_multi_id
  | sdskv_get_packed_id
  | sdskv_length_id
  | sdskv_length_multi_id
  | sdskv_length_packed_id
  | sdskv_exists_id
  | sdskv_exists_multi_id
  | sdskv_bulk_get_id
  | sdskv_list_keys_id
  | sdskv_list_keyvals_id
  | sdskv_erase_id
  | sdskv_erase_multi_id
  | sdskv_migrate_keys_id
  | sdskv_migrate_key_range_id
  | sdskv_migrate_keys_prefixed_id
  | sdskv_migrate_all_keys_id
  | sdskv_migrate_database_id

type_synonym rpc_id = "64 word"

text \<open>An entry has no handler on the side of a client; its data is the address of the provider.\<close>

record rpc_entry =
  re_in :: string
  re_out :: string
  re_handler :: "string option"
  re_data :: "nat option"

type_synonym registry = "rpc_id \<Rightarrow> rpc_entry option"

type_synonym rpc_ids = "rpc_field \<Rightarrow> rpc_id option"

section \<open>Providers\<close>

definition server_rpcs :: "(rpc_field \<times> string \<times> string \<times> string \<times> string) list" where
  "server_rpcs =
     [(sdskv_open_id, ''sdskv_open_rpc'', ''open_in_t'', ''open_out_t'', ''sdskv_open_ult''),
      (sdskv_count_databases_id, ''sdskv_count_databases_rpc'', ''void'', ''count_db_out_t'', ''sdskv_count_db_ult''),
      (sdskv_list_databases_id, ''sdskv_list_databases_rpc'', ''list_db_in_t'', ''list_db_out_t'', ''sdskv_list_db_ult''),
      (sdskv_put_id, ''sdskv_put_rpc'', ''put_in_t'', ''put_out_t'', ''sdskv_put_ult''),
      (sdskv_put_multi_id, ''sdskv_put_multi_rpc'', ''put_multi_in_t'', ''put_multi_out_t'', ''sdskv_put_multi_ult''),
      (sdskv_put_packed_id, ''sdskv_put_packed_rpc'', ''put_packed_in_t'', ''put_packed_out_t'', ''sdskv_put_packed_ult''),
      (sdskv_bulk_put_id, ''sdskv_bulk_put_rpc'', ''bulk_put_in_t'', ''bulk_put_out_t'', ''sdskv_bulk_put_ult''),
      (sdskv_get_id, ''sdskv_get_rpc'', ''get_in_t'', ''get_out_t'', ''sdskv_get_ult''),
      (sdskv_get_multi_id, ''sdskv_get_multi_rpc'', ''get_multi_in_t'', ''get_multi_out_t'', ''sdskv_get_multi_ult''),
      (sdskv_get_packed_id, ''sdskv_get_packed_rpc'', ''get_packed_in_t'', ''get_packed_out_t'', ''sdskv_get_packed_ult''),
      (sdskv_length_id, ''sdskv_length_rpc'', ''length_in_t'', ''length_out_t'', ''sdskv_length_ult''),
      (sdskv_length_multi_id, ''sdskv_length_multi_rpc'', ''length_multi_in_t'', ''length_multi_out_t'', ''sdskv_length_multi_ult''),
      (sdskv_length_packed_id, ''sdskv_length_packed_rpc'', ''length_packed_in_t'', ''length_packed_out_t'', ''sdskv_length_packed_ult''),
      (sdskv_exists_id, ''sdskv_exists_rpc'', ''exists_in_t'', ''exists_out_t'', ''sdskv_exists_ult''),
      (sdskv_exists_multi_id, ''sdskv_exists_multi_rpc'', ''exists_multi_in_t'', ''exists_multi_out_t'', ''sdskv_exists_multi_ult''),
      (sdskv_bulk_get_id, ''sdskv_bulk_get_rpc'', ''bulk_get_in_t'', ''bulk_get_out_t'', ''sdskv_bulk_get_ult''),
      (sdskv_list_keys_id, ''sdskv_list_keys_rpc'', ''list_keys_in_t'', ''list_keys_out_t'', ''sdskv_list_keys_ult''),
      (sdskv_list_keyvals_id, ''sdskv_list_keyvals_rpc'', ''list_keyvals_in_t'', ''list_keyvals_out_t'', ''sdskv_list_keyvals_ult''),
      (sdskv_erase_id, ''sdskv_erase_rpc'', ''erase_in_t'', ''erase_out_t'', ''sdskv_erase_ult''),
      (sdskv_erase_multi_id, ''sdskv_erase_multi_rpc'', ''erase_multi_in_t'', ''erase_multi_out_t'', ''sdskv_erase_multi_ult''),
      (sdskv_migrate_keys_id, ''sdskv_migrate_keys_rpc'', ''migrate_keys_in_t'', ''migrate_keys_out_t'', ''sdskv_migrate_keys_ult''),
      (sdskv_migrate_key_range_id, ''sdskv_migrate_key_range_rpc'', ''migrate_key_range_in_t'', ''migrate_keys_out_t'', ''sdskv_migrate_key_range_ult''),
      (sdskv_migrate_keys_prefixed_id, ''sdskv_migrate_keys_prefixed_rpc'', ''migrate_keys_prefixed_in_t'', ''migrate_keys_out_t'', ''sdskv_migrate_keys_prefixed_ult''),
      (sdskv_migrate_all_keys_id, ''sdskv_migrate_all_keys_rpc'', ''migrate_all_keys_in_t'', ''migrate_keys_out_t'', ''sdskv_migrate_all_keys_ult''),
      (sdskv_migrate_database_id, ''sdskv_migrate_database_rpc'', ''migrate_database_in_t'', ''migrate_database_out_t'', ''sdskv_migrate_database_ult'')]"

definition register_rpcs :: "(string \<Rightarrow> nat \<Rightarrow> rpc_id) \<Rightarrow> nat \<Rightarrow> nat \<Rightarrow> registry \<Rightarrow> registry \<times> rpc_ids" where
  "register_rpcs hash provider_id tmp_provider reg =
     fold (\<lambda>(f, name, i, out, handler) (reg, ids).
         (reg(hash name provider_id \<mapsto> \<lparr>re_in = i, re_out = out, re_handler = Some handler, re_data = Some tmp_provider\<rparr>),
          ids(f \<mapsto> hash name provider_id)))
       server_rpcs (reg, Map.empty)"

definition finalized_rpcs :: "rpc_field list" where
  "finalized_rpcs =
     [sdskv_open_id, sdskv_count_databases_id, sdskv_list_databases_id, sdskv_put_id,
      sdskv_put_multi_id, sdskv_bulk_put_id, sdskv_get_id, sdskv_get_multi_id,
      sdskv_exists_id, sdskv_erase_id, sdskv_erase_multi_id, sdskv_length_id,
      sdskv_length_multi_id, sdskv_bulk_get_id, sdskv_list_keys_id, sdskv_list_keyvals_id,
      sdskv_migrate_keys_id, sdskv_migrate_key_range_id, sdskv_migrate_keys_prefixed_id, sdskv_migrate_all_keys_id,
      sdskv_migrate_database_id]"

definition deregister_rpcs :: "rpc_ids \<Rightarrow> registry \<Rightarrow> registry" where
  "deregister_rpcs ids reg =
     fold (\<lambda>f reg. case ids f of None \<Rightarrow> reg | Some i \<Rightarrow> reg(i := None)) finalized_rpcs reg"

section \<open>Clients\<close>

definition client_rpcs :: "(rpc_field \<times> string \<times> string \<times> string) list" where
  "client_rpcs =
     [(sdskv_open_id, ''sdskv_open_rpc'', ''open_in_t'', ''open_out_t''),
      (sdskv_count_databases_id, ''sdskv_count_databases_rpc'', ''void'', ''count_db_out_t''),
      (sdskv_list_databases_id, ''sdskv_list_databases_rpc'', ''list_db_in_t'', ''list_db_out_t''),
      (sdskv_put_id, ''sdskv_put_rpc'', ''put_in_t'', ''put_out_t''),
      (sdskv_put_multi_id, ''sdskv_put_multi_rpc'', ''put_multi_in_t'', ''put_multi_out_t''),
      (sdskv_put_packed_id, ''sdskv_put_packed_rpc'', ''put_packed_in_t'', ''put_packed_out_t''),
      (sdskv_bulk_put_id, ''sdskv_bulk_put_rpc'', ''bulk_put_in_t'', ''bulk_put_out_t''),
      (sdskv_get_id, ''sdskv_get_rpc'', ''get_in_t'', ''get_out_t''),
      (sdskv_get_multi_id, ''sdskv_get_multi_rpc'', ''get_multi_in_t'', ''get_multi_out_t''),
      (sdskv_get_packed_id, ''sdskv_get_packed_rpc'', ''get_packed_in_t'', ''get_packed_out_t''),
      (sdskv_erase_id, ''sdskv_erase_rpc'', ''erase_in_t'', ''erase_out_t''),
      (sdskv_erase_multi_id, ''sdskv_erase_multi_rpc'', ''erase_multi_in_t'', ''erase_multi_out_t''),
      (sdskv_exists_id, ''sdskv_exists_rpc'', ''exists_in_t'', ''exists_out_t''),
      (sdskv_exists_multi_id, ''sdskv_exists_multi_rpc'', ''exists_multi_in_t'', ''exists_multi_out_t''),
      (sdskv_length_id, ''sdskv_length_rpc'', ''length_in_t'', ''length_out_t''),
      (sdskv_length_multi_id, ''sdskv_length_multi_rpc'', ''length_multi_in_t'', ''length_multi_out_t''),
      (sdskv_length_packed_id, ''sdskv_length_packed_rpc'', ''length_packed_in_t'', ''length_packed_out_t''),
      (sdskv_bulk_get_id, ''sdskv_bulk_get_rpc'', ''bulk_get_in_t'', ''bulk_get_out_t''),
      (sdskv_list_keys_id, ''sdskv_list_keys_rpc'', ''list_keys_in_t'', ''list_keys_out_t''),
      (sdskv_list_keyvals_id, ''sdskv_list_keyvals_rpc'', ''list_keyvals_in_t'', ''list_keyvals_out_t''),
      (sdskv_migrate_keys_id, ''sdskv_migrate_keys_rpc'', ''migrate_keys_in_t'', ''migrate_keys_out_t''),
      (sdskv_migrate_key_range_id, ''sdskv_migrate_key_range_rpc'', ''migrate_key_range_in_t'', ''migrate_keys_out_t''),
      (sdskv_migrate_keys_prefixed_id, ''sdskv_migrate_keys_prefixed_rpc'', ''migrate_keys_prefixed_in_t'', ''migrate_keys_out_t''),
      (sdskv_migrate_all_keys_id, ''sdskv_migrate_all_keys_rpc'', ''migrate_all_keys_in_t'', ''migrate_keys_out_t''),
      (sdskv_migrate_database_id, ''sdskv_migrate_database_rpc'', ''migrate_database_in_t'', ''migrate_database_out_t'')]"

text \<open>The names by which a client looks up RPCs that are registered already.\<close>

definition client_names :: "(rpc_field \<times> string) list" where
  "client_names =
     [(sdskv_open_id, ''sdskv_open_rpc''),
      (sdskv_count_databases_id, ''sdskv_count_databases_rpc''),
      (sdskv_list_databases_id, ''sdskv_list_databases_rpc''),
      (sdskv_put_id, ''sdskv_put_rpc''),
      (sdskv_put_multi_id, ''sdskv_put_multi_rpc''),
      (sdskv_put_packed_id, ''sdskv_put_packed_rpc''),
      (sdskv_bulk_put_id, ''sdskv_bulk_put_rpc''),
      (sdskv_get_id, ''sdskv_get_rpc''),
      (sdskv_get_multi_id, ''sdskv_get_multi_rpc''),
      (sdskv_get_packed_id, ''sdskv_get_packed_rpc''),
      (sdskv_erase_id, ''sdskv_erase_rpc''),
      (sdskv_erase_multi_id, ''sdskv_erase_multi_rpc''),
      (sdskv_exists_id, ''sdskv_exists_rpc''),
      (sdskv_exists_multi_id, ''sdskv_exists_multi_rpc''),
      (sdskv_length_id, ''sdskv_length_rpc''),
      (sdskv_length_multi_id, ''sdskv_length_multi_rpc''),
      (sdskv_length_packed_id, ''sdskv_length_packed_rpc''),
      (sdskv_bulk_get_id, ''sdskv_bulk_get_rpc''),
      (sdskv_list_keys_id, ''sdskv_list_keys_rpc''),
      (sdskv_list_keyvals_id, ''sdskv_list_keyvals_rpc''),
      (sdskv_migrate_keys_id, ''sdskv_migrate_keys_rpc''),
      (sdskv_migrate_key_range_id, ''sdskv_migrate_key_range_rpc''),
      (sdskv_migrate_keys_prefixed_id, ''sdskv_migrate_keys_prefixed_rpc''),
      (sdskv_migrate_all_keys_id, ''sdskv_migrate_all_keys_rpc''),
      (sdskv_migrate_database_id, ''sdskv_migrate_database_rpc'')]"

text \<open>An RPC that is looked up and not registered gets the id 0.\<close>

definition sdskv_client_register :: "(string \<Rightarrow> nat \<Rightarrow> rpc_id) \<Rightarrow> nat \<Rightarrow> registry \<Rightarrow> registry \<times> rpc_ids" where
  "sdskv_client_register hash dflt reg =
     (if reg (hash ''sdskv_put_rpc'' dflt) \<noteq> None then
        (reg, fold (\<lambda>(f, name) ids.
           ids(f \<mapsto> (if reg (hash name dflt) \<noteq> None then hash name dflt else 0))) client_names Map.empty)
      else
        fold (\<lambda>(f, name, i, out) (reg, ids).
            (reg(hash name dflt \<mapsto> \<lparr>re_in = i, re_out = out, re_handler = None, re_data = None\<rparr>),
             ids(f \<mapsto> hash name dflt)))
          client_rpcs (reg, Map.empty))"

section \<open>Laws\<close>

lemma fold_upd: "fold (\<lambda>x m. m(k x \<mapsto> v x)) xs m = m ++ map_of (rev (map (\<lambda>x. (k x, v x)) xs))"
  by (induction xs arbitrary: m) (auto simp: fun_eq_iff map_add_def split: option.splits)

lemma fold_upd_pair:
  "fold (\<lambda>x (m, n). (m(k x \<mapsto> v x), n(k' x \<mapsto> v' x))) xs (m, n)
   = (fold (\<lambda>x m. m(k x \<mapsto> v x)) xs m, fold (\<lambda>x n. n(k' x \<mapsto> v' x)) xs n)"
  by (induction xs arbitrary: m n) simp_all

lemma map_of_rev_entry:
  assumes "inj_on k (set xs)" "x \<in> set xs"
  shows "map_of (rev (map (\<lambda>x. (k x, v x)) xs)) (k x) = Some (v x)"
proof -
  have "map_of (map (\<lambda>x. (k x, v x)) (rev xs)) (k x) = Some (v x)"
    using assms
  proof (induction xs rule: rev_induct)
    case (snoc y ys)
    then show ?case
      by (cases "x = y") (auto simp: inj_on_def)
  qed simp
  then show ?thesis by (simp add: rev_map)
qed

lemma register_rpcs_eq:
  "register_rpcs hash pid prov reg =
     (reg ++ map_of (rev (map (\<lambda>r. (hash (fst (snd r)) pid,
        \<lparr>re_in = fst (snd (snd r)), re_out = fst (snd (snd (snd r))), re_handler = Some (snd (snd (snd (snd r)))),
         re_data = Some prov\<rparr>)) server_rpcs)),
      map_of (rev (map (\<lambda>r. (fst r, hash (fst (snd r)) pid)) server_rpcs)))"
  unfolding register_rpcs_def case_prod_beta' fold_upd_pair [unfolded case_prod_beta'] fold_upd by simp

lemma client_register_fresh:
  assumes "reg (hash ''sdskv_put_rpc'' dflt) = None"
  shows "sdskv_client_register hash dflt reg =
     (reg ++ map_of (rev (map (\<lambda>r. (hash (fst (snd r)) dflt,
        \<lparr>re_in = fst (snd (snd r)), re_out = snd (snd (snd r)), re_handler = None, re_data = None\<rparr>)) client_rpcs)),
      map_of (rev (map (\<lambda>r. (fst r, hash (fst (snd r)) dflt)) client_rpcs)))"
  using assms
  unfolding sdskv_client_register_def case_prod_beta' fold_upd_pair [unfolded case_prod_beta'] fold_upd by simp

lemma client_register_again:
  assumes "reg (hash ''sdskv_put_rpc'' dflt) \<noteq> None"
  shows "sdskv_client_register hash dflt reg =
     (reg, map_of (rev (map (\<lambda>r. (fst r, if reg (hash (snd r) dflt) \<noteq> None then hash (snd r) dflt else 0)) client_names)))"
  using assms unfolding sdskv_client_register_def case_prod_beta' fold_upd by simp

lemma deregister_rpcs_eq:
  "deregister_rpcs ids reg j = (if \<exists>f\<in>set finalized_rpcs. ids f = Some j then None else reg j)"
proof -
  have "fold (\<lambda>f reg. case ids f of None \<Rightarrow> reg | Some i \<Rightarrow> reg(i := None)) fs reg j
      = (if \<exists>f\<in>set fs. ids f = Some j then None else reg j)" for fs
    by (induction fs arbitrary: reg) (auto split: option.splits)
  then show ?thesis by (simp add: deregister_rpcs_def)
qed

text \<open>The tables themselves.\<close>

lemma client_table: "map (\<lambda>r. (fst r, fst (snd r))) client_rpcs = client_names"
  by code_simp

lemma tables_agree: "set client_rpcs = (\<lambda>r. (fst r, fst (snd r), fst (snd (snd r)), fst (snd (snd (snd r))))) ` set server_rpcs"
  by code_simp

lemma table_keys:
  "distinct (map fst server_rpcs)" "distinct (map (\<lambda>r. fst (snd r)) server_rpcs)"
  "distinct (map fst client_rpcs)" "distinct (map (\<lambda>r. fst (snd r)) client_rpcs)"
  by code_simp+

lemma put_rpc_in_table: "(sdskv_put_id, ''sdskv_put_rpc'', ''put_in_t'', ''put_out_t'') \<in> set client_rpcs"
  by (simp add: client_rpcs_def)

text \<open>The hash keeps the names of the RPCs apart for a provider id.\<close>

definition names_hashed :: "(string \<Rightarrow> nat \<Rightarrow> rpc_id) \<Rightarrow> nat \<Rightarrow> bool" where
  "names_hashed hash pid \<longleftrightarrow> inj_on (\<lambda>n. hash n pid) (set (map snd client_names))"

lemma server_names: "set (map (\<lambda>r. fst (snd r)) server_rpcs) = set (map snd client_names)"
  by code_simp

lemma client_names_eq: "set (map (\<lambda>r. fst (snd r)) client_rpcs) = set (map snd client_names)"
  by code_simp

lemma names_hashed_entry:
  assumes "names_hashed hash pid" "distinct (map (\<lambda>r. fst (snd r)) xs)"
    and "set (map (\<lambda>r. fst (snd r)) xs) = set (map snd client_names)"
  shows "inj_on (\<lambda>r. hash (fst (snd r)) pid) (set xs)"
proof -
  have "inj_on (\<lambda>n. hash n pid) ((\<lambda>r. fst (snd r)) ` set xs)"
    using assms(1,3) by (simp add: names_hashed_def)
  moreover have "inj_on (\<lambda>r. fst (snd r)) (set xs)"
    using assms(2) by (simp add: distinct_map)
  ultimately show ?thesis by (auto simp: inj_on_def)
qed

lemma server_entry:
  assumes "names_hashed hash pid" "(f, n, i, out, h) \<in> set server_rpcs"
  shows "fst (register_rpcs hash pid prov reg) (hash n pid)
      = Some \<lparr>re_in = i, re_out = out, re_handler = Some h, re_data = Some prov\<rparr>"
    and "snd (register_rpcs hash pid prov reg) f = Some (hash n pid)"
proof -
  have inj: "inj_on (\<lambda>r. hash (fst (snd r)) pid) (set server_rpcs)"
    by (rule names_hashed_entry [OF assms(1) table_keys(2) server_names])
  note e = map_of_rev_entry [OF inj assms(2),
      where v = "\<lambda>r. \<lparr>re_in = fst (snd (snd r)), re_out = fst (snd (snd (snd r))), re_handler = Some (snd (snd (snd (snd r)))),
         re_data = Some prov\<rparr>"]
  show "fst (register_rpcs hash pid prov reg) (hash n pid)
      = Some \<lparr>re_in = i, re_out = out, re_handler = Some h, re_data = Some prov\<rparr>"
    using e by (simp add: register_rpcs_eq map_add_def)
  have "inj_on fst (set server_rpcs)"
    using table_keys(1) by (simp add: distinct_map)
  from map_of_rev_entry [OF this assms(2), where v = "\<lambda>r. hash (fst (snd r)) pid"]
  show "snd (register_rpcs hash pid prov reg) f = Some (hash n pid)"
    by (simp add: register_rpcs_eq)
qed

lemma client_entry:
  assumes "names_hashed hash dflt" "reg (hash ''sdskv_put_rpc'' dflt) = None" "(f, n, i, out) \<in> set client_rpcs"
  shows "fst (sdskv_client_register hash dflt reg) (hash n dflt)
      = Some \<lparr>re_in = i, re_out = out, re_handler = None, re_data = None\<rparr>"
    and "snd (sdskv_client_register hash dflt reg) f = Some (hash n dflt)"
proof -
  have inj: "inj_on (\<lambda>r. hash (fst (snd r)) dflt) (set client_rpcs)"
    by (rule names_hashed_entry [OF assms(1) table_keys(4) client_names_eq])
  note e = map_of_rev_entry [OF inj assms(3),
      where v = "\<lambda>r. \<lparr>re_in = fst (snd (snd r)), re_out = snd (snd (snd r)), re_handler = None, re_data = None\<rparr>"]
  show "fst (sdskv_client_register hash dflt reg) (hash n dflt)
      = Some \<lparr>re_in = i, re_out = out, re_handler = None, re_data = None\<rparr>"
    using e by (simp add: client_register_fresh assms(2) map_add_def)
  have "inj_on fst (set client_rpcs)"
    using table_keys(3) by (simp add: distinct_map)
  from map_of_rev_entry [OF this assms(3), where v = "\<lambda>r. hash (fst (snd r)) dflt"]
  show "snd (sdskv_client_register hash dflt reg) f = Some (hash n dflt)"
    by (simp add: client_register_fresh assms(2))
qed

lemma client_registered_ids:
  assumes "names_hashed hash dflt" "reg (hash ''sdskv_put_rpc'' dflt) = None"
  shows "sdskv_client_register hash dflt (fst (sdskv_client_register hash dflt reg)) = sdskv_client_register hash dflt reg"
proof -
  let ?reg = "fst (sdskv_client_register hash dflt reg)"
  have "?reg (hash ''sdskv_put_rpc'' dflt) \<noteq> None"
    using client_entry(1) [of hash dflt reg, OF assms put_rpc_in_table] by simp
  note again = client_register_again [of ?reg hash dflt, OF this]
  have "map (\<lambda>r. (fst r, if ?reg (hash (snd r) dflt) \<noteq> None then hash (snd r) dflt else 0)) client_names
      = map (\<lambda>r. (fst r, hash (fst (snd r)) dflt)) client_rpcs"
    unfolding client_table [symmetric] map_map
  proof (rule map_cong [OF refl])
    fix r assume r: "r \<in> set client_rpcs"
    obtain f n i out where "r = (f, n, i, out)"
      by (cases r)
    with r show "((\<lambda>r. (fst r, if ?reg (hash (snd r) dflt) \<noteq> None then hash (snd r) dflt else 0)) \<circ> (\<lambda>r. (fst r, fst (snd r)))) r
        = (fst r, hash (fst (snd r)) dflt)"
      using client_entry(1) [of hash dflt reg, OF assms, of f n i out] by simp
  qed
  then show ?thesis
    unfolding again by (simp only: client_register_fresh [of reg hash dflt, OF assms(2)] fst_conv)
qed

text \<open>A hash that keeps the names apart, for the witnesses: the position of the name in the table.\<close>

fun position :: "string \<Rightarrow> (rpc_field \<times> string) list \<Rightarrow> nat" where
  "position name [] = 0"
| "position name (r # rs) = (if snd r = name then 0 else Suc (position name rs))"

definition sample_hash :: "string \<Rightarrow> nat \<Rightarrow> rpc_id" where
  "sample_hash name pid = word_of_nat (pid * 100 + position name client_names + 1)"

lemma position_inj:
  "n \<in> snd ` set rs \<Longrightarrow> position n rs = position n' rs \<Longrightarrow> n = n'"
  by (induction rs) (auto split: if_splits)

lemma position_less: "position n rs \<le> length rs"
  by (induction rs) auto

lemma names_hashed_sample:
  assumes "pid < 65536"
  shows "names_hashed sample_hash pid"
proof -
  have "length client_names < 100"
    by code_simp
  then have small: "pid * 100 + position n client_names + 1 < 2 ^ LENGTH(64)" for n
    using position_less [of n client_names] assms by simp
  have "unat (sample_hash n pid) = pid * 100 + position n client_names + 1" for n
    unfolding sample_hash_def unsigned_of_nat by (simp only: take_bit_nat_eq_self [OF small] of_nat_id)
  then have "sample_hash n pid = sample_hash n' pid \<Longrightarrow> position n client_names = position n' client_names" for n n'
    by (metis add_right_cancel add_left_cancel)
  then have "n = n'" if "n \<in> snd ` set client_names" "sample_hash n pid = sample_hash n' pid" for n n'
    using that position_inj by blast
  then show ?thesis
    unfolding names_hashed_def inj_on_def set_map by blast
qed

section \<open>Properties\<close>

text \<open>
  C25. The two sides of every RPC fit together. A client of an instance in which no RPC of the library is
  registered gets, for each of its fields, the id of the RPC of that field; a client that registers again in the
  same instance gets the same ids; and a provider has, under the id of the same name for its provider id, an entry
  with the same input and output types and the handler named after the field.
\<close>

theorem rpcs_connect:
  assumes "names_hashed hash dflt" "names_hashed hash pid"
    and "creg (hash ''sdskv_put_rpc'' dflt) = None"
    and "(f, n, i, out) \<in> set client_rpcs"
  shows "snd (sdskv_client_register hash dflt creg) f = Some (hash n dflt)
      \<and> sdskv_client_register hash dflt (fst (sdskv_client_register hash dflt creg)) = sdskv_client_register hash dflt creg
      \<and> (\<exists>h. fst (register_rpcs hash pid prov sreg) (hash n pid)
           = Some \<lparr>re_in = i, re_out = out, re_handler = Some h, re_data = Some prov\<rparr>
         \<and> (f, n, i, out, h) \<in> set server_rpcs)"
proof -
  obtain h where h: "(f, n, i, out, h) \<in> set server_rpcs"
    using assms(4) unfolding tables_agree by force
  show ?thesis
    using client_entry(2) [of hash dflt creg, OF assms(1,3,4)] client_registered_ids [of hash dflt creg, OF assms(1,3)]
      server_entry(1) [OF assms(2) h] h by blast
qed

theorem rpcs_connect_witness:
  "snd (sdskv_client_register sample_hash 65535 Map.empty) sdskv_put_id = Some (sample_hash ''sdskv_put_rpc'' 65535)
   \<and> (\<exists>h. fst (register_rpcs sample_hash 7 1000 Map.empty) (sample_hash ''sdskv_put_rpc'' 7)
        = Some \<lparr>re_in = ''put_in_t'', re_out = ''put_out_t'', re_handler = Some h, re_data = Some 1000\<rparr>)"
  using rpcs_connect [of sample_hash 65535 7 Map.empty, OF names_hashed_sample names_hashed_sample _ put_rpc_in_table, of 1000 Map.empty]
  by auto

text \<open>
  The finalize callback takes back exactly the RPCs of its list. The entries of put_packed, get_packed, length_packed
  and exists_multi stay in the registry, with the address of the provider that has been deleted.
\<close>

theorem finalize_leaves_rpcs:
  assumes "names_hashed hash pid" "(f, n, i, out, h) \<in> set server_rpcs"
    and "register_rpcs hash pid prov reg = (reg', ids)"
  shows "deregister_rpcs ids reg' (hash n pid)
      = (if f \<in> {sdskv_put_packed_id, sdskv_get_packed_id, sdskv_length_packed_id, sdskv_exists_multi_id}
         then Some \<lparr>re_in = i, re_out = out, re_handler = Some h, re_data = Some prov\<rparr> else None)"
proof -
  note entry = server_entry [OF assms(1), of _ _ _ _ _ prov reg, unfolded assms(3) fst_conv snd_conv]
  have known: "f \<in> set finalized_rpcs \<longleftrightarrow> f \<notin> {sdskv_put_packed_id, sdskv_get_packed_id, sdskv_length_packed_id, sdskv_exists_multi_id}"
    by (cases f) (simp_all add: finalized_rpcs_def)
  have fields: "\<forall>g\<in>set finalized_rpcs. \<exists>r\<in>set server_rpcs. fst r = g"
    by code_simp
  have inj: "inj_on (\<lambda>r. hash (fst (snd r)) pid) (set server_rpcs)"
    by (rule names_hashed_entry [OF assms(1) table_keys(2) server_names])
  have same: "g = f" if g: "g \<in> set finalized_rpcs" and i: "ids g = Some (hash n pid)" for g
  proof -
    obtain r where r: "r \<in> set server_rpcs" "fst r = g"
      using fields g by blast
    obtain f' n' i' o' h' where "r = (f', n', i', o', h')"
      by (cases r)
    with r have "ids g = Some (hash (fst (snd r)) pid)"
      using entry(2) [of f' n' i' o' h'] by simp
    with i have "hash (fst (snd r)) pid = hash (fst (snd (f, n, i, out, h))) pid" by simp
    then have "r = (f, n, i, out, h)"
      by (rule inj_onD [OF inj _ r(1) assms(2)])
    with r(2) show ?thesis by simp
  qed
  have "(\<exists>g\<in>set finalized_rpcs. ids g = Some (hash n pid)) \<longleftrightarrow> f \<in> set finalized_rpcs"
    using same entry(2) [OF assms(2)] by blast
  then show ?thesis
    unfolding deregister_rpcs_eq entry(1) [OF assms(2)] known by simp
qed

lemma put_packed_in_table:
  "(sdskv_put_packed_id, ''sdskv_put_packed_rpc'', ''put_packed_in_t'', ''put_packed_out_t'', ''sdskv_put_packed_ult'') \<in> set server_rpcs"
  by (simp add: server_rpcs_def)

theorem finalize_leaves_rpcs_witness:
  "case register_rpcs sample_hash 7 1000 Map.empty of (reg, ids) \<Rightarrow>
     deregister_rpcs ids reg (sample_hash ''sdskv_put_packed_rpc'' 7)
     = Some \<lparr>re_in = ''put_packed_in_t'', re_out = ''put_packed_out_t'', re_handler = Some ''sdskv_put_packed_ult'',
         re_data = Some 1000\<rparr>"
  using finalize_leaves_rpcs [OF names_hashed_sample [of 7] put_packed_in_table surjective_pairing, of 1000 Map.empty]
  by (simp add: case_prod_beta)

end
