(* ===== verification/Server_Daemon.thy ===== *)
theory Server_Daemon
  imports Provider_Config_Laws Service_Attach Sample_Service
begin

text \<open>
  The server program, sdskv-server-daemon.c: it reads the databases to serve from its command line and attaches
  them to one provider, or to one provider each.

  \<open>getopt\<close> of the C library is modelled for the option string of the program. What Margo and the file system answer
  is in the record \<open>daemon_env\<close>. The process ends with an exit code, \<open>Inl\<close>, or serves its providers, \<open>Inr\<close>;
  \<open>None\<close> is an exception that is not caught.
\<close>

section \<open>The command line\<close>

datatype kv_mplex_mode_t = MODE_DATABASES | MODE_PROVIDERS

datatype margo_log_level =
    MARGO_LOG_TRACE | MARGO_LOG_DEBUG | MARGO_LOG_INFO | MARGO_LOG_WARNING | MARGO_LOG_ERROR | MARGO_LOG_CRITICAL

text \<open>The pair of lists \<open>db_names\<close> and \<open>db_types\<close> is one list; the level \<open>None\<close> is the value 0 of \<open>memset\<close>.\<close>

record options =
  listen_addr_str :: string
  dbs :: "(string \<times> sdskv_db_type_t) list"
  host_file :: "string option"
  mplex_mode :: kv_mplex_mode_t
  log_level :: "margo_log_level option"

text \<open>The name without its suffix and the type the suffix gives.\<close>

definition parse_db_type :: "string \<Rightarrow> int + string \<times> sdskv_db_type_t" where
  "parse_db_type db_fullname =
     (let name = takeWhile (\<lambda>c. c \<noteq> CHR '':'') db_fullname in
      case dropWhile (\<lambda>c. c \<noteq> CHR '':'') db_fullname of
        [] \<Rightarrow> Inr (db_fullname, KVDB_MAP)
      | column # db_type \<Rightarrow>
          if db_type = ''null'' then Inr (name, KVDB_NULL)
          else if db_type = ''map'' then Inr (name, KVDB_MAP)
          else if db_type = ''bwt'' then Inr (name, KVDB_BWTREE)
          else if db_type = ''bdb'' then Inr (name, KVDB_BERKELEYDB)
          else if db_type = ''ldb'' then Inr (name, KVDB_LEVELDB)
          else Inl (-1))"

definition parse_log_level :: "string \<Rightarrow> int + margo_log_level" where
  "parse_log_level level =
     (if level = ''trace'' then Inr MARGO_LOG_TRACE
      else if level = ''debug'' then Inr MARGO_LOG_DEBUG
      else if level = ''info'' then Inr MARGO_LOG_INFO
      else if level = ''warning'' then Inr MARGO_LOG_WARNING
      else if level = ''error'' then Inr MARGO_LOG_ERROR
      else if level = ''critical'' then Inr MARGO_LOG_CRITICAL
      else Inl (-1))"

text \<open>
  \<open>getopt\<close> with the option string \<open>f:m:v:\<close>: the options with their arguments and the operands. An unknown
  option and a missing argument give a question mark, after which the program reads no further.
\<close>

fun getopt :: "string list \<Rightarrow> (char \<times> string) list \<times> string list" where
  "getopt [] = ([], [])"
| "getopt (a # as) =
     (case a of
        d # c # optarg \<Rightarrow>
          if d \<noteq> CHR ''-'' then apsnd ((#) a) (getopt as)
          else if c = CHR ''-'' \<and> optarg = [] then ([], as)
          else if c \<notin> {CHR ''f'', CHR ''m'', CHR ''v''} then ([(CHR ''?'', [])], as)
          else if optarg \<noteq> [] then apfst ((#) (c, optarg)) (getopt as)
          else (case as of
                  [] \<Rightarrow> ([(CHR ''?'', [])], [])
                | b # bs \<Rightarrow> apfst ((#) (c, b)) (getopt bs))
      | _ \<Rightarrow> apsnd ((#) a) (getopt as))"

definition EXIT_FAILURE :: int where
  "EXIT_FAILURE = 1"

definition parse_option :: "options \<Rightarrow> char \<times> string \<Rightarrow> int + options" where
  "parse_option opts x =
     (let (opt, optarg) = x in
      if opt = CHR ''f'' then Inr (opts\<lparr>host_file := Some optarg\<rparr>)
      else if opt = CHR ''m'' then
        (if optarg = ''databases'' then Inr (opts\<lparr>mplex_mode := MODE_DATABASES\<rparr>)
         else if optarg = ''providers'' then Inr (opts\<lparr>mplex_mode := MODE_PROVIDERS\<rparr>)
         else Inl EXIT_FAILURE)
      else if opt = CHR ''v'' then
        (case parse_log_level optarg of Inl e \<Rightarrow> Inl e | Inr l \<Rightarrow> Inr (opts\<lparr>log_level := Some l\<rparr>))
      else Inl EXIT_FAILURE)"

fun parse_options :: "options \<Rightarrow> (char \<times> string) list \<Rightarrow> int + options" where
  "parse_options opts [] = Inr opts"
| "parse_options opts (x # xs) =
     (case parse_option opts x of Inl e \<Rightarrow> Inl e | Inr opts \<Rightarrow> parse_options opts xs)"

fun parse_dbs :: "string list \<Rightarrow> int + (string \<times> sdskv_db_type_t) list" where
  "parse_dbs [] = Inr []"
| "parse_dbs (a # as) =
     (case parse_db_type a of
        Inl e \<Rightarrow> Inl e
      | Inr d \<Rightarrow> (case parse_dbs as of Inl e \<Rightarrow> Inl e | Inr ds \<Rightarrow> Inr (d # ds)))"

text \<open>The arguments after the name of the program.\<close>

definition parse_args :: "string list \<Rightarrow> int + options" where
  "parse_args args =
     (let opts = \<lparr>listen_addr_str = [], dbs = [], host_file = None, mplex_mode = MODE_DATABASES, log_level = None\<rparr>;
          (seen, operands) = getopt args
      in case parse_options opts seen of
           Inl e \<Rightarrow> Inl e
         | Inr opts \<Rightarrow>
             (case operands of
                addr # db # names \<Rightarrow>
                  (case parse_dbs (db # names) of
                     Inl e \<Rightarrow> Inl e
                   | Inr ds \<Rightarrow> Inr (opts\<lparr>listen_addr_str := addr, dbs := ds\<rparr>))
              | _ \<Rightarrow> Inl EXIT_FAILURE))"

section \<open>Starting the providers\<close>

text \<open>What lies before the last slash is the path, what lies after it the name.\<close>

definition daemon_config :: "string \<Rightarrow> sdskv_db_type_t \<Rightarrow> sdskv_config_t" where
  "daemon_config path type =
     (let slash = CHR ''/'' \<in> set path;
          db_name = (if slash then rev (takeWhile (\<lambda>c. c \<noteq> CHR ''/'') (rev path)) else path);
          db_path = (if slash then rev (tl (dropWhile (\<lambda>c. c \<noteq> CHR ''/'') (rev path))) else [])
      in \<lparr>cfg_db_name = db_name, cfg_db_path = db_path, cfg_db_type = type, cfg_db_comp_fn_name = None,
          cfg_db_no_overwrite = False\<rparr>)"

text \<open>The loop over the databases of one provider; the \<open>i\<close>-th database object is allocated at \<open>addr i\<close>.\<close>

fun attach_all ::
  "'ds vtable \<Rightarrow> (sdskv_db_type_t \<Rightarrow> string \<Rightarrow> string \<Rightarrow> 'ds option) \<Rightarrow> (nat \<Rightarrow> db_id) \<Rightarrow>
   nat \<Rightarrow> 'ds provider \<Rightarrow> (string \<times> sdskv_db_type_t) list \<Rightarrow> int + 'ds provider" where
  "attach_all V open_ds addr i p [] = Inr p"
| "attach_all V open_ds addr i p ((path, type) # ds) =
     (let (p', ret, db_id) = sdskv_provider_attach_database V open_ds p (daemon_config path type) (addr i) in
      if ret \<noteq> 0 then Inl (-1) else attach_all V open_ds addr (Suc i) p' ds)"

text \<open>
  A provider without configuration: \<open>reg registered\<close> is \<open>sdskv_provider_register\<close>, where \<open>registered\<close> says
  whether the provider id is in use. The id \<open>i + 1\<close> is converted to 16 bits.
\<close>

fun start_providers ::
  "(bool \<Rightarrow> (int32 \<times> ('ds provider \<times> 'j) option) option) \<Rightarrow> 'ds vtable \<Rightarrow>
   (sdskv_db_type_t \<Rightarrow> string \<Rightarrow> string \<Rightarrow> 'ds option) \<Rightarrow> (nat \<Rightarrow> db_id) \<Rightarrow>
   nat \<Rightarrow> (16 word \<times> 'ds provider) list \<Rightarrow> (string \<times> sdskv_db_type_t) list \<Rightarrow>
   (int + (16 word \<times> 'ds provider) list) option" where
  "start_providers reg V open_ds addr i ps [] = Some (Inr ps)"
| "start_providers reg V open_ds addr i ps ((path, type) # ds) = do {
     let pid = word_of_nat (i + 1);
     (ret, prov) \<leftarrow> reg (pid \<in> fst ` set ps);
     case prov of
       None \<Rightarrow> Some (Inl (-1))
     | Some (p, cfg) \<Rightarrow>
         if ret \<noteq> 0 then Some (Inl (-1))
         else (case sdskv_provider_attach_database V open_ds p (daemon_config path type) (addr i) of
           (p', ret, db_id) \<Rightarrow>
             if ret \<noteq> 0 then Some (Inl (-1))
             else start_providers reg V open_ds addr (Suc i) (ps @ [(pid, p')]) ds)
   }"

record daemon_env =
  de_margo_init :: "string \<Rightarrow> bool"
  de_addr_self :: bool
  de_addr_to_string :: "string option"
  de_fopen :: "string \<Rightarrow> bool"

text \<open>The address file as it is written, if it is asked for.\<close>

definition write_host_file :: "daemon_env \<Rightarrow> string option \<Rightarrow> int + (string \<times> string) option" where
  "write_host_file E file =
     (case file of
        None \<Rightarrow> Inr None
      | Some f \<Rightarrow>
          if \<not> de_addr_self E then Inl (-1)
          else (case de_addr_to_string E of
                  None \<Rightarrow> Inl (-1)
                | Some self_addr_str \<Rightarrow> if de_fopen E f then Inr (Some (f, self_addr_str)) else Inl (-1)))"

record 'ds daemon =
  d_log_level :: "margo_log_level option"
  d_host_file :: "(string \<times> string) option"
  d_providers :: "(16 word \<times> 'ds provider) list"

definition daemon_main ::
  "daemon_env \<Rightarrow> (bool \<Rightarrow> (int32 \<times> ('ds provider \<times> 'j) option) option) \<Rightarrow> 'ds vtable \<Rightarrow>
   (sdskv_db_type_t \<Rightarrow> string \<Rightarrow> string \<Rightarrow> 'ds option) \<Rightarrow> (nat \<Rightarrow> db_id) \<Rightarrow> string list \<Rightarrow> (int + 'ds daemon) option" where
  "daemon_main E reg V open_ds addr args =
     (case parse_args args of
        Inl e \<Rightarrow> Some (Inl e)
      | Inr opts \<Rightarrow>
          if \<not> de_margo_init E (listen_addr_str opts) then Some (Inl (-1))
          else (case write_host_file E (host_file opts) of
                  Inl e \<Rightarrow> Some (Inl e)
                | Inr f \<Rightarrow> do {
                    r \<leftarrow> (case mplex_mode opts of
                      MODE_PROVIDERS \<Rightarrow> start_providers reg V open_ds addr 0 [] (dbs opts)
                    | MODE_DATABASES \<Rightarrow> do {
                        (ret, prov) \<leftarrow> reg False;
                        case prov of
                          None \<Rightarrow> Some (Inl (-1))
                        | Some (p, cfg) \<Rightarrow>
                            if ret \<noteq> 0 then Some (Inl (-1))
                            else Some (map_sum id (\<lambda>p. [(1, p)]) (attach_all V open_ds addr 0 p (dbs opts)))
                      });
                    Some (map_sum id (\<lambda>ps. \<lparr>d_log_level = log_level opts, d_host_file = f, d_providers = ps\<rparr>) r)
                  }))"

section \<open>Laws\<close>

text \<open>Without a configuration a provider starts with no database.\<close>

lemma register_default:
  assumes "json_ok J"
  shows "\<exists>cfg. sdskv_provider_register dlopen dlsym V open_ds J parse addr False 0 None
      = Some (rc SDSKV_SUCCESS, Some (provider_new, cfg))"
proof -
  have emp: "\<exists>cfg'. validate_array J chk cfg k = Some (Inr cfg') \<and> isObject J cfg' \<and> isMember J cfg' k = Some True
      \<and> member_at J cfg' k = Some (arrayValue J)
      \<and> (\<forall>k'. k' \<noteq> k \<longrightarrow> isMember J cfg' k' = isMember J cfg k' \<and>
           (isMember J cfg k' = Some True \<longrightarrow> member_at J cfg' k' = member_at J cfg k'))"
    if o: "isObject J cfg" and m: "isMember J cfg k = Some False" for chk cfg k
  proof -
    obtain cfg' where a: "assign_at J cfg k (arrayValue J) = Some cfg'"
      using json_okD(4) [OF assms o] by blast
    note new = assign_at_new [OF assms o a]
    have same: "assign_at J cfg' k (arrayValue J) = Some cfg'"
      by (rule json_okD(5) [OF assms new(2,3)])
    have "with_elements J (arrayValue J) [] = arrayValue J"
      using json_valuesD(3) [OF assms json_valuesD(6) [OF assms]] json_valuesD(7) [OF assms] by simp
    then show ?thesis
      using a new same m json_valuesD(7) [OF assms] assms o
      by (auto simp: validate_array_def array_field_def json_ok_def json_assign_ok_def)
  qed
  obtain c1 where c1: "validate_array J (validate_comparator J) (objectValue J) ''comparators'' = Some (Inr c1)"
      "isObject J c1" "isMember J c1 ''comparators'' = Some True" "member_at J c1 ''comparators'' = Some (arrayValue J)"
      "isMember J c1 ''databases'' = Some False"
    using emp [of "objectValue J" "''comparators''" "validate_comparator J"] json_valuesD(5,9) [OF assms] by auto
  obtain c2 where c2: "validate_array J (validate_database J) c1 ''databases'' = Some (Inr c2)"
      "member_at J c2 ''databases'' = Some (arrayValue J)" "member_at J c2 ''comparators'' = Some (arrayValue J)"
      "isMember J c2 ''databases'' = Some True"
    using emp [of c1 "''databases''" "validate_database J"] c1 by auto
  have v: "validate_and_complete_config J (nullValue J) = Some (Inr c2)"
    using c1 c2 json_valuesD(8) [OF assms] by (simp add: validate_and_complete_config_def)
  have "with_elements J (arrayValue J) [] = arrayValue J"
    using json_valuesD(3) [OF assms json_valuesD(6) [OF assms]] json_valuesD(7) [OF assms] by simp
  then have "populate_provider_from_config dlopen dlsym V open_ds J addr provider_new c2
      = Some (provider_new, c2, rc SDSKV_SUCCESS)"
    using validated_config_check [OF assms v] c2 json_valuesD(7) [OF assms] json_okD(5) [OF assms c2(4,2)]
    by (simp add: populate_provider_from_config_def)
  then show ?thesis
    using v by (simp add: sdskv_provider_register_def)
qed

text \<open>The name of a database of the command line.\<close>

abbreviation daemon_name :: "string \<times> sdskv_db_type_t \<Rightarrow> string" where
  "daemon_name d \<equiv> cfg_db_name (daemon_config (fst d) (snd d))"

definition empty_kv :: kv where
  "empty_kv = \<lparr>kv_map = Map.empty, kv_no_overwrite = False\<rparr>"

lemma daemon_config_sel [simp]:
  "cfg_db_type (daemon_config path type) = type" "cfg_db_no_overwrite (daemon_config path type) = False"
  "cfg_db_comp_fn_name (daemon_config path type) = None"
  by (simp_all add: daemon_config_def Let_def)

lemma daemon_attach:
  assumes "provider_inv p" "find_db p a = None"
  shows "\<exists>p'. sdskv_provider_attach_database store_vtable open_datastore p (daemon_config path KVDB_MAP) a
        = (p', rc SDSKV_SUCCESS, Some a)
    \<and> provider_inv p'
    \<and> serves store_inv store_abs (Some p') a empty_kv
    \<and> find_name p' (daemon_name (path, KVDB_MAP)) = Some a
    \<and> (\<forall>j. j \<noteq> a \<longrightarrow> find_db p' j = find_db p j)
    \<and> (\<forall>n. n \<noteq> daemon_name (path, KVDB_MAP) \<longrightarrow> find_name p' n = find_name p n)"
proof -
  have c: "attach_comp_fn p (daemon_config path KVDB_MAP) = Inr None" "comp_fn_ok None"
    by (simp_all add: attach_comp_fn_def comp_fn_ok_def)
  show ?thesis
    using attach_map_serves [OF assms _ c] attach_inv [OF assms, of store_vtable open_datastore "daemon_config path KVDB_MAP"]
      attach_frame(2) [OF assms(1), of _ "daemon_config path KVDB_MAP" store_vtable open_datastore a]
    by (auto simp: empty_kv_def)
qed

lemma serves_find_db: "serves dinv dabs (Some p) i k \<longleftrightarrow> provider_inv p \<and> (\<exists>db. find_db p i = Some db \<and> dinv db \<and> dabs db = k)"
  by (auto simp: serves_def)

lemma attach_all_serves:
  assumes "provider_inv p" "inj_on addr {i..<i + length ds}" "\<forall>m\<in>{i..<i + length ds}. find_db p (addr m) = None"
    and "\<forall>d\<in>set ds. snd d = KVDB_MAP" "distinct (map daemon_name ds)"
  shows "\<exists>p'. attach_all store_vtable open_datastore addr i p ds = Inr p' \<and> provider_inv p'
    \<and> (\<forall>j. j \<notin> addr ` {i..<i + length ds} \<longrightarrow> find_db p' j = find_db p j)
    \<and> (\<forall>n. n \<notin> daemon_name ` set ds \<longrightarrow> find_name p' n = find_name p n)
    \<and> (\<forall>m<length ds. find_name p' (daemon_name (ds ! m)) = Some (addr (i + m))
         \<and> serves store_inv store_abs (Some p') (addr (i + m)) empty_kv)"
  using assms
proof (induction ds arbitrary: i p)
  case (Cons d ds)
  obtain path where d: "d = (path, KVDB_MAP)" using Cons.prems(4) by (cases d) auto
  obtain p1 where p1: "sdskv_provider_attach_database store_vtable open_datastore p (daemon_config path KVDB_MAP) (addr i)
        = (p1, rc SDSKV_SUCCESS, Some (addr i))" "provider_inv p1" "serves store_inv store_abs (Some p1) (addr i) empty_kv"
      "find_name p1 (daemon_name d) = Some (addr i)" "\<forall>j. j \<noteq> addr i \<longrightarrow> find_db p1 j = find_db p j"
      "\<forall>n. n \<noteq> daemon_name d \<longrightarrow> find_name p1 n = find_name p n"
    using daemon_attach [OF Cons.prems(1), of "addr i" path] Cons.prems(3) d by auto
  have new: "addr m \<noteq> addr i" if "m \<in> {Suc i..<Suc i + length ds}" for m
    using Cons.prems(2) that by (auto dest: inj_onD)
  have inj: "inj_on addr {Suc i..<Suc i + length ds}"
    using Cons.prems(2) by (rule inj_on_subset) auto
  have none: "\<forall>m\<in>{Suc i..<Suc i + length ds}. find_db p1 (addr m) = None"
    using new p1(5) Cons.prems(3) by auto
  have rest: "\<forall>d\<in>set ds. snd d = KVDB_MAP" "distinct (map daemon_name ds)"
    using Cons.prems(4,5) by auto
  obtain p' where p': "attach_all store_vtable open_datastore addr (Suc i) p1 ds = Inr p'" "provider_inv p'"
      "\<forall>j. j \<notin> addr ` {Suc i..<Suc i + length ds} \<longrightarrow> find_db p' j = find_db p1 j"
      "\<forall>n. n \<notin> daemon_name ` set ds \<longrightarrow> find_name p' n = find_name p1 n"
      "\<forall>m<length ds. find_name p' (daemon_name (ds ! m)) = Some (addr (Suc i + m))
         \<and> serves store_inv store_abs (Some p') (addr (Suc i + m)) empty_kv"
    using Cons.IH [OF p1(2) inj none rest] by blast
  have "addr i \<notin> addr ` {Suc i..<Suc i + length ds}" using new by force
  then have first: "find_name p' (daemon_name d) = Some (addr i)" "serves store_inv store_abs (Some p') (addr i) empty_kv"
    using p'(2-4) p1(3,4) Cons.prems(5) by (simp_all add: serves_find_db)
  have "\<forall>m<length (d # ds). find_name p' (daemon_name ((d # ds) ! m)) = Some (addr (i + m))
         \<and> serves store_inv store_abs (Some p') (addr (i + m)) empty_kv"
    using first p'(5) by (auto simp: nth_Cons split: nat.splits)
  moreover have "{i..<i + length (d # ds)} = insert i {Suc i..<Suc i + length ds}" by auto
  ultimately show ?case
    using p1(1,5,6) p' d by auto
qed simp

lemma start_providers_serves:
  assumes "\<exists>cfg. reg False = Some (rc SDSKV_SUCCESS, Some (provider_new, cfg))"
    and "\<forall>d\<in>set ds. snd d = KVDB_MAP" "i + length ds < 2 ^ 16"
    and "map fst ps = map (\<lambda>j. word_of_nat (j + 1)) [0..<i]"
  shows "\<exists>qs. start_providers reg store_vtable open_datastore addr i ps ds = Some (Inr (ps @ qs)) \<and> length qs = length ds
    \<and> (\<forall>m<length ds. fst (qs ! m) = word_of_nat (i + m + 1)
         \<and> find_name (snd (qs ! m)) (daemon_name (ds ! m)) = Some (addr (i + m))
         \<and> serves store_inv store_abs (Some (snd (qs ! m))) (addr (i + m)) empty_kv)"
  using assms(2-)
proof (induction ds arbitrary: i ps)
  case (Cons d ds)
  obtain path where d: "d = (path, KVDB_MAP)" using Cons.prems(1) by (cases d) auto
  define pid where "pid = (word_of_nat (i + 1) :: 16 word)"
  have new: "pid \<notin> fst ` set ps"
  proof
    assume "pid \<in> fst ` set ps"
    then have "pid \<in> set (map (\<lambda>j. word_of_nat (j + 1) :: 16 word) [0..<i])"
      using Cons.prems(3) by (metis set_map)
    then obtain j where "j < i" "(word_of_nat (i + 1) :: 16 word) = word_of_nat (j + 1)"
      by (auto simp: pid_def)
    then show False
      using Cons.prems(2) by (simp only: word_of_nat_eq_iff) (simp add: take_bit_nat_eq_self)
  qed
  obtain cfg where reg: "reg False = Some (rc SDSKV_SUCCESS, Some (provider_new, cfg))"
    using assms(1) by blast
  obtain p1 where p1: "sdskv_provider_attach_database store_vtable open_datastore provider_new (daemon_config path KVDB_MAP) (addr i)
        = (p1, rc SDSKV_SUCCESS, Some (addr i))" "serves store_inv store_abs (Some p1) (addr i) empty_kv"
      "find_name p1 (daemon_name d) = Some (addr i)"
    using daemon_attach [OF provider_inv_new, of "addr i" path] d
    by (auto simp: provider_new_def om_lookup_def om_find_def om_lower_bound_def)
  have "map fst (ps @ [(pid, p1)]) = map (\<lambda>j. word_of_nat (j + 1)) [0..<Suc i]"
    using Cons.prems(3) by (simp add: pid_def)
  then obtain qs where qs: "start_providers reg store_vtable open_datastore addr (Suc i) (ps @ [(pid, p1)]) ds
        = Some (Inr ((ps @ [(pid, p1)]) @ qs))" "length qs = length ds"
      "\<forall>m<length ds. fst (qs ! m) = word_of_nat (Suc i + m + 1)
         \<and> find_name (snd (qs ! m)) (daemon_name (ds ! m)) = Some (addr (Suc i + m))
         \<and> serves store_inv store_abs (Some (snd (qs ! m))) (addr (Suc i + m)) empty_kv"
    using Cons.IH [of "Suc i" "ps @ [(pid, p1)]"] Cons.prems(1,2) by auto
  have "start_providers reg store_vtable open_datastore addr i ps (d # ds) = Some (Inr (ps @ (pid, p1) # qs))"
    using qs(1) reg p1(1) new by (simp add: d pid_def)
  moreover have "fst (((pid, p1) # qs) ! m) = word_of_nat (i + m + 1)
         \<and> find_name (snd (((pid, p1) # qs) ! m)) (daemon_name ((d # ds) ! m)) = Some (addr (i + m))
         \<and> serves store_inv store_abs (Some (snd (((pid, p1) # qs) ! m))) (addr (i + m)) empty_kv"
    if "m < length (d # ds)" for m
    using that qs(3) p1(2,3) by (cases m) (auto simp: pid_def)
  ultimately show ?case
    using qs(2) by (intro exI [of _ "(pid, p1) # qs"]) simp
qed simp

section \<open>Properties\<close>

text \<open>
  C16. What the command line asks for is served. If the command line names map databases and Margo and the file system
  cooperate, the daemon starts. With one provider for all databases, whose names after the last slash are to
  be distinct, a client finds each of them by its name at provider 1; with a provider for each (fewer than
  \<open>2 ^ 16\<close>) it finds the \<open>i\<close>-th at provider \<open>i + 1\<close>. Each is empty and accepts overwriting.
\<close>

theorem daemon_serves:
  fixes dlopen :: "string option \<Rightarrow> 'h option"
  assumes "parse_args args = Inr opts" "\<forall>d\<in>set (dbs opts). snd d = KVDB_MAP" "json_ok J" "inj_on addr {..<length (dbs opts)}"
    and "de_margo_init E (listen_addr_str opts)" "write_host_file E (host_file opts) = Inr f"
    and "if mplex_mode opts = MODE_PROVIDERS then length (dbs opts) < 2 ^ 16 else distinct (map daemon_name (dbs opts))"
    and "margo_reliable M" "client_reliable C"
  shows "\<exists>d. daemon_main E (\<lambda>registered. sdskv_provider_register dlopen dlsym store_vtable open_datastore J parse addr registered 0 None)
        store_vtable open_datastore addr args = Some (Inr d)
    \<and> (\<forall>i<length (dbs opts). \<exists>p.
         (if mplex_mode opts = MODE_PROVIDERS then word_of_nat (i + 1) else 1, p) \<in> set (d_providers d)
         \<and> sdskv_open C (sdskv_service M store_vtable U) (Some p) (daemon_name (dbs opts ! i)) i0
             = Some (Some p, rc SDSKV_SUCCESS, addr i)
         \<and> serves store_inv store_abs (Some p) (addr i) empty_kv)"
proof -
  define reg where "reg = (\<lambda>registered. sdskv_provider_register dlopen dlsym store_vtable open_datastore J parse addr registered 0 None)"
  have reg: "\<exists>cfg. reg False = Some (rc SDSKV_SUCCESS, Some (provider_new, cfg))"
    unfolding reg_def by (rule register_default [OF assms(3)])
  have no_database: "find_db provider_new a = None" for a :: db_id
    by (simp add: provider_new_def om_lookup_def om_find_def om_lower_bound_def)
  have openable: "sdskv_open C (sdskv_service M store_vtable U) (Some p) n i0 = Some (Some p, rc SDSKV_SUCCESS, a)"
    if "find_name p n = Some a" for p n a
    using client_open [OF refl assms(8,9), of store_vtable U p n i0] that by simp
  show ?thesis
  proof (cases "mplex_mode opts")
    case MODE_PROVIDERS
    obtain qs where qs: "start_providers reg store_vtable open_datastore addr 0 [] (dbs opts) = Some (Inr qs)"
        "length qs = length (dbs opts)"
        "\<forall>m<length (dbs opts). fst (qs ! m) = word_of_nat (m + 1)
         \<and> find_name (snd (qs ! m)) (daemon_name (dbs opts ! m)) = Some (addr m)
         \<and> serves store_inv store_abs (Some (snd (qs ! m))) (addr m) empty_kv"
      using start_providers_serves [where reg = reg and i = 0 and ps = "[]", OF reg assms(2)] assms(7) MODE_PROVIDERS by auto
    have "(word_of_nat (i + 1), snd (qs ! i)) \<in> set qs" if "i < length (dbs opts)" for i
      using qs(2,3) that by (metis nth_mem prod.collapse)
    then have "\<forall>i<length (dbs opts). \<exists>p. (word_of_nat (i + 1), p) \<in> set qs
        \<and> sdskv_open C (sdskv_service M store_vtable U) (Some p) (daemon_name (dbs opts ! i)) i0
            = Some (Some p, rc SDSKV_SUCCESS, addr i)
        \<and> serves store_inv store_abs (Some p) (addr i) empty_kv"
      using qs(3) openable by blast
    moreover have "\<exists>d. daemon_main E reg store_vtable open_datastore addr args = Some (Inr d) \<and> d_providers d = qs"
      using qs(1) assms(1,5,6) MODE_PROVIDERS by (simp add: daemon_main_def)
    ultimately show ?thesis
      unfolding reg_def [symmetric] using MODE_PROVIDERS by auto
  next
    case MODE_DATABASES
    obtain p where p: "attach_all store_vtable open_datastore addr 0 provider_new (dbs opts) = Inr p"
        "\<forall>m<length (dbs opts). find_name p (daemon_name (dbs opts ! m)) = Some (addr m)
         \<and> serves store_inv store_abs (Some p) (addr m) empty_kv"
      using attach_all_serves [OF provider_inv_new, of addr 0 "dbs opts"] no_database assms(2,4,7) MODE_DATABASES
      by (auto simp: lessThan_atLeast0)
    then show ?thesis
      using assms(1,5,6) MODE_DATABASES openable reg unfolding reg_def by (auto simp: daemon_main_def)
  qed
qed

definition sample_args :: "string list" where
  "sample_args = [''-m'', ''providers'', ''-vdebug'', ''tcp'', ''dir/foo:map'', ''bar'']"

definition sample_env :: daemon_env where
  "sample_env = \<lparr>de_margo_init = (\<lambda>_. True), de_addr_self = True, de_addr_to_string = Some ''tcp://x:1'', de_fopen = (\<lambda>_. True)\<rparr>"

definition sample_opts :: options where
  "sample_opts = \<lparr>listen_addr_str = ''tcp'', dbs = [(''dir/foo'', KVDB_MAP), (''bar'', KVDB_MAP)],
     host_file = None, mplex_mode = MODE_PROVIDERS, log_level = Some MARGO_LOG_DEBUG\<rparr>"

lemma sample_args_parsed: "parse_args sample_args = Inr sample_opts"
  by code_simp

lemma sample_opts_sel:
  "\<forall>d\<in>set (dbs sample_opts). snd d = KVDB_MAP" "length (dbs sample_opts) = 2" "mplex_mode sample_opts = MODE_PROVIDERS"
  "daemon_name (dbs sample_opts ! 1) = ''bar''" "host_file sample_opts = None"
  by (simp_all add: sample_opts_def daemon_config_def)

theorem daemon_serves_witness:
  "\<exists>d p. daemon_main sample_env (\<lambda>registered. sdskv_provider_register (\<lambda>_. None :: nat option) (\<lambda>_ _. None) store_vtable open_datastore
         sample_json (\<lambda>_. None) (\<lambda>n. word_of_nat n) registered 0 None) store_vtable open_datastore (\<lambda>n. word_of_nat n) sample_args
       = Some (Inr d)
     \<and> (2, p) \<in> set (d_providers d)
     \<and> sdskv_open ideal_client (sdskv_service ideal_margo store_vtable sample_uninit) (Some p) ''bar'' 0 = Some (Some p, rc SDSKV_SUCCESS, 1)"
proof -
  have inj: "inj_on (\<lambda>n. word_of_nat n :: db_id) {..<length (dbs sample_opts)}"
    by (auto simp: inj_on_def less_2_cases_iff sample_opts_sel)
  have env: "de_margo_init sample_env (listen_addr_str sample_opts)" "write_host_file sample_env (host_file sample_opts) = Inr None"
    by (simp_all add: sample_env_def write_host_file_def sample_opts_sel)
  have few: "if mplex_mode sample_opts = MODE_PROVIDERS then length (dbs sample_opts) < 2 ^ 16
      else distinct (map daemon_name (dbs sample_opts))"
    by (simp add: sample_opts_sel)
  obtain d where d: "daemon_main sample_env (\<lambda>registered. sdskv_provider_register (\<lambda>_. None :: nat option) (\<lambda>_ _. None) store_vtable
         open_datastore sample_json (\<lambda>_. None) (\<lambda>n. word_of_nat n) registered 0 None) store_vtable open_datastore
         (\<lambda>n. word_of_nat n) sample_args = Some (Inr d)"
      "\<exists>p. (if mplex_mode sample_opts = MODE_PROVIDERS then word_of_nat (1 + 1) else 1, p) \<in> set (d_providers d)
         \<and> sdskv_open ideal_client (sdskv_service ideal_margo store_vtable sample_uninit) (Some p) (daemon_name (dbs sample_opts ! 1)) 0
             = Some (Some p, rc SDSKV_SUCCESS, word_of_nat 1)"
    using daemon_serves [OF sample_args_parsed sample_opts_sel(1) json_ok_sample inj env few sample_reliable,
        of "\<lambda>_. None :: nat option" "\<lambda>_ _. None" "\<lambda>_. None" sample_uninit 0]
    unfolding sample_opts_sel(2) by (meson one_less_numeral_iff semiring_norm(76))
  then show ?thesis
    unfolding sample_opts_sel by auto
qed

end
