(* ===== verification/Bwtree_Epoch.thy ===== *)
theory Bwtree_Epoch
  imports Sdskv_Prelude
begin

text \<open>
  Garbage collection by epochs, of BwTree/src/bwtree.h: class \<open>BwTreeBase\<close> and \<open>AddGarbageNode\<close>, \<open>PerformGC\<close>,
  \<open>ClearThreadLocalGarbage\<close> and \<open>UpdateThreadLocal\<close> of class \<open>BwTree\<close>, with the epoch manager as compiled without
  \<open>USE_OLD_EPOCH\<close>. First the operations one by one; then threads that run them at the same time, as a step relation with one access
  to shared memory per step. A node stands for the chain that is replaced in the mapping table and freed as a whole.
\<close>

section \<open>The operations\<close>

record 'n gc_meta =
  last_active_epoch :: "64 word"
  garbage :: "(64 word \<times> 'n) list"
  node_count :: "64 word"

record 'n bwtree_base =
  gc_metadata :: "'n gc_meta list"
  epoch :: "64 word"

definition GC_NODE_COUNT_THREADHOLD :: "64 word" where
  "GC_NODE_COUNT_THREADHOLD = 1024"

definition GCMetaData :: "'n gc_meta" where
  "GCMetaData = \<lparr>last_active_epoch = 0, garbage = [], node_count = 0\<rparr>"

definition PrepareThreadLocal :: "nat \<Rightarrow> 'n gc_meta list" where
  "PrepareThreadLocal thread_num = replicate thread_num GCMetaData"

definition BwTreeBase :: "nat \<Rightarrow> 'n bwtree_base" where
  "BwTreeBase total_thread_num = \<lparr>gc_metadata = PrepareThreadLocal total_thread_num, epoch = 0\<rparr>"

text \<open>The id of a thread that was not registered is -1, which the assertion refuses.\<close>

definition GetGCMetaData :: "'n bwtree_base \<Rightarrow> int \<Rightarrow> 'n gc_meta option" where
  "GetGCMetaData b thread_id =
     (if 0 \<le> thread_id \<and> thread_id < int (length (gc_metadata b)) then Some (gc_metadata b ! nat thread_id) else None)"

definition update_meta :: "'n bwtree_base \<Rightarrow> int \<Rightarrow> ('n gc_meta \<Rightarrow> 'n gc_meta) \<Rightarrow> 'n bwtree_base option" where
  "update_meta b thread_id f =
     map_option (\<lambda>m. b\<lparr>gc_metadata := (gc_metadata b)[nat thread_id := f m]\<rparr>) (GetGCMetaData b thread_id)"

definition IncreaseEpoch :: "'n bwtree_base \<Rightarrow> 'n bwtree_base" where
  "IncreaseEpoch b = b\<lparr>epoch := epoch b + 1\<rparr>"

text \<open>\<open>JoinEpoch\<close> and \<open>LeaveEpoch\<close> are this function.\<close>

definition UpdateLastActiveEpoch :: "int \<Rightarrow> 'n bwtree_base \<Rightarrow> 'n bwtree_base option" where
  "UpdateLastActiveEpoch gc_id b = update_meta b gc_id (\<lambda>m. m\<lparr>last_active_epoch := epoch b\<rparr>)"

definition UnregisterThread :: "int \<Rightarrow> 'n bwtree_base \<Rightarrow> 'n bwtree_base option" where
  "UnregisterThread thread_id b = update_meta b thread_id (\<lambda>m. m\<lparr>last_active_epoch := - 1\<rparr>)"

definition SummarizeGCEpoch :: "'n bwtree_base \<Rightarrow> 64 word option" where
  "SummarizeGCEpoch b = (case gc_metadata b of
       [] \<Rightarrow> None
     | m # ms \<Rightarrow> Some (fold (\<lambda>m min_epoch. min (last_active_epoch m) min_epoch) ms (last_active_epoch m)))"

text \<open>The loop of \<open>PerformGC\<close>: what is left of the list and the count, and the nodes freed in order.\<close>

fun gc_loop :: "64 word \<Rightarrow> (64 word \<times> 'n) list \<Rightarrow> 64 word \<Rightarrow> ((64 word \<times> 'n) list \<times> 64 word \<times> 'n list) option" where
  "gc_loop min_epoch [] count = Some ([], count, [])"
| "gc_loop min_epoch ((delete_epoch, n) # g) count =
     (if delete_epoch < min_epoch then
        if count \<noteq> 0 then map_option (\<lambda>(g, c, freed). (g, c, n # freed)) (gc_loop min_epoch g (count - 1)) else None
      else Some ((delete_epoch, n) # g, count, []))"

definition PerformGC :: "int \<Rightarrow> 'n bwtree_base \<Rightarrow> ('n bwtree_base \<times> 'n list) option" where
  "PerformGC thread_id b = do {
     min_epoch \<leftarrow> SummarizeGCEpoch b;
     m \<leftarrow> GetGCMetaData b thread_id;
     (g, c, freed) \<leftarrow> gc_loop min_epoch (garbage m) (node_count m);
     b \<leftarrow> update_meta b thread_id (\<lambda>m. m\<lparr>garbage := g, node_count := c\<rparr>);
     Some (b, freed)
   }"

definition AddGarbageNode :: "int \<Rightarrow> 'n \<Rightarrow> 'n bwtree_base \<Rightarrow> ('n bwtree_base \<times> 'n list) option" where
  "AddGarbageNode gc_id n b = do {
     b \<leftarrow> update_meta b gc_id (\<lambda>m. m\<lparr>garbage := garbage m @ [(epoch b, n)], node_count := node_count m + 1\<rparr>);
     m \<leftarrow> GetGCMetaData b gc_id;
     if node_count m > GC_NODE_COUNT_THREADHOLD then PerformGC gc_id b else Some (b, [])
   }"

fun for_threads :: "(int \<Rightarrow> 'n bwtree_base \<Rightarrow> ('n bwtree_base \<times> 'n list) option) \<Rightarrow> nat list \<Rightarrow>
   'n bwtree_base \<times> 'n list \<Rightarrow> ('n bwtree_base \<times> 'n list) option" where
  "for_threads f [] st = Some st"
| "for_threads f (i # ids) (b, freed) = do {
     (b, more) \<leftarrow> f (int i) b;
     for_threads f ids (b, freed @ more)
   }"

text \<open>The two loops of \<open>ClearThreadLocalGarbage\<close>, with the assertion that no garbage is left.\<close>

definition ClearThreadLocalGarbage :: "'n bwtree_base \<Rightarrow> ('n bwtree_base \<times> 'n list) option" where
  "ClearThreadLocalGarbage b = do {
     let ids = [0..<length (gc_metadata b)];
     st \<leftarrow> for_threads (\<lambda>i b. map_option (\<lambda>b. (b, [])) (UnregisterThread i b)) ids (b, []);
     for_threads (\<lambda>i b. do {
         (b, freed) \<leftarrow> PerformGC i b;
         m \<leftarrow> GetGCMetaData b i;
         if node_count m = 0 then Some (b, freed) else None
       }) ids st
   }"

text \<open>\<open>DestroyThreadLocal\<close> asserts that the lists are empty.\<close>

definition UpdateThreadLocal :: "nat \<Rightarrow> 'n bwtree_base \<Rightarrow> ('n bwtree_base \<times> 'n list) option" where
  "UpdateThreadLocal thread_num b = do {
     (b, freed) \<leftarrow> ClearThreadLocalGarbage b;
     if \<forall>m\<in>set (gc_metadata b). garbage m = [] then Some (b\<lparr>gc_metadata := PrepareThreadLocal thread_num\<rparr>, freed) else None
   }"

section \<open>Threads that run at the same time\<close>

text \<open>
  Where a thread is: outside an operation, between the read of the epoch and the write of its own counter when it joins, inside an operation,
  after a successful compare-and-swap and before \<open>AddGarbageNode\<close>, in \<open>SummarizeGCEpoch\<close> with the next thread to look at and the
  minimum so far, in the loop of \<open>PerformGC\<close>, and between the read and the write when it leaves.
\<close>

datatype 'n gc_pc =
    Idle
  | Joining "64 word"
  | Active
  | Retiring 'n
  | Summarizing nat "64 word"
  | Freeing "64 word"
  | Leaving "64 word"

text \<open>
  The nodes of the mapping table, the nodes that have been freed, and for each thread its place and the nodes it may
  still read, having loaded them from the mapping table since it joined.
\<close>

record 'n gc_system =
  base :: "'n bwtree_base"
  linked :: "'n set"
  freed :: "'n set"
  pcs :: "nat \<Rightarrow> 'n gc_pc"
  held :: "nat \<Rightarrow> 'n set"

definition meta_of :: "'n bwtree_base \<Rightarrow> nat \<Rightarrow> 'n gc_meta" where
  "meta_of b t = (if t < length (gc_metadata b) then gc_metadata b ! t else GCMetaData)"

definition set_meta :: "nat \<Rightarrow> ('n gc_meta \<Rightarrow> 'n gc_meta) \<Rightarrow> 'n bwtree_base \<Rightarrow> 'n bwtree_base" where
  "set_meta t f b = b\<lparr>gc_metadata := (gc_metadata b)[t := f (meta_of b t)]\<rparr>"

abbreviation thread_num :: "'n gc_system \<Rightarrow> nat" where
  "thread_num s \<equiv> length (gc_metadata (base s))"

abbreviation meta :: "'n gc_system \<Rightarrow> nat \<Rightarrow> 'n gc_meta" where
  "meta s t \<equiv> meta_of (base s) t"

definition move :: "nat \<Rightarrow> 'n gc_pc \<Rightarrow> 'n gc_system \<Rightarrow> 'n gc_system" where
  "move t c s = s\<lparr>pcs := (pcs s)(t := c)\<rparr>"

text \<open>A node that is in no place where a thread could find it, so that an allocation may return it.\<close>

definition unused :: "'n gc_system \<Rightarrow> 'n \<Rightarrow> bool" where
  "unused s n \<longleftrightarrow> n \<notin> linked s \<and> (\<forall>u. pcs s u \<noteq> Retiring n \<and> n \<notin> snd ` set (garbage (meta s u)))"

inductive gc_step :: "'n gc_system \<Rightarrow> 'n gc_system \<Rightarrow> bool" where
  join_read: "t < thread_num s \<Longrightarrow> pcs s t = Idle \<Longrightarrow> gc_step s (move t (Joining (epoch (base s))) s)"
| join_write: "pcs s t = Joining e \<Longrightarrow>
    gc_step s (move t Active (s\<lparr>base := set_meta t (\<lambda>m. m\<lparr>last_active_epoch := e\<rparr>) (base s)\<rparr>))"
| load: "pcs s t = Active \<Longrightarrow> n \<in> linked s \<Longrightarrow> gc_step s (s\<lparr>held := (held s)(t := insert n (held s t))\<rparr>)"
| install: "pcs s t = Active \<Longrightarrow> unused s n \<Longrightarrow> gc_step s (s\<lparr>linked := insert n (linked s), freed := freed s - {n}\<rparr>)"
| replace: "pcs s t = Active \<Longrightarrow> n \<in> held s t \<Longrightarrow> n \<in> linked s \<Longrightarrow>
    gc_step s (move t (Retiring n) (s\<lparr>linked := linked s - {n}\<rparr>))"
| discard: "pcs s t = Active \<Longrightarrow> unused s n \<Longrightarrow> gc_step s (move t (Retiring n) (s\<lparr>freed := freed s - {n}\<rparr>))"
| retire: "pcs s t = Retiring n \<Longrightarrow>
    b = set_meta t (\<lambda>m. m\<lparr>garbage := garbage m @ [(epoch (base s), n)], node_count := node_count m + 1\<rparr>) (base s) \<Longrightarrow>
    gc_step s (move t (if node_count (meta_of b t) > GC_NODE_COUNT_THREADHOLD then Summarizing 0 0 else Active) (s\<lparr>base := b\<rparr>))"
| summarize: "pcs s t = Summarizing i m \<Longrightarrow> i < thread_num s \<Longrightarrow> ts = last_active_epoch (meta s i) \<Longrightarrow>
    gc_step s (move t (Summarizing (Suc i) (if i = 0 then ts else min ts m)) s)"
| summarized: "pcs s t = Summarizing i m \<Longrightarrow> i = thread_num s \<Longrightarrow> gc_step s (move t (Freeing m) s)"
| free: "pcs s t = Freeing m \<Longrightarrow> garbage (meta s t) = (e, n) # g \<Longrightarrow> e < m \<Longrightarrow>
    gc_step s (s\<lparr>base := set_meta t (\<lambda>m. m\<lparr>garbage := g, node_count := node_count m - 1\<rparr>) (base s), freed := insert n (freed s)\<rparr>)"
| stop: "pcs s t = Freeing m \<Longrightarrow> garbage (meta s t) = [] \<or> \<not> fst (hd (garbage (meta s t))) < m \<Longrightarrow>
    gc_step s (move t Active s)"
| leave_read: "pcs s t = Active \<Longrightarrow> gc_step s (move t (Leaving (epoch (base s))) (s\<lparr>held := (held s)(t := {})\<rparr>))"
| leave_write: "pcs s t = Leaving e \<Longrightarrow>
    gc_step s (move t Idle (s\<lparr>base := set_meta t (\<lambda>m. m\<lparr>last_active_epoch := e\<rparr>) (base s)\<rparr>))"
| next_epoch: "epoch (base s) \<noteq> - 1 \<Longrightarrow> gc_step s (s\<lparr>base := IncreaseEpoch (base s)\<rparr>)"

inductive gc_reachable :: "nat \<Rightarrow> 'n set \<Rightarrow> 'n gc_system \<Rightarrow> bool" for k nodes where
  start: "gc_reachable k nodes
    \<lparr>base = BwTreeBase k, linked = nodes, freed = {}, pcs = \<lambda>_. Idle, held = \<lambda>_. {}\<rparr>"
| step: "gc_reachable k nodes s \<Longrightarrow> gc_step s s' \<Longrightarrow> gc_reachable k nodes s'"

section \<open>No node is used after it was freed\<close>

lemma meta_of_set_meta [simp]:
  "t < length (gc_metadata b) \<Longrightarrow> meta_of (set_meta t f b) u = (if u = t then f (meta_of b t) else meta_of b u)"
  by (auto simp: meta_of_def set_meta_def)

lemma set_meta_simps [simp]:
  "epoch (set_meta t f b) = epoch b" "length (gc_metadata (set_meta t f b)) = length (gc_metadata b)"
  by (simp_all add: set_meta_def)

lemma increase_simps [simp]:
  "epoch (IncreaseEpoch b) = epoch b + 1" "gc_metadata (IncreaseEpoch b) = gc_metadata b" "meta_of (IncreaseEpoch b) t = meta_of b t"
  by (simp_all add: IncreaseEpoch_def meta_of_def)

lemma move_simps [simp]:
  "base (move t c s) = base s" "linked (move t c s) = linked s" "freed (move t c s) = freed s" "held (move t c s) = held s"
  "pcs (move t c s) = (pcs s)(t := c)"
  by (simp_all add: move_def)

text \<open>Every node is in one place: in the mapping table, in the hands of one thread, in one garbage list, or freed.\<close>

definition waiting :: "'n gc_system \<Rightarrow> nat \<Rightarrow> 'n set" where
  "waiting s u = snd ` set (garbage (meta s u))"

definition one_place :: "'n gc_system \<Rightarrow> bool" where
  "one_place s \<longleftrightarrow> linked s \<inter> freed s = {}
     \<and> (\<forall>u n. pcs s u = Retiring n \<longrightarrow> n \<notin> linked s \<and> n \<notin> freed s)
     \<and> (\<forall>u v n. pcs s u = Retiring n \<and> pcs s v = Retiring n \<longrightarrow> u = v)
     \<and> (\<forall>u v n. pcs s u = Retiring n \<longrightarrow> n \<notin> waiting s v)
     \<and> (\<forall>u. distinct (map snd (garbage (meta s u))))
     \<and> (\<forall>u n. n \<in> waiting s u \<longrightarrow> n \<notin> linked s \<and> n \<notin> freed s)
     \<and> (\<forall>u v n. n \<in> waiting s u \<and> n \<in> waiting s v \<longrightarrow> u = v)"

text \<open>The threads that work are among those of the array, and their counters are not ahead of the epoch.\<close>

definition threads_ok :: "'n gc_system \<Rightarrow> bool" where
  "threads_ok s \<longleftrightarrow> (\<forall>t. pcs s t \<noteq> Idle \<longrightarrow> t < thread_num s) \<and> (\<forall>t e. pcs s t = Joining e \<or> pcs s t = Leaving e \<longrightarrow> e \<le> epoch (base s))
     \<and> (\<forall>t. last_active_epoch (meta s t) \<le> epoch (base s))
     \<and> (\<forall>t. held s t \<noteq> {} \<longrightarrow> (\<forall>e. pcs s t \<noteq> Idle \<and> pcs s t \<noteq> Joining e \<and> pcs s t \<noteq> Leaving e))"

text \<open>What a thread holds is not freed before the thread leaves: its counter is at most the epoch of the garbage.\<close>

definition protected :: "'n gc_system \<Rightarrow> bool" where
  "protected s \<longleftrightarrow> (\<forall>t n. n \<in> held s t \<longrightarrow> n \<in> linked s \<or> (\<exists>u. pcs s u = Retiring n)
       \<or> (\<exists>u e. (e, n) \<in> set (garbage (meta s u)) \<and> last_active_epoch (meta s t) \<le> e))
     \<and> (\<forall>u i m t e n. pcs s u = Summarizing i m \<and> t < i \<and> n \<in> held s t \<and> (e, n) \<in> set (garbage (meta s u)) \<longrightarrow> m \<le> e)
     \<and> (\<forall>u m t e n. pcs s u = Freeing m \<and> n \<in> held s t \<and> (e, n) \<in> set (garbage (meta s u)) \<longrightarrow> m \<le> e)"


lemma le_next_epoch:
  assumes "x \<le> y" "y \<noteq> - 1"
  shows "x \<le> y + (1 :: 64 word)"
proof -
  have "1 + y \<noteq> 0" using assms(2) by (metis add_eq_0_iff add.commute)
  then show ?thesis using unatSuc [of y] assms(1) by (simp add: word_le_nat_alt add.commute)
qed

lemma threads_ok_step:
  assumes "gc_step s s'" "threads_ok s"
  shows "threads_ok s'"
  using assms(1)
proof cases
  case (retire t n b)
  then show ?thesis using assms(2) by (auto simp: threads_ok_def)
next
  case next_epoch
  then show ?thesis using assms(2) by (auto simp: threads_ok_def le_next_epoch)
qed (use assms(2) in \<open>auto simp: threads_ok_def\<close>)

lemma retire_waiting:
  assumes "t < thread_num s"
    and "b = set_meta t (\<lambda>m. m\<lparr>garbage := garbage m @ [(e, n)], node_count := node_count m + 1\<rparr>) (base s)"
  shows "waiting (move t c (s\<lparr>base := b\<rparr>)) u = (if u = t then insert n (waiting s t) else waiting s u)"
  using assms by (auto simp: waiting_def)

lemma free_waiting:
  assumes "t < thread_num s" "garbage (meta s t) = (e, n) # g" "distinct (map snd (garbage (meta s t)))"
    and "b = set_meta t (\<lambda>m. m\<lparr>garbage := g, node_count := node_count m - 1\<rparr>) (base s)"
  shows "waiting (s\<lparr>base := b, freed := F\<rparr>) u = (if u = t then waiting s t - {n} else waiting s u)"
  using assms by (auto simp: waiting_def image_iff)

lemma waiting_simps [simp]:
  "waiting (move t c s) = waiting s" "waiting (s\<lparr>linked := L\<rparr>) = waiting s" "waiting (s\<lparr>freed := F\<rparr>) = waiting s"
  "waiting (s\<lparr>held := h\<rparr>) = waiting s" "waiting (s\<lparr>base := IncreaseEpoch (base s)\<rparr>) = waiting s"
  by (simp_all add: waiting_def fun_eq_iff)

lemma active_waiting: "t < thread_num s \<Longrightarrow> waiting (s\<lparr>base := set_meta t (last_active_epoch_update (\<lambda>_. e)) (base s)\<rparr>) = waiting s"
  by (rule ext) (simp add: waiting_def)

lemma unused_iff: "unused s n \<longleftrightarrow> n \<notin> linked s \<and> (\<forall>u. pcs s u \<noteq> Retiring n \<and> n \<notin> waiting s u)"
  by (simp add: unused_def waiting_def)

lemma one_placeD:
  assumes "one_place s"
  shows "n \<in> linked s \<Longrightarrow> n \<notin> freed s" "pcs s u = Retiring n \<Longrightarrow> n \<notin> linked s \<and> n \<notin> freed s \<and> n \<notin> waiting s v"
    and "distinct (map snd (garbage (meta s u)))" "n \<in> waiting s u \<Longrightarrow> n \<notin> linked s \<and> n \<notin> freed s \<and> pcs s v \<noteq> Retiring n"
    and "n \<in> waiting s u \<Longrightarrow> n \<in> waiting s v \<Longrightarrow> u = v"
  using assms unfolding one_place_def by blast+

lemma one_place_step:
  assumes "gc_step s s'" "threads_ok s" "one_place s"
  shows "one_place s'"
  using assms(1)
proof cases
  case (retire t n b)
  then have t: "t < thread_num s" using assms(2) by (simp add: threads_ok_def)
  have "distinct (map snd (garbage (meta s' u)))" for u
    using t one_placeD(3) [OF assms(3), of u] one_placeD(2) [OF assms(3) retire(2), of t] retire(1,3) by (auto simp: waiting_def)
  then show ?thesis
    using assms(3) retire(1,2) retire_waiting [OF t retire(3)] by (auto simp: one_place_def; blast)
next
  case (free t m e n g)
  then have t: "t < thread_num s" using assms(2) by (simp add: threads_ok_def)
  note d = one_placeD(3) [OF assms(3), of t]
  have n: "n \<in> waiting s t" using free(3) by (simp add: waiting_def)
  have "distinct (map snd (garbage (meta s' u)))" for u
    using t d one_placeD(3) [OF assms(3), of u] free(1-3) by simp
  then show ?thesis
    using assms(3) n free(1,2) free_waiting [OF t free(3) d refl] by (auto simp: one_place_def; blast)
next
  case (join_write t e)
  then have "t < thread_num s" "garbage (meta s' u) = garbage (meta s u)" for u using assms(2) by (auto simp: threads_ok_def)
  then show ?thesis using assms(3) join_write by (auto simp: one_place_def active_waiting)
next
  case (leave_write t e)
  then have "t < thread_num s" "garbage (meta s' u) = garbage (meta s u)" for u using assms(2) by (auto simp: threads_ok_def)
  then show ?thesis using assms(3) leave_write by (auto simp: one_place_def active_waiting)
qed (use assms(2,3) in \<open>auto simp: one_place_def unused_iff\<close>)

lemma same_garbage:
  assumes "one_place s" "(e, n) \<in> set (garbage (meta s u))" "(e', n) \<in> set (garbage (meta s v))"
  shows "u = v \<and> e = e'"
proof -
  have "u = v" using one_placeD(5) [OF assms(1), of n u v] assms(2,3) by (force simp: waiting_def)
  then show ?thesis
    using one_placeD(3) [OF assms(1), of u] assms(2,3) inj_onD [of snd "set (garbage (meta s u))" "(e, n)" "(e', n)"]
    by (auto simp: distinct_map)
qed

lemma protectedD:
  assumes "protected s"
  shows "n \<in> held s t \<Longrightarrow> n \<in> linked s \<or> (\<exists>u. pcs s u = Retiring n)
       \<or> (\<exists>u e. (e, n) \<in> set (garbage (meta s u)) \<and> last_active_epoch (meta s t) \<le> e)"
    and "pcs s u = Summarizing i m \<Longrightarrow> t < i \<Longrightarrow> n \<in> held s t \<Longrightarrow> (e, n) \<in> set (garbage (meta s u)) \<Longrightarrow> m \<le> e"
    and "pcs s u = Freeing m \<Longrightarrow> n \<in> held s t \<Longrightarrow> (e, n) \<in> set (garbage (meta s u)) \<Longrightarrow> m \<le> e"
  using assms unfolding protected_def by blast+

lemma held_garbage:
  assumes "one_place s" "protected s" "n \<in> held s t" "(e, n) \<in> set (garbage (meta s u))"
  shows "last_active_epoch (meta s t) \<le> e"
proof -
  have "n \<in> waiting s u" using assms(4) by (force simp: waiting_def)
  then have "n \<notin> linked s" "\<forall>v. pcs s v \<noteq> Retiring n" using one_placeD(4) [OF assms(1)] by blast+
  then obtain v e' where "(e', n) \<in> set (garbage (meta s v))" "last_active_epoch (meta s t) \<le> e'"
    using protectedD(1) [OF assms(2,3)] by blast
  then show ?thesis using same_garbage [OF assms(1,4)] by blast
qed

text \<open>A step that leaves the garbage lists, what is held and the counters of the threads that hold nodes as they are.\<close>

lemma protected_frame:
  assumes "protected s" "\<And>t. held s' t \<subseteq> held s t" "\<And>u. garbage (meta s' u) = garbage (meta s u)"
    and "\<And>t. held s' t \<noteq> {} \<Longrightarrow> last_active_epoch (meta s' t) = last_active_epoch (meta s t)"
    and "\<And>n. n \<in> linked s \<Longrightarrow> n \<in> linked s' \<or> (\<exists>u. pcs s' u = Retiring n)" "\<And>u n. pcs s u = Retiring n \<Longrightarrow> pcs s' u = Retiring n"
    and "\<And>u i m. pcs s' u = Summarizing i m \<Longrightarrow> pcs s u = Summarizing i m" "\<And>u m. pcs s' u = Freeing m \<Longrightarrow> pcs s u = Freeing m"
  shows "protected s'"
  unfolding protected_def
proof (intro conjI allI impI)
  fix t n assume n: "n \<in> held s' t"
  then have "n \<in> held s t" "last_active_epoch (meta s' t) = last_active_epoch (meta s t)" using assms(2,4) by blast+
  then show "n \<in> linked s' \<or> (\<exists>u. pcs s' u = Retiring n)
      \<or> (\<exists>u e. (e, n) \<in> set (garbage (meta s' u)) \<and> last_active_epoch (meta s' t) \<le> e)"
    using protectedD(1) [OF assms(1), of n t] assms(5,6) by (simp add: assms(3)) blast
next
  fix u i m t e n assume a: "pcs s' u = Summarizing i m \<and> t < i \<and> n \<in> held s' t \<and> (e, n) \<in> set (garbage (meta s' u))"
  then have "n \<in> held s t" using assms(2) by blast
  then show "m \<le> e" using protectedD(2) [OF assms(1), of u i m t n e] assms(7) [of u i m] a by (simp add: assms(3))
next
  fix u m t e n assume a: "pcs s' u = Freeing m \<and> n \<in> held s' t \<and> (e, n) \<in> set (garbage (meta s' u))"
  then have "n \<in> held s t" using assms(2) by blast
  then show "m \<le> e" using protectedD(3) [OF assms(1), of u m n t e] assms(8) [of u m] a by (simp add: assms(3))
qed

lemma protectedI:
  assumes "\<And>t n. n \<in> held s t \<Longrightarrow> n \<in> linked s \<or> (\<exists>u. pcs s u = Retiring n)
       \<or> (\<exists>u e. (e, n) \<in> set (garbage (meta s u)) \<and> last_active_epoch (meta s t) \<le> e)"
    and "\<And>u i m t e n. pcs s u = Summarizing i m \<Longrightarrow> t < i \<Longrightarrow> n \<in> held s t \<Longrightarrow> (e, n) \<in> set (garbage (meta s u)) \<Longrightarrow> m \<le> e"
    and "\<And>u m t e n. pcs s u = Freeing m \<Longrightarrow> n \<in> held s t \<Longrightarrow> (e, n) \<in> set (garbage (meta s u)) \<Longrightarrow> m \<le> e"
  shows "protected s"
  using assms unfolding protected_def by blast

lemma protected_load:
  assumes "one_place s" "protected s" "n \<in> linked s"
  shows "protected (s\<lparr>held := (held s)(t := insert n (held s t))\<rparr>)" (is "protected ?s")
proof (rule protectedI)
  have new: "(e, n) \<notin> set (garbage (meta s u))" for u e
    using one_placeD(4) [OF assms(1), of n u] assms(3) by (force simp: waiting_def)
  show "x \<in> linked ?s \<or> (\<exists>u. pcs ?s u = Retiring x) \<or> (\<exists>u e. (e, x) \<in> set (garbage (meta ?s u)) \<and> last_active_epoch (meta ?s v) \<le> e)"
    if "x \<in> held ?s v" for v x
    using that protectedD(1) [OF assms(2), of x v] assms(3) by (auto split: if_splits)
  show "m \<le> e" if "pcs ?s u = Summarizing i m" "v < i" "x \<in> held ?s v" "(e, x) \<in> set (garbage (meta ?s u))" for u i m v e x
    using that protectedD(2) [OF assms(2), of u i m v x e] new by (auto split: if_splits)
  show "m \<le> e" if "pcs ?s u = Freeing m" "x \<in> held ?s v" "(e, x) \<in> set (garbage (meta ?s u))" for u m v e x
    using that protectedD(3) [OF assms(2), of u m x v e] new by (auto split: if_splits)
qed

lemma protected_retire:
  assumes "threads_ok s" "protected s" "pcs s t = Retiring n" "c = Active \<or> c = Summarizing 0 0"
    and "b = set_meta t (\<lambda>m. m\<lparr>garbage := garbage m @ [(epoch (base s), n)], node_count := node_count m + 1\<rparr>) (base s)"
  shows "protected (move t c (s\<lparr>base := b\<rparr>))" (is "protected ?s")
proof (rule protectedI)
  have t: "t < thread_num s" and la: "last_active_epoch (meta s u) \<le> epoch (base s)" for u
    using assms(1,3) by (auto simp: threads_ok_def)
  have m: "set (garbage (meta ?s u)) = (if u = t then insert (epoch (base s), n) (set (garbage (meta s u))) else set (garbage (meta s u)))"
    "last_active_epoch (meta ?s u) = last_active_epoch (meta s u)" for u
    using t assms(5) by auto
  show "x \<in> linked ?s \<or> (\<exists>u. pcs ?s u = Retiring x) \<or> (\<exists>u e. (e, x) \<in> set (garbage (meta ?s u)) \<and> last_active_epoch (meta ?s v) \<le> e)"
    if x: "x \<in> held ?s v" for v x
  proof (cases "x = n")
    case True
    then have "(epoch (base s), x) \<in> set (garbage (meta ?s t))" using m(1) by simp
    then show ?thesis using la [of v] m(2) by metis
  next
    case False
    have "x \<in> held s v" using x by simp
    from protectedD(1) [OF assms(2) this] show ?thesis
    proof (elim disjE exE conjE)
      fix u assume "pcs s u = Retiring x"
      then show ?thesis using False assms(3) by (cases "u = t") auto
    next
      fix u e assume "(e, x) \<in> set (garbage (meta s u))" "last_active_epoch (meta s v) \<le> e"
      then show ?thesis using m by (metis insertCI)
    qed simp
  qed
  show "m \<le> e" if "pcs ?s u = Summarizing i m" "v < i" "x \<in> held ?s v" "(e, x) \<in> set (garbage (meta ?s u))" for u i m v e x
    using that m(1) [of u] protectedD(2) [OF assms(2), of u i m v x e] assms(4) by (cases "u = t") auto
  show "m \<le> e" if "pcs ?s u = Freeing m" "x \<in> held ?s v" "(e, x) \<in> set (garbage (meta ?s u))" for u m v e x
    using that m(1) [of u] protectedD(3) [OF assms(2), of u m x v e] assms(4) by (cases "u = t") auto
qed

lemma still_held:
  assumes "protected s" "x \<in> held s v" "\<And>n. pcs s t \<noteq> Retiring n"
  shows "x \<in> linked (move t c s) \<or> (\<exists>u. pcs (move t c s) u = Retiring x)
    \<or> (\<exists>u e. (e, x) \<in> set (garbage (meta (move t c s) u)) \<and> last_active_epoch (meta (move t c s) v) \<le> e)"
  using protectedD(1) [OF assms(1,2)] assms(3) [of x] by (simp del: fun_upd_apply) (metis fun_upd_other)

lemma protected_summarize:
  assumes "one_place s" "protected s" "pcs s t = Summarizing i m" "ts = last_active_epoch (meta s i)"
  shows "protected (move t (Summarizing (Suc i) (if i = 0 then ts else min ts m)) s)" (is "protected ?s")
proof (rule protectedI)
  show "x \<in> linked ?s \<or> (\<exists>u. pcs ?s u = Retiring x) \<or> (\<exists>u e. (e, x) \<in> set (garbage (meta ?s u)) \<and> last_active_epoch (meta ?s v) \<le> e)"
    if "x \<in> held ?s v" for v x
    using that assms(3) by (intro still_held [OF assms(2)]) auto
  show "m' \<le> e" if a: "pcs ?s u = Summarizing i' m'" "v < i'" "x \<in> held ?s v" "(e, x) \<in> set (garbage (meta ?s u))" for u i' m' v e x
  proof (cases "u = t")
    case True
    have "ts \<le> e" if "v = i" using held_garbage [OF assms(1,2), of x v e u] a(3,4) that assms(4) by simp
    moreover have "m \<le> e" if "v < i" using protectedD(2) [OF assms(2,3) that, of x e] a(3,4) True by simp
    ultimately show ?thesis using a(1,2) True by (cases "v = i") (auto simp: min_le_iff_disj)
  next
    case False
    then show ?thesis using a protectedD(2) [OF assms(2), of u i' m' v x e] by simp
  qed
  show "m' \<le> e" if "pcs ?s u = Freeing m'" "x \<in> held ?s v" "(e, x) \<in> set (garbage (meta ?s u))" for u m' v e x
    using that protectedD(3) [OF assms(2), of u m' x v e] by (cases "u = t") auto
qed

lemma protected_summarized:
  assumes "threads_ok s" "protected s" "pcs s t = Summarizing (thread_num s) m"
  shows "protected (move t (Freeing m) s)" (is "protected ?s")
proof (rule protectedI)
  show "x \<in> linked ?s \<or> (\<exists>u. pcs ?s u = Retiring x) \<or> (\<exists>u e. (e, x) \<in> set (garbage (meta ?s u)) \<and> last_active_epoch (meta ?s v) \<le> e)"
    if "x \<in> held ?s v" for v x
    using that assms(3) by (intro still_held [OF assms(2)]) auto
  show "m' \<le> e" if "pcs ?s u = Summarizing i m'" "v < i" "x \<in> held ?s v" "(e, x) \<in> set (garbage (meta ?s u))" for u i m' v e x
    using that protectedD(2) [OF assms(2), of u i m' v x e] by (cases "u = t") auto
  show "m' \<le> e" if a: "pcs ?s u = Freeing m'" "x \<in> held ?s v" "(e, x) \<in> set (garbage (meta ?s u))" for u m' v e x
  proof (cases "u = t")
    case True
    have "v < thread_num s" using a(2) assms(1) by (auto simp: threads_ok_def)
    then show ?thesis using protectedD(2) [OF assms(2,3), of v x e] a True by simp
  qed (use a protectedD(3) [OF assms(2), of u m' x v e] in simp)
qed

lemma protected_free:
  assumes "threads_ok s" "one_place s" "protected s" "pcs s t = Freeing m" "garbage (meta s t) = (e, n) # g" "e < m"
    and "b = set_meta t (\<lambda>m. m\<lparr>garbage := g, node_count := node_count m - 1\<rparr>) (base s)"
  shows "protected (s\<lparr>base := b, freed := F\<rparr>)" (is "protected ?s") and "n \<notin> held s v"
proof -
  have t: "t < thread_num s" using assms(1,4) by (simp add: threads_ok_def)
  have m: "set (garbage (meta ?s u)) \<subseteq> set (garbage (meta s u))" "x \<noteq> n \<Longrightarrow> (d, x) \<in> set (garbage (meta ?s u)) \<longleftrightarrow> (d, x) \<in> set (garbage (meta s u))"
    "last_active_epoch (meta ?s u) = last_active_epoch (meta s u)" for u x d
    using t assms(5,7) by auto
  show n: "n \<notin> held s v" for v using protectedD(3) [OF assms(3,4), of n v e] assms(5,6) by auto
  show "protected ?s"
  proof (rule protectedI)
    show "x \<in> linked ?s \<or> (\<exists>u. pcs ?s u = Retiring x) \<or> (\<exists>u e. (e, x) \<in> set (garbage (meta ?s u)) \<and> last_active_epoch (meta ?s v) \<le> e)"
      if "x \<in> held ?s v" for v x
      using that protectedD(1) [OF assms(3), of x v] n [of v] m(2) [where x = x] m(3) by (cases "x = n") auto
    show "m' \<le> e'" if "pcs ?s u = Summarizing i m'" "v < i" "x \<in> held ?s v" "(e', x) \<in> set (garbage (meta ?s u))" for u i m' v e' x
      using that protectedD(2) [OF assms(3), of u i m' v x e'] m(1) [of u] by auto
    show "m' \<le> e'" if "pcs ?s u = Freeing m'" "x \<in> held ?s v" "(e', x) \<in> set (garbage (meta ?s u))" for u m' v e' x
      using that protectedD(3) [OF assms(3), of u m' x v e'] m(1) [of u] by auto
  qed
qed

lemma protected_step:
  assumes "gc_step s s'" "threads_ok s" "one_place s" "protected s"
  shows "protected s'"
  using assms(1)
proof cases
  case (load t n)
  then show ?thesis using protected_load [OF assms(3,4)] by simp
next
  case (retire t n b)
  then show ?thesis using protected_retire [OF assms(2,4) retire(2) _ retire(3)] by simp
next
  case (summarize t i m ts)
  then show ?thesis using protected_summarize [OF assms(3,4)] by simp
next
  case (summarized t i m)
  then show ?thesis using protected_summarized [OF assms(2,4)] by simp
next
  case (free t m e n g)
  then show ?thesis using protected_free(1) [OF assms(2-4) free(2-4) refl] by simp
next
  case (join_write t e)
  then have "t < thread_num s" "held s t = {}" using assms(2) by (auto simp: threads_ok_def)
  then show ?thesis using join_write by (intro protected_frame [OF assms(4)]) (auto split: if_splits)
next
  case (leave_write t e)
  then have "t < thread_num s" "held s t = {}" using assms(2) by (auto simp: threads_ok_def)
  then show ?thesis using leave_write by (intro protected_frame [OF assms(4)]) (auto split: if_splits)
qed (rule protected_frame [OF assms(4)]; auto split: if_splits)+

text \<open>
  C8. No node is used after it was freed. Whatever the threads of the array do, at the same time and in whatever order their accesses to
  the epoch, the counters and the mapping table take place, a node that a thread has loaded from the mapping table since it joined is
  not freed before the thread leaves, although a thread frees its own garbage and reads the counters of
  the others one by one while they change; no node of the mapping table is freed, and no node is freed twice. The epoch is
  assumed not to wrap around its 64 bits.
\<close>

theorem no_use_after_free:
  assumes "gc_reachable k nodes s"
  shows "held s t \<inter> freed s = {} \<and> linked s \<inter> freed s = {} \<and> snd ` set (garbage (meta s u)) \<inter> freed s = {}
    \<and> (\<forall>s' n. gc_step s s' \<and> n \<in> freed s' - freed s \<longrightarrow> (\<exists>u m. pcs s u = Freeing m) \<and> n \<notin> linked s \<and> (\<forall>v. n \<notin> held s v))"
proof -
  have inv: "threads_ok s \<and> one_place s \<and> protected s"
    using assms
  proof induction
    case start
    show ?case
      by (simp add: threads_ok_def one_place_def protected_def waiting_def meta_of_def BwTreeBase_def PrepareThreadLocal_def GCMetaData_def)
  next
    case (step s s')
    then show ?case using threads_ok_step one_place_step protected_step by metis
  qed
  have "n \<notin> freed s" if "n \<in> held s t" for n t
  proof -
    have "n \<in> waiting s u" if "(e, n) \<in> set (garbage (meta s u))" for u e using that by (force simp: waiting_def)
    then show ?thesis using protectedD(1) [OF _ that] inv one_placeD(1,2,4) [of s] by blast
  qed
  moreover have "(\<exists>u m. pcs s u = Freeing m) \<and> n \<notin> linked s \<and> (\<forall>v. n \<notin> held s v)"
    if "gc_step s s'" "n \<in> freed s' - freed s" for s' n
    using that(1)
  proof cases
    case (free t m e n' g)
    then have "n' = n" using that(2) by auto
    moreover have "n \<notin> linked s" using one_placeD(4) [of s n t] inv free(3) \<open>n' = n\<close> by (auto simp: waiting_def)
    ultimately show ?thesis using protected_free(2) [OF _ _ _ free(2-4) refl] inv free(2) by blast
  qed (use that(2) in auto)
  ultimately show ?thesis using inv one_placeD(1,4) [of s] unfolding waiting_def by blast
qed

definition sample_gc :: "nat gc_system" where
  "sample_gc = \<lparr>base = BwTreeBase 2, linked = {1, 2}, freed = {}, pcs = \<lambda>_. Idle, held = \<lambda>_. {}\<rparr>"

text \<open>Thread 0 has loaded node 2 when thread 1 joins, loads it and replaces it.\<close>

definition sample_replaced :: "nat gc_system" where
  "sample_replaced =
     (let join = (\<lambda>t s. move t Active ((move t (Joining 0) s)\<lparr>base := set_meta t (\<lambda>m. m\<lparr>last_active_epoch := 0\<rparr>) (base s)\<rparr>));
          fetch = (\<lambda>t s. s\<lparr>held := (held s)(t := insert 2 (held s t))\<rparr>);
          s = fetch 1 (join 1 (fetch 0 (join 0 sample_gc)))
      in move 1 (Retiring 2) (s\<lparr>linked := linked s - {2}\<rparr>))"

lemma sample_replaced_reachable: "gc_reachable 2 {1, 2} sample_replaced"
proof -
  let ?join = "\<lambda>t s. move t Active ((move t (Joining 0) s)\<lparr>base := set_meta t (\<lambda>m. m\<lparr>last_active_epoch := 0\<rparr>) (base s)\<rparr>)"
  let ?load = "\<lambda>t s. s\<lparr>held := (held s)(t := insert (2 :: nat) (held s t))\<rparr>"
  have join: "gc_reachable 2 {1, 2} (?join t s)" if "gc_reachable 2 {1, 2} s" "t < thread_num s" "pcs s t = Idle" "epoch (base s) = 0" for t s
    using gc_reachable.step [OF gc_reachable.step [OF that(1) gc_step.join_read [OF that(2,3)]] gc_step.join_write [of _ t 0]] that(4) by simp
  have load: "gc_reachable 2 {1, 2} (?load t s)" if "gc_reachable 2 {1, 2} s" "pcs s t = Active" "2 \<in> linked s" for t s
    by (rule gc_reachable.step [OF that(1) gc_step.load [OF that(2,3)]])
  have "gc_reachable 2 {1, 2} sample_gc" unfolding sample_gc_def by (rule gc_reachable.start)
  from load [OF join [OF this, of 0], of 0] have "gc_reachable 2 {1, 2} (?load 0 (?join 0 sample_gc))"
    by (simp add: sample_gc_def BwTreeBase_def PrepareThreadLocal_def)
  from load [OF join [OF this, of 1], of 1] have "gc_reachable 2 {1, 2} (?load 1 (?join 1 (?load 0 (?join 0 sample_gc))))"
    by (simp add: sample_gc_def BwTreeBase_def PrepareThreadLocal_def)
  from gc_reachable.step [OF this gc_step.replace [of _ 1 2]] show ?thesis
    by (simp add: sample_replaced_def Let_def sample_gc_def)
qed

theorem no_use_after_free_witness:
  "pcs sample_replaced 1 = Retiring 2 \<and> held sample_replaced 0 = {2} \<and> held sample_replaced 0 \<inter> freed sample_replaced = {}"
  using no_use_after_free [OF sample_replaced_reachable, of 0 0] by (simp add: sample_replaced_def Let_def sample_gc_def)

section \<open>What a collection frees\<close>

definition base_ok :: "'n bwtree_base \<Rightarrow> bool" where
  "base_ok b \<longleftrightarrow> (\<forall>m\<in>set (gc_metadata b). sorted (map fst (garbage m)) \<and> node_count m = of_nat (length (garbage m))
     \<and> length (garbage m) < 2 ^ 64 \<and> (\<forall>p\<in>set (garbage m). fst p \<le> epoch b))"

lemma gc_loop_law:
  "sorted (map fst g) \<Longrightarrow> length g < 2 ^ 64 \<Longrightarrow> gc_loop e g (of_nat (length g)) =
     Some (filter (\<lambda>p. \<not> fst p < e) g, of_nat (length (filter (\<lambda>p. \<not> fst p < e) g)), map snd (filter (\<lambda>p. fst p < e) g))"
proof (induction g)
  case (Cons p g)
  have "(of_nat (length (p # g)) :: 64 word) \<noteq> 0"
    using Cons.prems(2) by (intro of_nat_neq_0) simp_all
  moreover have "filter (\<lambda>p. fst p < e) g = []" "filter (\<lambda>p. \<not> fst p < e) g = g" if "\<not> fst p < e"
    using Cons.prems(1) that by (auto simp: filter_empty_conv filter_id_conv)
  ultimately show ?case using Cons by (cases p) auto
qed simp

lemma summarize_min:
  "gc_metadata b \<noteq> [] \<Longrightarrow> SummarizeGCEpoch b = Some (Min (last_active_epoch ` set (gc_metadata b)))"
proof -
  have "fold (\<lambda>m e. min (last_active_epoch m) e) ms e = Min (insert e (last_active_epoch ` set ms))" for ms :: "'a gc_meta list" and e
  proof (induction ms arbitrary: e)
    case (Cons m ms)
    have "fold (\<lambda>m e. min (last_active_epoch m) e) (m # ms) e = Min (insert (min (last_active_epoch m) e) (last_active_epoch ` set ms))"
      using Cons.IH by simp
    also have "\<dots> = Min (insert e (last_active_epoch ` set (m # ms)))"
      by (cases "ms = []") (simp_all add: min.assoc min.commute min.left_commute)
    finally show ?case .
  qed simp
  then show "gc_metadata b \<noteq> [] \<Longrightarrow> ?thesis" by (cases "gc_metadata b") (auto simp: SummarizeGCEpoch_def)
qed

lemma GetGCMetaData_nat: "t < length (gc_metadata b) \<Longrightarrow> GetGCMetaData b (int t) = Some (gc_metadata b ! t)"
  by (simp add: GetGCMetaData_def)

lemma update_meta_nat: "t < length (gc_metadata b) \<Longrightarrow>
    update_meta b (int t) f = Some (b\<lparr>gc_metadata := (gc_metadata b)[t := f (gc_metadata b ! t)]\<rparr>)"
  by (simp add: update_meta_def GetGCMetaData_nat)

lemma PerformGC_law:
  assumes "base_ok b" "t < length (gc_metadata b)" "g = garbage (gc_metadata b ! t)"
    and "e = Min (last_active_epoch ` set (gc_metadata b))"
  shows "PerformGC (int t) b = Some (b\<lparr>gc_metadata := (gc_metadata b)[t := (gc_metadata b ! t)
      \<lparr>garbage := filter (\<lambda>p. \<not> fst p < e) g, node_count := of_nat (length (filter (\<lambda>p. \<not> fst p < e) g))\<rparr>]\<rparr>,
    map snd (filter (\<lambda>p. fst p < e) g))"
proof -
  have "gc_metadata b ! t \<in> set (gc_metadata b)" using assms(2) by simp
  then have m: "sorted (map fst g)" "node_count (gc_metadata b ! t) = of_nat (length g)" "length g < 2 ^ 64"
    using assms(1,3) by (auto simp: base_ok_def)
  have "gc_metadata b \<noteq> []" using assms(2) by auto
  then show ?thesis
    using summarize_min [of b] m(2) gc_loop_law [OF m(1,3), of e] assms(2,4)
    by (simp add: PerformGC_def GetGCMetaData_nat update_meta_nat assms(3) [symmetric])
qed

lemma for_threads_snoc: "for_threads f (xs @ [i]) st = do { (b, fr) \<leftarrow> for_threads f xs st; (b, more) \<leftarrow> f (int i) b; Some (b, fr @ more) }"
  by (induction f xs st rule: for_threads.induct) (auto split: bind_splits)

abbreviation unregistered :: "'n gc_meta \<Rightarrow> 'n gc_meta" where
  "unregistered m \<equiv> m\<lparr>last_active_epoch := - 1\<rparr>"

lemma unregister_all:
  "n \<le> length (gc_metadata b) \<Longrightarrow> for_threads (\<lambda>i b. map_option (\<lambda>b. (b, [])) (UnregisterThread i b)) [0..<n] (b, [])
     = Some (b\<lparr>gc_metadata := map unregistered (take n (gc_metadata b)) @ drop n (gc_metadata b)\<rparr>, [])"
proof (induction n)
  case (Suc n)
  then have "n < length (gc_metadata b)" by simp
  then show ?case
    using Suc by (simp add: for_threads_snoc UnregisterThread_def update_meta_nat nth_append take_Suc_conv_app_nth list_update_append min_def Cons_nth_drop_Suc [symmetric])
qed simp

lemma collect_all:
  assumes "base_ok b" "\<forall>m\<in>set (gc_metadata b). last_active_epoch m = - 1" "epoch b \<noteq> - 1" "n \<le> length (gc_metadata b)"
  shows "for_threads (\<lambda>i b. do {
         (b, freed) \<leftarrow> PerformGC i b;
         m \<leftarrow> GetGCMetaData b i;
         if node_count m = 0 then Some (b, freed) else None
       }) [0..<n] (b, [])
     = Some (b\<lparr>gc_metadata := map (\<lambda>m. m\<lparr>garbage := [], node_count := 0\<rparr>) (take n (gc_metadata b)) @ drop n (gc_metadata b)\<rparr>,
         concat (map (\<lambda>m. map snd (garbage m)) (take n (gc_metadata b))))"
  using assms(4)
proof (induction n)
  case (Suc n)
  let ?f = "\<lambda>m :: 'a gc_meta. m\<lparr>garbage := [], node_count := 0\<rparr>"
  let ?b = "b\<lparr>gc_metadata := map ?f (take n (gc_metadata b)) @ drop n (gc_metadata b)\<rparr>"
  have n: "n < length (gc_metadata b)" using Suc.prems by simp
  have sub: "m \<in> set (gc_metadata ?b) \<Longrightarrow> m \<in> ?f ` set (gc_metadata b) \<union> set (gc_metadata b)" for m
    by (auto dest: in_set_takeD in_set_dropD)
  have ok: "base_ok ?b"
    unfolding base_ok_def
  proof
    fix m assume "m \<in> set (gc_metadata ?b)"
    from sub [OF this] show "sorted (map fst (garbage m)) \<and> node_count m = of_nat (length (garbage m))
     \<and> length (garbage m) < 2 ^ 64 \<and> (\<forall>p\<in>set (garbage m). fst p \<le> epoch ?b)"
      using assms(1) by (auto simp: base_ok_def)
  qed
  have "last_active_epoch ` set (gc_metadata ?b) = {- 1}"
  proof -
    have "last_active_epoch m = - 1" if "m \<in> set (gc_metadata ?b)" for m using sub [OF that] assms(2) by auto
    moreover have "gc_metadata ?b \<noteq> []" using n by simp
    ultimately show ?thesis by (cases "gc_metadata ?b") auto
  qed
  moreover have nth: "gc_metadata ?b ! n = gc_metadata b ! n" "n < length (gc_metadata ?b)" using n by (simp_all add: nth_append)
  moreover have "fst p < - 1" if "p \<in> set (garbage (gc_metadata b ! n))" for p
  proof -
    have "fst p \<le> epoch b" using assms(1) that n by (auto simp: base_ok_def)
    also have "epoch b < - 1" using assms(3) by (simp add: order_less_le)
    finally show ?thesis .
  qed
  ultimately have "PerformGC (int n) ?b = Some (?b\<lparr>gc_metadata := (gc_metadata ?b)[n := ?f (gc_metadata b ! n)]\<rparr>,
      map snd (garbage (gc_metadata b ! n)))"
    using PerformGC_law [OF ok nth(2) refl refl] by (simp add: filter_id_conv filter_empty_conv)
  then show ?case
    using Suc n by (simp add: for_threads_snoc GetGCMetaData_nat nth_append take_Suc_conv_app_nth list_update_append min_def Cons_nth_drop_Suc [symmetric])
qed simp

text \<open>
  The thread that destroys the tree, or changes the number of threads, frees the garbage of all threads: every node that was
  retired and not freed is freed, once, in the order it was retired per thread, the assertions hold, and the new array
  has one empty entry per thread.
\<close>

theorem update_thread_local_frees_all:
  assumes "base_ok b" "epoch b \<noteq> - 1"
  shows "UpdateThreadLocal n b = Some (b\<lparr>gc_metadata := replicate n GCMetaData\<rparr>, concat (map (\<lambda>m. map snd (garbage m)) (gc_metadata b)))"
proof -
  let ?b = "b\<lparr>gc_metadata := map unregistered (gc_metadata b)\<rparr>"
  have "base_ok ?b" using assms(1) by (auto simp: base_ok_def)
  note all = collect_all [OF this _ _ order_refl]
  have "ClearThreadLocalGarbage b = Some (?b\<lparr>gc_metadata := map (\<lambda>m. m\<lparr>garbage := [], node_count := 0\<rparr>) (gc_metadata ?b)\<rparr>,
      concat (map (\<lambda>m. map snd (garbage m)) (gc_metadata b)))"
    using unregister_all [OF order_refl, of b] all assms(2) by (simp add: ClearThreadLocalGarbage_def comp_def)
  then show ?thesis by (simp add: UpdateThreadLocal_def PrepareThreadLocal_def)
qed

definition sample_base :: "nat bwtree_base" where
  "sample_base = \<lparr>gc_metadata = [\<lparr>last_active_epoch = 3, garbage = [(1, 10), (4, 11)], node_count = 2\<rparr>,
     \<lparr>last_active_epoch = 2, garbage = [(2, 12)], node_count = 1\<rparr>], epoch = 5\<rparr>"

theorem update_thread_local_frees_all_witness:
  "UpdateThreadLocal 1 sample_base = Some (\<lparr>gc_metadata = [GCMetaData], epoch = 5\<rparr>, [10, 11, 12])"
proof -
  have "base_ok sample_base" "epoch sample_base \<noteq> - 1" by (simp_all add: base_ok_def sample_base_def)
  from update_thread_local_frees_all [OF this, of 1] show ?thesis by (simp add: sample_base_def)
qed

lemma sorted_split:
  assumes "sorted (map fst g)"
  shows "filter (\<lambda>p. fst p < (e :: 64 word)) g @ filter (\<lambda>p. \<not> fst p < e) g = g"
  using assms
proof (induction g)
  case (Cons p g)
  moreover have "filter (\<lambda>p. fst p < e) g = []" if "\<not> fst p < e"
    using Cons.prems that by (auto simp: filter_empty_conv)
  ultimately show ?case by auto
qed simp

lemma base_ok_update:
  assumes "base_ok b" "sorted (map fst g)" "length g < 2 ^ 64" "\<forall>p\<in>set g. fst p \<le> epoch b"
  shows "base_ok (b\<lparr>gc_metadata := (gc_metadata b)[t := m\<lparr>garbage := g, node_count := of_nat (length g)\<rparr>]\<rparr>)"
  using assms by (auto simp: base_ok_def dest!: set_update_subset_insert [THEN subsetD])

text \<open>Retiring a node keeps the garbage of the thread in the order of the epochs and the count right; what is freed is its oldest part.\<close>

lemma AddGarbageNode_ok:
  assumes "base_ok b" "t < length (gc_metadata b)" "length (garbage (gc_metadata b ! t)) < 2 ^ 64 - 1"
  shows "\<exists>b' fr. AddGarbageNode (int t) n b = Some (b', fr) \<and> base_ok b'
    \<and> map snd (garbage (gc_metadata b ! t)) @ [n] = fr @ map snd (garbage (gc_metadata b' ! t))"
proof -
  let ?m = "gc_metadata b ! t"
  define g where "g = garbage ?m @ [(epoch b, n)]"
  let ?m' = "?m\<lparr>garbage := g, node_count := of_nat (length g)\<rparr>"
  let ?b = "b\<lparr>gc_metadata := (gc_metadata b)[t := ?m']\<rparr>"
  define e where "e = Min (last_active_epoch ` set (gc_metadata ?b))"
  have m: "node_count ?m + 1 = of_nat (length g)" "sorted (map fst g)" "length g < 2 ^ 64" "\<forall>p\<in>set g. fst p \<le> epoch b"
    using assms by (auto simp: base_ok_def g_def sorted_append)
  have ok: "base_ok ?b" by (rule base_ok_update [OF assms(1) m(2-4)])
  have add: "AddGarbageNode (int t) n b = (if of_nat (length g) > GC_NODE_COUNT_THREADHOLD then PerformGC (int t) ?b else Some (?b, []))"
    using assms(2) m(1) by (simp add: AddGarbageNode_def update_meta_nat GetGCMetaData_nat g_def [symmetric])
  have gc: "PerformGC (int t) ?b = Some (?b\<lparr>gc_metadata := (gc_metadata ?b)[t := ?m'
      \<lparr>garbage := filter (\<lambda>p. \<not> fst p < e) g, node_count := of_nat (length (filter (\<lambda>p. \<not> fst p < e) g))\<rparr>]\<rparr>,
    map snd (filter (\<lambda>p. fst p < e) g))"
    using PerformGC_law [OF ok _ refl e_def, of t] assms(2) by simp
  have "length (filter (\<lambda>p. \<not> fst p < e) g) < 2 ^ 64" using m(3) length_filter_le le_less_trans by blast
  then have "base_ok (?b\<lparr>gc_metadata := (gc_metadata ?b)[t := ?m'
      \<lparr>garbage := filter (\<lambda>p. \<not> fst p < e) g, node_count := of_nat (length (filter (\<lambda>p. \<not> fst p < e) g))\<rparr>]\<rparr>)"
    using m(2,4) by (intro base_ok_update [OF ok]) (auto simp: sorted_filter)
  moreover have "map snd (garbage ?m) @ [n] = map snd (filter (\<lambda>p. fst p < e) g) @ map snd (filter (\<lambda>p. \<not> fst p < e) g)"
    unfolding map_append [symmetric] sorted_split [OF m(2)] by (simp add: g_def)
  moreover have "map snd (garbage ?m) @ [n] = map snd g" by (simp add: g_def)
  ultimately show ?thesis using add gc ok assms(2) by (cases "of_nat (length g) > GC_NODE_COUNT_THREADHOLD") simp_all
qed

end
