(* ===== verification/Bwtree_Atomic_Stack.thy ===== *)
theory Bwtree_Atomic_Stack
  imports Main "HOL-Library.Word" "HOL-Library.Multiset" "HOL-Library.Monad_Syntax"
begin

text \<open>
  \<open>AtomicStack\<close> of BwTree/src/atomic_stack.h, the list of free node ids: many threads pop and one pushes, without locks. Pointers into the array are indices,
  -1 for the element before it.
\<close>

section \<open>Versioned pointers\<close>

record versioned_pointer =
  vp_ptr :: "int option"
  vp_version :: "64 word"

definition VersionedPointer :: "int option \<Rightarrow> versioned_pointer" where
  "VersionedPointer p = \<lparr>vp_ptr = p, vp_version = 0\<rparr>"

definition vp_increment :: "versioned_pointer \<Rightarrow> versioned_pointer" where
  "vp_increment vp = vp\<lparr>vp_ptr := map_option (\<lambda>i. i + 1) (vp_ptr vp)\<rparr>"

definition vp_decrement :: "versioned_pointer \<Rightarrow> versioned_pointer" where
  "vp_decrement vp = vp\<lparr>vp_ptr := map_option (\<lambda>i. i - 1) (vp_ptr vp)\<rparr>"

definition ToNextVersion :: "versioned_pointer \<Rightarrow> versioned_pointer" where
  "ToNextVersion vp = vp\<lparr>vp_version := vp_version vp + 1\<rparr>"

section \<open>The stack\<close>

record 'a atomic_stack =
  stack_data :: "'a list"
  top_p :: versioned_pointer
  push_buffer :: "'a list"

text \<open>The constructor, on an array with whatever it holds.\<close>

definition AtomicStack :: "'a list \<Rightarrow> 'a atomic_stack" where
  "AtomicStack d = \<lparr>stack_data = d, top_p = VersionedPointer (Some (- 1)), push_buffer = []\<rparr>"

definition PreparePush :: "'a atomic_stack \<Rightarrow> versioned_pointer \<times> 'a atomic_stack" where
  "PreparePush s = (top_p s, s\<lparr>top_p := VersionedPointer None\<rparr>)"

text \<open>\<open>*(++snapshot_top_p) = item\<close>; outside the array this has no meaning.\<close>

definition write_next :: "'a \<Rightarrow> versioned_pointer \<times> 'a atomic_stack \<Rightarrow> (versioned_pointer \<times> 'a atomic_stack) option" where
  "write_next x ps = (let (vp, s) = ps; vp = vp_increment vp in
     case vp_ptr vp of
       None \<Rightarrow> None
     | Some i \<Rightarrow> if 0 \<le> i \<and> nat i < length (stack_data s) then Some (vp, s\<lparr>stack_data := (stack_data s)[nat i := x]\<rparr>) else None)"

definition SingleThreadBufferPush :: "'a \<Rightarrow> 'a atomic_stack \<Rightarrow> 'a atomic_stack" where
  "SingleThreadBufferPush x s = s\<lparr>push_buffer := push_buffer s @ [x]\<rparr>"

definition SingleThreadPush :: "'a \<Rightarrow> 'a atomic_stack \<Rightarrow> 'a atomic_stack option" where
  "SingleThreadPush x s = do {
     (vp, s) \<leftarrow> write_next x (PreparePush s);
     Some (s\<lparr>top_p := ToNextVersion vp\<rparr>)
   }"

fun write_all :: "'a list \<Rightarrow> versioned_pointer \<times> 'a atomic_stack \<Rightarrow> (versioned_pointer \<times> 'a atomic_stack) option" where
  "write_all [] ps = Some ps"
| "write_all (x # xs) ps = do { ps \<leftarrow> write_next x ps; write_all xs ps }"

definition SingleThreadCommitPush :: "'a atomic_stack \<Rightarrow> 'a atomic_stack option" where
  "SingleThreadCommitPush s = do {
     (vp, s) \<leftarrow> write_all (push_buffer s) (PreparePush s);
     Some (s\<lparr>top_p := ToNextVersion vp, push_buffer := []\<rparr>)
   }"

text \<open>One round of \<open>Pop\<close> is: look at the snapshot, read the item, try to move the top.\<close>

definition pop_empty :: "versioned_pointer \<Rightarrow> bool" where
  "pop_empty snap = (case vp_ptr snap of None \<Rightarrow> True | Some i \<Rightarrow> i < 0)"

definition pop_item :: "versioned_pointer \<Rightarrow> 'a atomic_stack \<Rightarrow> 'a" where
  "pop_item snap s = stack_data s ! nat (the (vp_ptr snap))"

definition pop_cas :: "versioned_pointer \<Rightarrow> 'a atomic_stack \<Rightarrow> 'a atomic_stack option" where
  "pop_cas snap s = (if top_p s = snap then Some (s\<lparr>top_p := ToNextVersion (vp_decrement snap)\<rparr>) else None)"

text \<open>\<open>Pop\<close> when no other thread interferes: its loop ends in the first round.\<close>

definition Pop :: "'a atomic_stack \<Rightarrow> 'a option \<times> 'a atomic_stack" where
  "Pop s = (if pop_empty (top_p s) then (None, s)
     else case pop_cas (top_p s) s of Some s' \<Rightarrow> (Some (pop_item (top_p s) s), s') | None \<Rightarrow> (None, s))"

text \<open>The elements, the top one last.\<close>

definition stack_items :: "'a atomic_stack \<Rightarrow> 'a list" where
  "stack_items s = (case vp_ptr (top_p s) of None \<Rightarrow> [] | Some i \<Rightarrow> take (nat (i + 1)) (stack_data s))"

definition stack_ok :: "'a atomic_stack \<Rightarrow> bool" where
  "stack_ok s \<longleftrightarrow> (\<exists>i. vp_ptr (top_p s) = Some i \<and> - 1 \<le> i \<and> i < int (length (stack_data s)))"

section \<open>One thread\<close>

lemma take_write: "i < length d \<Longrightarrow> take (Suc i) (d[i := x]) = take i d @ [x]"
  by (simp add: take_Suc_conv_app_nth)

lemma write_all_law:
  assumes "vp_ptr vp = Some i" "- 1 \<le> i" "i + int (length xs) < int (length (stack_data s))"
  shows "\<exists>s'. write_all xs (vp, s) = Some (vp\<lparr>vp_ptr := Some (i + int (length xs))\<rparr>, s') \<and> top_p s' = top_p s \<and> push_buffer s' = push_buffer s
    \<and> length (stack_data s') = length (stack_data s)
    \<and> take (nat (i + 1) + length xs) (stack_data s') = take (nat (i + 1)) (stack_data s) @ xs"
  using assms
proof (induction xs arbitrary: vp i s)
  case Nil
  then show ?case by simp
next
  case (Cons x xs)
  let ?s = "s\<lparr>stack_data := (stack_data s)[nat (i + 1) := x]\<rparr>" and ?vp = "vp\<lparr>vp_ptr := Some (i + 1)\<rparr>"
  have w: "write_next x (vp, s) = Some (?vp, ?s)" using Cons.prems by (simp add: write_next_def vp_increment_def)
  have "\<exists>s'. write_all xs (?vp, ?s) = Some (?vp\<lparr>vp_ptr := Some (i + 1 + int (length xs))\<rparr>, s') \<and> top_p s' = top_p ?s \<and> push_buffer s' = push_buffer ?s
      \<and> length (stack_data s') = length (stack_data ?s)
      \<and> take (nat (i + 1 + 1) + length xs) (stack_data s') = take (nat (i + 1 + 1)) (stack_data ?s) @ xs"
    by (rule Cons.IH) (use Cons.prems in simp_all)
  then obtain s' where s': "write_all xs (?vp, ?s) = Some (?vp\<lparr>vp_ptr := Some (i + 1 + int (length xs))\<rparr>, s')" "top_p s' = top_p s" "push_buffer s' = push_buffer s"
      "length (stack_data s') = length (stack_data s)" "take (nat (i + 1 + 1) + length xs) (stack_data s') = take (nat (i + 1 + 1)) (stack_data ?s) @ xs"
    by auto
  have n: "nat (i + 1 + 1) = Suc (nat (i + 1))" "nat (i + 1) < length (stack_data s)" using Cons.prems by auto
  have "take (nat (i + 1 + 1)) (stack_data ?s) = take (nat (i + 1)) (stack_data s) @ [x]" unfolding n(1) using take_write [OF n(2)] by simp
  then show ?case using w s' n(1) by (auto simp: algebra_simps)
qed

lemma push_law:
  assumes "stack_ok s" "length (stack_items s) < length (stack_data s)"
  shows "\<exists>s'. SingleThreadPush x s = Some s' \<and> stack_ok s' \<and> stack_items s' = stack_items s @ [x]"
proof -
  obtain i where i: "vp_ptr (top_p s) = Some i" "- 1 \<le> i" "i < int (length (stack_data s))" using assms(1) by (auto simp: stack_ok_def)
  have "i + 1 < int (length (stack_data s))" using assms(2) i by (simp add: stack_items_def min_def split: if_splits)
  then obtain s' where s': "write_all [x] (PreparePush s) = Some ((top_p s)\<lparr>vp_ptr := Some (i + 1)\<rparr>, s')" "length (stack_data s') = length (stack_data s)"
      "take (nat (i + 1) + 1) (stack_data s') = take (nat (i + 1)) (stack_data s) @ [x]"
    using write_all_law [of "top_p s" i "[x]" "s\<lparr>top_p := VersionedPointer None\<rparr>"] i by (auto simp: PreparePush_def)
  then have "write_next x (PreparePush s) = Some ((top_p s)\<lparr>vp_ptr := Some (i + 1)\<rparr>, s')" by (auto split: bind_splits)
  then have "SingleThreadPush x s = Some (s'\<lparr>top_p := ToNextVersion ((top_p s)\<lparr>vp_ptr := Some (i + 1)\<rparr>)\<rparr>)" by (simp add: SingleThreadPush_def)
  moreover have "nat (2 + i) = nat (i + 1) + 1" using i(2) by simp
  ultimately show ?thesis using s'(2,3) i \<open>i + 1 < int (length (stack_data s))\<close> by (simp add: stack_ok_def stack_items_def ToNextVersion_def)
qed

lemma commit_law:
  assumes "stack_ok s" "length (stack_items s) + length (push_buffer s) \<le> length (stack_data s)"
  shows "\<exists>s'. SingleThreadCommitPush s = Some s' \<and> stack_ok s' \<and> stack_items s' = stack_items s @ push_buffer s \<and> push_buffer s' = []"
proof -
  let ?n = "int (length (push_buffer s))"
  obtain i where i: "vp_ptr (top_p s) = Some i" "- 1 \<le> i" "i < int (length (stack_data s))" using assms(1) by (auto simp: stack_ok_def)
  have b: "i + ?n < int (length (stack_data s))" using assms(2) i by (simp add: stack_items_def min_def split: if_splits)
  then obtain s' where s': "write_all (push_buffer s) (PreparePush s) = Some ((top_p s)\<lparr>vp_ptr := Some (i + ?n)\<rparr>, s')" "length (stack_data s') = length (stack_data s)"
      "take (nat (i + 1) + length (push_buffer s)) (stack_data s') = take (nat (i + 1)) (stack_data s) @ push_buffer s"
    using write_all_law [of "top_p s" i "push_buffer s" "s\<lparr>top_p := VersionedPointer None\<rparr>"] i by (auto simp: PreparePush_def)
  have n: "nat (i + ?n + 1) = nat (i + 1) + length (push_buffer s)" using i(2) by simp
  show ?thesis using s' i b n by (simp add: SingleThreadCommitPush_def stack_ok_def stack_items_def ToNextVersion_def)
qed

lemma pop_law:
  assumes "stack_ok s"
  shows "\<exists>s'. Pop s = (if stack_items s = [] then None else Some (last (stack_items s)), s') \<and> stack_ok s' \<and> stack_items s' = butlast (stack_items s)"
proof -
  obtain i where i: "vp_ptr (top_p s) = Some i" "- 1 \<le> i" "i < int (length (stack_data s))" using assms(1) by (auto simp: stack_ok_def)
  show ?thesis
  proof (cases "i = - 1")
    case True
    then show ?thesis using i assms by (simp add: Pop_def pop_empty_def stack_items_def)
  next
    case False
    then have pos: "0 \<le> i" "nat (i + 1) = Suc (nat i)" "nat i < length (stack_data s)" using i by auto
    then show ?thesis using i
      by (simp add: Pop_def pop_empty_def pop_cas_def pop_item_def stack_items_def stack_ok_def vp_decrement_def ToNextVersion_def take_Suc_conv_app_nth)
  qed
qed


section \<open>Many threads\<close>

text \<open>
  Where the pushing thread and the popping threads are between two atomic accesses. The pushing thread has the pointer it took off the
  stack, the pointer it has reached, what it has written and what it has still to write.
\<close>

datatype 'a push_pc = PushIdle | Pushing versioned_pointer versioned_pointer "'a list" "'a list"

datatype 'a pop_pc = PopStart | PopLoaded versioned_pointer | PopRead versioned_pointer 'a | PopDone "'a option"

text \<open>With the items that have been pushed and popped so far.\<close>

record 'a stack_system =
  shared_stack :: "'a atomic_stack"
  pusher :: "'a push_pc"
  poppers :: "nat \<Rightarrow> 'a pop_pc"
  pushed_items :: "'a multiset"
  popped_items :: "'a multiset"

definition pop_to :: "nat \<Rightarrow> 'a pop_pc \<Rightarrow> 'a stack_system \<Rightarrow> 'a stack_system" where
  "pop_to t c s = s\<lparr>poppers := (poppers s)(t := c)\<rparr>"

text \<open>A compare-and-swap that fails loads the current pointer. Versions do not wrap around.\<close>

inductive stack_step :: "'a stack_system \<Rightarrow> 'a stack_system \<Rightarrow> bool" where
  prepare_push: "pusher s = PushIdle \<Longrightarrow> PreparePush (shared_stack s) = (snap, st) \<Longrightarrow>
    stack_step s (s\<lparr>shared_stack := st, pusher := Pushing snap snap [] xs\<rparr>)"
| write_item: "pusher s = Pushing snap vp ws (x # xs) \<Longrightarrow> write_next x (vp, shared_stack s) = Some (vp', st) \<Longrightarrow>
    stack_step s (s\<lparr>shared_stack := st, pusher := Pushing snap vp' (ws @ [x]) xs\<rparr>)"
| store_top: "pusher s = Pushing snap vp ws [] \<Longrightarrow> vp_version vp \<noteq> - 1 \<Longrightarrow>
    stack_step s (s\<lparr>shared_stack := (shared_stack s)\<lparr>top_p := ToNextVersion vp\<rparr>, pusher := PushIdle, pushed_items := pushed_items s + mset ws\<rparr>)"
| load_top: "poppers s t = PopStart \<Longrightarrow> stack_step s (pop_to t (PopLoaded (top_p (shared_stack s))) s)"
| found_empty: "poppers s t = PopLoaded snap \<Longrightarrow> pop_empty snap \<Longrightarrow> stack_step s (pop_to t (PopDone None) s)"
| read_item: "poppers s t = PopLoaded snap \<Longrightarrow> \<not> pop_empty snap \<Longrightarrow> stack_step s (pop_to t (PopRead snap (pop_item snap (shared_stack s))) s)"
| cas_ok: "poppers s t = PopRead snap x \<Longrightarrow> pop_cas snap (shared_stack s) = Some st \<Longrightarrow> vp_version snap \<noteq> - 1 \<Longrightarrow>
    stack_step s (pop_to t (PopDone (Some x)) (s\<lparr>shared_stack := st, popped_items := add_mset x (popped_items s)\<rparr>))"
| cas_fails: "poppers s t = PopRead snap x \<Longrightarrow> pop_cas snap (shared_stack s) = None \<Longrightarrow> stack_step s (pop_to t (PopLoaded (top_p (shared_stack s))) s)"
| return: "poppers s t = PopDone r \<Longrightarrow> stack_step s (pop_to t PopStart s)"

inductive stack_reachable :: "'a list \<Rightarrow> 'a stack_system \<Rightarrow> bool" for d where
  start: "stack_reachable d \<lparr>shared_stack = AtomicStack d, pusher = PushIdle, poppers = \<lambda>_. PopStart, pushed_items = {#}, popped_items = {#}\<rparr>"
| step: "stack_reachable d s \<Longrightarrow> stack_step s s' \<Longrightarrow> stack_reachable d s'"

text \<open>The pointer that the stack has, or had before the push that is going on.\<close>

definition logical_top :: "'a stack_system \<Rightarrow> versioned_pointer" where
  "logical_top s = (case pusher s of PushIdle \<Rightarrow> top_p (shared_stack s) | Pushing snap vp ws xs \<Rightarrow> snap)"

definition logical_items :: "'a stack_system \<Rightarrow> 'a list" where
  "logical_items s = take (nat (the (vp_ptr (logical_top s)) + 1)) (stack_data (shared_stack s))"

definition push_ok :: "'a stack_system \<Rightarrow> bool" where
  "push_ok s \<longleftrightarrow> (\<exists>i. vp_ptr (logical_top s) = Some i \<and> - 1 \<le> i \<and> i < int (length (stack_data (shared_stack s)))
     \<and> (\<forall>snap vp ws xs. pusher s = Pushing snap vp ws xs \<longrightarrow> vp_ptr (top_p (shared_stack s)) = None
          \<and> vp = snap\<lparr>vp_ptr := Some (i + int (length ws))\<rparr> \<and> i + int (length ws) < int (length (stack_data (shared_stack s)))
          \<and> take (nat (i + 1) + length ws) (stack_data (shared_stack s)) = logical_items s @ ws))"

text \<open>A snapshot with the version of the stack is the pointer of the stack; an older one can not be swapped.\<close>

definition snap_ok :: "'a stack_system \<Rightarrow> versioned_pointer \<Rightarrow> bool" where
  "snap_ok s snap \<longleftrightarrow> vp_ptr snap = None \<or> vp_version snap < vp_version (logical_top s) \<or> snap = logical_top s"

definition pops_ok :: "'a stack_system \<Rightarrow> bool" where
  "pops_ok s \<longleftrightarrow> (\<forall>t snap. poppers s t = PopLoaded snap \<longrightarrow> snap_ok s snap)
     \<and> (\<forall>t snap x. poppers s t = PopRead snap x \<longrightarrow> snap_ok s snap \<and> \<not> pop_empty snap
          \<and> (snap = logical_top s \<longrightarrow> x = stack_data (shared_stack s) ! nat (the (vp_ptr snap))))"

definition balanced :: "'a stack_system \<Rightarrow> bool" where
  "balanced s \<longleftrightarrow> mset (logical_items s) + popped_items s = pushed_items s"

lemma next_version: "(v :: 64 word) \<noteq> - 1 \<Longrightarrow> v < v + 1" "w < v \<Longrightarrow> v \<noteq> - 1 \<Longrightarrow> w < v + (1 :: 64 word)"
proof -
  show *: "v < v + 1" if "v \<noteq> - 1" for v :: "64 word"
  proof -
    have "1 + v \<noteq> 0" using that by (metis add_eq_0_iff add.commute)
    then show ?thesis using unatSuc [of v] by (simp add: word_less_nat_alt add.commute)
  qed
  show "w < v \<Longrightarrow> v \<noteq> - 1 \<Longrightarrow> w < v + 1" using * by (meson less_trans)
qed

definition stack_inv :: "'a stack_system \<Rightarrow> bool" where
  "stack_inv s \<longleftrightarrow> push_ok s \<and> pops_ok s \<and> balanced s"

lemma logical_top_pop_to [simp]: "logical_top (pop_to t c s) = logical_top s"
  by (cases "pusher s") (simp_all add: pop_to_def logical_top_def)

lemma pop_to_fields [simp]:
  "shared_stack (pop_to t c s) = shared_stack s" "pusher (pop_to t c s) = pusher s" "pushed_items (pop_to t c s) = pushed_items s" "popped_items (pop_to t c s) = popped_items s"
  "poppers (pop_to t c s) = (poppers s)(t := c)"
  by (simp_all add: pop_to_def)

lemma pop_to_frame [simp]:
  "logical_items (pop_to t c s) = logical_items s" "push_ok (pop_to t c s) = push_ok s" "snap_ok (pop_to t c s) snap = snap_ok s snap"
  "balanced (pop_to t c s) = balanced s"
  by (simp_all add: logical_items_def push_ok_def snap_ok_def balanced_def)

lemma loaded_ok: "push_ok s \<Longrightarrow> snap_ok s (top_p (shared_stack s))"
  by (cases "pusher s") (auto simp: push_ok_def snap_ok_def logical_top_def)

lemma stack_inv_prepare:
  assumes "stack_inv s" "pusher s = PushIdle" "PreparePush (shared_stack s) = (snap, st)"
  shows "stack_inv (s\<lparr>shared_stack := st, pusher := Pushing snap snap [] xs\<rparr>)"
proof -
  let ?s = "s\<lparr>shared_stack := st, pusher := Pushing snap snap [] xs\<rparr>"
  have st: "st = (shared_stack s)\<lparr>top_p := VersionedPointer None\<rparr>" "snap = top_p (shared_stack s)" using assms(3) by (auto simp: PreparePush_def)
  have eq: "logical_top ?s = logical_top s" "logical_items ?s = logical_items s" using assms(2) st by (simp_all add: logical_top_def logical_items_def)
  have "push_ok ?s" using assms(1,2) eq st
    by (auto simp: stack_inv_def push_ok_def VersionedPointer_def logical_items_def) (simp_all add: logical_top_def)
  then show ?thesis using assms(1) eq st by (simp add: stack_inv_def pops_ok_def snap_ok_def balanced_def)
qed

lemma stack_inv_write:
  assumes "stack_inv s" "pusher s = Pushing snap vp ws (x # xs)" "write_next x (vp, shared_stack s) = Some (vp', st)"
  shows "stack_inv (s\<lparr>shared_stack := st, pusher := Pushing snap vp' (ws @ [x]) xs\<rparr>)"
proof -
  let ?s = "s\<lparr>shared_stack := st, pusher := Pushing snap vp' (ws @ [x]) xs\<rparr>" and ?d = "stack_data (shared_stack s)"
  have top: "logical_top s = snap" "logical_top ?s = snap" using assms(2) by (simp_all add: logical_top_def)
  obtain i where i: "vp_ptr snap = Some i" "- 1 \<le> i" "i < int (length ?d)" "vp_ptr (top_p (shared_stack s)) = None"
      "vp = snap\<lparr>vp_ptr := Some (i + int (length ws))\<rparr>" "i + int (length ws) < int (length ?d)"
      "take (nat (i + 1) + length ws) ?d = logical_items s @ ws"
    using assms(1,2) top by (auto simp: stack_inv_def push_ok_def)
  let ?j = "nat (i + 1) + length ws"
  have j: "nat (i + int (length ws) + 1) = ?j" using i(2) by simp
  have st: "vp' = snap\<lparr>vp_ptr := Some (i + int (length ws) + 1)\<rparr>" "st = (shared_stack s)\<lparr>stack_data := ?d[?j := x]\<rparr>" "?j < length ?d"
    using assms(3) i(5) j by (auto simp: write_next_def vp_increment_def split: if_splits)
  have items: "logical_items ?s = logical_items s" using top st(2) i(1) by (simp add: logical_items_def)
  have "take (Suc ?j) (?d[?j := x]) = logical_items s @ ws @ [x]" using take_write [OF st(3), of x] i(7) by simp
  then have "push_ok ?s" unfolding push_ok_def top items using i st j by auto
  moreover have "pops_ok ?s"
  proof -
    have same: "?d[?j := x] ! nat i = ?d ! nat i" if "0 \<le> i" using that by (simp add: nth_list_update_neq)
    have "y = stack_data (shared_stack ?s) ! nat (the (vp_ptr snap))" if "poppers s t = PopRead snap y" for t y
    proof -
      have "\<not> pop_empty snap" "y = ?d ! nat i" using assms(1) that top i(1) by (auto simp: stack_inv_def pops_ok_def)
      then show ?thesis using same i(1) st(2) by (simp add: pop_empty_def)
    qed
    then show ?thesis using assms(1) unfolding stack_inv_def pops_ok_def snap_ok_def top by simp
  qed
  ultimately show ?thesis using assms(1) items by (simp add: stack_inv_def balanced_def)
qed

lemma stack_inv_store:
  assumes "stack_inv s" "pusher s = Pushing snap vp ws []" "vp_version vp \<noteq> - 1"
  shows "stack_inv (s\<lparr>shared_stack := (shared_stack s)\<lparr>top_p := ToNextVersion vp\<rparr>, pusher := PushIdle, pushed_items := pushed_items s + mset ws\<rparr>)"
proof -
  let ?s = "s\<lparr>shared_stack := (shared_stack s)\<lparr>top_p := ToNextVersion vp\<rparr>, pusher := PushIdle, pushed_items := pushed_items s + mset ws\<rparr>" and ?d = "stack_data (shared_stack s)"
  have top: "logical_top s = snap" "logical_top ?s = ToNextVersion vp" using assms(2) by (simp_all add: logical_top_def)
  obtain i where i: "vp_ptr snap = Some i" "- 1 \<le> i" "vp = snap\<lparr>vp_ptr := Some (i + int (length ws))\<rparr>" "i + int (length ws) < int (length ?d)"
      "take (nat (i + 1) + length ws) ?d = logical_items s @ ws"
    using assms(1,2) top by (auto simp: stack_inv_def push_ok_def)
  have "nat (i + int (length ws) + 1) = nat (i + 1) + length ws" using i(2) by simp
  then have items: "logical_items ?s = logical_items s @ ws" unfolding logical_items_def [of ?s] top(2) using i(3,5) by (simp add: ToNextVersion_def)
  have v: "vp_version (logical_top ?s) = vp_version snap + 1" "vp_version snap \<noteq> - 1" using i(3) assms(3) top by (simp_all add: ToNextVersion_def)
  have old: "vp_version q < vp_version (logical_top ?s) \<or> vp_ptr q = None" if "snap_ok s q" for q
    using that next_version(1) [OF v(2)] v(1) next_version(2) [OF _ v(2)] unfolding snap_ok_def top(1) by auto
  have "push_ok ?s" unfolding push_ok_def top using i by (auto simp: ToNextVersion_def)
  moreover have "pops_ok ?s"
  proof -
    have "q \<noteq> logical_top ?s" if "snap_ok s q" "\<not> pop_empty q" for q using old [OF that(1)] that(2) by (auto simp: pop_empty_def)
    then show ?thesis using assms(1) old unfolding stack_inv_def pops_ok_def snap_ok_def [of ?s] by fastforce
  qed
  moreover have "balanced ?s" using assms(1) items by (simp add: stack_inv_def balanced_def)
  ultimately show ?thesis by (simp add: stack_inv_def)
qed


lemma stack_inv_pop:
  assumes "stack_inv s" "poppers s t = PopRead snap x" "pop_cas snap (shared_stack s) = Some st" "vp_version snap \<noteq> - 1"
  shows "stack_inv (pop_to t (PopDone (Some x)) (s\<lparr>shared_stack := st, popped_items := add_mset x (popped_items s)\<rparr>))"
    and "pusher s = PushIdle" "logical_items s = logical_items (s\<lparr>shared_stack := st, popped_items := add_mset x (popped_items s)\<rparr>) @ [x]"
proof -
  let ?s = "s\<lparr>shared_stack := st, popped_items := add_mset x (popped_items s)\<rparr>" and ?d = "stack_data (shared_stack s)"
  have st: "top_p (shared_stack s) = snap" "st = (shared_stack s)\<lparr>top_p := ToNextVersion (vp_decrement snap)\<rparr>"
    using assms(3) by (auto simp: pop_cas_def split: if_splits)
  have ne: "\<not> pop_empty snap" using assms(1,2) by (auto simp: stack_inv_def pops_ok_def)
  then obtain i where i: "vp_ptr snap = Some i" "0 \<le> i" by (auto simp: pop_empty_def split: option.splits)
  show idle: "pusher s = PushIdle"
  proof (cases "pusher s")
    case (Pushing sn vp ws xs)
    then have "vp_ptr (top_p (shared_stack s)) = None" using assms(1) by (auto simp: stack_inv_def push_ok_def)
    then show ?thesis using st(1) i(1) by simp
  qed
  have top: "logical_top s = snap" "logical_top ?s = ToNextVersion (vp_decrement snap)" using idle st by (simp_all add: logical_top_def)
  have len: "i < int (length ?d)" using assms(1) i(1) top(1) by (auto simp: stack_inv_def push_ok_def)
  have x: "x = ?d ! nat i" using assms(1,2) top(1) i(1) by (auto simp: stack_inv_def pops_ok_def)
  have v: "vp_version (logical_top ?s) = vp_version snap + 1" "vp_ptr (logical_top ?s) = Some (i - 1)" using i top by (simp_all add: ToNextVersion_def vp_decrement_def)
  have "nat (i + 1) = Suc (nat i)" "nat i < length ?d" using i(2) len by auto
  then show items: "logical_items s = logical_items ?s @ [x]"
    unfolding logical_items_def v(2) top(1) using i st(2) x by (simp add: take_Suc_conv_app_nth)
  have old: "vp_version q < vp_version (logical_top ?s) \<or> vp_ptr q = None" if "snap_ok s q" for q
    using that next_version(1) [OF assms(4)] v(1) next_version(2) [OF _ assms(4)] unfolding snap_ok_def top(1) by auto
  have "push_ok ?s" unfolding push_ok_def using v(2) i(2) len st(2) idle by auto
  moreover have "pops_ok (pop_to t (PopDone (Some x)) ?s)"
  proof -
    have "q \<noteq> logical_top ?s" if "snap_ok s q" "\<not> pop_empty q" for q using old [OF that(1)] that(2) by (auto simp: pop_empty_def)
    then show ?thesis using assms(1) old unfolding stack_inv_def pops_ok_def pop_to_frame snap_ok_def [of ?s] logical_top_pop_to by (fastforce split: if_splits)
  qed
  moreover have "balanced ?s" using assms(1) items by (simp add: stack_inv_def balanced_def)
  ultimately show "stack_inv (pop_to t (PopDone (Some x)) ?s)" by (simp add: stack_inv_def)
qed

lemma stack_inv_pc:
  assumes "stack_inv s" "\<And>snap. c = PopLoaded snap \<Longrightarrow> snap_ok s snap"
    and "\<And>snap x. c = PopRead snap x \<Longrightarrow> snap_ok s snap \<and> \<not> pop_empty snap \<and> x = stack_data (shared_stack s) ! nat (the (vp_ptr snap))"
  shows "stack_inv (pop_to t c s)"
  using assms unfolding stack_inv_def pops_ok_def pop_to_frame logical_top_pop_to pop_to_fields by (auto split: if_splits)

lemma stack_step_inv:
  assumes "stack_step s s'" "stack_inv s"
  shows "stack_inv s'"
  using assms(1)
proof cases
  case (prepare_push snap st xs)
  then show ?thesis using stack_inv_prepare [OF assms(2)] by simp
next
  case (write_item snap vp ws x xs vp' st)
  then show ?thesis using stack_inv_write [OF assms(2)] by simp
next
  case (store_top snap vp ws)
  then show ?thesis using stack_inv_store [OF assms(2)] by simp
next
  case (read_item t snap)
  have "snap_ok s snap" using assms(2) read_item by (auto simp: stack_inv_def pops_ok_def)
  then show ?thesis using read_item assms(2) by (auto simp: pop_item_def intro!: stack_inv_pc)
next
  case (cas_ok t snap x st)
  then show ?thesis using stack_inv_pop(1) [OF assms(2)] by simp
qed (use assms(2) loaded_ok [of s] in \<open>auto simp: stack_inv_def [of s] intro!: stack_inv_pc [OF assms(2)]\<close>)

lemma stack_reachable_inv: "stack_reachable d s \<Longrightarrow> stack_inv s"
proof (induction rule: stack_reachable.induct)
  case start
  show ?case by (simp add: stack_inv_def push_ok_def pops_ok_def balanced_def logical_top_def logical_items_def AtomicStack_def VersionedPointer_def)
next
  case (step s s')
  then show ?case using stack_step_inv by blast
qed

section \<open>Properties\<close>

text \<open>
  C10. Many threads pop while one pushes, in every interleaving of their atomic accesses. What has been popped and what is on the stack together are exactly
  what has been pushed, so that no id is handed out twice and none is lost; a pop that succeeds takes the top of the stack, although the thread read
  the item before and others have pushed and popped in the meantime.
\<close>

theorem atomic_stack_exact:
  assumes "stack_reachable d s"
  shows "mset (logical_items s) + popped_items s = pushed_items s
    \<and> (\<forall>t snap x st. poppers s t = PopRead snap x \<longrightarrow> pop_cas snap (shared_stack s) = Some st \<longrightarrow> vp_version snap \<noteq> - 1 \<longrightarrow>
         stack_items (shared_stack s) = stack_items st @ [x])"
proof (intro conjI allI impI)
  note inv = stack_reachable_inv [OF assms]
  show "mset (logical_items s) + popped_items s = pushed_items s" using inv by (simp add: stack_inv_def balanced_def)
  fix t snap x st assume pc: "poppers s t = PopRead snap x" "pop_cas snap (shared_stack s) = Some st" "vp_version snap \<noteq> - 1"
  note pop = stack_inv_pop [OF inv pc]
  have items: "logical_items u = stack_items (shared_stack u)" if "pusher u = PushIdle" "push_ok u" for u :: "'a stack_system"
    using that by (auto simp: logical_items_def logical_top_def stack_items_def push_ok_def)
  let ?s = "s\<lparr>shared_stack := st, popped_items := add_mset x (popped_items s)\<rparr>"
  have "push_ok s" "push_ok ?s" using inv pop(1) by (simp_all add: stack_inv_def)
  then show "stack_items (shared_stack s) = stack_items st @ [x]" using items [of s] items [of ?s] pop(2,3) by simp
qed


theorem atomic_stack_exact_witness:
  "\<exists>s :: nat stack_system. stack_reachable [0, 0] s \<and> mset (logical_items s) + popped_items s = pushed_items s \<and> pushed_items s = {#7#} \<and> logical_items s = [7]"
proof -
  let ?v = "\<lambda>i n. \<lparr>vp_ptr = Some i, vp_version = n\<rparr>" and ?null = "\<lparr>vp_ptr = None, vp_version = 0\<rparr>"
  let ?s = "\<lambda>d top p q. \<lparr>shared_stack = \<lparr>stack_data = d, top_p = top, push_buffer = []\<rparr>, pusher = p, poppers = \<lambda>_. PopStart, pushed_items = q, popped_items = {#}\<rparr>"
  have s0: "stack_reachable [0, 0 :: nat] (?s [0, 0] (?v (- 1) 0) PushIdle {#})"
    using stack_reachable.start [of "[0, 0 :: nat]"] by (simp add: AtomicStack_def VersionedPointer_def)
  have s1: "stack_reachable [0, 0 :: nat] (?s [0, 0] ?null (Pushing (?v (- 1) 0) (?v (- 1) 0) [] [7]) {#})"
    using stack_reachable.step [OF s0 stack_step.prepare_push [where xs = "[7]"]] by (simp add: PreparePush_def VersionedPointer_def)
  have s2: "stack_reachable [0, 0 :: nat] (?s [7, 0] ?null (Pushing (?v (- 1) 0) (?v 0 0) [7] []) {#})"
    using stack_reachable.step [OF s1 stack_step.write_item] by (simp add: write_next_def vp_increment_def)
  have s3: "stack_reachable [0, 0 :: nat] (?s [7, 0] (?v 0 1) PushIdle {#7#})"
    using stack_reachable.step [OF s2 stack_step.store_top] by (simp add: ToNextVersion_def)
  show ?thesis using s3 atomic_stack_exact [OF s3] by (intro exI [of _ "?s [7, 0] (?v 0 1) PushIdle {#7#}"]) (simp add: logical_items_def logical_top_def)
qed

end
