(* ===== verification/Bwtree_Bloom_Filter.thy ===== *)
theory Bwtree_Bloom_Filter
  imports Sdskv_Prelude
begin

text \<open>
  \<open>BloomFilter\<close> of BwTree/src/bloom_filter.h, the set in which a search through the delta chain of a BwTree node
  keeps the values it has seen. The filter has 256 bits in 32 bytes, indexed by the low 8 bits of a hash value, in front of an
  array of pointers that the caller provides; a pointer is represented by the value it leads to. The array has
  \<open>bf_capacity\<close> elements, and an insertion into a full array writes past its end, which is \<open>None\<close>.
\<close>

unbundle bit_operations_syntax

section \<open>Operations\<close>

record 'v bloom_filter =
  bit_array_0 :: "8 word list"
  data_p :: "'v list"
  bf_capacity :: nat

definition BYTE_OFFSET_MASK :: "64 word" where
  "BYTE_OFFSET_MASK = 0xF8"

definition BIT_OFFSET_MASK :: "64 word" where
  "BIT_OFFSET_MASK = 0x07"

definition BloomFilter :: "nat \<Rightarrow> 'v bloom_filter" where
  "BloomFilter n = \<lparr>bit_array_0 = replicate 32 0, data_p = [], bf_capacity = n\<rparr>"

definition bf_byte :: "64 word \<Rightarrow> nat" where
  "bf_byte hash_value = unat (drop_bit 3 (hash_value AND BYTE_OFFSET_MASK))"

definition bf_mask :: "64 word \<Rightarrow> 8 word" where
  "bf_mask hash_value = push_bit (unat (hash_value AND BIT_OFFSET_MASK)) 1"

definition bf_Insert :: "('v \<Rightarrow> 64 word) \<Rightarrow> 'v \<Rightarrow> 'v bloom_filter \<Rightarrow> 'v bloom_filter option" where
  "bf_Insert value_hash_obj v bf =
     (let hash_value = value_hash_obj v; i = bf_byte hash_value in
      if length (data_p bf) < bf_capacity bf then
        Some (bf\<lparr>data_p := data_p bf @ [v],
                 bit_array_0 := (bit_array_0 bf)[i := bit_array_0 bf ! i OR bf_mask hash_value]\<rparr>)
      else None)"

definition bf_Exists :: "('v \<Rightarrow> 64 word) \<Rightarrow> ('v \<Rightarrow> 'v \<Rightarrow> bool) \<Rightarrow> 'v \<Rightarrow> 'v bloom_filter \<Rightarrow> bool" where
  "bf_Exists value_hash_obj value_eq_obj v bf =
     (let hash_value = value_hash_obj v in
      if bit_array_0 bf ! bf_byte hash_value AND bf_mask hash_value = 0 then False
      else list_ex (value_eq_obj v) (data_p bf))"

section \<open>The filter is a set\<close>

lemma bf_byte_less: "bf_byte h < 32"
proof -
  have "drop_bit 3 (h AND BYTE_OFFSET_MASK) = take_bit 5 (drop_bit 3 h)"
    by (simp add: BYTE_OFFSET_MASK_def take_bit_eq_mask mask_eq_exp_minus_1)
  then have "unat (drop_bit 3 (h AND BYTE_OFFSET_MASK)) = unat (take_bit 5 (drop_bit 3 h))" by simp
  also have "\<dots> < 32"
    using take_bit_nat_less_exp [of 5 "unat (drop_bit 3 h)"] by (simp add: unsigned_take_bit_eq)
  finally show ?thesis by (simp add: bf_byte_def)
qed

definition bf_inv :: "('v \<Rightarrow> 64 word) \<Rightarrow> 'v bloom_filter \<Rightarrow> bool" where
  "bf_inv hash bf \<longleftrightarrow> length (bit_array_0 bf) = 32 \<and> length (data_p bf) \<le> bf_capacity bf
     \<and> (\<forall>v\<in>set (data_p bf). bit_array_0 bf ! bf_byte (hash v) AND bf_mask (hash v) = bf_mask (hash v))"

lemma bf_mask_nonzero: "bf_mask h \<noteq> 0"
proof -
  have "h AND BIT_OFFSET_MASK = take_bit 3 h"
    by (simp add: BIT_OFFSET_MASK_def take_bit_eq_mask mask_eq_exp_minus_1)
  then have "unat (h AND BIT_OFFSET_MASK) < 8"
    using take_bit_nat_less_exp [of 3 "unat h"] by (simp add: unsigned_take_bit_eq)
  then have "bit (bf_mask h) (unat (h AND BIT_OFFSET_MASK))"
    by (simp add: bf_mask_def bit_simps)
  then show ?thesis by auto
qed

lemma bf_inv_new: "bf_inv hash (BloomFilter n)"
  by (simp add: bf_inv_def BloomFilter_def)

lemma bf_Insert_inv:
  assumes "bf_inv hash bf" "bf_Insert hash v bf = Some bf'"
  shows "bf_inv hash bf' \<and> data_p bf' = data_p bf @ [v] \<and> bf_capacity bf' = bf_capacity bf"
proof -
  have "(a OR m) AND n = n" if "a AND n = n" for a m n :: "8 word"
    using that by (simp add: bit_eq_iff bit_simps) blast
  moreover have "(a OR m) AND m = m" for a m :: "8 word"
    by (rule bit_word_eqI) (auto simp: bit_simps)
  ultimately show ?thesis
    using assms bf_byte_less
    by (auto simp: bf_inv_def bf_Insert_def Let_def nth_list_update split: if_splits)
qed

lemma bf_Exists_iff:
  assumes "bf_inv hash bf" "\<And>x. eq v x \<Longrightarrow> hash v = hash x"
  shows "bf_Exists hash eq v bf \<longleftrightarrow> (\<exists>x\<in>set (data_p bf). eq v x)"
proof -
  have "bit_array_0 bf ! bf_byte (hash v) AND bf_mask (hash v) \<noteq> 0" if "x \<in> set (data_p bf)" "eq v x" for x
    using assms(1) that assms(2) [OF that(2)] bf_mask_nonzero [of "hash v"] by (auto simp: bf_inv_def)
  then show ?thesis
    by (auto simp: bf_Exists_def Let_def list_ex_iff)
qed

section \<open>The interface\<close>

text \<open>A sequence of insertions.\<close>

fun ins_all :: "('v \<Rightarrow> 's \<Rightarrow> 's option) \<Rightarrow> 'v list \<Rightarrow> 's \<Rightarrow> 's option" where
  "ins_all ins [] s = Some s"
| "ins_all ins (v # vs) s = do { s \<leftarrow> ins v s; ins_all ins vs s }"

text \<open>What the searches use of the filter: a set of values with room for a fixed number of insertions.\<close>

locale seen_set =
  fixes new :: "nat \<Rightarrow> 's"
    and ins :: "'v \<Rightarrow> 's \<Rightarrow> 's option"
    and ex :: "'v \<Rightarrow> 's \<Rightarrow> bool"
    and ok :: "'s \<Rightarrow> bool"
    and seen :: "'s \<Rightarrow> 'v list"
    and capacity :: "'s \<Rightarrow> nat"
  assumes new_ok: "ok (new n) \<and> seen (new n) = [] \<and> capacity (new n) = n"
    and ins_ok: "ok s \<Longrightarrow> length (seen s) < capacity s \<Longrightarrow>
      \<exists>s'. ins v s = Some s' \<and> ok s' \<and> seen s' = seen s @ [v] \<and> capacity s' = capacity s"
    and ins_full: "ok s \<Longrightarrow> length (seen s) \<ge> capacity s \<Longrightarrow> ins v s = None"
    and ex_iff: "ok s \<Longrightarrow> ex v s \<longleftrightarrow> v \<in> set (seen s)"
begin

lemma ins_all_ok:
  "ok s \<Longrightarrow> length (seen s) + length vs \<le> capacity s \<Longrightarrow>
   \<exists>s'. ins_all ins vs s = Some s' \<and> ok s' \<and> seen s' = seen s @ vs \<and> capacity s' = capacity s"
proof (induction vs arbitrary: s)
  case (Cons v vs)
  obtain s1 where "ins v s = Some s1" "ok s1" "seen s1 = seen s @ [v]" "capacity s1 = capacity s"
    using ins_ok [OF Cons.prems(1), of v] Cons.prems(2) by auto
  then show ?case using Cons.IH [of s1] Cons.prems(2) by simp
qed simp

lemma ins_all_full:
  "ok s \<Longrightarrow> length (seen s) \<le> capacity s \<Longrightarrow> length (seen s) + length vs > capacity s \<Longrightarrow> ins_all ins vs s = None"
proof (induction vs arbitrary: s)
  case (Cons v vs)
  show ?case
  proof (cases "length (seen s) < capacity s")
    case True
    then show ?thesis using ins_ok [OF Cons.prems(1) True, of v] Cons.IH Cons.prems(3) by fastforce
  next
    case False
    then show ?thesis using ins_full [OF Cons.prems(1), of v] by simp
  qed
qed simp

end

interpretation bloom: seen_set BloomFilter "bf_Insert hash" "bf_Exists hash (=)" "bf_inv hash" data_p bf_capacity
  for hash :: "'v \<Rightarrow> 64 word"
proof
  fix n
  show "bf_inv hash (BloomFilter n) \<and> data_p (BloomFilter n :: 'v bloom_filter) = [] \<and> bf_capacity (BloomFilter n :: 'v bloom_filter) = n"
    by (simp add: bf_inv_new) (simp add: BloomFilter_def)
next
  fix s :: "'v bloom_filter" and v
  assume ok: "bf_inv hash s"
  show "\<exists>s'. bf_Insert hash v s = Some s' \<and> bf_inv hash s' \<and> data_p s' = data_p s @ [v] \<and> bf_capacity s' = bf_capacity s"
    if room: "length (data_p s) < bf_capacity s"
  proof -
    obtain s' where "bf_Insert hash v s = Some s'" using room by (auto simp: bf_Insert_def Let_def)
    then show ?thesis using bf_Insert_inv [OF ok] by blast
  qed
  show "bf_Insert hash v s = None" if "bf_capacity s \<le> length (data_p s)"
    using that by (simp add: bf_Insert_def)
  show "bf_Exists hash (=) v s \<longleftrightarrow> v \<in> set (data_p s)"
    using bf_Exists_iff [OF ok, of "(=)" v] by blast
qed

text \<open>
  Whatever the hash function, a filter with an array of \<open>n\<close> pointers is a set of at most \<open>n\<close> insertions: after
  inserting up to \<open>n\<close> values \<open>Exists\<close> answers exactly whether a value is among them, although it stops at the
  bits of the filter when they say no; one more insertion leaves the array.
\<close>

theorem bloom_filter_exact:
  "(case ins_all (bf_Insert hash) vs (BloomFilter n) of
      Some bf \<Rightarrow> length vs \<le> n \<and> (\<forall>v. bf_Exists hash (=) v bf \<longleftrightarrow> v \<in> set vs)
    | None \<Rightarrow> length vs > n)"
proof (cases "length vs \<le> n")
  case True
  then show ?thesis
    using bloom.ins_all_ok [where hash = hash, of "BloomFilter n" vs] bloom.new_ok [of hash n] bloom.ex_iff [of hash] by auto
next
  case False
  then show ?thesis
    using bloom.ins_all_full [where hash = hash, of "BloomFilter n" vs] bloom.new_ok [of hash n] by auto
qed

end
