(* ===== verification/Bwtree_Sorted_Set.thy ===== *)
theory Bwtree_Sorted_Set
  imports Ordered_Map "HOL-Library.Multiset"
begin

text \<open>
  \<open>SortedSmallSet\<close> of BwTree/src/sorted_small_set.h: a sorted sequence in an array that the caller provides, between the pointers
  \<open>start_p\<close> and \<open>end_p\<close>, which are indices here. Elements of the array that were never written are \<open>None\<close>;
  reading one, and writing past the end of the array, is undefined behaviour, the result \<open>None\<close>.
\<close>

section \<open>Operations\<close>

record 'a sorted_small_set =
  sss_data :: "'a option list"
  start_p :: nat
  end_p :: nat

definition SortedSmallSet :: "nat \<Rightarrow> 'a sorted_small_set" where
  "SortedSmallSet n = \<lparr>sss_data = replicate n None, start_p = 0, end_p = 0\<rparr>"

text \<open>What lies between the two pointers.\<close>

definition sss_contents :: "'a sorted_small_set \<Rightarrow> 'a list" where
  "sss_contents s = map the (drop (start_p s) (take (end_p s) (sss_data s)))"

text \<open>\<open>std::copy_backward(first, stop, stop + 1)\<close>: the elements move by one, and the first keeps its old copy.\<close>

definition copy_backward :: "'a list \<Rightarrow> nat \<Rightarrow> nat \<Rightarrow> 'a list" where
  "copy_backward d first stop =
     (if first = stop then d else take (Suc first) d @ drop first (take stop d) @ drop (Suc stop) d)"

definition sss_store :: "'a sorted_small_set \<Rightarrow> nat \<Rightarrow> 'a \<Rightarrow> 'a sorted_small_set option" where
  "sss_store s it v =
     (if end_p s < length (sss_data s) then
        Some (s\<lparr>sss_data := (copy_backward (sss_data s) it (end_p s))[it := Some v], end_p := Suc (end_p s)\<rparr>)
      else None)"

text \<open>The loop of \<open>Insert\<close>, with the number of elements it has still to look at.\<close>

fun sss_Insert_loop ::
  "('a \<Rightarrow> 'a \<Rightarrow> bool) \<Rightarrow> ('a \<Rightarrow> 'a \<Rightarrow> bool) \<Rightarrow> 'a \<Rightarrow> 'a sorted_small_set \<Rightarrow> nat \<Rightarrow> nat \<Rightarrow> 'a sorted_small_set option" where
  "sss_Insert_loop cmp eq v s it 0 = sss_store s (end_p s) v"
| "sss_Insert_loop cmp eq v s it (Suc n) =
     (case sss_data s ! it of
        None \<Rightarrow> None
      | Some x \<Rightarrow>
          if cmp x v then sss_Insert_loop cmp eq v s (Suc it) n
          else if eq x v then Some s
          else sss_store s it v)"

definition sss_Insert ::
  "('a \<Rightarrow> 'a \<Rightarrow> bool) \<Rightarrow> ('a \<Rightarrow> 'a \<Rightarrow> bool) \<Rightarrow> 'a \<Rightarrow> 'a sorted_small_set \<Rightarrow> 'a sorted_small_set option" where
  "sss_Insert cmp eq v s = sss_Insert_loop cmp eq v s (start_p s) (end_p s - start_p s)"

text \<open>\<open>std::upper_bound\<close> on a sorted range: the first element that is above the value.\<close>

definition sss_upper_bound :: "('a \<Rightarrow> 'a \<Rightarrow> bool) \<Rightarrow> 'a \<Rightarrow> 'a sorted_small_set \<Rightarrow> nat" where
  "sss_upper_bound cmp v s = start_p s + length (takeWhile (\<lambda>x. \<not> cmp v x) (sss_contents s))"

definition sss_InsertNoDedup :: "('a \<Rightarrow> 'a \<Rightarrow> bool) \<Rightarrow> 'a \<Rightarrow> 'a sorted_small_set \<Rightarrow> 'a sorted_small_set option" where
  "sss_InsertNoDedup cmp v s = sss_store s (sss_upper_bound cmp v s) v"

definition sss_IsEmpty :: "'a sorted_small_set \<Rightarrow> bool" where
  "sss_IsEmpty s \<longleftrightarrow> start_p s = end_p s"

definition sss_GetFront :: "'a sorted_small_set \<Rightarrow> 'a option" where
  "sss_GetFront s = (if start_p s < length (sss_data s) then sss_data s ! start_p s else None)"

definition sss_PopFront :: "'a sorted_small_set \<Rightarrow> ('a \<times> 'a sorted_small_set) option" where
  "sss_PopFront s =
     (if start_p s < end_p s then map_option (\<lambda>x. (x, s\<lparr>start_p := Suc (start_p s)\<rparr>)) (sss_GetFront s) else None)"

definition sss_GetSize :: "'a sorted_small_set \<Rightarrow> nat" where
  "sss_GetSize s = end_p s - start_p s"

definition sss_Invalidate :: "'a sorted_small_set \<Rightarrow> 'a sorted_small_set" where
  "sss_Invalidate s = s\<lparr>end_p := start_p s\<rparr>"

section \<open>Invariant and refinement\<close>

definition sss_inv :: "'a sorted_small_set \<Rightarrow> bool" where
  "sss_inv s \<longleftrightarrow> start_p s \<le> end_p s \<and> end_p s \<le> length (sss_data s)
     \<and> None \<notin> set (drop (start_p s) (take (end_p s) (sss_data s)))"

abbreviation sss_room :: "'a sorted_small_set \<Rightarrow> nat" where
  "sss_room s \<equiv> length (sss_data s) - end_p s"

lemma sss_split:
  assumes "sss_inv s"
  shows "\<exists>pre post. sss_data s = pre @ map Some (sss_contents s) @ post \<and> length pre = start_p s
    \<and> end_p s = length pre + length (sss_contents s)"
proof -
  define mid where "mid = drop (start_p s) (take (end_p s) (sss_data s))"
  have "sss_data s = take (start_p s) (sss_data s) @ mid @ drop (end_p s) (sss_data s)"
    using assms unfolding mid_def sss_inv_def
    by (metis append.assoc append_take_drop_id min.absorb1 take_take)
  moreover have "mid = map Some (map the mid)"
  proof -
    have "Some (the x) = x" if "x \<in> set mid" for x
      using that assms unfolding sss_inv_def mid_def [symmetric] by (metis option.collapse)
    then show ?thesis by (simp add: map_idI)
  qed
  moreover have "sss_contents s = map the mid" by (simp add: sss_contents_def mid_def)
  moreover have "length mid = end_p s - start_p s"
    using assms by (auto simp: mid_def sss_inv_def)
  ultimately show ?thesis
    using assms by (intro exI [of _ "take (start_p s) (sss_data s)"] exI [of _ "drop (end_p s) (sss_data s)"])
      (auto simp: sss_inv_def)
qed

lemma sss_of_split:
  assumes "sss_data s = pre @ map Some xs @ post" "start_p s = length pre" "end_p s = length pre + length xs"
  shows "sss_inv s" "sss_contents s = xs"
  using assms by (auto simp: sss_inv_def sss_contents_def)

lemma sss_store_at:
  assumes "sss_data s = pre @ map Some (xs @ ys) @ post" "start_p s = length pre" "end_p s = length pre + length (xs @ ys)"
    and "post \<noteq> []"
  shows "\<exists>s'. sss_store s (length pre + length xs) v = Some s' \<and> sss_inv s' \<and> sss_contents s' = xs @ v # ys
    \<and> length (sss_data s') = length (sss_data s) \<and> sss_room s' = sss_room s - 1"
proof -
  obtain p post' where post: "post = p # post'" using assms(4) by (cases post) auto
  define it where "it = length pre + length xs"
  have cb: "(copy_backward (sss_data s) it (end_p s))[it := Some v] = pre @ map Some (xs @ v # ys) @ post'"
  proof (cases ys)
    case Nil
    then show ?thesis
      using assms(1-3) by (simp add: copy_backward_def it_def post list_update_append)
  next
    case (Cons y ys')
    have "copy_backward (sss_data s) it (end_p s) = pre @ map Some (xs @ y # ys) @ post'"
      using assms(1-3) Cons by (simp add: copy_backward_def it_def post)
    then show ?thesis by (simp add: it_def list_update_append)
  qed
  define s' where "s' = s\<lparr>sss_data := pre @ map Some (xs @ v # ys) @ post', end_p := Suc (end_p s)\<rparr>"
  have "sss_store s it v = Some s'"
    using assms(1,3) cb post by (simp add: sss_store_def s'_def)
  moreover have "sss_inv s'" "sss_contents s' = xs @ v # ys"
    using sss_of_split [of s' pre "xs @ v # ys" post'] assms(2,3) by (simp_all add: s'_def)
  ultimately show ?thesis
    using assms(1,3) post by (auto simp: s'_def it_def)
qed

lemma sss_InsertNoDedup_law:
  assumes "sss_inv s" "0 < sss_room s"
  shows "\<exists>s'. sss_InsertNoDedup cmp v s = Some s' \<and> sss_inv s'
    \<and> sss_contents s' = takeWhile (\<lambda>x. \<not> cmp v x) (sss_contents s) @ v # dropWhile (\<lambda>x. \<not> cmp v x) (sss_contents s)
    \<and> sss_room s' = sss_room s - 1"
proof -
  obtain pre post where s: "sss_data s = pre @ map Some (sss_contents s) @ post" "length pre = start_p s"
    "end_p s = length pre + length (sss_contents s)"
    using sss_split [OF assms(1)] by blast
  have "post \<noteq> []" using assms(2) s by auto
  then show ?thesis
    using sss_store_at [of s pre "takeWhile (\<lambda>x. \<not> cmp v x) (sss_contents s)" "dropWhile (\<lambda>x. \<not> cmp v x) (sss_contents s)" post v] s
    by (auto simp: sss_InsertNoDedup_def sss_upper_bound_def)
qed

lemma sss_InsertNoDedup_full: "sss_inv s \<Longrightarrow> sss_room s = 0 \<Longrightarrow> sss_InsertNoDedup cmp v s = None"
  by (auto simp: sss_InsertNoDedup_def sss_store_def sss_inv_def)

lemma sss_PopFront_law:
  assumes "sss_inv s" "sss_contents s = x # xs"
  shows "sss_GetFront s = Some x \<and> (\<exists>s'. sss_PopFront s = Some (x, s') \<and> sss_inv s' \<and> sss_contents s' = xs \<and> sss_room s' = sss_room s)"
proof -
  obtain pre post where s: "sss_data s = pre @ map Some (sss_contents s) @ post" "length pre = start_p s"
    "end_p s = length pre + length (sss_contents s)"
    using sss_split [OF assms(1)] by blast
  have front: "sss_GetFront s = Some x"
    unfolding sss_GetFront_def s(1) s(2) [symmetric] using assms(2) by (simp add: nth_append)
  define s' where "s' = s\<lparr>start_p := Suc (start_p s)\<rparr>"
  have "sss_inv s'" "sss_contents s' = xs"
    using sss_of_split [of s' "pre @ [Some x]" xs post] s assms(2) by (simp_all add: s'_def)
  then show ?thesis
    using front s assms(2) by (auto simp: sss_PopFront_def s'_def)
qed

lemma sss_Insert_loop_law:
  assumes "sss_data s = pre @ map Some (xs @ ys) @ post" "start_p s = length pre" "end_p s = length pre + length (xs @ ys)"
    and "post \<noteq> []"
  shows "\<exists>s'. sss_Insert_loop cmp eq v s (length pre + length xs) (length ys) = Some s' \<and> sss_inv s'
    \<and> sss_contents s' = xs @ takeWhile (\<lambda>x. cmp x v) ys
        @ (case dropWhile (\<lambda>x. cmp x v) ys of [] \<Rightarrow> [v] | y # zs \<Rightarrow> if eq y v then y # zs else v # y # zs)
    \<and> sss_room s' \<ge> sss_room s - 1"
  using assms(1,3)
proof (induction ys arbitrary: xs)
  case Nil
  then show ?case
    using sss_store_at [of s pre xs "[]" post v] assms(2,4) by (auto simp: add.commute)
next
  case (Cons y ys)
  have at: "sss_data s ! (length pre + length xs) = Some y"
    using Cons.prems(1) by (simp add: nth_append)
  show ?case
  proof (cases "cmp y v")
    case True
    have "\<exists>s'. sss_Insert_loop cmp eq v s (length pre + length (xs @ [y])) (length ys) = Some s' \<and> sss_inv s'
      \<and> sss_contents s' = (xs @ [y]) @ takeWhile (\<lambda>x. cmp x v) ys
        @ (case dropWhile (\<lambda>x. cmp x v) ys of [] \<Rightarrow> [v] | y # zs \<Rightarrow> if eq y v then y # zs else v # y # zs)
      \<and> sss_room s' \<ge> sss_room s - 1"
      by (rule Cons.IH) (use Cons.prems in simp_all)
    then show ?thesis using at True by simp
  next
    case False
    then show ?thesis
      using at Cons.prems assms(2,4) sss_store_at [of s pre xs "y # ys" post v] sss_of_split [of s pre "xs @ y # ys" post]
      by auto
  qed
qed

lemma sss_Insert_law:
  assumes "sss_inv s" "0 < sss_room s"
  shows "\<exists>s'. sss_Insert cmp eq v s = Some s' \<and> sss_inv s'
    \<and> sss_contents s' = takeWhile (\<lambda>x. cmp x v) (sss_contents s)
        @ (case dropWhile (\<lambda>x. cmp x v) (sss_contents s) of [] \<Rightarrow> [v] | y # zs \<Rightarrow> if eq y v then y # zs else v # y # zs)
    \<and> sss_room s' \<ge> sss_room s - 1"
proof -
  obtain pre post where s: "sss_data s = pre @ map Some (sss_contents s) @ post" "length pre = start_p s"
    "end_p s = length pre + length (sss_contents s)"
    using sss_split [OF assms(1)] by blast
  have "post \<noteq> []" using assms(2) s by auto
  then show ?thesis
    using sss_Insert_loop_law [of s pre "[]" "sss_contents s" post cmp eq v] s by (simp add: sss_Insert_def)
qed

section \<open>The interface\<close>

text \<open>What the consolidation of a node uses: a bounded queue that is kept sorted, with equal elements in the order of arrival.\<close>

locale sorted_queue =
  fixes push :: "'a \<Rightarrow> 's \<Rightarrow> 's option"
    and front :: "'s \<Rightarrow> 'a option"
    and pop :: "'s \<Rightarrow> ('a \<times> 's) option"
    and ok :: "'s \<Rightarrow> bool"
    and queue :: "'s \<Rightarrow> 'a list"
    and room :: "'s \<Rightarrow> nat"
    and above :: "'a \<Rightarrow> 'a \<Rightarrow> bool"
  assumes push_ok: "ok s \<Longrightarrow> 0 < room s \<Longrightarrow> \<exists>s'. push v s = Some s' \<and> ok s' \<and> room s' = room s - 1
      \<and> queue s' = takeWhile (\<lambda>x. \<not> above v x) (queue s) @ v # dropWhile (\<lambda>x. \<not> above v x) (queue s)"
    and pop_ok: "ok s \<Longrightarrow> queue s = x # xs \<Longrightarrow> front s = Some x
      \<and> (\<exists>s'. pop s = Some (x, s') \<and> ok s' \<and> queue s' = xs \<and> room s' = room s)"
begin

text \<open>The queue stays sorted when the comparison is a strict weak order.\<close>

lemma push_sorted:
  assumes asym: "\<And>a b. above a b \<Longrightarrow> \<not> above b a"
    and negtrans: "\<And>a b c. \<not> above b a \<Longrightarrow> \<not> above c b \<Longrightarrow> \<not> above c a"
    and "ok s" "0 < room s" "sorted_wrt (\<lambda>a b. \<not> above b a) (queue s)"
  shows "\<exists>s'. push v s = Some s' \<and> ok s' \<and> room s' = room s - 1 \<and> mset (queue s') = add_mset v (mset (queue s))
    \<and> sorted_wrt (\<lambda>a b. \<not> above b a) (queue s')"
proof -
  define tw dw where "tw = takeWhile (\<lambda>x. \<not> above v x) (queue s)" and "dw = dropWhile (\<lambda>x. \<not> above v x) (queue s)"
  obtain s' where s': "push v s = Some s'" "ok s'" "room s' = room s - 1" "queue s' = tw @ v # dw"
    using push_ok [OF assms(3,4), of v] unfolding tw_def dw_def by blast
  have c: "tw @ dw = queue s" by (simp add: tw_def dw_def)
  have q: "sorted_wrt (\<lambda>a b. \<not> above b a) (tw @ dw)" using assms(5) c by simp
  have low: "\<not> above v x" if "x \<in> set tw" for x
    using set_takeWhileD [OF that [unfolded tw_def]] by simp
  have high: "\<not> above x v" if x: "x \<in> set dw" for x
  proof (cases dw)
    case (Cons y ys)
    have "above v y" using dropWhile_eq_Cons_conv [of "\<lambda>x. \<not> above v x" "queue s" y ys] Cons by (simp add: dw_def)
    moreover have "x = y \<or> \<not> above x y" using q x Cons by (auto simp: sorted_wrt_append)
    ultimately show ?thesis using asym negtrans by metis
  qed (use x in simp)
  have "sorted_wrt (\<lambda>a b. \<not> above b a) (tw @ v # dw)"
    using q low high by (auto simp: sorted_wrt_append)
  moreover have "mset (tw @ v # dw) = add_mset v (mset (queue s))" using c by (metis mset.simps(2) mset_append union_mset_add_mset_right)
  ultimately show ?thesis using s' by simp
qed

end

text \<open>
  \<open>InsertNoDedup\<close> puts a value in front of the first element that compares above it: \<open>cmp v x\<close>.
\<close>

interpretation sss: sorted_queue "sss_InsertNoDedup cmp" sss_GetFront sss_PopFront sss_inv sss_contents sss_room cmp
  for cmp :: "'a \<Rightarrow> 'a \<Rightarrow> bool"
proof
  fix s :: "'a sorted_small_set" and v x xs
  assume ok: "sss_inv s"
  show "\<exists>s'. sss_InsertNoDedup cmp v s = Some s' \<and> sss_inv s' \<and> sss_room s' = sss_room s - 1
      \<and> sss_contents s' = takeWhile (\<lambda>x. \<not> cmp v x) (sss_contents s) @ v # dropWhile (\<lambda>x. \<not> cmp v x) (sss_contents s)"
    if "0 < sss_room s"
    using sss_InsertNoDedup_law [OF ok that, of cmp v] by auto
  show "sss_GetFront s = Some x \<and> (\<exists>s'. sss_PopFront s = Some (x, s') \<and> sss_inv s' \<and> sss_contents s' = xs \<and> sss_room s' = sss_room s)"
    if "sss_contents s = x # xs"
    by (rule sss_PopFront_law [OF ok that])
qed

text \<open>
  A consolidation finds the part of the queue that belongs to a node from the end of the queue: it is a prefix when the order is kept by the bound.
\<close>

lemma sorted_prefix:
  assumes "sorted_wrt R q" "\<And>a b. R a b \<Longrightarrow> P b \<Longrightarrow> P a" "n = length (dropWhile (\<lambda>x. \<not> P x) (rev q))"
  shows "take n q = filter P q" "drop n q = filter (\<lambda>x. \<not> P x) q" "n \<le> length q"
proof -
  have "take (length (dropWhile (\<lambda>x. \<not> P x) (rev q))) q = filter P q \<and> drop (length (dropWhile (\<lambda>x. \<not> P x) (rev q))) q = filter (\<lambda>x. \<not> P x) q"
    using assms(1)
  proof (induction q rule: rev_induct)
    case (snoc x q)
    show ?case
    proof (cases "P x")
      case True
      then have "\<forall>a\<in>set q. P a" using snoc.prems assms(2) by (auto simp: sorted_wrt_append)
      then show ?thesis using True by (simp add: filter_id_conv filter_empty_conv)
    next
      case False
      have "length (dropWhile (\<lambda>x. \<not> P x) (rev q)) \<le> length q" using length_dropWhile_le [of _ "rev q"] by simp
      then show ?thesis using False snoc by (simp add: sorted_wrt_append)
    qed
  qed simp
  then show "take n q = filter P q" "drop n q = filter (\<lambda>x. \<not> P x) q" using assms(3) by simp_all
  show "n \<le> length q" using assms(3) length_dropWhile_le [of _ "rev q"] by simp
qed

section \<open>Properties\<close>

fun sss_Insert_all :: "('a \<Rightarrow> 'a \<Rightarrow> bool) \<Rightarrow> 'a list \<Rightarrow> 'a sorted_small_set \<Rightarrow> 'a sorted_small_set option" where
  "sss_Insert_all cmp [] s = Some s"
| "sss_Insert_all cmp (v # vs) s = do { s \<leftarrow> sss_Insert cmp (=) v s; sss_Insert_all cmp vs s }"

lemma sss_Insert_sorted:
  assumes "key_total_order cmp" "sss_inv s" "0 < sss_room s" "sorted_wrt cmp (sss_contents s)"
  shows "\<exists>s'. sss_Insert cmp (=) v s = Some s' \<and> sss_inv s' \<and> sss_room s' \<ge> sss_room s - 1
    \<and> sorted_wrt cmp (sss_contents s') \<and> set (sss_contents s') = insert v (set (sss_contents s))"
proof -
  define c tw dw where "c = sss_contents s" and "tw = takeWhile (\<lambda>x. cmp x v) c" and "dw = dropWhile (\<lambda>x. cmp x v) c"
  note total = key_total_order.tot_total [OF assms(1)] and trans = key_total_order.tot_trans [OF assms(1)]
  obtain s' where s': "sss_Insert cmp (=) v s = Some s'" "sss_inv s'" "sss_room s' \<ge> sss_room s - 1"
    "sss_contents s' = tw @ (case dw of [] \<Rightarrow> [v] | y # zs \<Rightarrow> if y = v then y # zs else v # y # zs)"
    using sss_Insert_law [OF assms(2,3), of cmp "(=)" v] unfolding tw_def dw_def c_def by blast
  have c: "tw @ dw = sss_contents s" by (simp add: tw_def dw_def c_def)
  have q: "sorted_wrt cmp (tw @ dw)" using assms(4) c by simp
  have low: "cmp x v" if "x \<in> set tw" for x using set_takeWhileD [OF that [unfolded tw_def]] by simp
  have "sorted_wrt cmp (sss_contents s') \<and> set (sss_contents s') = insert v (set (tw @ dw))"
  proof (cases dw)
    case Nil
    then show ?thesis using s'(4) q low by (auto simp: sorted_wrt_append)
  next
    case (Cons y ys)
    have "\<not> cmp y v" using dropWhile_eq_Cons_conv [of "\<lambda>x. cmp x v" c y ys] Cons by (simp add: dw_def)
    then have "y = v \<or> cmp v y" using total by blast
    then have "sorted_wrt cmp (sss_contents s')"
      using s'(4) q low Cons by (auto simp: sorted_wrt_append intro: trans)
    moreover have "set (sss_contents s') = insert v (set (tw @ dw))"
      using s'(4) Cons by auto
    ultimately show ?thesis by simp
  qed
  then show ?thesis using s'(1-3) c by auto
qed

text \<open>
  Inserting at most as many values as the array holds, in any order, leaves them sorted and without duplicates between the
  two pointers, whatever the total order.
\<close>

theorem small_set_sorts:
  assumes "key_total_order cmp" "length vs \<le> n"
  shows "\<exists>s. sss_Insert_all cmp vs (SortedSmallSet n) = Some s \<and> sss_inv s
    \<and> sorted_wrt cmp (sss_contents s) \<and> set (sss_contents s) = set vs"
proof -
  have "\<exists>s'. sss_Insert_all cmp vs s = Some s' \<and> sss_inv s' \<and> sorted_wrt cmp (sss_contents s')
      \<and> set (sss_contents s') = set (sss_contents s) \<union> set vs"
    if "sss_inv s" "sorted_wrt cmp (sss_contents s)" "length vs \<le> sss_room s" for s
    using that
  proof (induction vs arbitrary: s)
    case (Cons v vs)
    obtain s1 where s1: "sss_Insert cmp (=) v s = Some s1" "sss_inv s1" "sss_room s1 \<ge> sss_room s - 1"
      "sorted_wrt cmp (sss_contents s1)" "set (sss_contents s1) = insert v (set (sss_contents s))"
      using sss_Insert_sorted [OF assms(1) Cons.prems(1) _ Cons.prems(2), of v] Cons.prems(3) by fastforce
    then show ?case using Cons.IH [of s1] Cons.prems(3) by auto
  qed simp
  from this [of "SortedSmallSet n"] show ?thesis
    using assms(2) by (simp add: SortedSmallSet_def sss_inv_def sss_contents_def)
qed

theorem small_set_sorts_witness:
  "\<exists>s. sss_Insert_all (<) [5, 3, 5, 1 :: nat] (SortedSmallSet 4) = Some s \<and> sorted_wrt (<) (sss_contents s)
    \<and> set (sss_contents s) = {5, 3, 1}"
proof -
  have "key_total_order ((<) :: nat \<Rightarrow> nat \<Rightarrow> bool)" by unfold_locales auto
  from small_set_sorts [OF this, of "[5, 3, 5, 1]" 4] show ?thesis by (simp add: insert_commute) blast
qed

end
