(* ===== verification/Bwtree_Leaf.thy ===== *)
theory Bwtree_Leaf
  imports Bulk_Keys Bwtree_Bloom_Filter Bwtree_Sorted_Set
begin

text \<open>
  The leaf nodes of the BwTree (BwTree/src/bwtree.h), with the key and value types and the comparison of
  bwtree_datastore.h. A leaf is a chain of delta nodes on top of a base node that holds sorted pairs of key and value. The
  operations of the index read a chain, from the newest delta on, and replace its top atomically: \<open>Insert\<close> and \<open>Delete\<close> put a delta
  on top, the consolidation replaces the chain by a base node, a split puts a split delta on top and moves the upper pairs
  to a new node, a merge joins the chains of two neighbours.

  The nodes are immutable, so the chain is a value; a pointer to an item is the item. Metadata that the constructors copy from the child
  node (high key, depth, item count) is computed by the functions that read it. Failed assertions and accesses outside the arrays
  are \<open>None\<close>.
\<close>

section \<open>Nodes\<close>

type_synonym node_id = "64 word"
type_synonym key_node_id = "bulk \<times> node_id"
type_synonym key_value = "bulk \<times> bulk"

definition INVALID_NODE_ID :: node_id where
  "INVALID_NODE_ID = 0"

text \<open>
  The nodes of a leaf delta chain: base node with low key, high key and data; insert and delete delta with item and index pair; split
  delta with the split key, the id of the sibling and the number of items that moved; remove delta; merge delta with the merge key and
  removed id, the right branch and the child.
\<close>

datatype leaf_chain =
    LeafNode key_node_id key_node_id "key_value list"
  | LeafInsertNode key_value "nat \<times> bool" leaf_chain
  | LeafDeleteNode key_value "nat \<times> bool" leaf_chain
  | LeafSplitNode key_node_id leaf_chain nat
  | LeafRemoveNode node_id leaf_chain
  | LeafMergeNode key_node_id leaf_chain leaf_chain

definition IsDeltaNode :: "leaf_chain \<Rightarrow> bool" where
  "IsDeltaNode node = (case node of LeafNode low high d \<Rightarrow> False | _ \<Rightarrow> True)"

fun GetLowKeyPair :: "leaf_chain \<Rightarrow> key_node_id" where
  "GetLowKeyPair (LeafNode low high d) = low"
| "GetLowKeyPair (LeafInsertNode item ix child) = GetLowKeyPair child"
| "GetLowKeyPair (LeafDeleteNode item ix child) = GetLowKeyPair child"
| "GetLowKeyPair (LeafSplitNode insert_item child n) = GetLowKeyPair child"
| "GetLowKeyPair (LeafRemoveNode i child) = GetLowKeyPair child"
| "GetLowKeyPair (LeafMergeNode delete_item right_merge child) = GetLowKeyPair child"

fun GetHighKeyPair :: "leaf_chain \<Rightarrow> key_node_id" where
  "GetHighKeyPair (LeafNode low high d) = high"
| "GetHighKeyPair (LeafInsertNode item ix child) = GetHighKeyPair child"
| "GetHighKeyPair (LeafDeleteNode item ix child) = GetHighKeyPair child"
| "GetHighKeyPair (LeafSplitNode insert_item child n) = insert_item"
| "GetHighKeyPair (LeafRemoveNode i child) = GetHighKeyPair child"
| "GetHighKeyPair (LeafMergeNode delete_item right_merge child) = GetHighKeyPair right_merge"

fun GetDepth :: "leaf_chain \<Rightarrow> nat" where
  "GetDepth (LeafNode low high d) = 0"
| "GetDepth (LeafInsertNode item ix child) = GetDepth child + 1"
| "GetDepth (LeafDeleteNode item ix child) = GetDepth child + 1"
| "GetDepth (LeafSplitNode insert_item child n) = GetDepth child"
| "GetDepth (LeafRemoveNode i child) = GetDepth child"
| "GetDepth (LeafMergeNode delete_item right_merge child) = GetDepth child + GetDepth right_merge"

fun GetItemCount :: "leaf_chain \<Rightarrow> int" where
  "GetItemCount (LeafNode low high d) = int (length d)"
| "GetItemCount (LeafInsertNode item ix child) = GetItemCount child + 1"
| "GetItemCount (LeafDeleteNode item ix child) = GetItemCount child - 1"
| "GetItemCount (LeafSplitNode insert_item child n) = GetItemCount child - int n"
| "GetItemCount (LeafRemoveNode i child) = GetItemCount child"
| "GetItemCount (LeafMergeNode delete_item right_merge child) = GetItemCount child + GetItemCount right_merge"

section \<open>Searching for one item\<close>

text \<open>\<open>std::lower_bound\<close> with \<open>key_value_pair_cmp_obj\<close> on sorted pairs, as an index.\<close>

definition kv_lower_bound :: "bulk \<Rightarrow> key_value list \<Rightarrow> nat" where
  "kv_lower_bound k d = length (takeWhile (\<lambda>p. ds_bulk_less (fst p) k) d)"

text \<open>The loop over the items with the search key, from index \<open>i\<close> on: the item found and the index pair.\<close>

fun scan_items :: "bulk \<Rightarrow> bulk \<Rightarrow> nat \<Rightarrow> key_value list \<Rightarrow> key_value option \<times> nat \<times> bool" where
  "scan_items k v i [] = (None, i, False)"
| "scan_items k v i (p # ps) =
     (if ds_bulk_equal (fst p) k then
        (if ds_bulk_equal (snd p) v then (Some p, i, True) else scan_items k v (Suc i) ps)
      else (None, i, False))"

text \<open>
  \<open>NavigateLeafNode\<close> with a search value, which \<open>Insert\<close> and \<open>Delete\<close> use, on the node whose range has the key.
\<close>

fun NavigateLeafNode_item :: "bulk \<Rightarrow> bulk \<Rightarrow> leaf_chain \<Rightarrow> (key_value option \<times> nat \<times> bool) option" where
  "NavigateLeafNode_item k v (LeafNode low high d) =
     (let i = kv_lower_bound k d in Some (scan_items k v i (drop i d)))"
| "NavigateLeafNode_item k v (LeafInsertNode item ix child) =
     (if ds_bulk_equal k (fst item) \<and> ds_bulk_equal (snd item) v then Some (Some item, ix)
      else NavigateLeafNode_item k v child)"
| "NavigateLeafNode_item k v (LeafDeleteNode item ix child) =
     (if ds_bulk_equal k (fst item) \<and> ds_bulk_equal (snd item) v then Some (None, ix)
      else NavigateLeafNode_item k v child)"
| "NavigateLeafNode_item k v (LeafRemoveNode i child) = None"
| "NavigateLeafNode_item k v (LeafMergeNode delete_item right_merge child) =
     (if \<not> ds_bulk_less k (fst delete_item) then NavigateLeafNode_item k v right_merge
      else NavigateLeafNode_item k v child)"
| "NavigateLeafNode_item k v (LeafSplitNode insert_item child n) = NavigateLeafNode_item k v child"

text \<open>What \<open>Insert\<close> and \<open>Delete\<close> do to the leaf when no other thread interferes.\<close>

definition leaf_Insert :: "bulk \<Rightarrow> bulk \<Rightarrow> leaf_chain \<Rightarrow> (leaf_chain \<times> bool) option" where
  "leaf_Insert k v node =
     map_option (\<lambda>(item, ix). case item of
         Some _ \<Rightarrow> (node, False)
       | None \<Rightarrow> (LeafInsertNode (k, v) ix node, True)) (NavigateLeafNode_item k v node)"

definition leaf_Delete :: "bulk \<Rightarrow> bulk \<Rightarrow> leaf_chain \<Rightarrow> (leaf_chain \<times> bool) option" where
  "leaf_Delete k v node =
     map_option (\<lambda>(item, ix). case item of
         None \<Rightarrow> (node, False)
       | Some _ \<Rightarrow> (LeafDeleteNode (k, v) ix node, True)) (NavigateLeafNode_item k v node)"

section \<open>Collecting the values of a key\<close>

text \<open>The loop over the items with the search key in the base node.\<close>

fun collect_run ::
  "(bulk \<Rightarrow> 64 word) \<Rightarrow> bulk \<Rightarrow> bulk bloom_filter \<Rightarrow> bulk bloom_filter \<Rightarrow> key_value list \<Rightarrow> bulk list" where
  "collect_run hash k present deleted [] = []"
| "collect_run hash k present deleted (p # ps) =
     (if ds_bulk_equal k (fst p) then
        (if \<not> bf_Exists hash ds_bulk_equal (snd p) deleted \<and> \<not> bf_Exists hash ds_bulk_equal (snd p) present
         then [snd p] else []) @ collect_run hash k present deleted ps
      else [])"

text \<open>
  The loop of \<open>NavigateLeafNode\<close> that collects values, with the two sets and the bounds \<open>start_index\<close> and \<open>end_index\<close> of the
  search in the base node; \<open>None\<close> stands for the \<open>end_index\<close> of -1. The bounds must be in order and in the base node.
\<close>

fun collect_values ::
  "(bulk \<Rightarrow> 64 word) \<Rightarrow> bulk \<Rightarrow> bulk bloom_filter \<Rightarrow> bulk bloom_filter \<Rightarrow> nat \<Rightarrow> nat option \<Rightarrow> leaf_chain \<Rightarrow> bulk list \<Rightarrow>
   bulk list option" where
  "collect_values hash k present deleted start_index end_index (LeafNode low high d) value_list =
     (let stop = (case end_index of None \<Rightarrow> length d | Some e \<Rightarrow> e) in
      if start_index \<le> stop \<and> stop \<le> length d then
        let i = start_index + kv_lower_bound k (drop start_index (take stop d)) in
        Some (value_list @ collect_run hash k present deleted (drop i d))
      else None)"
| "collect_values hash k present deleted start_index end_index (LeafInsertNode item ix child) value_list =
     (if ds_bulk_equal k (fst item) then
        if \<not> bf_Exists hash ds_bulk_equal (snd item) deleted \<and> \<not> bf_Exists hash ds_bulk_equal (snd item) present then do {
          present \<leftarrow> bf_Insert hash (snd item) present;
          collect_values hash k present deleted start_index end_index child (value_list @ [snd item])
        } else collect_values hash k present deleted start_index end_index child value_list
      else if ds_bulk_less (fst item) k then
        collect_values hash k present deleted (fst ix) end_index child value_list
      else collect_values hash k present deleted start_index (Some (fst ix)) child value_list)"
| "collect_values hash k present deleted start_index end_index (LeafDeleteNode item ix child) value_list =
     (if ds_bulk_equal k (fst item) then
        if \<not> bf_Exists hash ds_bulk_equal (snd item) present then do {
          deleted \<leftarrow> bf_Insert hash (snd item) deleted;
          collect_values hash k present deleted start_index end_index child value_list
        } else collect_values hash k present deleted start_index end_index child value_list
      else if ds_bulk_less (fst item) k then
        collect_values hash k present deleted (fst ix) end_index child value_list
      else collect_values hash k present deleted start_index (Some (fst ix)) child value_list)"
| "collect_values hash k present deleted start_index end_index (LeafRemoveNode i child) value_list = None"
| "collect_values hash k present deleted start_index end_index (LeafMergeNode delete_item right_merge child) value_list =
     (if \<not> ds_bulk_less k (fst delete_item)
      then collect_values hash k present deleted start_index end_index right_merge value_list
      else collect_values hash k present deleted start_index end_index child value_list)"
| "collect_values hash k present deleted start_index end_index (LeafSplitNode insert_item child n) value_list =
     collect_values hash k present deleted start_index end_index child value_list"

definition NavigateLeafNode_values :: "(bulk \<Rightarrow> 64 word) \<Rightarrow> bulk \<Rightarrow> leaf_chain \<Rightarrow> bulk list option" where
  "NavigateLeafNode_values hash k node =
     (let set_max_size = GetDepth node in
      collect_values hash k (BloomFilter set_max_size) (BloomFilter set_max_size) 0 None node [])"

section \<open>Well-formed chains\<close>

text \<open>A key below a high key; the high key of the last node is infinite.\<close>

definition below_high :: "bulk \<Rightarrow> key_node_id \<Rightarrow> bool" where
  "below_high k high \<longleftrightarrow> snd high = INVALID_NODE_ID \<or> ds_bulk_less k (fst high)"

abbreviation kv_sorted :: "key_value list \<Rightarrow> bool" where
  "kv_sorted d \<equiv> sorted_wrt (\<lambda>p q. \<not> ds_bulk_less (fst q) (fst p)) d"

text \<open>The pairs a chain stands for.\<close>

fun chain_items :: "leaf_chain \<Rightarrow> key_value set" where
  "chain_items (LeafNode low high d) = set d"
| "chain_items (LeafInsertNode item ix child) = insert item (chain_items child)"
| "chain_items (LeafDeleteNode item ix child) = chain_items child - {item}"
| "chain_items (LeafSplitNode insert_item child n) = {p \<in> chain_items child. ds_bulk_less (fst p) (fst insert_item)}"
| "chain_items (LeafRemoveNode i child) = chain_items child"
| "chain_items (LeafMergeNode delete_item right_merge child) = chain_items child \<union> chain_items right_merge"

text \<open>All keys that occur in the nodes of a chain.\<close>

fun chain_keys :: "leaf_chain \<Rightarrow> bulk set" where
  "chain_keys (LeafNode low high d) = fst ` set d"
| "chain_keys (LeafInsertNode item ix child) = insert (fst item) (chain_keys child)"
| "chain_keys (LeafDeleteNode item ix child) = insert (fst item) (chain_keys child)"
| "chain_keys (LeafSplitNode insert_item child n) = chain_keys child"
| "chain_keys (LeafRemoveNode i child) = chain_keys child"
| "chain_keys (LeafMergeNode delete_item right_merge child) =
     insert (fst delete_item) (chain_keys child \<union> chain_keys right_merge)"

text \<open>
  How chains come about: deltas are put on top by \<open>Insert\<close> and \<open>Delete\<close> on the node whose range has the key, with the index pair the search gave;
  a split delta is put on a base node; a merge delta joins a node and its right neighbour at the high key of the left one.
\<close>

fun chain_ok :: "leaf_chain \<Rightarrow> bool" where
  "chain_ok (LeafNode low high d) \<longleftrightarrow> kv_sorted d \<and> distinct d \<and> (\<forall>p\<in>set d. below_high (fst p) high)"
| "chain_ok (LeafInsertNode item ix child) \<longleftrightarrow> chain_ok child \<and> below_high (fst item) (GetHighKeyPair child)
     \<and> NavigateLeafNode_item (fst item) (snd item) child = Some (None, ix)"
| "chain_ok (LeafDeleteNode item ix child) \<longleftrightarrow> chain_ok child \<and> below_high (fst item) (GetHighKeyPair child)
     \<and> NavigateLeafNode_item (fst item) (snd item) child = Some (Some item, ix)"
| "chain_ok (LeafSplitNode insert_item child n) \<longleftrightarrow> chain_ok child \<and> \<not> IsDeltaNode child
     \<and> snd insert_item \<noteq> INVALID_NODE_ID \<and> below_high (fst insert_item) (GetHighKeyPair child)
     \<and> n = card {p \<in> chain_items child. \<not> ds_bulk_less (fst p) (fst insert_item)}"
| "chain_ok (LeafRemoveNode i child) \<longleftrightarrow> False"
| "chain_ok (LeafMergeNode delete_item right_merge child) \<longleftrightarrow> chain_ok child \<and> chain_ok right_merge
     \<and> snd (GetHighKeyPair child) \<noteq> INVALID_NODE_ID \<and> fst (GetHighKeyPair child) = fst delete_item
     \<and> (\<forall>k\<in>chain_keys right_merge. \<not> ds_bulk_less k (fst delete_item))
     \<and> below_high (fst delete_item) (GetHighKeyPair right_merge)"

end
