(* ===== verification/Bwtree_Leaf_Laws.thy ===== *)
theory Bwtree_Leaf_Laws
  imports Bwtree_Leaf
begin

text \<open>
  Searching a leaf chain of the BwTree: what the search for an item finds, which index pair it gives, and the values
  collected for a key.
\<close>

section \<open>Positions in a sorted list\<close>

lemmas key_total = ds_bulk_order.tot_total
  and key_irrefl = ds_bulk_order.tot_irrefl
  and key_trans = ds_bulk_order.tot_trans

lemma key_asym: "ds_bulk_less a b \<Longrightarrow> \<not> ds_bulk_less b a"
  using key_irrefl key_trans by blast

lemma key_le_less_trans: "\<not> ds_bulk_less b a \<Longrightarrow> ds_bulk_less b c \<Longrightarrow> ds_bulk_less a c"
  using key_total key_trans by blast

lemma key_less_le_trans: "ds_bulk_less a b \<Longrightarrow> \<not> ds_bulk_less c b \<Longrightarrow> ds_bulk_less a c"
  using key_total key_trans by blast

lemma less_takeWhile:
  assumes "\<And>j j'. j < j' \<Longrightarrow> j' < length d \<Longrightarrow> P (d ! j') \<Longrightarrow> P (d ! j)" "i < length d"
  shows "i < length (takeWhile P d) \<longleftrightarrow> P (d ! i)"
proof
  assume "i < length (takeWhile P d)"
  then show "P (d ! i)" by (metis nth_mem set_takeWhileD takeWhile_nth)
next
  assume i: "P (d ! i)"
  show "i < length (takeWhile P d)"
  proof (rule ccontr)
    assume n: "\<not> i < length (takeWhile P d)"
    define m where "m = length (takeWhile P d)"
    have "\<not> P (d ! m)" using n assms(2) unfolding m_def by (intro nth_length_takeWhile) simp
    moreover have "m = i \<or> m < i" using n by (auto simp: m_def)
    then have "P (d ! m)" using i assms(1) [of m i] assms(2) by auto
    ultimately show False by simp
  qed
qed

definition kv_upper_bound :: "bulk \<Rightarrow> key_value list \<Rightarrow> nat" where
  "kv_upper_bound k d = length (takeWhile (\<lambda>p. \<not> ds_bulk_less k (fst p)) d)"

lemma kv_bounds:
  assumes "kv_sorted d" "i < length d"
  shows "i < kv_lower_bound k d \<longleftrightarrow> ds_bulk_less (fst (d ! i)) k"
    and "i < kv_upper_bound k d \<longleftrightarrow> \<not> ds_bulk_less k (fst (d ! i))"
proof -
  have le: "\<not> ds_bulk_less (fst (d ! j')) (fst (d ! j))" if "j < j'" "j' < length d" for j j'
    using sorted_wrt_nth_less [OF assms(1) that] by simp
  show "i < kv_lower_bound k d \<longleftrightarrow> ds_bulk_less (fst (d ! i)) k"
    unfolding kv_lower_bound_def by (rule less_takeWhile [OF _ assms(2)]) (use le key_le_less_trans in blast)
  show "i < kv_upper_bound k d \<longleftrightarrow> \<not> ds_bulk_less k (fst (d ! i))"
    unfolding kv_upper_bound_def by (rule less_takeWhile [OF _ assms(2)]) (use le key_less_le_trans in blast)
qed

lemma kv_bounds_length: "kv_lower_bound k d \<le> length d" "kv_upper_bound k d \<le> length d"
  by (simp_all add: kv_lower_bound_def kv_upper_bound_def length_takeWhile_le)

lemma kv_lower_le_upper:
  assumes "kv_sorted d"
  shows "kv_lower_bound k d \<le> kv_upper_bound k d"
proof (rule ccontr)
  assume n: "\<not> kv_lower_bound k d \<le> kv_upper_bound k d"
  define m where "m = kv_upper_bound k d"
  have m: "m < kv_lower_bound k d" "m < length d"
    using n kv_bounds_length [of k d] by (auto simp: m_def)
  then have "ds_bulk_less (fst (d ! m)) k" using kv_bounds(1) [OF assms m(2)] by simp
  moreover have "ds_bulk_less k (fst (d ! m))" using kv_bounds(2) [OF assms m(2), of k] by (simp add: m_def)
  ultimately show False using key_asym by blast
qed

lemma kv_upper_le_lower:
  assumes "kv_sorted d" "ds_bulk_less k k'"
  shows "kv_upper_bound k d \<le> kv_lower_bound k' d"
proof (rule ccontr)
  assume n: "\<not> kv_upper_bound k d \<le> kv_lower_bound k' d"
  define m where "m = kv_lower_bound k' d"
  have m: "m < kv_upper_bound k d" "m < length d"
    using n kv_bounds_length [of k d] by (auto simp: m_def)
  then have "\<not> ds_bulk_less k (fst (d ! m))" using kv_bounds(2) [OF assms(1) m(2)] by simp
  moreover have "\<not> ds_bulk_less (fst (d ! m)) k'" using kv_bounds(1) [OF assms(1) m(2), of k'] by (simp add: m_def)
  ultimately show False using assms(2) key_total key_trans by metis
qed

section \<open>Index pairs\<close>

text \<open>
  The index pair of an item: its index in the base node and \<open>True\<close>, or the index behind the items with smaller and equal keys and
  \<open>False\<close> when it is not in the base node.
\<close>

definition index_for :: "key_value list \<Rightarrow> key_value \<Rightarrow> nat \<times> bool \<Rightarrow> bool" where
  "index_for d p ix \<longleftrightarrow>
     (if snd ix then fst ix < length d \<and> d ! fst ix = p else p \<notin> set d \<and> fst ix = kv_upper_bound (fst p) d)"

lemma index_for_unique: "distinct d \<Longrightarrow> index_for d p ix \<Longrightarrow> index_for d p ix' \<Longrightarrow> ix = ix'"
  by (cases ix; cases ix') (auto simp: index_for_def nth_eq_iff_index_eq split: if_splits)

lemma index_for_between:
  assumes "kv_sorted d" "index_for d p ix"
  shows "kv_lower_bound (fst p) d \<le> fst ix" "fst ix \<le> kv_upper_bound (fst p) d"
  using assms kv_bounds [OF assms(1), of "fst ix" "fst p"] kv_lower_le_upper [OF assms(1)]
  by (auto simp: index_for_def key_irrefl split: if_splits)

text \<open>The scan of the items with the search key gives the index pair.\<close>

lemma scan_items_law:
  assumes "kv_sorted d" "kv_lower_bound k d \<le> i" "i \<le> kv_upper_bound k d" "(k, v) \<notin> set (take i d)"
  shows "\<exists>r ix. scan_items k v i (drop i d) = (r, ix) \<and> index_for d (k, v) ix
    \<and> r = (if (k, v) \<in> set d then Some (k, v) else None)"
  using assms(2-)
proof (induction "length d - i" arbitrary: i)
  case 0
  then have "i = length d" using kv_bounds_length [of k d] by auto
  then show ?case using 0 kv_bounds_length [of k d] by (auto simp: index_for_def)
next
  case (Suc n)
  then have i: "i < length d" by simp
  note bounds = kv_bounds [OF assms(1) i, of k]
  have split: "drop i d = d ! i # drop (Suc i) d" using i by (simp add: Cons_nth_drop_Suc)
  show ?case
  proof (cases "fst (d ! i) = k")
    case True
    show ?thesis
    proof (cases "snd (d ! i) = v")
      case v: True
      then have "d ! i = (k, v)" using True by (simp add: prod_eq_iff)
      then show ?thesis using i by (auto simp: split ds_bulk_equal_def index_for_def) (metis nth_mem)+
    next
      case False
      have "(k, v) \<notin> set (take (Suc i) d)"
        using Suc.prems(3) False i by (auto simp: take_Suc_conv_app_nth dest: arg_cong [of _ _ snd])
      moreover have "Suc i \<le> kv_upper_bound k d" using bounds(2) True by (simp add: key_irrefl)
      ultimately show ?thesis
        using Suc.hyps(1) [of "Suc i"] Suc.hyps(2) Suc.prems(1) True False by (simp add: split ds_bulk_equal_def)
    qed
  next
    case False
    have "\<not> ds_bulk_less (fst (d ! i)) k" using bounds(1) Suc.prems(1) by simp
    then have above: "ds_bulk_less k (fst (d ! i))" using False key_total by blast
    then have "i = kv_upper_bound k d" using bounds(2) Suc.prems(2) by simp
    moreover have "(k, v) \<notin> set d"
    proof
      assume "(k, v) \<in> set d"
      then obtain j where j: "j < length d" "d ! j = (k, v)" by (auto simp: in_set_conv_nth)
      then have "i \<le> j" using Suc.prems(3) i
        by (metis in_set_conv_nth length_take linorder_not_le min_less_iff_conj nth_take)
      then have "\<not> ds_bulk_less k (fst (d ! i))"
        using assms(1) j i kv_bounds(2) [OF assms(1) j(1), of k] \<open>i = kv_upper_bound k d\<close> by (simp add: key_irrefl)
      with above show False by simp
    qed
    ultimately have "index_for d (k, v) (i, False)" "(k, v) \<notin> set d" by (simp_all add: index_for_def)
    moreover have "scan_items k v i (drop i d) = (None, i, False)" using False by (simp add: split ds_bulk_equal_def)
    ultimately show ?thesis by simp
  qed
qed

lemma lower_bound_not_before:
  assumes "kv_sorted d"
  shows "(k, v) \<notin> set (take (kv_lower_bound k d) d)"
proof
  assume "(k, v) \<in> set (take (kv_lower_bound k d) d)"
  then obtain j where j: "j < kv_lower_bound k d" "j < length d" "d ! j = (k, v)"
    by (auto simp: in_set_conv_nth)
  then show False using kv_bounds(1) [OF assms j(2), of k] by (simp add: key_irrefl)
qed

section \<open>The search for an item\<close>

text \<open>The data of the base node in which the search for a key ends.\<close>

fun base_for :: "bulk \<Rightarrow> leaf_chain \<Rightarrow> key_value list" where
  "base_for k (LeafNode low high d) = d"
| "base_for k (LeafInsertNode item ix child) = base_for k child"
| "base_for k (LeafDeleteNode item ix child) = base_for k child"
| "base_for k (LeafSplitNode insert_item child n) = base_for k child"
| "base_for k (LeafRemoveNode i child) = base_for k child"
| "base_for k (LeafMergeNode delete_item right_merge child) =
     (if \<not> ds_bulk_less k (fst delete_item) then base_for k right_merge else base_for k child)"

lemma base_for_ok: "chain_ok c \<Longrightarrow> kv_sorted (base_for k c) \<and> distinct (base_for k c)"
  by (induction c) auto

lemma below_high_less: "below_high k' high \<Longrightarrow> ds_bulk_less k k' \<Longrightarrow> below_high k high"
  using key_trans by (auto simp: below_high_def)

lemma chain_items_below: "chain_ok c \<Longrightarrow> p \<in> chain_items c \<Longrightarrow> below_high (fst p) (GetHighKeyPair c)"
proof (induction c)
  case (LeafSplitNode insert_item child n)
  then show ?case by (auto simp: below_high_def)
next
  case (LeafMergeNode delete_item right_merge child)
  then show ?case by (auto simp: below_high_def intro: key_trans)
qed auto

lemma chain_items_keys: "p \<in> chain_items c \<Longrightarrow> fst p \<in> chain_keys c"
  by (induction c) auto

lemma finite_chain_items [simp]: "finite (chain_items c)"
  by (induction c) auto

lemma NavigateLeafNode_item_law:
  assumes "chain_ok c" "below_high k (GetHighKeyPair c)"
  shows "\<exists>ix. NavigateLeafNode_item k v c = Some (if (k, v) \<in> chain_items c then Some (k, v) else None, ix)
    \<and> index_for (base_for k c) (k, v) ix"
  using assms
proof (induction c)
  case (LeafNode low high d)
  then show ?case
    using scan_items_law [of d k "kv_lower_bound k d" v] lower_bound_not_before [of d k v] kv_lower_le_upper [of d k]
    by (auto simp: Let_def)
next
  case (LeafInsertNode item ix child)
  obtain k' v' where item: "item = (k', v')" by (cases item)
  show ?case
  proof (cases "(k', v') = (k, v)")
    case True
    then show ?thesis using LeafInsertNode item by (auto simp: ds_bulk_equal_def)
  next
    case False
    then show ?thesis using LeafInsertNode item by (auto simp: ds_bulk_equal_def)
  qed
next
  case (LeafDeleteNode item ix child)
  obtain k' v' where item: "item = (k', v')" by (cases item)
  show ?case
  proof (cases "(k', v') = (k, v)")
    case True
    then show ?thesis using LeafDeleteNode item by (auto simp: ds_bulk_equal_def split: if_splits)
  next
    case False
    then show ?thesis using LeafDeleteNode item by (auto simp: ds_bulk_equal_def)
  qed
next
  case (LeafSplitNode insert_item child n)
  have "below_high k (GetHighKeyPair child)" "ds_bulk_less k (fst insert_item)"
    using LeafSplitNode.prems by (auto simp: below_high_def intro: key_trans)
  then show ?case using LeafSplitNode by auto
next
  case (LeafMergeNode delete_item right_merge child)
  have right: "(k, v) \<notin> chain_items right_merge" if "ds_bulk_less k (fst delete_item)"
    using that LeafMergeNode.prems(1) chain_items_keys by force
  have left: "(k, v) \<notin> chain_items child" if "\<not> ds_bulk_less k (fst delete_item)"
    using that LeafMergeNode.prems(1) chain_items_below [of child "(k, v)"] by (auto simp: below_high_def)
  have "below_high k (GetHighKeyPair child)" if "ds_bulk_less k (fst delete_item)"
    using that LeafMergeNode.prems(1) by (auto simp: below_high_def)
  then show ?case using LeafMergeNode left right by auto
qed auto

section \<open>Insertion and deletion\<close>

lemma leaf_Insert_law:
  assumes "chain_ok c" "below_high k (GetHighKeyPair c)"
  shows "\<exists>c'. leaf_Insert k v c = Some (c', (k, v) \<notin> chain_items c) \<and> chain_ok c'
    \<and> chain_items c' = insert (k, v) (chain_items c) \<and> GetHighKeyPair c' = GetHighKeyPair c"
  using NavigateLeafNode_item_law [OF assms, of v] assms by (auto simp: leaf_Insert_def)

lemma leaf_Delete_law:
  assumes "chain_ok c" "below_high k (GetHighKeyPair c)"
  shows "\<exists>c'. leaf_Delete k v c = Some (c', (k, v) \<in> chain_items c) \<and> chain_ok c'
    \<and> chain_items c' = chain_items c - {(k, v)} \<and> GetHighKeyPair c' = GetHighKeyPair c"
  using NavigateLeafNode_item_law [OF assms, of v] assms by (auto simp: leaf_Delete_def)

text \<open>The item count of a chain is the number of its pairs.\<close>

lemma insert_absent: "chain_ok (LeafInsertNode item ix c) \<Longrightarrow> item \<notin> chain_items c"
  using NavigateLeafNode_item_law [of c "fst item" "snd item"] by auto

lemma delete_present: "chain_ok (LeafDeleteNode item ix c) \<Longrightarrow> item \<in> chain_items c"
  using NavigateLeafNode_item_law [of c "fst item" "snd item"] by (auto split: if_splits)

lemma GetItemCount_card: "chain_ok c \<Longrightarrow> GetItemCount c = int (card (chain_items c))"
proof (induction c)
  case (LeafNode low high d)
  then show ?case by (simp add: distinct_card)
next
  case (LeafInsertNode item ix child)
  then show ?case using insert_absent [OF LeafInsertNode.prems] by simp
next
  case (LeafDeleteNode item ix child)
  have "0 < card (chain_items child)"
    using delete_present [OF LeafDeleteNode.prems] by (auto simp: card_gt_0_iff)
  then show ?case
    using LeafDeleteNode delete_present [OF LeafDeleteNode.prems] by (simp add: card_Diff_singleton of_nat_diff)
next
  case (LeafSplitNode insert_item child n)
  let ?lo = "{p \<in> chain_items child. ds_bulk_less (fst p) (fst insert_item)}"
  let ?hi = "{p \<in> chain_items child. \<not> ds_bulk_less (fst p) (fst insert_item)}"
  have "card (chain_items child) = card ?lo + card ?hi"
    by (subst card_Un_disjoint [symmetric]) (auto intro!: arg_cong [where f = card])
  then show ?case using LeafSplitNode by simp
next
  case (LeafMergeNode delete_item right_merge child)
  have "chain_items child \<inter> chain_items right_merge = {}"
    using LeafMergeNode.prems chain_items_below [of child] chain_items_keys by (fastforce simp: below_high_def)
  then show ?case using LeafMergeNode by (simp add: card_Un_disjoint)
qed auto

section \<open>The values of a key\<close>

text \<open>Chains without merge delta, which have one base node.\<close>

fun merge_free :: "leaf_chain \<Rightarrow> bool" where
  "merge_free (LeafNode low high d) = True"
| "merge_free (LeafInsertNode item ix child) = merge_free child"
| "merge_free (LeafDeleteNode item ix child) = merge_free child"
| "merge_free (LeafSplitNode insert_item child n) = merge_free child"
| "merge_free (LeafRemoveNode i child) = merge_free child"
| "merge_free (LeafMergeNode delete_item right_merge child) = False"

lemma base_for_same: "merge_free c \<Longrightarrow> base_for k c = base_for k' c"
  by (induction c) auto

lemma ds_bulk_equal_eq: "ds_bulk_equal = (=)"
  by (simp add: fun_eq_iff ds_bulk_equal_def)

lemma collect_run_law:
  assumes "kv_sorted d" "distinct d" "bf_inv hash present" "bf_inv hash deleted"
  shows "distinct (collect_run hash k present deleted (drop (kv_lower_bound k d) d))
    \<and> set (collect_run hash k present deleted (drop (kv_lower_bound k d) d))
      = {v. (k, v) \<in> set d} - set (data_p present) - set (data_p deleted)"
proof -
  have run: "collect_run hash k present deleted xs
      = filter (\<lambda>v. v \<notin> set (data_p present) \<and> v \<notin> set (data_p deleted)) (map snd (takeWhile (\<lambda>p. fst p = k) xs))" for xs
    using bloom.ex_iff [OF assms(3)] bloom.ex_iff [OF assms(4)]
    by (induction xs) (auto simp: ds_bulk_equal_eq)
  let ?xs = "drop (kv_lower_bound k d) d"
  have mem: "(k, v) \<in> set (takeWhile (\<lambda>p. fst p = k) ?xs)" if v: "(k, v) \<in> set d" for v
  proof -
    obtain j where j: "j < length d" "d ! j = (k, v)" using v by (auto simp: in_set_conv_nth)
    have lb: "kv_lower_bound k d \<le> j" using kv_bounds(1) [OF assms(1) j(1), of k] j(2) by (simp add: key_irrefl)
    then have "j - kv_lower_bound k d < length ?xs" "?xs ! (j - kv_lower_bound k d) = (k, v)" using j by auto
    moreover have "j - kv_lower_bound k d < length (takeWhile (\<lambda>p. fst p = k) ?xs)"
    proof (subst less_takeWhile)
      fix a b
      assume ab: "a < b" "b < length ?xs" "fst (?xs ! b) = k"
      let ?a = "kv_lower_bound k d + a" and ?b = "kv_lower_bound k d + b"
      have "\<not> ds_bulk_less (fst (d ! ?a)) k" using kv_bounds(1) [OF assms(1), of ?a k] ab by simp
      moreover have "\<not> ds_bulk_less (fst (d ! ?b)) (fst (d ! ?a))"
        using sorted_wrt_nth_less [OF assms(1), of ?a ?b] ab by simp
      ultimately show "fst (?xs ! a) = k" using ab key_total by (metis nth_drop kv_bounds_length(1))
    qed (use calculation in auto)
    ultimately show ?thesis by (metis nth_mem takeWhile_nth)
  qed
  have "set (map snd (takeWhile (\<lambda>p. fst p = k) ?xs)) = {v. (k, v) \<in> set d}"
  proof (intro equalityI subsetI)
    fix v assume "v \<in> set (map snd (takeWhile (\<lambda>p. fst p = k) ?xs))"
    then show "v \<in> {v. (k, v) \<in> set d}" by (auto dest!: set_takeWhileD in_set_dropD)
  qed (use mem in force)
  moreover have "distinct (map snd (takeWhile (\<lambda>p. fst p = k) ?xs))"
    unfolding distinct_map
    by (auto simp: assms(2) distinct_takeWhile inj_on_def prod_eq_iff dest!: set_takeWhileD)
  ultimately show ?thesis unfolding run by auto
qed

text \<open>Searching between the bounds finds the same position.\<close>

lemma kv_lower_bound_between:
  assumes "kv_sorted d" "start \<le> kv_lower_bound k d" "kv_lower_bound k d \<le> stop" "stop \<le> length d"
  shows "start + kv_lower_bound k (drop start (take stop d)) = kv_lower_bound k d"
proof -
  let ?lb = "kv_lower_bound k d"
  have "takeWhile (\<lambda>p. ds_bulk_less (fst p) k) (drop start (take stop d)) = drop start (take ?lb d)"
  proof -
    have "take stop d = take ?lb d @ drop ?lb (take stop d)"
      using assms(3) by (metis append_take_drop_id min.absorb1 take_take)
    then have "drop start (take stop d) = drop start (take ?lb d @ drop ?lb (take stop d))"
      by (rule arg_cong)
    also have "\<dots> = drop start (take ?lb d) @ drop ?lb (take stop d)"
      using assms(2) kv_bounds_length(1) [of k d] by simp
    finally have eq: "drop start (take stop d) = drop start (take ?lb d) @ drop ?lb (take stop d)" .
    have all: "\<forall>p\<in>set (drop start (take ?lb d)). ds_bulk_less (fst p) k"
      unfolding kv_lower_bound_def takeWhile_eq_take [symmetric] by (auto dest!: in_set_dropD set_takeWhileD)
    have none: "takeWhile (\<lambda>p. ds_bulk_less (fst p) k) (drop ?lb (take stop d)) = []"
    proof (cases "?lb < stop")
      case True
      then have "drop ?lb (take stop d) = d ! ?lb # drop (Suc ?lb) (take stop d)"
        using assms(4) Cons_nth_drop_Suc [of ?lb "take stop d"] by simp
      then show ?thesis using kv_bounds(1) [OF assms(1), of ?lb k] True assms(4) by simp
    qed (use assms in simp)
    show ?thesis
      unfolding eq using takeWhile_append2 [of "drop start (take ?lb d)" "\<lambda>p. ds_bulk_less (fst p) k"] all none by simp
  qed
  then show ?thesis using assms by (simp add: kv_lower_bound_def [of k "drop start (take stop d)"])
qed

text \<open>The index of a delta bounds the search for another key.\<close>

lemma delta_index_bounds:
  assumes "chain_ok c" "merge_free c" "index_for (base_for (fst item) c) item ix"
  shows "ds_bulk_less (fst item) k \<Longrightarrow> fst ix \<le> kv_lower_bound k (base_for k c)"
    and "ds_bulk_less k (fst item) \<Longrightarrow> kv_upper_bound k (base_for k c) \<le> fst ix \<and> fst ix \<le> length (base_for k c)"
proof -
  define d where "d = base_for k c"
  have d: "base_for (fst item) c = d" "kv_sorted d"
    using base_for_same [OF assms(2)] base_for_ok [OF assms(1)] by (auto simp: d_def)
  note between = index_for_between [OF d(2) assms(3) [unfolded d(1)]]
  show "ds_bulk_less (fst item) k \<Longrightarrow> fst ix \<le> kv_lower_bound k (base_for k c)"
    using between(2) kv_upper_le_lower [OF d(2), of "fst item" k] unfolding d_def [symmetric] by linarith
  show "ds_bulk_less k (fst item) \<Longrightarrow> kv_upper_bound k (base_for k c) \<le> fst ix \<and> fst ix \<le> length (base_for k c)"
    using between kv_upper_le_lower [OF d(2), of k "fst item"] kv_bounds_length(2) [of "fst item" d]
    unfolding d_def [symmetric] by linarith
qed

text \<open>A delta for another key only narrows the search.\<close>

lemma collect_values_other:
  assumes "fst item \<noteq> k"
  shows "collect_values hash k present deleted s e (LeafInsertNode item ix c) vl = collect_values hash k present deleted
      (if ds_bulk_less (fst item) k then fst ix else s) (if ds_bulk_less (fst item) k then e else Some (fst ix)) c vl"
    and "collect_values hash k present deleted s e (LeafDeleteNode item ix c) vl = collect_values hash k present deleted
      (if ds_bulk_less (fst item) k then fst ix else s) (if ds_bulk_less (fst item) k then e else Some (fst ix)) c vl"
  using assms by (auto simp: ds_bulk_equal_eq)

lemma narrowed_bounds:
  assumes "chain_ok c" "merge_free c" "index_for (base_for (fst item) c) item ix" "fst item \<noteq> k"
    and "s \<le> kv_lower_bound k (base_for k c)"
    and "\<forall>n. e = Some n \<longrightarrow> kv_upper_bound k (base_for k c) \<le> n \<and> n \<le> length (base_for k c)"
  shows "(if ds_bulk_less (fst item) k then fst ix else s) \<le> kv_lower_bound k (base_for k c)"
    and "\<forall>n. (if ds_bulk_less (fst item) k then e else Some (fst ix)) = Some n \<longrightarrow>
      kv_upper_bound k (base_for k c) \<le> n \<and> n \<le> length (base_for k c)"
  using delta_index_bounds [OF assms(1-3), of k] key_total [of "fst item" k] assms(4-) by auto

lemma collect_values_law:
  assumes "chain_ok c" "merge_free c" "below_high k (GetHighKeyPair c)" "bf_inv hash present" "bf_inv hash deleted"
    and "length (data_p present) + GetDepth c \<le> bf_capacity present"
    and "length (data_p deleted) + GetDepth c \<le> bf_capacity deleted"
    and "start_index \<le> kv_lower_bound k (base_for k c)"
    and "\<forall>e. end_index = Some e \<longrightarrow> kv_upper_bound k (base_for k c) \<le> e \<and> e \<le> length (base_for k c)"
  shows "\<exists>vs. collect_values hash k present deleted start_index end_index c value_list = Some (value_list @ vs)
    \<and> distinct vs \<and> set vs = {v. (k, v) \<in> chain_items c} - set (data_p present) - set (data_p deleted)"
  using assms
proof (induction c arbitrary: present deleted start_index end_index value_list)
  case (LeafNode low high d)
  define stop where "stop = (case end_index of None \<Rightarrow> length d | Some e \<Rightarrow> e)"
  have d: "kv_sorted d" "distinct d" using LeafNode.prems(1) by auto
  have "kv_lower_bound k d \<le> stop" "stop \<le> length d"
    using LeafNode.prems(9) kv_lower_le_upper [OF d(1), of k] kv_bounds_length [of k d]
    by (auto simp: stop_def split: option.splits intro: order_trans)
  moreover have "start_index \<le> kv_lower_bound k d" using LeafNode.prems(8) by simp
  ultimately show ?case
    using kv_lower_bound_between [OF d(1), of start_index k stop] collect_run_law [OF d LeafNode.prems(4,5)]
    by (auto simp: Let_def stop_def [symmetric])
next
  case (LeafInsertNode item ix child)
  have ok: "chain_ok child" "merge_free child" "below_high k (GetHighKeyPair child)" using LeafInsertNode.prems by auto
  have ix: "index_for (base_for (fst item) child) item ix"
    using NavigateLeafNode_item_law [of child "fst item" "snd item"] LeafInsertNode.prems(1) by auto
  note IH = LeafInsertNode.IH [OF ok]
  show ?case
  proof (cases "fst item = k")
    case equal: True
    obtain p' where p': "bf_Insert hash (snd item) present = Some p'" "bf_inv hash p'" "data_p p' = data_p present @ [snd item]"
      "bf_capacity p' = bf_capacity present"
      using bloom.ins_ok [OF LeafInsertNode.prems(4), of "snd item"] LeafInsertNode.prems(6) by auto
    have "\<exists>vs. collect_values hash k p' deleted start_index end_index child (value_list @ [snd item])
        = Some ((value_list @ [snd item]) @ vs) \<and> distinct vs
        \<and> set vs = {v. (k, v) \<in> chain_items child} - set (data_p p') - set (data_p deleted)"
      by (rule IH) (use LeafInsertNode.prems p' in auto)
    moreover have "\<exists>vs. collect_values hash k present deleted start_index end_index child value_list
        = Some (value_list @ vs) \<and> distinct vs
        \<and> set vs = {v. (k, v) \<in> chain_items child} - set (data_p present) - set (data_p deleted)"
      by (rule IH) (use LeafInsertNode.prems in auto)
    ultimately show ?thesis
      using equal p' bloom.ex_iff [OF LeafInsertNode.prems(4)] bloom.ex_iff [OF LeafInsertNode.prems(5)]
      by (cases item) (auto simp: ds_bulk_equal_eq)
  next
    case False
    note narrow = narrowed_bounds [OF ok(1,2) ix False, of start_index end_index]
    show ?thesis
      unfolding collect_values_other [OF False]
      using IH [OF LeafInsertNode.prems(4,5) _ _ narrow, of value_list] LeafInsertNode.prems(6-) False by (cases item) auto
  qed
next
  case (LeafDeleteNode item ix child)
  have ok: "chain_ok child" "merge_free child" "below_high k (GetHighKeyPair child)" using LeafDeleteNode.prems by auto
  have ix: "index_for (base_for (fst item) child) item ix"
    using NavigateLeafNode_item_law [of child "fst item" "snd item"] LeafDeleteNode.prems(1) by auto
  note IH = LeafDeleteNode.IH [OF ok]
  show ?case
  proof (cases "fst item = k")
    case equal: True
    obtain p' where p': "bf_Insert hash (snd item) deleted = Some p'" "bf_inv hash p'" "data_p p' = data_p deleted @ [snd item]"
      "bf_capacity p' = bf_capacity deleted"
      using bloom.ins_ok [OF LeafDeleteNode.prems(5), of "snd item"] LeafDeleteNode.prems(7) by auto
    have "\<exists>vs. collect_values hash k present p' start_index end_index child value_list
        = Some (value_list @ vs) \<and> distinct vs
        \<and> set vs = {v. (k, v) \<in> chain_items child} - set (data_p present) - set (data_p p')"
      by (rule IH) (use LeafDeleteNode.prems p' in auto)
    moreover have "\<exists>vs. collect_values hash k present deleted start_index end_index child value_list
        = Some (value_list @ vs) \<and> distinct vs
        \<and> set vs = {v. (k, v) \<in> chain_items child} - set (data_p present) - set (data_p deleted)"
      by (rule IH) (use LeafDeleteNode.prems in auto)
    ultimately show ?thesis
      using equal p' bloom.ex_iff [OF LeafDeleteNode.prems(4)]
      by (cases item) (auto simp: ds_bulk_equal_eq)
  next
    case False
    note narrow = narrowed_bounds [OF ok(1,2) ix False, of start_index end_index]
    show ?thesis
      unfolding collect_values_other [OF False]
      using IH [OF LeafDeleteNode.prems(4,5) _ _ narrow, of value_list] LeafDeleteNode.prems(6-) False by (cases item) auto
  qed
next
  case (LeafSplitNode insert_item child n)
  have "below_high k (GetHighKeyPair child)" "ds_bulk_less k (fst insert_item)"
    using LeafSplitNode.prems by (auto simp: below_high_def intro: key_trans)
  then show ?case using LeafSplitNode by simp
qed auto

lemma leaf_values_law:
  assumes "chain_ok c" "merge_free c" "below_high k (GetHighKeyPair c)"
  shows "\<exists>vs. NavigateLeafNode_values hash k c = Some vs \<and> distinct vs \<and> set vs = {v. (k, v) \<in> chain_items c}"
  using collect_values_law [OF assms, of hash "BloomFilter (GetDepth c)" "BloomFilter (GetDepth c)" 0 None "[]"]
    bloom.new_ok [of hash "GetDepth c"]
  by (auto simp: NavigateLeafNode_values_def Let_def)

text \<open>
  The search for the values of a key in a leaf without merge delta, from the newest delta to the base node, gives each value that the
  chain holds for the key exactly once. It needs no more room in its two sets than the depth of the chain.
\<close>

theorem leaf_values_exact:
  assumes "chain_ok c" "merge_free c" "below_high k (GetHighKeyPair c)"
  shows "\<exists>vs. NavigateLeafNode_values hash k c = Some vs \<and> distinct vs \<and> set vs = {v. (k, v) \<in> chain_items c}"
  using leaf_values_law [OF assms] .

definition sample_chain :: leaf_chain where
  "sample_chain =
     LeafInsertNode ([3], [30]) (1, True)
       (LeafDeleteNode ([3], [30]) (1, True)
         (LeafInsertNode ([5], [50]) (3, False) (LeafNode ([], 1) ([], 0) [([1], [10]), ([3], [30]), ([3], [31])])))"

lemma sample_chain_ok: "chain_ok sample_chain" "merge_free sample_chain" "below_high k (GetHighKeyPair sample_chain)"
  by (simp_all add: sample_chain_def below_high_def INVALID_NODE_ID_def, code_simp)

theorem leaf_values_exact_witness:
  "\<exists>vs. NavigateLeafNode_values (\<lambda>_. 0) [3] sample_chain = Some vs \<and> distinct vs \<and> set vs = {[30], [31]}"
  using leaf_values_exact [OF sample_chain_ok, of "\<lambda>_. 0" "[3]"] by (auto simp: sample_chain_def)

text \<open>
  With a merge delta the search loses values: the index of a delta belongs to the base node of its own branch, and the search
  uses it in the other branch as well. After a merge of two base nodes, insert a key that belongs to the right branch and whose index there is smaller than the
  index of a key \<open>k\<close> in the left one. The search for the values of \<open>k\<close> then finds nothing, although the chain
  holds a value for it and the search for that item, by which \<open>Insert\<close> and \<open>Delete\<close> decide, finds it.
\<close>

theorem merged_leaf_loses_values:
  assumes "chain_ok (LeafMergeNode m (LeafNode low' high' dr) (LeafNode low high dl))"
    and "leaf_Insert k' v' (LeafMergeNode m (LeafNode low' high' dr) (LeafNode low high dl)) = Some (c, True)"
    and "below_high k' high'" "\<not> ds_bulk_less k' (fst m)" "kv_upper_bound k' dr < kv_lower_bound k dl"
    and "ds_bulk_less k (fst m)" "(k, v) \<in> set dl"
  shows "chain_ok c \<and> (k, v) \<in> chain_items c \<and> (\<exists>ix. NavigateLeafNode_item k v c = Some (Some (k, v), ix))
    \<and> NavigateLeafNode_values hash k c = Some []"
proof -
  let ?m = "LeafMergeNode m (LeafNode low' high' dr) (LeafNode low high dl)"
  have dl: "kv_sorted dl" "\<forall>p\<in>set dl. below_high (fst p) high" using assms(1) by auto
  obtain ix where ix: "NavigateLeafNode_item k' v' ?m = Some (if (k', v') \<in> chain_items ?m then Some (k', v') else None, ix)"
    "index_for dr (k', v') ix"
    using NavigateLeafNode_item_law [OF assms(1), of k' v'] assms(3,4) by auto
  have c: "c = LeafInsertNode (k', v') ix ?m" "(k', v') \<notin> chain_items ?m"
    using assms(2) ix(1) unfolding leaf_Insert_def by (simp_all split: if_splits)
  have i: "fst ix = kv_upper_bound k' dr"
  proof -
    have "\<not> snd ix" using ix(2) c(2) by (metis UnCI chain_items.simps(1,6) index_for_def nth_mem)
    then show ?thesis using ix(2) by (simp add: index_for_def)
  qed
  have ok: "chain_ok c"
    using assms(1,3) ix(1) c by (simp del: NavigateLeafNode_item.simps chain_items.simps)
  have high: "below_high k (GetHighKeyPair c)"
    using assms(1,6) c(1) below_high_less [of "fst m" high' k] by simp
  have item: "(k, v) \<in> chain_items c" using assms(7) c(1) by simp
  have "k' \<noteq> k" "\<not> ds_bulk_less k' k" using assms(4,6) key_irrefl key_trans by blast+
  moreover have lb: "kv_lower_bound k (take (fst ix) dl) = fst ix"
  proof -
    have "takeWhile (\<lambda>p. ds_bulk_less (fst p) k) (take (fst ix) dl) = take (fst ix) dl"
    proof -
      have "take (fst ix) dl = take (fst ix) (takeWhile (\<lambda>p. ds_bulk_less (fst p) k) dl)"
        using assms(5) by (metis i kv_lower_bound_def less_imp_le_nat min.absorb1 takeWhile_eq_take take_take)
      then show ?thesis by (auto simp: takeWhile_eq_all_conv dest!: in_set_takeD set_takeWhileD)
    qed
    then have "kv_lower_bound k (take (fst ix) dl) = length (take (fst ix) dl)"
      unfolding kv_lower_bound_def by (rule arg_cong)
    then show ?thesis using assms(5) kv_bounds_length(1) [of k dl] by (simp add: i)
  qed
  moreover have at: "fst ix < length dl" "ds_bulk_less (fst (dl ! fst ix)) k"
    using assms(5) kv_bounds_length(1) [of k dl] kv_bounds(1) [OF dl(1), of "fst ix" k] by (simp_all add: i)
  moreover have "collect_run hash k p q (drop (fst ix) dl) = []" for p q
    using at key_irrefl by (subst Cons_nth_drop_Suc [symmetric]) (auto simp: ds_bulk_equal_eq)
  ultimately have "NavigateLeafNode_values hash k c = Some []"
    using assms(6) by (simp add: NavigateLeafNode_values_def c(1) ds_bulk_equal_eq Let_def)
  then show ?thesis
    using ok item NavigateLeafNode_item_law [OF ok high, of v] by auto
qed

definition sample_merged :: leaf_chain where
  "sample_merged = LeafMergeNode ([5], 2) (LeafNode ([5], 2) ([], 0) [([7], [77])]) (LeafNode ([], 1) ([5], 2) [([1], [11]), ([3], [33])])"

lemma sample_merged_sel:
  "chain_ok sample_merged" "map_option snd (leaf_Insert [6] [66] sample_merged) = Some True"
  "kv_upper_bound [6] [([7], [77])] < kv_lower_bound [3] [([1], [11]), ([3], [33])]"
  "ds_bulk_less [3] [5]" "\<not> ds_bulk_less [6] [5]"
  by code_simp+

theorem merged_leaf_loses_values_witness:
  "\<exists>c. leaf_Insert [6] [66] sample_merged = Some (c, True) \<and> ([3], [33]) \<in> chain_items c
    \<and> NavigateLeafNode_values (\<lambda>_. 0) [3] c = Some []"
proof -
  obtain c where c: "leaf_Insert [6] [66] sample_merged = Some (c, True)" using sample_merged_sel(2) by auto
  show ?thesis
    using merged_leaf_loses_values [OF sample_merged_sel(1) [unfolded sample_merged_def] c [unfolded sample_merged_def] _ _
        sample_merged_sel(3), of "[33]" "\<lambda>_. 0"] sample_merged_sel(4,5) c
    by (simp add: below_high_def INVALID_NODE_ID_def)
qed

end
