(* ===== verification/Bwtree_Split.thy ===== *)
theory Bwtree_Split
  imports Bwtree_Leaf_Laws
begin

text \<open>
  Splitting a leaf of the BwTree, of BwTree/src/bwtree.h: \<open>FindSplitPoint\<close> and \<open>GetSplitSibling\<close> of class \<open>LeafNode\<close> and the leaf branches
  of \<open>AdjustNodeSize\<close>.
\<close>

definition LEAF_NODE_SIZE_UPPER_THRESHOLD :: int where
  "LEAF_NODE_SIZE_UPPER_THRESHOLD = 128"

definition LEAF_NODE_SIZE_LOWER_THRESHOLD :: int where
  "LEAF_NODE_SIZE_LOWER_THRESHOLD = 32"

text \<open>The two loops of \<open>FindSplitPoint\<close>: back to the first item, and on to the end.\<close>

fun scan_back :: "key_value list \<Rightarrow> bulk \<Rightarrow> nat \<Rightarrow> nat" where
  "scan_back d k 0 = 0"
| "scan_back d k (Suc it) = (if ds_bulk_equal (fst (d ! Suc it)) k then scan_back d k it else Suc it)"

definition scan_on :: "key_value list \<Rightarrow> bulk \<Rightarrow> nat \<Rightarrow> nat" where
  "scan_on d k it = it + length (takeWhile (\<lambda>p. ds_bulk_equal (fst p) k) (drop it d))"

definition FindSplitPoint :: "key_value list \<Rightarrow> int option" where
  "FindSplitPoint d =
     (let central_index = length d div 2 in
      if \<not> 1 < central_index then None
      else let central = fst (d ! central_index);
               left_sibling_size = scan_back d central (central_index - 1) + 1
           in if int left_sibling_size > LEAF_NODE_SIZE_LOWER_THRESHOLD then Some (int left_sibling_size)
              else let it = scan_on d central (central_index + 1);
                       right_sibling_size = length d - it
                   in if int right_sibling_size > LEAF_NODE_SIZE_LOWER_THRESHOLD then Some (int it) else Some (- 1))"

text \<open>The sibling, or none when there is no split point; the low key of a leaf has no node id.\<close>

definition GetSplitSibling :: "key_node_id \<Rightarrow> key_value list \<Rightarrow> leaf_chain option option" where
  "GetSplitSibling high d = do {
     split_item_index \<leftarrow> FindSplitPoint d;
     if split_item_index = - 1 then Some None
     else let copy = drop (nat split_item_index) d in
       if copy = [] then None else Some (Some (LeafNode (fst (hd copy), NOT INVALID_NODE_ID) high copy))
   }"

text \<open>
  \<open>AdjustNodeSize\<close> on a leaf: the node stays, a sibling is made under the new id and a split delta is put on the node, or a remove
  delta is put on it. No other thread interferes, so that the compare-and-swap succeeds and the parent can be blocked.
\<close>

datatype adjusted =
    AdjustKeep
  | AdjustSplit leaf_chain leaf_chain
  | AdjustRemove leaf_chain

definition AdjustLeafSize :: "bool \<Rightarrow> node_id \<Rightarrow> node_id \<Rightarrow> leaf_chain \<Rightarrow> adjusted option" where
  "AdjustLeafSize leftmost node_id new_node_id node =
     (case node of
        LeafNode low high d \<Rightarrow>
          if GetItemCount node \<ge> LEAF_NODE_SIZE_UPPER_THRESHOLD then do {
            sibling \<leftarrow> GetSplitSibling high d;
            case sibling of
              None \<Rightarrow> Some AdjustKeep
            | Some new_leaf \<Rightarrow>
                Some (AdjustSplit (LeafSplitNode (fst (GetLowKeyPair new_leaf), new_node_id) node (nat (GetItemCount new_leaf))) new_leaf)
          }
          else if GetItemCount node \<le> LEAF_NODE_SIZE_LOWER_THRESHOLD then
            Some (if leftmost then AdjustKeep else AdjustRemove (LeafRemoveNode node_id node))
          else Some AdjustKeep
      | _ \<Rightarrow> Some AdjustKeep)"

section \<open>Where a leaf is split\<close>

text \<open>A cut between two different keys.\<close>

definition key_cut :: "key_value list \<Rightarrow> nat \<Rightarrow> bool" where
  "key_cut d i \<longleftrightarrow> 0 < i \<and> i < length d \<and> fst (d ! (i - 1)) \<noteq> fst (d ! i)"

lemma scan_back_law:
  assumes "it < length d"
  shows "scan_back d k it \<le> it" "\<forall>j. scan_back d k it < j \<and> j \<le> it \<longrightarrow> fst (d ! j) = k"
    "scan_back d k it = 0 \<or> fst (d ! scan_back d k it) \<noteq> k"
  using assms by (induction d k it rule: scan_back.induct) (auto simp: ds_bulk_equal_eq le_Suc_eq)

lemma scan_on_law:
  assumes "it \<le> length d"
  shows "it \<le> scan_on d k it" "scan_on d k it \<le> length d" "\<forall>j. it \<le> j \<and> j < scan_on d k it \<longrightarrow> fst (d ! j) = k"
    "scan_on d k it = length d \<or> fst (d ! scan_on d k it) \<noteq> k"
proof -
  let ?t = "takeWhile (\<lambda>p. fst p = k) (drop it d)"
  have s: "scan_on d k it = it + length ?t" by (simp add: scan_on_def ds_bulk_equal_eq)
  have le: "length ?t \<le> length d - it" using length_takeWhile_le [of _ "drop it d"] by simp
  show "it \<le> scan_on d k it" "scan_on d k it \<le> length d" using s le assms by simp_all
  show "\<forall>j. it \<le> j \<and> j < scan_on d k it \<longrightarrow> fst (d ! j) = k"
  proof (intro allI impI)
    fix j assume j: "it \<le> j \<and> j < scan_on d k it"
    then have t: "j - it < length ?t" using s by arith
    then have "?t ! (j - it) \<in> set ?t" by (rule nth_mem)
    moreover have "?t ! (j - it) = d ! j" using j assms t le by (simp add: takeWhile_nth)
    ultimately show "fst (d ! j) = k" by (auto dest: set_takeWhileD)
  qed
  show "scan_on d k it = length d \<or> fst (d ! scan_on d k it) \<noteq> k"
    using nth_length_takeWhile [of "\<lambda>p. fst p = k" "drop it d"] s le assms by (cases "length ?t < length d - it") auto
qed


text \<open>
  \<open>FindSplitPoint\<close> separates no key from itself and leaves more than the lower threshold of items on both sides; it gives up only when no
  cut between two keys would do so.
\<close>

theorem split_point_exact:
  assumes "length d \<ge> 128"
  shows "\<exists>i. FindSplitPoint d = Some i \<and>
    (if i = - 1 then \<forall>c. key_cut d c \<longrightarrow> c \<le> 32 \<or> length d - c \<le> 32
     else key_cut d (nat i) \<and> 32 < nat i \<and> 32 < length d - nat i)"
proof -
  define c where "c = length d div 2"
  define k where "k = fst (d ! c)"
  define l where "l = scan_back d k (c - 1)"
  define r where "r = scan_on d k (c + 1)"
  have c: "64 \<le> c" "c < length d" "64 \<le> length d - c" "\<not> \<not> 1 < c" using assms by (auto simp: c_def)
  have l: "l \<le> c - 1" "\<And>j. l < j \<Longrightarrow> j \<le> c - 1 \<Longrightarrow> fst (d ! j) = k" "l = 0 \<or> fst (d ! l) \<noteq> k"
    using scan_back_law [of "c - 1" d k] c unfolding l_def by auto
  have r: "c + 1 \<le> r" "r \<le> length d" "\<And>j. c + 1 \<le> j \<Longrightarrow> j < r \<Longrightarrow> fst (d ! j) = k" "r = length d \<or> fst (d ! r) \<noteq> k"
    using scan_on_law [of "c + 1" d k] c unfolding r_def by auto
  have same: "fst (d ! j) = k" if "l < j" "j < r" for j
    using that l(2) [of j] r(3) [of j] k_def by (cases j c rule: linorder_cases) auto
  have find: "FindSplitPoint d = (if int (l + 1) > 32 then Some (int (l + 1)) else if int (length d - r) > 32 then Some (int r) else Some (- 1))"
    using c unfolding FindSplitPoint_def Let_def LEAF_NODE_SIZE_LOWER_THRESHOLD_def c_def [symmetric] k_def [symmetric]
      l_def [symmetric] r_def [symmetric] by simp
  show ?thesis
  proof (cases "int (l + 1) > 32")
    case True
    then have "fst (d ! (l + 1)) = k" "fst (d ! l) \<noteq> k" using same [of "l + 1"] l r(1) c by auto
    then have "key_cut d (l + 1) \<and> 32 < l + 1 \<and> 32 < length d - (l + 1)" using True l(1) c by (auto simp: key_cut_def)
    then show ?thesis using True find by (intro exI [of _ "int (l + 1)"]) (simp del: of_nat_add of_nat_Suc)
  next
    case left: False
    show ?thesis
    proof (cases "int (length d - r) > 32")
      case True
      then have "fst (d ! (r - 1)) = k" "fst (d ! r) \<noteq> k" using same [of "r - 1"] l(1) r c by auto
      then show ?thesis using True left find r c by (auto simp: key_cut_def)
    next
      case False
      have "i \<le> 32 \<or> length d - i \<le> 32" if i: "key_cut d i" for i
      proof (rule ccontr)
        assume "\<not> ?thesis"
        then have "l < i - 1" "i < r" using left False by auto
        then show False using same [of "i - 1"] same [of i] i by (auto simp: key_cut_def)
      qed
      then show ?thesis using left False find by auto
    qed
  qed
qed

theorem split_point_exact_witness:
  "\<exists>i. FindSplitPoint (map (\<lambda>n. ([of_nat (n div 40)], [0])) [0..<160]) = Some i \<and> 32 < nat i"
proof -
  let ?d = "map (\<lambda>n. ([of_nat (n div 40)], [0])) [0..<160] :: key_value list"
  have cut: "key_cut ?d 80" by (simp add: key_cut_def)
  obtain i where i: "FindSplitPoint ?d = Some i" "if i = - 1 then \<forall>c. key_cut ?d c \<longrightarrow> c \<le> 32 \<or> length ?d - c \<le> 32
     else key_cut ?d (nat i) \<and> 32 < nat i \<and> 32 < length ?d - nat i"
    using split_point_exact [of ?d] by auto
  then show ?thesis using cut by (cases "i = - 1") auto
qed

section \<open>A split keeps the pairs\<close>

lemma kv_sorted_split:
  assumes "kv_sorted d" "key_cut d i" "k = fst (d ! i)"
  shows "\<forall>p\<in>set (take i d). ds_bulk_less (fst p) k" "\<forall>p\<in>set (drop i d). \<not> ds_bulk_less (fst p) k"
proof -
  have sorted: "\<not> ds_bulk_less (fst (d ! b)) (fst (d ! a))" if "a \<le> b" "b < length d" for a b
    using sorted_wrt_nth_less [OF assms(1), of a b] that key_irrefl by (cases "a = b") auto
  have i: "0 < i" "i < length d" "fst (d ! (i - 1)) \<noteq> k" using assms(2,3) by (auto simp: key_cut_def)
  have "ds_bulk_less (fst (d ! (i - 1))) k"
    using key_total [of "fst (d ! (i - 1))" k] sorted [of "i - 1" i] i assms(3) by auto
  then have left: "ds_bulk_less (fst (d ! j)) k" if "j < i" for j
    using key_le_less_trans [of "fst (d ! (i - 1))" "fst (d ! j)" k] sorted [of j "i - 1"] that i by auto
  show "\<forall>p\<in>set (take i d). ds_bulk_less (fst p) k"
  proof
    fix p assume "p \<in> set (take i d)"
    then obtain j where "j < i" "p = d ! j" by (auto simp: in_set_conv_nth)
    then show "ds_bulk_less (fst p) k" using left by simp
  qed
  show "\<forall>p\<in>set (drop i d). \<not> ds_bulk_less (fst p) k"
  proof
    fix p assume "p \<in> set (drop i d)"
    then obtain j where "j < length d - i" "p = d ! (i + j)" by (auto simp: in_set_conv_nth)
    then show "\<not> ds_bulk_less (fst p) k" using sorted [of i "i + j"] assms(3) by simp
  qed
qed

text \<open>
  After \<open>AdjustNodeSize\<close> has split a leaf, the node and its new sibling are well formed, share the pairs between them at the
  low key of the sibling, which is the new high key of the node, and each has more than the lower threshold of items; the item
  counts in the nodes are right.
\<close>

lemma split_keeps:
  assumes "chain_ok node" "AdjustLeafSize leftmost i new_id node = Some (AdjustSplit node' sibling)" "new_id \<noteq> INVALID_NODE_ID"
  shows "chain_ok node' \<and> chain_ok sibling \<and> chain_items node' \<union> chain_items sibling = chain_items node \<and> chain_keys node' = chain_keys node
    \<and> GetLowKeyPair node' = GetLowKeyPair node \<and> GetHighKeyPair sibling = GetHighKeyPair node \<and> snd (GetHighKeyPair node') = new_id
    \<and> GetLowKeyPair sibling = (fst (GetHighKeyPair node'), NOT INVALID_NODE_ID)
    \<and> (\<forall>k\<in>chain_keys sibling. \<not> ds_bulk_less k (fst (GetHighKeyPair node')))
    \<and> (\<exists>p\<in>chain_items node. ds_bulk_less (fst p) (fst (GetHighKeyPair node'))) \<and> below_high (fst (GetHighKeyPair node')) (GetHighKeyPair node)
    \<and> GetItemCount node' > 32 \<and> GetItemCount sibling > 32 \<and> GetItemCount node' + GetItemCount sibling = GetItemCount node"
proof -
  obtain low high d where node: "node = LeafNode low high d" using assms(2) by (cases node) (auto simp: AdjustLeafSize_def)
  have d: "kv_sorted d" "distinct d" "\<forall>p\<in>set d. below_high (fst p) high" using assms(1) node by auto
  have size: "length d \<ge> 128"
    using assms(2) by (auto simp: AdjustLeafSize_def node LEAF_NODE_SIZE_UPPER_THRESHOLD_def split: if_splits)
  obtain j where j: "FindSplitPoint d = Some j"
    "if j = - 1 then \<forall>c. key_cut d c \<longrightarrow> c \<le> 32 \<or> length d - c \<le> 32 else key_cut d (nat j) \<and> 32 < nat j \<and> 32 < length d - nat j"
    using split_point_exact [OF size] by blast
  have cut: "key_cut d (nat j)" "32 < nat j" "32 < length d - nat j" "j \<noteq> - 1"
    using j assms(2) by (auto simp: AdjustLeafSize_def GetSplitSibling_def node split: if_splits)
  define l where "l = take (nat j) d"
  define r where "r = drop (nat j) d"
  define k where "k = fst (hd r)"
  have r: "r \<noteq> []" "k = fst (d ! nat j)" "d = l @ r" using cut by (auto simp: r_def l_def k_def hd_drop_conv_nth)
  have parts: "\<forall>p\<in>set l. ds_bulk_less (fst p) k" "\<forall>p\<in>set r. \<not> ds_bulk_less (fst p) k" "length l > 32" "length r > 32"
    using kv_sorted_split [OF d(1) cut(1) r(2)] cut by (auto simp: l_def r_def)
  have node': "node' = LeafSplitNode (k, new_id) node (length r)" and sibling: "sibling = LeafNode (k, NOT INVALID_NODE_ID) high r"
    using assms(2) size r(1) j(1) cut(4)
    by (auto simp: AdjustLeafSize_def GetSplitSibling_def node LEAF_NODE_SIZE_UPPER_THRESHOLD_def r_def [symmetric] k_def [symmetric])
  have "{p \<in> set d. \<not> ds_bulk_less (fst p) k} = set r" using parts by (auto simp: r(3))
  moreover have "card (set r) = length r" using d(2) r(3) by (simp add: distinct_card)
  moreover have "below_high k high" using d(3) r(1) by (auto simp: r(3) k_def)
  moreover have "kv_sorted r" "distinct r" "\<forall>p\<in>set r. below_high (fst p) high" using d by (auto simp: r(3) sorted_wrt_append)
  moreover have "\<exists>p\<in>set l. ds_bulk_less (fst p) k" using parts(1,3) by (cases l) auto
  ultimately show ?thesis
    using assms(1,3) parts unfolding node' sibling node
    by (auto simp: IsDeltaNode_def r(3))
qed

end
