(* ===== verification/Bwtree_Consolidate.thy ===== *)
theory Bwtree_Consolidate
  imports Bwtree_Leaf_Laws
begin

text \<open>
  The consolidation of a leaf chain of the BwTree into a base node (\<open>CollectAllValuesOnLeaf\<close> of BwTree/src/bwtree.h): the newest delta of every item goes
  into a queue sorted by key and index, which is then merged with the data of the base node.
\<close>

section \<open>Definitions\<close>

text \<open>A \<open>LeafDataNode\<close> without its child.\<close>

record leaf_data =
  ld_insert :: bool
  ld_item :: key_value
  ld_ix :: "nat \<times> bool"

abbreviation ld_key :: "leaf_data \<Rightarrow> bulk" where
  "ld_key x \<equiv> fst (ld_item x)"

definition leaf_data_less :: "leaf_data \<Rightarrow> leaf_data \<Rightarrow> bool" where
  "leaf_data_less ldn1 ldn2 =
     (if ds_bulk_less (ld_key ldn1) (ld_key ldn2) then True
      else if ds_bulk_equal (ld_key ldn1) (ld_key ldn2) then fst (ld_ix ldn1) < fst (ld_ix ldn2)
      else False)"

definition KeyValuePairEqual :: "key_value \<Rightarrow> key_value \<Rightarrow> bool" where
  "KeyValuePairEqual kvp1 kvp2 \<longleftrightarrow> ds_bulk_equal (fst kvp1) (fst kvp2) \<and> ds_bulk_equal (snd kvp1) (snd kvp2)"

definition KeyValuePairHash :: "(bulk \<Rightarrow> 64 word) \<Rightarrow> key_value \<Rightarrow> 64 word" where
  "KeyValuePairHash hash kvp = hash (fst kvp) XOR hash (snd kvp)"

type_synonym collect_state = "leaf_data sorted_small_set \<times> key_value bloom_filter \<times> key_value list"

text \<open>A delta joins the queue unless a newer delta for the same item has been seen.\<close>

definition collect_delta :: "(bulk \<Rightarrow> 64 word) \<Rightarrow> leaf_data \<Rightarrow> collect_state \<Rightarrow> collect_state option" where
  "collect_delta hash x st =
     (let (sss, delta_set, out) = st in
      if bf_Exists (KeyValuePairHash hash) KeyValuePairEqual (ld_item x) delta_set then Some st
      else do {
        delta_set \<leftarrow> bf_Insert (KeyValuePairHash hash) (ld_item x) delta_set;
        sss \<leftarrow> sss_InsertNoDedup leaf_data_less x sss;
        Some (sss, delta_set, out)
      })"

text \<open>
  The inner loop of the merge: the deltas with the current index are taken off the queue, which has \<open>n\<close> elements before \<open>sss_end_it\<close>. The
  result has the number left, the queue, whether the item of the base node is overwritten, and the new node.
\<close>

fun drain_index ::
  "nat \<Rightarrow> nat \<Rightarrow> leaf_data sorted_small_set \<Rightarrow> bool \<Rightarrow> key_value list \<Rightarrow>
   (nat \<times> leaf_data sorted_small_set \<times> bool \<times> key_value list) option" where
  "drain_index i 0 s item_overwritten out = Some (0, s, item_overwritten, out)"
| "drain_index i (Suc n) s item_overwritten out = do {
     x \<leftarrow> sss_GetFront s;
     if fst (ld_ix x) = i then do {
       (x, s) \<leftarrow> sss_PopFront s;
       drain_index i n s (item_overwritten \<or> snd (ld_ix x)) (if ld_insert x then out @ [ld_item x] else out)
     } else Some (Suc n, s, item_overwritten, out)
   }"

lemma drain_index_le: "drain_index i n s ov out = Some (n', s', ov', out') \<Longrightarrow> n' \<le> n"
  by (induction n arbitrary: s ov out) (auto split: bind_splits if_splits intro: le_SucI)

lemma drain_index_less:
  "sss_GetFront s = Some x \<Longrightarrow> drain_index (fst (ld_ix x)) (Suc n) s ov out = Some (n', s', ov', out') \<Longrightarrow> n' < Suc n"
  by (auto split: bind_splits dest: drain_index_le)

function merge_loop ::
  "key_value list \<Rightarrow> nat \<Rightarrow> nat \<Rightarrow> leaf_data sorted_small_set \<Rightarrow> nat \<Rightarrow> key_value list \<Rightarrow>
   (leaf_data sorted_small_set \<times> key_value list) option" where
  "merge_loop d copy_end 0 s copy_start out =
     (if copy_start \<le> copy_end then Some (s, out @ drop copy_start (take copy_end d)) else None)"
| "merge_loop d copy_end (Suc n) s copy_start out = do {
     x \<leftarrow> sss_GetFront s;
     let current = fst (ld_ix x);
     if copy_start \<le> current \<and> current \<le> copy_end then do {
       (n', s, item_overwritten, out) \<leftarrow> drain_index current (Suc n) s False (out @ drop copy_start (take current d));
       merge_loop d copy_end n' s (if item_overwritten then current + 1 else current) out
     } else None
   }"
  by pat_completeness auto
termination
  by (relation "measure (\<lambda>(d, e, n, s, b, out). n)") (auto simp del: drain_index.simps dest: drain_index_less)

text \<open>The base node: where copying ends, how much of the queue belongs to this node, and the merge.\<close>

definition merge_leaf :: "key_node_id \<Rightarrow> key_value list \<Rightarrow> collect_state \<Rightarrow> collect_state option" where
  "merge_leaf high d st =
     (let (sss, delta_set, out) = st;
          copy_end = (if snd high = INVALID_NODE_ID then length d else kv_lower_bound (fst high) d);
          n = (if snd high = INVALID_NODE_ID then sss_GetSize sss
               else length (dropWhile (\<lambda>x. \<not> ds_bulk_less (ld_key x) (fst high)) (rev (sss_contents sss))))
      in map_option (\<lambda>(sss, out). (sss, delta_set, out)) (merge_loop d copy_end n sss 0 out))"

text \<open>\<open>high_key_pair\<close> is the high key of the node the function was called with.\<close>

fun CollectAllValuesOnLeafRecursive ::
  "(bulk \<Rightarrow> 64 word) \<Rightarrow> key_node_id \<Rightarrow> leaf_chain \<Rightarrow> collect_state \<Rightarrow> collect_state option" where
  "CollectAllValuesOnLeafRecursive hash high_key_pair (LeafNode low high d) st = merge_leaf high_key_pair d st"
| "CollectAllValuesOnLeafRecursive hash high_key_pair (LeafInsertNode item ix child) st = do {
     st \<leftarrow> collect_delta hash \<lparr>ld_insert = True, ld_item = item, ld_ix = ix\<rparr> st;
     CollectAllValuesOnLeafRecursive hash high_key_pair child st
   }"
| "CollectAllValuesOnLeafRecursive hash high_key_pair (LeafDeleteNode item ix child) st = do {
     st \<leftarrow> collect_delta hash \<lparr>ld_insert = False, ld_item = item, ld_ix = ix\<rparr> st;
     CollectAllValuesOnLeafRecursive hash high_key_pair child st
   }"
| "CollectAllValuesOnLeafRecursive hash high_key_pair (LeafRemoveNode i child) st = None"
| "CollectAllValuesOnLeafRecursive hash high_key_pair (LeafSplitNode insert_item child n) st =
     CollectAllValuesOnLeafRecursive hash high_key_pair child st"
| "CollectAllValuesOnLeafRecursive hash high_key_pair (LeafMergeNode delete_item right_merge child) st = do {
     st \<leftarrow> CollectAllValuesOnLeafRecursive hash (GetHighKeyPair child) child st;
     CollectAllValuesOnLeafRecursive hash (GetHighKeyPair right_merge) right_merge st
   }"

definition CollectAllValuesOnLeaf :: "(bulk \<Rightarrow> 64 word) \<Rightarrow> leaf_chain \<Rightarrow> leaf_chain option" where
  "CollectAllValuesOnLeaf hash node =
     (let delta_change_num = GetDepth node in do {
        (sss, delta_set, out) \<leftarrow> CollectAllValuesOnLeafRecursive hash (GetHighKeyPair node) node
          (SortedSmallSet delta_change_num, BloomFilter delta_change_num, []);
        if int (length out) = GetItemCount node then Some (LeafNode (GetLowKeyPair node) (GetHighKeyPair node) out) else None
      })"

definition LEAF_DELTA_CHAIN_LENGTH_THRESHOLD :: nat where
  "LEAF_DELTA_CHAIN_LENGTH_THRESHOLD = 8"

text \<open>\<open>TryConsolidateNode\<close> on a leaf that no other thread changes.\<close>

definition TryConsolidateLeaf :: "(bulk \<Rightarrow> 64 word) \<Rightarrow> leaf_chain \<Rightarrow> leaf_chain option" where
  "TryConsolidateLeaf hash node =
     (if \<not> IsDeltaNode node then Some node
      else if GetDepth node < LEAF_DELTA_CHAIN_LENGTH_THRESHOLD then Some node
      else CollectAllValuesOnLeaf hash node)"

section \<open>The merge\<close>

text \<open>The merge as a function on lists.\<close>

definition same_index :: "leaf_data \<Rightarrow> leaf_data \<Rightarrow> bool" where
  "same_index x y \<longleftrightarrow> fst (ld_ix y) = fst (ld_ix x)"

definition next_start :: "leaf_data list \<Rightarrow> nat \<Rightarrow> nat" where
  "next_start g i = (if \<exists>y\<in>set g. snd (ld_ix y) then i + 1 else i)"

function merge_spec :: "key_value list \<Rightarrow> nat \<Rightarrow> nat \<Rightarrow> leaf_data list \<Rightarrow> key_value list" where
  "merge_spec d ce cs [] = drop cs (take ce d)"
| "merge_spec d ce cs (x # xs) =
     drop cs (take (fst (ld_ix x)) d) @ map ld_item (filter ld_insert (x # takeWhile (same_index x) xs))
       @ merge_spec d ce (next_start (x # takeWhile (same_index x) xs) (fst (ld_ix x))) (dropWhile (same_index x) xs)"
  by pat_completeness auto
termination
  by (relation "measure (\<lambda>(d, e, b, xs). length xs)") (auto simp: le_imp_less_Suc length_dropWhile_le)

lemma drain_index_law:
  fixes i :: nat
  assumes "sss_inv s" "n \<le> length (sss_contents s)"
  defines "g \<equiv> takeWhile (\<lambda>y. fst (ld_ix y) = i) (take n (sss_contents s))"
  shows "\<exists>s'. drain_index i n s ov out = Some (n - length g, s', ov \<or> (\<exists>y\<in>set g. snd (ld_ix y)), out @ map ld_item (filter ld_insert g))
    \<and> sss_inv s' \<and> sss_contents s' = drop (length g) (sss_contents s) \<and> sss_room s' = sss_room s"
  using assms(1,2) unfolding g_def
proof (induction n arbitrary: s ov out)
  case (Suc n)
  then obtain x xs where q: "sss_contents s = x # xs" by (cases "sss_contents s") auto
  obtain s1 where s1: "sss_GetFront s = Some x" "sss_PopFront s = Some (x, s1)" "sss_inv s1" "sss_contents s1 = xs" "sss_room s1 = sss_room s"
    using sss_PopFront_law [OF Suc.prems(1) q] by blast
  have "n \<le> length (sss_contents s1)" using Suc.prems(2) q s1(4) by simp
  note IH = Suc.IH [OF s1(3) this, of "ov \<or> snd (ld_ix x)" "if ld_insert x then out @ [ld_item x] else out"]
  show ?case
    using IH s1 q Suc.prems(1) by (cases "fst (ld_ix x) = i") auto
qed simp

text \<open>What the merge needs to know of the deltas it takes from the queue.\<close>

definition deltas_fit :: "key_value list \<Rightarrow> nat \<Rightarrow> nat \<Rightarrow> leaf_data list \<Rightarrow> bool" where
  "deltas_fit d ce cs S \<longleftrightarrow> cs \<le> ce \<and> ce \<le> length d
     \<and> (\<forall>x\<in>set S. index_for d (ld_item x) (ld_ix x) \<and> cs \<le> fst (ld_ix x) \<and> fst (ld_ix x) \<le> ce \<and> (snd (ld_ix x) \<longrightarrow> fst (ld_ix x) < ce))
     \<and> sorted_wrt (\<lambda>a b. \<not> leaf_data_less b a) S \<and> distinct (map ld_item S)"

lemma delta_index_mono:
  assumes "kv_sorted d" "index_for d (ld_item a) (ld_ix a)" "index_for d (ld_item b) (ld_ix b)" "\<not> leaf_data_less b a"
  shows "fst (ld_ix a) \<le> fst (ld_ix b)" "\<not> ds_bulk_less (ld_key b) (ld_key a)"
proof -
  show le: "\<not> ds_bulk_less (ld_key b) (ld_key a)" using assms(4) by (auto simp: leaf_data_less_def)
  show "fst (ld_ix a) \<le> fst (ld_ix b)"
  proof (cases "ld_key a = ld_key b")
    case True
    then show ?thesis using assms(4) by (auto simp: leaf_data_less_def ds_bulk_equal_eq key_irrefl)
  next
    case False
    then have "ds_bulk_less (ld_key a) (ld_key b)" using le key_total by blast
    then show ?thesis
      using index_for_between [OF assms(1,2)] index_for_between [OF assms(1,3)] kv_upper_le_lower [OF assms(1)] by fastforce
  qed
qed

lemma deltas_fit_step:
  assumes d: "kv_sorted d" and fit: "deltas_fit d ce cs (x # xs)"
  defines "i \<equiv> fst (ld_ix x)"
  defines "g \<equiv> x # takeWhile (same_index x) xs"
  defines "r \<equiv> dropWhile (same_index x) xs"
  shows "cs \<le> i" "i \<le> ce" "\<forall>y\<in>set r. i < fst (ld_ix y)" "\<forall>y\<in>set g. fst (ld_ix y) = i" "x # xs = g @ r"
    and "deltas_fit d ce (next_start g i) r"
proof -
  show "cs \<le> i" "i \<le> ce" using fit by (auto simp: deltas_fit_def i_def)
  show gr: "x # xs = g @ r" unfolding g_def r_def by simp
  show gi: "\<forall>y\<in>set g. fst (ld_ix y) = i" unfolding g_def i_def by (auto dest: set_takeWhileD simp: same_index_def)
  have idx: "\<forall>y\<in>set (g @ r). index_for d (ld_item y) (ld_ix y)" "sorted_wrt (\<lambda>a b. \<not> leaf_data_less b a) (g @ r)"
    using fit unfolding gr [symmetric] by (auto simp: deltas_fit_def)
  show ri: "\<forall>y\<in>set r. i < fst (ld_ix y)"
  proof (cases r)
    case (Cons z zs)
    have "fst (ld_ix z) \<noteq> i"
      using Cons dropWhile_eq_Cons_conv [of "same_index x" xs z zs] unfolding r_def i_def same_index_def by blast
    moreover have "i \<le> fst (ld_ix z)"
      using delta_index_mono(1) [OF d, of x z] idx Cons by (auto simp: sorted_wrt_append g_def i_def)
    moreover have "\<forall>y\<in>set zs. fst (ld_ix z) \<le> fst (ld_ix y)"
      using delta_index_mono(1) [OF d, of z] idx Cons by (auto simp: sorted_wrt_append)
    ultimately show ?thesis using Cons by auto
  qed simp
  have "\<exists>y\<in>set g. snd (ld_ix y) \<Longrightarrow> i < ce"
    using fit gi unfolding deltas_fit_def gr by auto
  then show "deltas_fit d ce (next_start g i) r"
    using fit ri \<open>i \<le> ce\<close> unfolding deltas_fit_def gr next_start_def by (auto simp: sorted_wrt_append Suc_le_eq)
qed

lemma merge_loop_law:
  assumes "kv_sorted d" "sss_inv s" "n \<le> length (sss_contents s)" "deltas_fit d ce cs (take n (sss_contents s))"
  shows "\<exists>s'. merge_loop d ce n s cs out = Some (s', out @ merge_spec d ce cs (take n (sss_contents s)))
    \<and> sss_inv s' \<and> sss_contents s' = drop n (sss_contents s) \<and> sss_room s' = sss_room s"
  using assms(2-)
proof (induction n arbitrary: s cs out rule: less_induct)
  case (less n)
  show ?case
  proof (cases n)
    case 0
    then show ?thesis using less.prems by (auto simp: deltas_fit_def)
  next
    case (Suc m)
    obtain x xs where q: "sss_contents s = x # xs" using less.prems(2) Suc by (cases "sss_contents s") auto
    define i where "i = fst (ld_ix x)"
    define g where "g = x # takeWhile (same_index x) (take m xs)"
    define r where "r = dropWhile (same_index x) (take m xs)"
    have front: "sss_GetFront s = Some x" using sss_PopFront_law [OF less.prems(1) q] by blast
    have take: "take n (sss_contents s) = x # take m xs" using q Suc by simp
    note step = deltas_fit_step [OF assms(1) less.prems(3) [unfolded take], folded i_def g_def r_def]
    have g: "takeWhile (\<lambda>y. fst (ld_ix y) = i) (take n (sss_contents s)) = g"
      using take by (simp add: g_def i_def same_index_def [abs_def])
    obtain s1 where s1: "drain_index i n s False (out @ drop cs (take i d)) = Some (n - length g, s1, (\<exists>y\<in>set g. snd (ld_ix y)),
        (out @ drop cs (take i d)) @ map ld_item (filter ld_insert g))"
      "sss_inv s1" "sss_contents s1 = drop (length g) (sss_contents s)" "sss_room s1 = sss_room s"
      using drain_index_law [OF less.prems(1,2), of i False "out @ drop cs (take i d)", unfolded g] by auto
    have len: "length g \<le> n" "0 < length g" using length_takeWhile_le [of "same_index x" "take m xs"] Suc by (auto simp: g_def)
    have rest: "take (n - length g) (sss_contents s1) = r" "n - length g \<le> length (sss_contents s1)"
    proof -
      have "take n (sss_contents s) = g @ r" using step(5) take by simp
      then have "drop (length g) (take n (sss_contents s)) = r" by simp
      then show "take (n - length g) (sss_contents s1) = r" by (simp add: s1(3) drop_take)
      show "n - length g \<le> length (sss_contents s1)" using less.prems(2) by (simp add: s1(3))
    qed
    let ?out = "(out @ drop cs (take i d)) @ map ld_item (filter ld_insert g)"
    obtain s2 where s2: "merge_loop d ce (n - length g) s1 (next_start g i) ?out = Some (s2, ?out @ merge_spec d ce (next_start g i) r)"
      "sss_inv s2" "sss_contents s2 = drop (n - length g) (sss_contents s1)" "sss_room s2 = sss_room s1"
    proof -
      have smaller: "n - length g < n" using len by linarith
      show ?thesis using that less.IH [OF smaller s1(2) rest(2), of "next_start g i" ?out] step(6) unfolding rest(1) by blast
    qed
    have "merge_loop d ce n s cs out = merge_loop d ce (n - length g) s1 (next_start g i) ?out"
      using front s1(1) step(1,2) by (simp add: Suc i_def [symmetric] next_start_def Let_def del: drain_index.simps)
    moreover have "merge_spec d ce cs (take n (sss_contents s))
        = drop cs (take i d) @ map ld_item (filter ld_insert g) @ merge_spec d ce (next_start g i) r"
      unfolding take merge_spec.simps i_def g_def r_def ..
    ultimately show ?thesis using s2 s1(3,4) len by simp
  qed
qed

text \<open>The result of the merge: sorted, without duplicates, the old pairs that no delta touches and the inserted ones.\<close>

lemma nth_mem_slice: "x \<in> set (drop a (take b d)) \<longleftrightarrow> (\<exists>j. a \<le> j \<and> j < b \<and> j < length d \<and> d ! j = x)"
proof
  assume "x \<in> set (drop a (take b d))"
  then obtain k where k: "k < length (drop a (take b d))" "drop a (take b d) ! k = x" by (auto simp: in_set_conv_nth)
  then have "a + k < b" "a + k < length d" by auto
  with k(2) show "\<exists>j. a \<le> j \<and> j < b \<and> j < length d \<and> d ! j = x" by (intro exI [of _ "a + k"]) auto
next
  assume "\<exists>j. a \<le> j \<and> j < b \<and> j < length d \<and> d ! j = x"
  then obtain j where "a \<le> j" "j < b" "j < length d" "d ! j = x" by blast
  then show "x \<in> set (drop a (take b d))" by (auto simp: in_set_conv_nth intro!: exI [of _ "j - a"])
qed

lemma delta_in_base:
  assumes "distinct d" "index_for d (ld_item x) (ld_ix x)" "j < length d" "d ! j = ld_item x"
  shows "snd (ld_ix x)" "fst (ld_ix x) = j"
proof -
  have "ld_item x \<in> set d" using assms(3,4) nth_mem by metis
  with assms(2) show "snd (ld_ix x)" by (auto simp: index_for_def split: if_splits)
  with assms show "fst (ld_ix x) = j" by (metis index_for_def nth_eq_iff_index_eq)
qed

lemma merge_spec_law:
  assumes "kv_sorted d" "distinct d" "deltas_fit d ce cs S"
  shows "kv_sorted (merge_spec d ce cs S) \<and> distinct (merge_spec d ce cs S)
    \<and> set (merge_spec d ce cs S) = (set (drop cs (take ce d)) - ld_item ` {x \<in> set S. snd (ld_ix x)}) \<union> ld_item ` {x \<in> set S. ld_insert x}"
  using assms
proof (induction d ce cs S rule: merge_spec.induct)
  case (1 d ce cs)
  then show ?case by (simp add: sorted_wrt_drop sorted_wrt_take)
next
  case (2 d ce cs x xs)
  define i g r where "i = fst (ld_ix x)" and "g = x # takeWhile (same_index x) xs" and "r = dropWhile (same_index x) xs"
  define cs' where "cs' = next_start g i"
  note step = deltas_fit_step [OF 2(2,4), folded i_def g_def r_def, folded cs'_def]
  define A B L where "A = drop cs (take i d)" and "B = map ld_item (filter ld_insert g)" and "L = merge_spec d ce cs' r"
  have whole: "merge_spec d ce cs (x # xs) = A @ B @ L"
    by (simp add: A_def B_def L_def i_def [symmetric] g_def [symmetric] r_def [symmetric] cs'_def del: filter.simps)
  have IH: "kv_sorted L" "distinct L"
    "set L = (set (drop cs' (take ce d)) - ld_item ` {x \<in> set r. snd (ld_ix x)}) \<union> ld_item ` {x \<in> set r. ld_insert x}"
    unfolding L_def using 2(1) [folded g_def i_def r_def, folded cs'_def] 2(2,3) step(6) by simp_all
  have fit: "\<forall>y\<in>set (g @ r). index_for d (ld_item y) (ld_ix y)" "sorted_wrt (\<lambda>a b. \<not> leaf_data_less b a) (g @ r)"
    "distinct (map ld_item (g @ r))" "ce \<le> length d"
    using 2(4) unfolding step(5) by (auto simp: deltas_fit_def)
  have low: "\<not> ds_bulk_less (ld_key y) (fst (d ! j))" if "y \<in> set (g @ r)" "j < i" for y j
  proof -
    have "j < kv_upper_bound (ld_key y) d"
      using that step(3,4) fit(1) index_for_between(2) [OF 2(2), of "ld_item y" "ld_ix y"] by force
    then show ?thesis using kv_bounds(2) [OF 2(2), of j "ld_key y"] kv_bounds_length(2) [of "ld_key y" d] by simp
  qed
  have high: "\<not> ds_bulk_less (fst (d ! j)) (ld_key y)" if "y \<in> set g" "i \<le> j" "j < length d" for y j
  proof -
    have "kv_lower_bound (ld_key y) d \<le> j"
      using that step(4) fit(1) index_for_between(1) [OF 2(2), of "ld_item y" "ld_ix y"] by force
    then show ?thesis using kv_bounds(1) [OF 2(2) that(3), of "ld_key y"] by simp
  qed
  have cs': "cs' = i \<or> cs' = Suc i" "cs' = Suc i \<longleftrightarrow> (\<exists>y\<in>set g. snd (ld_ix y))"
    by (auto simp: cs'_def next_start_def)
  have order: "\<not> ds_bulk_less (ld_key b) (ld_key a)" if "a \<in> set g" "b \<in> set r" for a b
    using that fit(2) unfolding sorted_wrt_append by (metis leaf_data_less_def)
  have inA: "\<exists>j. cs \<le> j \<and> j < i \<and> j < length d \<and> d ! j = p" if "p \<in> set A" for p
    using that by (simp add: A_def nth_mem_slice)
  have inB: "\<exists>y\<in>set g. ld_insert y \<and> p = ld_item y" if "p \<in> set B" for p
    using that by (auto simp: B_def)
  have inL: "(\<exists>j. cs' \<le> j \<and> j < ce \<and> j < length d \<and> d ! j = p) \<or> (\<exists>y\<in>set r. ld_insert y \<and> p = ld_item y)" if "p \<in> set L" for p
    using that unfolding IH(3) by (auto simp: nth_mem_slice)
  have own: "snd (ld_ix y) \<and> fst (ld_ix y) = j" if "y \<in> set (g @ r)" "j < length d" "d ! j = ld_item y" for y j
    using delta_in_base [OF 2(3), of y j] fit(1) that by blast
  have "kv_sorted (A @ B @ L)"
  proof -
    have "kv_sorted A" using 2(2) by (simp add: A_def sorted_wrt_drop sorted_wrt_take)
    moreover have "kv_sorted B"
      using fit(2) unfolding B_def sorted_wrt_map sorted_wrt_append
      by (intro sorted_wrt_filter) (rule sorted_wrt_mono_rel [rotated], blast, metis leaf_data_less_def)
    moreover have "\<not> ds_bulk_less (fst q) (fst p)" if "p \<in> set A" "q \<in> set (B @ L)" for p q
      using inA [OF that(1)] that(2) inB [of q] inL [of q] low cs'(1) sorted_wrt_nth_less [OF 2(2)] by fastforce
    moreover have "\<not> ds_bulk_less (fst q) (fst p)" if "p \<in> set B" "q \<in> set L" for p q
      using inB [OF that(1)] inL [OF that(2)] high order cs'(1) by fastforce
    ultimately show ?thesis using IH(1) unfolding sorted_wrt_append by blast
  qed
  moreover have "distinct (A @ B @ L)"
  proof -
    have "distinct A" "distinct B" using 2(3) fit(3) by (auto simp: A_def B_def distinct_map_filter)
    moreover have "p \<notin> set (B @ L)" if p: "p \<in> set A" for p
    proof -
      obtain j where j: "j < i" "j < length d" "d ! j = p" using inA [OF p] by blast
      have "p \<noteq> ld_item y" if "y \<in> set (g @ r)" for y
        using own [OF that j(2)] j step(3,4) that by auto
      moreover have "j' = j" if "j' < length d" "d ! j' = p" for j'
        using that j 2(3) by (metis nth_eq_iff_index_eq)
      ultimately show ?thesis using inB [of p] inL [of p] j(1) cs'(1) by fastforce
    qed
    moreover have "p \<notin> set L" if p: "p \<in> set B" for p
    proof -
      obtain y where y: "y \<in> set g" "p = ld_item y" using inB [OF p] by blast
      have "j < cs'" if "j < length d" "d ! j = p" for j
        using own [of y j] that y step(4) cs'(2) by auto
      moreover have "p \<noteq> ld_item z" if "z \<in> set r" for z
        using that y fit(3) by auto
      ultimately show ?thesis using inL [of p] by fastforce
    qed
    ultimately show ?thesis using IH(2) by auto
  qed
  moreover have "set (A @ B @ L) = (set (drop cs (take ce d)) - ld_item ` {x \<in> set (g @ r). snd (ld_ix x)})
      \<union> ld_item ` {x \<in> set (g @ r). ld_insert x}"
  proof (intro equalityI subsetI)
    fix p assume "p \<in> set (A @ B @ L)"
    then consider "p \<in> set A" | "p \<in> set B" | "p \<in> set L" by auto
    then show "p \<in> (set (drop cs (take ce d)) - ld_item ` {x \<in> set (g @ r). snd (ld_ix x)}) \<union> ld_item ` {x \<in> set (g @ r). ld_insert x}"
    proof cases
      case 1
      then obtain j where j: "cs \<le> j" "j < i" "j < length d" "d ! j = p" using inA by blast
      then have "p \<noteq> ld_item y" if "y \<in> set (g @ r)" for y
        using own [OF that j(3)] step(3,4) that by auto
      then show ?thesis using j step(2) by (auto simp: nth_mem_slice)
    next
      case 2
      then show ?thesis using inB [OF 2] by auto
    next
      case 3
      then consider (old) "p \<in> set (drop cs' (take ce d))" "p \<notin> ld_item ` {x \<in> set r. snd (ld_ix x)}" | (new) "p \<in> ld_item ` {x \<in> set r. ld_insert x}"
        unfolding IH(3) by blast
      then show ?thesis
      proof cases
        case old
        then obtain j where j: "cs' \<le> j" "j < ce" "j < length d" "d ! j = p" by (auto simp: nth_mem_slice)
        have "p \<notin> ld_item ` {x \<in> set g. snd (ld_ix x)}"
          using own [of _ j] j step(4) cs'(2) by auto
        moreover have "cs \<le> j" using j(1) step(1) cs'(1) by auto
        then have "p \<in> set (drop cs (take ce d))" using j by (auto simp: nth_mem_slice)
        ultimately show ?thesis using old(2) by auto
      qed auto
    qed
  next
    fix p assume "p \<in> (set (drop cs (take ce d)) - ld_item ` {x \<in> set (g @ r). snd (ld_ix x)}) \<union> ld_item ` {x \<in> set (g @ r). ld_insert x}"
    then consider (old) "p \<in> set (drop cs (take ce d))" "p \<notin> ld_item ` {x \<in> set (g @ r). snd (ld_ix x)}"
      | (new) "p \<in> ld_item ` {x \<in> set (g @ r). ld_insert x}" by blast
    then show "p \<in> set (A @ B @ L)"
    proof cases
      case old
      then obtain j where j: "cs \<le> j" "j < ce" "j < length d" "d ! j = p" by (auto simp: nth_mem_slice)
      have "\<not> (j = i \<and> cs' = Suc i)"
      proof
        assume ji: "j = i \<and> cs' = Suc i"
        then obtain y where y: "y \<in> set g" "snd (ld_ix y)" using cs'(2) by blast
        then have "ld_item y = p" using fit(1) step(4) j(4) ji by (auto simp: index_for_def)
        with y old(2) show False by auto
      qed
      then have "j < i \<or> cs' \<le> j" using cs'(1) by auto
      then show ?thesis using j old(2) unfolding A_def IH(3) set_append by (auto simp: nth_mem_slice)
    next
      case new
      then show ?thesis unfolding B_def IH(3) set_append by auto
    qed
  qed
  ultimately show ?case unfolding whole unfolding step(5) by (intro conjI)
qed

section \<open>The base node\<close>

lemma KeyValuePairEqual_eq: "KeyValuePairEqual = (=)"
  by (auto simp: fun_eq_iff KeyValuePairEqual_def ds_bulk_equal_eq prod_eq_iff)

lemma leaf_data_le:
  "\<not> leaf_data_less b a \<longleftrightarrow> ds_bulk_less (ld_key a) (ld_key b) \<or> ld_key a = ld_key b \<and> fst (ld_ix a) \<le> fst (ld_ix b)"
proof (cases "ld_key a = ld_key b")
  case True
  then show ?thesis unfolding leaf_data_less_def ds_bulk_equal_eq True by (simp add: key_irrefl not_less)
next
  case False
  then have "ds_bulk_less (ld_key a) (ld_key b) \<longleftrightarrow> \<not> ds_bulk_less (ld_key b) (ld_key a)" using key_total key_asym by blast
  with False show ?thesis unfolding leaf_data_less_def ds_bulk_equal_eq by simp
qed

lemma leaf_data_order:
  "leaf_data_less a b \<Longrightarrow> \<not> leaf_data_less b a"
  "\<not> leaf_data_less b a \<Longrightarrow> \<not> leaf_data_less c b \<Longrightarrow> \<not> leaf_data_less c a"
proof -
  show "leaf_data_less a b \<Longrightarrow> \<not> leaf_data_less b a"
    unfolding leaf_data_le unfolding leaf_data_less_def ds_bulk_equal_eq by (metis less_imp_le)
  show "\<not> leaf_data_less b a \<Longrightarrow> \<not> leaf_data_less c b \<Longrightarrow> \<not> leaf_data_less c a"
    unfolding leaf_data_le by (elim disjE conjE) (blast intro: key_trans, simp_all)
qed

text \<open>The deltas of the queue that belong to a node: those with keys below its high key, which come first.\<close>

lemma sorted_below_prefix:
  assumes "sorted_wrt (\<lambda>a b. \<not> leaf_data_less b a) q" "snd high \<noteq> INVALID_NODE_ID"
  defines "n \<equiv> length (dropWhile (\<lambda>x. \<not> ds_bulk_less (ld_key x) (fst high)) (rev q))"
  shows "take n q = filter (\<lambda>x. below_high (ld_key x) high) q" "drop n q = filter (\<lambda>x. \<not> below_high (ld_key x) high) q" "n \<le> length q"
proof -
  let ?P = "\<lambda>x. ds_bulk_less (ld_key x) (fst high)"
  have P: "below_high (ld_key x) high = ?P x" for x using assms(2) by (simp add: below_high_def)
  have mono: "?P a" if "\<not> leaf_data_less b a" "?P b" for a b
    using that key_trans [of "ld_key a" "ld_key b" "fst high"] by (auto simp: leaf_data_le)
  show "take n q = filter (\<lambda>x. below_high (ld_key x) high) q" "drop n q = filter (\<lambda>x. \<not> below_high (ld_key x) high) q" "n \<le> length q"
    unfolding P using sorted_prefix [of _ q ?P n, OF assms(1) mono n_def [THEN meta_eq_to_obj_eq]] by simp_all
qed

lemma take_below:
  fixes high :: key_node_id
  assumes "kv_sorted d"
  defines "ce \<equiv> (if snd high = INVALID_NODE_ID then length d else kv_lower_bound (fst high) d)"
  shows "set (take ce d) = {p \<in> set d. below_high (fst p) high}" "ce \<le> length d"
    and "below_high (fst p) high \<Longrightarrow> index_for d p ix \<Longrightarrow> fst ix \<le> ce \<and> (snd ix \<longrightarrow> fst ix < ce)"
proof -
  have below: "j < ce \<longleftrightarrow> below_high (fst (d ! j)) high" if "j < length d" for j
    using kv_bounds(1) [OF assms(1) that, of "fst high"] that by (auto simp: ce_def below_high_def)
  show len: "ce \<le> length d" using kv_bounds_length(1) by (simp add: ce_def)
  show "set (take ce d) = {p \<in> set d. below_high (fst p) high}"
  proof (intro set_eqI iffI)
    fix p assume "p \<in> set (take ce d)"
    then show "p \<in> {p \<in> set d. below_high (fst p) high}"
      using nth_mem_slice [of p 0 ce d] below nth_mem by fastforce
  next
    fix p assume p: "p \<in> {p \<in> set d. below_high (fst p) high}"
    then obtain j where "j < length d" "d ! j = p" by (auto simp: in_set_conv_nth)
    then show "p \<in> set (take ce d)"
      using nth_mem_slice [of p 0 ce d] below [of j] p by auto
  qed
  assume p: "below_high (fst p) high" "index_for d p ix"
  show "fst ix \<le> ce \<and> (snd ix \<longrightarrow> fst ix < ce)"
  proof (cases "snd ix")
    case True
    then show ?thesis using p below [of "fst ix"] by (auto simp: index_for_def)
  next
    case False
    then have "fst ix = kv_upper_bound (fst p) d" using p(2) by (simp add: index_for_def)
    then show ?thesis
      using False p(1) kv_upper_le_lower [OF assms(1), of "fst p" "fst high"] kv_bounds_length(2) [of "fst p" d]
      by (auto simp: ce_def below_high_def)
  qed
qed

lemma merge_leaf_law:
  assumes d: "kv_sorted d" "distinct d" and s: "sss_inv s"
    and q: "sorted_wrt (\<lambda>a b. \<not> leaf_data_less b a) (sss_contents s)" "distinct (map ld_item (sss_contents s))"
    and ix: "\<forall>x\<in>set (sss_contents s). below_high (ld_key x) high \<longrightarrow> index_for d (ld_item x) (ld_ix x)"
  shows "\<exists>s' L. merge_leaf high d (s, ds, out) = Some (s', ds, out @ L) \<and> sss_inv s' \<and> sss_room s' = sss_room s
    \<and> sss_contents s' = filter (\<lambda>x. \<not> below_high (ld_key x) high) (sss_contents s) \<and> kv_sorted L \<and> distinct L
    \<and> set L = {p \<in> set d. below_high (fst p) high \<and> p \<notin> ld_item ` set (sss_contents s)}
        \<union> ld_item ` {x \<in> set (sss_contents s). ld_insert x \<and> below_high (ld_key x) high}"
proof -
  let ?q = "sss_contents s"
  define ce where "ce = (if snd high = INVALID_NODE_ID then length d else kv_lower_bound (fst high) d)"
  define n where "n = (if snd high = INVALID_NODE_ID then sss_GetSize s
    else length (dropWhile (\<lambda>x. \<not> ds_bulk_less (ld_key x) (fst high)) (rev ?q)))"
  have n: "take n ?q = filter (\<lambda>x. below_high (ld_key x) high) ?q" "drop n ?q = filter (\<lambda>x. \<not> below_high (ld_key x) high) ?q"
    "n \<le> length ?q"
    using sorted_below_prefix [OF q(1), of high] s sss_split [OF s]
    by (auto simp: n_def sss_GetSize_def below_high_def)
  note ce = take_below [OF d(1), where high = high, folded ce_def]
  have "fst (ld_ix x) \<le> ce \<and> (snd (ld_ix x) \<longrightarrow> fst (ld_ix x) < ce)" if "x \<in> set ?q" "below_high (ld_key x) high" for x
    using ce(3) [of "ld_item x" "ld_ix x"] ix that by blast
  then have fit: "deltas_fit d ce 0 (take n ?q)"
    using ce(2) ix q unfolding deltas_fit_def n(1) by (auto simp: sorted_wrt_filter distinct_map_filter)
  obtain s' where s': "merge_loop d ce n s 0 out = Some (s', out @ merge_spec d ce 0 (take n ?q))" "sss_inv s'"
    "sss_contents s' = drop n ?q" "sss_room s' = sss_room s"
    using merge_loop_law [OF d(1) s n(3) fit, of out] by blast
  note L = merge_spec_law [OF d fit]
  have "p \<in> ld_item ` {x \<in> set (take n ?q). snd (ld_ix x)}" if p: "p \<in> set (take ce d)" "p \<in> ld_item ` set ?q" for p
  proof -
    obtain x where x: "x \<in> set ?q" "p = ld_item x" using p(2) by blast
    then have b: "below_high (ld_key x) high" "p \<in> set d" using p(1) ce(1) by auto
    then have "snd (ld_ix x)" using ix x by (auto simp: index_for_def split: if_splits)
    then show ?thesis using x b unfolding n(1) by auto
  qed
  then have "set (merge_spec d ce 0 (take n ?q)) = {p \<in> set d. below_high (fst p) high \<and> p \<notin> ld_item ` set ?q}
      \<union> ld_item ` {x \<in> set ?q. ld_insert x \<and> below_high (ld_key x) high}"
    using L ce(1) unfolding n(1) by auto
  then show ?thesis using s' L n(2) by (auto simp: merge_leaf_def Let_def ce_def [symmetric] n_def [symmetric])
qed

section \<open>The chain\<close>

text \<open>A lower bound for the keys of a branch; what belongs to the branches left of it has been taken off the queue.\<close>

definition above_low :: "bulk option \<Rightarrow> bulk \<Rightarrow> bool" where
  "above_low lo k = (case lo of None \<Rightarrow> True | Some l \<Rightarrow> \<not> ds_bulk_less k l)"

definition collect_inv ::
  "(bulk \<Rightarrow> 64 word) \<Rightarrow> bulk option \<Rightarrow> key_node_id \<Rightarrow> leaf_chain \<Rightarrow> leaf_data sorted_small_set \<Rightarrow> key_value bloom_filter \<Rightarrow> bool" where
  "collect_inv hash lo high c s ds \<longleftrightarrow> sss_inv s \<and> bf_inv (KeyValuePairHash hash) ds
     \<and> sorted_wrt (\<lambda>a b. \<not> leaf_data_less b a) (sss_contents s) \<and> distinct (map ld_item (sss_contents s))
     \<and> (\<forall>x\<in>set (sss_contents s). above_low lo (ld_key x)
          \<and> (below_high (ld_key x) high \<longrightarrow> index_for (base_for (ld_key x) c) (ld_item x) (ld_ix x)))
     \<and> ld_item ` set (sss_contents s) \<subseteq> set (data_p ds)
     \<and> (\<forall>p\<in>set (data_p ds). p \<in> ld_item ` set (sss_contents s) \<or> \<not> above_low lo (fst p))
     \<and> length (data_p ds) + GetDepth c \<le> bf_capacity ds \<and> GetDepth c \<le> sss_room s"

lemma collect_delta_law:
  assumes inv: "collect_inv hash lo high c s ds" and c: "\<And>k. base_for k c = base_for k child" "GetDepth c = Suc (GetDepth child)"
    and x: "above_low lo (ld_key x)" "below_high (ld_key x) high" "index_for (base_for (ld_key x) child) (ld_item x) (ld_ix x)"
  shows "\<exists>s' ds'. collect_delta hash x (s, ds, out) = Some (s', ds', out) \<and> collect_inv hash lo high child s' ds'
    \<and> bf_capacity ds' = bf_capacity ds \<and> sss_room s \<le> Suc (sss_room s') \<and> length (data_p ds') \<le> Suc (length (data_p ds))
    \<and> set (data_p ds') = insert (ld_item x) (set (data_p ds))
    \<and> filter (\<lambda>x. \<not> below_high (ld_key x) high) (sss_contents s') = filter (\<lambda>x. \<not> below_high (ld_key x) high) (sss_contents s)
    \<and> (ld_item x \<in> ld_item ` set (sss_contents s) \<and> s' = s
       \<or> ld_item x \<notin> ld_item ` set (sss_contents s) \<and> set (sss_contents s') = insert x (set (sss_contents s)))"
proof (cases "ld_item x \<in> set (data_p ds)")
  case True
  then have "ld_item x \<in> ld_item ` set (sss_contents s)" using inv x(1) by (auto simp: collect_inv_def)
  moreover have "collect_delta hash x (s, ds, out) = Some (s, ds, out)"
    using True inv bloom.ex_iff [of "KeyValuePairHash hash" ds] by (simp add: collect_delta_def KeyValuePairEqual_eq collect_inv_def)
  moreover have "collect_inv hash lo high child s ds" using inv c by (simp add: collect_inv_def)
  ultimately show ?thesis using True by auto
next
  case False
  have ok: "sss_inv s" "bf_inv (KeyValuePairHash hash) ds" "sorted_wrt (\<lambda>a b. \<not> leaf_data_less b a) (sss_contents s)"
    "0 < sss_room s" "length (data_p ds) < bf_capacity ds"
    using inv c(2) by (auto simp: collect_inv_def)
  obtain ds' where ds': "bf_Insert (KeyValuePairHash hash) (ld_item x) ds = Some ds'" "bf_inv (KeyValuePairHash hash) ds'"
    "data_p ds' = data_p ds @ [ld_item x]" "bf_capacity ds' = bf_capacity ds"
    using bloom.ins_ok [OF ok(2,5)] by blast
  obtain s' where s': "sss_InsertNoDedup leaf_data_less x s = Some s'" "sss_inv s'" "sss_room s' = sss_room s - 1"
    "sss_contents s' = takeWhile (\<lambda>y. \<not> leaf_data_less x y) (sss_contents s) @ x # dropWhile (\<lambda>y. \<not> leaf_data_less x y) (sss_contents s)"
    using sss.push_ok [OF ok(1,4), of leaf_data_less x] by blast
  have sorted: "sorted_wrt (\<lambda>a b. \<not> leaf_data_less b a) (sss_contents s')" "mset (sss_contents s') = add_mset x (mset (sss_contents s))"
    using sss.push_sorted [where cmp = leaf_data_less and v = x, OF leaf_data_order ok(1,4,3)] s'(1) by auto
  have set': "set (sss_contents s') = insert x (set (sss_contents s))"
    using sorted(2) by (metis set_mset_add_mset_insert set_mset_mset)
  have new: "ld_item x \<notin> ld_item ` set (sss_contents s)" using False inv by (auto simp: collect_inv_def)
  have "mset (map ld_item (sss_contents s')) = mset (ld_item x # map ld_item (sss_contents s))"
    using sorted(2) by simp
  then have "distinct (map ld_item (sss_contents s')) \<longleftrightarrow> distinct (ld_item x # map ld_item (sss_contents s))"
    by (rule mset_eq_imp_distinct_iff)
  then have dist: "distinct (map ld_item (sss_contents s'))" using new inv by (simp add: collect_inv_def)
  have flt: "filter (\<lambda>x. \<not> below_high (ld_key x) high) (sss_contents s') = filter (\<lambda>x. \<not> below_high (ld_key x) high) (sss_contents s)"
    using x(2) unfolding s'(4) by simp (metis filter_append takeWhile_dropWhile_id)
  have "collect_delta hash x (s, ds, out) = Some (s', ds', out)"
    using False ds'(1) s'(1) bloom.ex_iff [OF ok(2)] by (simp add: collect_delta_def KeyValuePairEqual_eq)
  moreover have "collect_inv hash lo high child s' ds'"
    using inv c x dist sorted(1) set' ds' s'(2,3) by (auto simp: collect_inv_def)
  ultimately show ?thesis
    using ds' s'(3) flt new set' by auto
qed

text \<open>The state after a branch: its deltas are off the queue, and \<open>L\<close> are the pairs it adds to the new node.\<close>

definition collected ::
  "key_node_id \<Rightarrow> leaf_chain \<Rightarrow> leaf_data sorted_small_set \<Rightarrow> key_value bloom_filter \<Rightarrow>
   leaf_data sorted_small_set \<Rightarrow> key_value bloom_filter \<Rightarrow> key_value list \<Rightarrow> (bulk \<Rightarrow> 64 word) \<Rightarrow> bool" where
  "collected high c s ds s' ds' L hash \<longleftrightarrow> sss_inv s' \<and> bf_inv (KeyValuePairHash hash) ds'
     \<and> sss_contents s' = filter (\<lambda>x. \<not> below_high (ld_key x) high) (sss_contents s)
     \<and> bf_capacity ds' = bf_capacity ds \<and> sss_room s \<le> sss_room s' + GetDepth c
     \<and> length (data_p ds') \<le> length (data_p ds) + GetDepth c
     \<and> set (data_p ds) \<subseteq> set (data_p ds') \<and> (\<forall>p\<in>set (data_p ds') - set (data_p ds). below_high (fst p) high)
     \<and> kv_sorted L \<and> distinct L
     \<and> set L = {p \<in> chain_items c. p \<notin> ld_item ` set (sss_contents s)}
         \<union> ld_item ` {x \<in> set (sss_contents s). ld_insert x \<and> below_high (ld_key x) high}"

lemma collectedD:
  assumes "collected high c s ds s' ds' L hash"
  shows "sss_inv s'" "bf_inv (KeyValuePairHash hash) ds'" "sss_contents s' = filter (\<lambda>x. \<not> below_high (ld_key x) high) (sss_contents s)"
    and "bf_capacity ds' = bf_capacity ds" "sss_room s \<le> sss_room s' + GetDepth c" "length (data_p ds') \<le> length (data_p ds) + GetDepth c"
    and "set (data_p ds) \<subseteq> set (data_p ds')" "\<forall>p\<in>set (data_p ds') - set (data_p ds). below_high (fst p) high"
    and "kv_sorted L" "distinct L"
    and "set L = {p \<in> chain_items c. p \<notin> ld_item ` set (sss_contents s)}
         \<union> ld_item ` {x \<in> set (sss_contents s). ld_insert x \<and> below_high (ld_key x) high}"
  using assms unfolding collected_def by simp_all

lemma collected_delta:
  assumes inv: "collect_inv hash lo high c s ds" and c: "\<And>k. base_for k c = base_for k child" "GetDepth c = Suc (GetDepth child)"
    and x: "above_low lo (ld_key x)" "below_high (ld_key x) high" "index_for (base_for (ld_key x) child) (ld_item x) (ld_ix x)"
    and items: "chain_items c = (if ld_insert x then insert (ld_item x) (chain_items child) else chain_items child - {ld_item x})"
    and rec: "\<And>s ds. collect_inv hash lo high child s ds \<Longrightarrow>
      \<exists>s' ds' L. rec (s, ds, out) = Some (s', ds', out @ L) \<and> collected high child s ds s' ds' L hash"
  shows "\<exists>s' ds' L. (do { st \<leftarrow> collect_delta hash x (s, ds, out); rec st }) = Some (s', ds', out @ L) \<and> collected high c s ds s' ds' L hash"
proof -
  obtain s1 ds1 where s1: "collect_delta hash x (s, ds, out) = Some (s1, ds1, out)" "collect_inv hash lo high child s1 ds1"
    "bf_capacity ds1 = bf_capacity ds" "sss_room s \<le> Suc (sss_room s1)" "length (data_p ds1) \<le> Suc (length (data_p ds))"
    "set (data_p ds1) = insert (ld_item x) (set (data_p ds))"
    "filter (\<lambda>x. \<not> below_high (ld_key x) high) (sss_contents s1) = filter (\<lambda>x. \<not> below_high (ld_key x) high) (sss_contents s)"
    "ld_item x \<in> ld_item ` set (sss_contents s) \<and> s1 = s
       \<or> ld_item x \<notin> ld_item ` set (sss_contents s) \<and> set (sss_contents s1) = insert x (set (sss_contents s))"
    using collect_delta_law [OF inv c x, of out] by blast
  obtain s' ds' L where r: "rec (s1, ds1, out) = Some (s', ds', out @ L)" "collected high child s1 ds1 s' ds' L hash"
    using rec [OF s1(2)] by blast
  have "{p \<in> chain_items child. p \<notin> ld_item ` set (sss_contents s1)}
         \<union> ld_item ` {x \<in> set (sss_contents s1). ld_insert x \<and> below_high (ld_key x) high}
      = {p \<in> chain_items c. p \<notin> ld_item ` set (sss_contents s)}
         \<union> ld_item ` {x \<in> set (sss_contents s). ld_insert x \<and> below_high (ld_key x) high}"
    using s1(8) x(2) unfolding items by auto (metis imageI)
  then have "collected high c s ds s' ds' L hash"
    using r(2) s1(3-7) c(2) x(2) unfolding collected_def by auto
  then show ?thesis using s1(1) r(1) by auto
qed

lemma collected_leaf:
  assumes "chain_ok (LeafNode low h d)" "collect_inv hash lo high (LeafNode low h d) s ds"
    and "chain_items c = {p \<in> set d. below_high (fst p) high}" "GetDepth c = 0"
  shows "\<exists>s' ds' L. merge_leaf high d (s, ds, out) = Some (s', ds', out @ L) \<and> collected high c s ds s' ds' L hash"
proof -
  have d: "kv_sorted d" "distinct d" using assms(1) by auto
  obtain s' L where "merge_leaf high d (s, ds, out) = Some (s', ds, out @ L)" "sss_inv s'" "sss_room s' = sss_room s"
    "sss_contents s' = filter (\<lambda>x. \<not> below_high (ld_key x) high) (sss_contents s)" "kv_sorted L" "distinct L"
    "set L = {p \<in> set d. below_high (fst p) high \<and> p \<notin> ld_item ` set (sss_contents s)}
        \<union> ld_item ` {x \<in> set (sss_contents s). ld_insert x \<and> below_high (ld_key x) high}"
    using merge_leaf_law [OF d, of s high ds out] assms(2) by (auto simp: collect_inv_def)
  then show ?thesis
    using assms(2-) by (auto simp: collected_def collect_inv_def)
qed

lemma collected_merge:
  assumes ok: "chain_ok (LeafMergeNode m r c)" "\<forall>k\<in>chain_keys (LeafMergeNode m r c). above_low lo k"
    and inv: "collect_inv hash lo (GetHighKeyPair r) (LeafMergeNode m r c) s ds"
    and left: "collected (GetHighKeyPair c) c s ds s1 ds1 L1 hash"
  shows "collect_inv hash (Some (fst m)) (GetHighKeyPair r) r s1 ds1"
    and "collected (GetHighKeyPair r) r s1 ds1 s2 ds2 L2 hash \<Longrightarrow>
      collected (GetHighKeyPair r) (LeafMergeNode m r c) s ds s2 ds2 (L1 @ L2) hash"
proof -
  have high: "below_high k (GetHighKeyPair c) \<longleftrightarrow> ds_bulk_less k (fst m)" for k
    using ok(1) by (auto simp: below_high_def)
  have seen: "p \<in> ld_item ` set (sss_contents s1) \<or> ds_bulk_less (fst p) (fst m)" if p: "p \<in> set (data_p ds1)" for p
  proof -
    have "above_low lo (fst m)" using ok(2) by simp
    then have "ds_bulk_less (fst p) (fst m)" if "\<not> above_low lo (fst p)"
      using that key_less_le_trans [of "fst p" _ "fst m"] by (simp add: above_low_def split: option.splits)
    moreover have "p \<in> set (data_p ds) \<or> ds_bulk_less (fst p) (fst m)"
      using left p high by (auto simp: collected_def)
    ultimately show ?thesis
      using inv left high by (fastforce simp: collect_inv_def collected_def)
  qed
  show "collect_inv hash (Some (fst m)) (GetHighKeyPair r) r s1 ds1"
    using inv left high seen unfolding collect_inv_def collected_def
    by (auto simp: above_low_def sorted_wrt_filter distinct_map_filter)
  show "collected (GetHighKeyPair r) r s1 ds1 s2 ds2 L2 hash \<Longrightarrow>
      collected (GetHighKeyPair r) (LeafMergeNode m r c) s ds s2 ds2 (L1 @ L2) hash"
  proof -
    assume right: "collected (GetHighKeyPair r) r s1 ds1 s2 ds2 L2 hash"
    note l = collectedD [OF left, unfolded high] and r2 = collectedD [OF right]
    have up: "below_high k (GetHighKeyPair r)" if "ds_bulk_less k (fst m)" for k
      using below_high_less [OF _ that, of "GetHighKeyPair r"] ok(1) by simp
    have L1: "ds_bulk_less (fst p) (fst m)" if "p \<in> set L1" for p
      using that left high chain_items_below [of c p] ok(1) by (auto simp: collected_def)
    have r: "\<not> ds_bulk_less (fst p) (fst m)" if "p \<in> chain_items r" for p
      using chain_items_keys [OF that] ok(1) by simp
    have L2: "\<not> ds_bulk_less (fst p) (fst m)" if "p \<in> set L2" for p
      using that right left high r [of p] by (auto simp: collected_def)
    have "\<not> ds_bulk_less (fst q) (fst p)" if "p \<in> set L1" "q \<in> set L2" for p q
      using key_trans [of "fst q" "fst p" "fst m"] L1 [OF that(1)] L2 [OF that(2)] by blast
    moreover have "set L1 \<inter> set L2 = {}" using L1 L2 by blast
    ultimately have sorted: "kv_sorted (L1 @ L2)" "distinct (L1 @ L2)"
      using left right by (simp_all add: collected_def sorted_wrt_append)
    have contents: "filter (\<lambda>x. \<not> below_high (ld_key x) (GetHighKeyPair r)) (sss_contents s1)
        = filter (\<lambda>x. \<not> below_high (ld_key x) (GetHighKeyPair r)) (sss_contents s)"
      using left high up by (auto simp: collected_def intro!: filter_cong)
    have "x \<in> set (sss_contents s1) \<longleftrightarrow> x \<in> set (sss_contents s)" if "ld_item x \<in> chain_items r" for x
      using left high r [OF that] by (simp add: collected_def)
    then have "{p \<in> chain_items r. p \<notin> ld_item ` set (sss_contents s1)} = {p \<in> chain_items r. p \<notin> ld_item ` set (sss_contents s)}"
      by blast
    moreover have "{x \<in> set (sss_contents s). ld_insert x \<and> below_high (ld_key x) (GetHighKeyPair r)}
        = {x \<in> set (sss_contents s). ld_insert x \<and> ds_bulk_less (ld_key x) (fst m)}
          \<union> {x \<in> set (sss_contents s1). ld_insert x \<and> below_high (ld_key x) (GetHighKeyPair r)}"
      using left high up unfolding collected_def by auto
    ultimately have items: "set (L1 @ L2) = {p \<in> chain_items (LeafMergeNode m r c). p \<notin> ld_item ` set (sss_contents s)}
         \<union> ld_item ` {x \<in> set (sss_contents s). ld_insert x \<and> below_high (ld_key x) (GetHighKeyPair r)}"
      using l(11) r2(11) by (simp add: image_Un) blast
    moreover have "below_high (fst p) (GetHighKeyPair r)" if "p \<in> set (data_p ds2) - set (data_p ds)" for p
      using that l(8) r2(8) up [of "fst p"] by blast
    ultimately show ?thesis
      using l(4-7) r2(1-7) sorted contents unfolding collected_def by (auto simp del: set_append)
  qed
qed

lemma delta_index: "chain_ok (LeafInsertNode item ix c) \<or> chain_ok (LeafDeleteNode item ix c) \<Longrightarrow> index_for (base_for (fst item) c) item ix"
  using NavigateLeafNode_item_law [of c "fst item" "snd item"] by auto

lemma CollectAllValuesOnLeafRecursive_law:
  assumes "chain_ok c" "\<forall>k\<in>chain_keys c. above_low lo k" "collect_inv hash lo (GetHighKeyPair c) c s ds"
  shows "\<exists>s' ds' L. CollectAllValuesOnLeafRecursive hash (GetHighKeyPair c) c (s, ds, out) = Some (s', ds', out @ L)
    \<and> collected (GetHighKeyPair c) c s ds s' ds' L hash"
  using assms
proof (induction c arbitrary: lo s ds out)
  case (LeafNode low high d)
  have "chain_items (LeafNode low high d) = {p \<in> set d. below_high (fst p) high}" using LeafNode.prems(1) by auto
  then show ?case using collected_leaf [OF LeafNode.prems(1) LeafNode.prems(3), of "LeafNode low high d" out] by simp
next
  case (LeafInsertNode item ix child)
  show ?case
    using collected_delta [OF LeafInsertNode.prems(3), where child = child and out = out and x = "\<lparr>ld_insert = True, ld_item = item, ld_ix = ix\<rparr>"
        and rec = "CollectAllValuesOnLeafRecursive hash (GetHighKeyPair child) child"]
      LeafInsertNode.IH [of lo _ _ out] LeafInsertNode.prems delta_index [of item ix child] by simp
next
  case (LeafDeleteNode item ix child)
  show ?case
    using collected_delta [OF LeafDeleteNode.prems(3), where child = child and out = out and x = "\<lparr>ld_insert = False, ld_item = item, ld_ix = ix\<rparr>"
        and rec = "CollectAllValuesOnLeafRecursive hash (GetHighKeyPair child) child"]
      LeafDeleteNode.IH [of lo _ _ out] LeafDeleteNode.prems delta_index [of item ix child] by simp
next
  case (LeafSplitNode insert_item child n)
  obtain low high d where child: "child = LeafNode low high d"
    using LeafSplitNode.prems(1) by (cases child) (auto simp: IsDeltaNode_def)
  have "chain_items (LeafSplitNode insert_item child n) = {p \<in> set d. below_high (fst p) insert_item}"
    using LeafSplitNode.prems(1) by (auto simp: child below_high_def)
  moreover have "collect_inv hash lo insert_item (LeafNode low high d) s ds"
    using LeafSplitNode.prems(3) by (simp add: child collect_inv_def)
  ultimately show ?case
    using collected_leaf [of low high d hash lo insert_item s ds "LeafSplitNode insert_item child n" out] LeafSplitNode.prems(1)
    by (simp add: child)
next
  case (LeafMergeNode m r c)
  have "collect_inv hash lo (GetHighKeyPair c) c s ds"
    using LeafMergeNode.prems(1,3) by (auto simp: collect_inv_def below_high_def key_trans)
  then obtain s1 ds1 L1 where left: "CollectAllValuesOnLeafRecursive hash (GetHighKeyPair c) c (s, ds, out) = Some (s1, ds1, out @ L1)"
    "collected (GetHighKeyPair c) c s ds s1 ds1 L1 hash"
    using LeafMergeNode.IH(2) [of lo s ds out] LeafMergeNode.prems(1,2) by auto
  note merge = collected_merge [OF LeafMergeNode.prems(1,2) LeafMergeNode.prems(3) [unfolded GetHighKeyPair.simps] left(2)]
  obtain s2 ds2 L2 where right: "CollectAllValuesOnLeafRecursive hash (GetHighKeyPair r) r (s1, ds1, out @ L1) = Some (s2, ds2, (out @ L1) @ L2)"
    "collected (GetHighKeyPair r) r s1 ds1 s2 ds2 L2 hash"
    using LeafMergeNode.IH(1) [of "Some (fst m)" s1 ds1 "out @ L1"] LeafMergeNode.prems(1) merge(1) by (auto simp: above_low_def)
  show ?case using left(1) right(1) merge(2) [OF right(2)] by simp
qed auto

lemma consolidation_law:
  assumes "chain_ok c"
  shows "\<exists>d. CollectAllValuesOnLeaf hash c = Some (LeafNode (GetLowKeyPair c) (GetHighKeyPair c) d)
    \<and> chain_ok (LeafNode (GetLowKeyPair c) (GetHighKeyPair c) d) \<and> set d = chain_items c \<and> int (length d) = GetItemCount c"
proof -
  let ?s = "SortedSmallSet (GetDepth c) :: leaf_data sorted_small_set" and ?ds = "BloomFilter (GetDepth c) :: key_value bloom_filter"
  have new: "sss_inv ?s" "sss_contents ?s = []" "sss_room ?s = GetDepth c"
    by (simp_all add: SortedSmallSet_def sss_inv_def sss_contents_def)
  have "collect_inv hash None (GetHighKeyPair c) c ?s ?ds"
    using bloom.new_ok [of "KeyValuePairHash hash" "GetDepth c"] by (simp add: collect_inv_def new)
  then obtain s' ds' L where r: "CollectAllValuesOnLeafRecursive hash (GetHighKeyPair c) c (?s, ?ds, []) = Some (s', ds', L)"
    "collected (GetHighKeyPair c) c ?s ?ds s' ds' L hash"
    using CollectAllValuesOnLeafRecursive_law [OF assms, of None hash ?s ?ds "[]"] by (auto simp: above_low_def)
  have L: "kv_sorted L" "distinct L" "set L = chain_items c" using r(2) by (auto simp: collected_def new)
  then have "int (length L) = GetItemCount c" using GetItemCount_card [OF assms] distinct_card [of L] by simp
  then show ?thesis
    using r(1) L chain_items_below [OF assms] by (auto simp: CollectAllValuesOnLeaf_def Let_def)
qed

text \<open>
  C9. Consolidation keeps what the chain stands for: whatever deltas are on the chain, splits and merges included, the new base node is well formed, has
  the same pairs and the same range, and its size is the item count of the chain; the assertions and the
  bounds of the arrays hold on the way. The search for any pair by which \<open>Insert\<close> and \<open>Delete\<close> decide finds the same in the new node as in the chain.
\<close>

theorem consolidation_exact:
  assumes "chain_ok c"
  shows "\<exists>d. CollectAllValuesOnLeaf hash c = Some (LeafNode (GetLowKeyPair c) (GetHighKeyPair c) d)
    \<and> chain_ok (LeafNode (GetLowKeyPair c) (GetHighKeyPair c) d) \<and> set d = chain_items c \<and> int (length d) = GetItemCount c
    \<and> (\<forall>k v. below_high k (GetHighKeyPair c) \<longrightarrow>
         map_option fst (NavigateLeafNode_item k v (LeafNode (GetLowKeyPair c) (GetHighKeyPair c) d)) = map_option fst (NavigateLeafNode_item k v c))"
proof -
  obtain d where d: "CollectAllValuesOnLeaf hash c = Some (LeafNode (GetLowKeyPair c) (GetHighKeyPair c) d)"
    "chain_ok (LeafNode (GetLowKeyPair c) (GetHighKeyPair c) d)" "set d = chain_items c" "int (length d) = GetItemCount c"
    using consolidation_law [OF assms] by blast
  have "map_option fst (NavigateLeafNode_item k v (LeafNode (GetLowKeyPair c) (GetHighKeyPair c) d)) = map_option fst (NavigateLeafNode_item k v c)"
    if "below_high k (GetHighKeyPair c)" for k v
    using NavigateLeafNode_item_law [OF assms that, of v] NavigateLeafNode_item_law [OF d(2), of k v] that d(3) by auto
  then show ?thesis using d by blast
qed

theorem consolidation_exact_witness:
  "\<exists>d. CollectAllValuesOnLeaf (\<lambda>_. 0) sample_merged = Some (LeafNode ([], 1) ([], 0) d) \<and> set d = {([1], [11]), ([3], [33]), ([7], [77])}"
  using consolidation_exact [OF sample_merged_sel(1), of "\<lambda>_. 0"] by (auto simp: sample_merged_def)

end
