(* ===== verification/Bwtree_Leaf_Level.thy ===== *)
theory Bwtree_Leaf_Level
  imports Bwtree_Split Bwtree_Consolidate
begin

text \<open>
  The leaves of the BwTree together: the mapping table of BwTree/src/bwtree.h with the leaf chains it holds, linked from left to right by
  their high keys, and what \<open>Insert\<close>, \<open>Delete\<close>, \<open>GetValue\<close>, consolidation, splits and merges do to them.
\<close>

section \<open>The mapping table\<close>

record leaf_level =
  mapping_table :: "node_id \<Rightarrow> leaf_chain option"
  next_unused_node_id :: node_id

definition MAPPING_TABLE_SIZE :: node_id where
  "MAPPING_TABLE_SIZE = 2 ^ 20"

definition FIRST_LEAF_NODE_ID :: node_id where
  "FIRST_LEAF_NODE_ID = 2"

definition GetNode :: "leaf_level \<Rightarrow> node_id \<Rightarrow> leaf_chain option" where
  "GetNode t i = (if i \<noteq> INVALID_NODE_ID \<and> i < MAPPING_TABLE_SIZE then mapping_table t i else None)"

text \<open>A new node is written to the table without a check; outside the table this has no meaning.\<close>

definition InstallNewNode :: "node_id \<Rightarrow> leaf_chain \<Rightarrow> leaf_level \<Rightarrow> leaf_level option" where
  "InstallNewNode i node t =
     (if i < MAPPING_TABLE_SIZE then Some (t\<lparr>mapping_table := (mapping_table t)(i \<mapsto> node)\<rparr>) else None)"

text \<open>The compare-and-swap when no other thread has changed the entry.\<close>

definition InstallNodeToReplace :: "node_id \<Rightarrow> leaf_chain \<Rightarrow> leaf_level \<Rightarrow> leaf_level option" where
  "InstallNodeToReplace i node t =
     (if i \<noteq> INVALID_NODE_ID \<and> i < MAPPING_TABLE_SIZE then Some (t\<lparr>mapping_table := (mapping_table t)(i \<mapsto> node)\<rparr>) else None)"

text \<open>No id is ever pushed to the list of free ids, so that the counter gives the next one.\<close>

definition GetNextNodeID :: "leaf_level \<Rightarrow> node_id \<times> leaf_level" where
  "GetNextNodeID t = (next_unused_node_id t, t\<lparr>next_unused_node_id := next_unused_node_id t + 1\<rparr>)"

text \<open>\<open>InitNodeLayout\<close>: the root has id 1, the first leaf, which is empty, id 2.\<close>

definition InitNodeLayout :: "leaf_level option" where
  "InitNodeLayout =
     (let t = \<lparr>mapping_table = \<lambda>_. None, next_unused_node_id = 1\<rparr>;
          (root_id, t) = GetNextNodeID t;
          (first_leaf_id, t) = GetNextNodeID t
      in if root_id = 1 \<and> first_leaf_id = FIRST_LEAF_NODE_ID
         then InstallNewNode first_leaf_id (LeafNode ([], INVALID_NODE_ID) ([], INVALID_NODE_ID) []) t else None)"

section \<open>The operations on the leaves\<close>

partial_function (option) NavigateSiblingChain :: "bulk \<Rightarrow> leaf_level \<Rightarrow> node_id \<Rightarrow> node_id option" where
  "NavigateSiblingChain k t i = do {
     node \<leftarrow> GetNode t i;
     if snd (GetHighKeyPair node) \<noteq> INVALID_NODE_ID \<and> \<not> ds_bulk_less k (fst (GetHighKeyPair node))
     then NavigateSiblingChain k t (snd (GetHighKeyPair node))
     else Some i
   }"

text \<open>
  \<open>Insert\<close>, \<open>Delete\<close> and \<open>GetValue\<close> from the leaf on at which the traversal of the inner nodes arrives.
\<close>

definition level_Insert :: "bulk \<Rightarrow> bulk \<Rightarrow> node_id \<Rightarrow> leaf_level \<Rightarrow> (leaf_level \<times> bool) option" where
  "level_Insert k v start t = do {
     i \<leftarrow> NavigateSiblingChain k t start;
     node \<leftarrow> GetNode t i;
     (node, r) \<leftarrow> leaf_Insert k v node;
     if r then map_option (\<lambda>t. (t, True)) (InstallNodeToReplace i node t) else Some (t, False)
   }"

definition level_Delete :: "bulk \<Rightarrow> bulk \<Rightarrow> node_id \<Rightarrow> leaf_level \<Rightarrow> (leaf_level \<times> bool) option" where
  "level_Delete k v start t = do {
     i \<leftarrow> NavigateSiblingChain k t start;
     node \<leftarrow> GetNode t i;
     (node, r) \<leftarrow> leaf_Delete k v node;
     if r then map_option (\<lambda>t. (t, True)) (InstallNodeToReplace i node t) else Some (t, False)
   }"

definition level_GetValue :: "(bulk \<Rightarrow> 64 word) \<Rightarrow> bulk \<Rightarrow> node_id \<Rightarrow> leaf_level \<Rightarrow> bulk list option" where
  "level_GetValue hash k start t = do {
     i \<leftarrow> NavigateSiblingChain k t start;
     node \<leftarrow> GetNode t i;
     NavigateLeafNode_values hash k node
   }"

definition ConsolidateLeafNode :: "(bulk \<Rightarrow> 64 word) \<Rightarrow> node_id \<Rightarrow> leaf_level \<Rightarrow> leaf_level option" where
  "ConsolidateLeafNode hash i t = do {
     node \<leftarrow> GetNode t i;
     leaf \<leftarrow> CollectAllValuesOnLeaf hash node;
     InstallNodeToReplace i leaf t
   }"

text \<open>A leaf that has become too large is split; one that can not be split stays.\<close>

definition split_leaf :: "node_id \<Rightarrow> leaf_level \<Rightarrow> leaf_level option" where
  "split_leaf i t = do {
     node \<leftarrow> GetNode t i;
     let (new_id, t') = GetNextNodeID t;
     adjusted \<leftarrow> AdjustLeafSize True i new_id node;
     case adjusted of
       AdjustSplit node sibling \<Rightarrow> do {
         t \<leftarrow> InstallNewNode new_id sibling t';
         InstallNodeToReplace i node t
       }
     | _ \<Rightarrow> Some t
   }"

text \<open>
  A leaf that has become too small gets a remove delta, and its left neighbour \<open>i\<close> a merge delta with what is below the remove
  delta, as \<open>FinishPartialSMO\<close> does; the table keeps the remove delta until the id is recycled.
\<close>

definition merge_right :: "node_id \<Rightarrow> leaf_level \<Rightarrow> leaf_level option" where
  "merge_right i t = do {
     left \<leftarrow> GetNode t i;
     let r = snd (GetHighKeyPair left);
     node \<leftarrow> GetNode t r;
     adjusted \<leftarrow> AdjustLeafSize False r INVALID_NODE_ID node;
     case adjusted of
       AdjustRemove remove \<Rightarrow> do {
         t \<leftarrow> InstallNodeToReplace r remove t;
         InstallNodeToReplace i (LeafMergeNode (fst (GetHighKeyPair left), r) node left) t
       }
     | _ \<Rightarrow> Some t
   }"

fun is_removed :: "leaf_chain \<Rightarrow> bool" where
  "is_removed (LeafRemoveNode i c) = True"
| "is_removed _ = False"

definition above_low_pair :: "key_node_id \<Rightarrow> bulk \<Rightarrow> bool" where
  "above_low_pair low k \<longleftrightarrow> snd low = INVALID_NODE_ID \<or> \<not> ds_bulk_less k (fst low)"

text \<open>Where the traversal of the inner nodes may arrive: at a leaf that is not to the right of the key.\<close>

definition starts_at :: "leaf_level \<Rightarrow> bulk \<Rightarrow> node_id \<Rightarrow> bool" where
  "starts_at t k i = (case GetNode t i of None \<Rightarrow> False | Some c \<Rightarrow> \<not> is_removed c \<and> above_low_pair (GetLowKeyPair c) k)"

section \<open>The list of leaves\<close>

definition node_at :: "(node_id \<Rightarrow> leaf_chain option) \<Rightarrow> node_id \<Rightarrow> key_node_id \<Rightarrow> key_node_id \<Rightarrow> bool" where
  "node_at T i low high \<longleftrightarrow> i \<noteq> INVALID_NODE_ID \<and> i < MAPPING_TABLE_SIZE \<and>
     (\<exists>c. T i = Some c \<and> chain_ok c \<and> GetLowKeyPair c = low \<and> GetHighKeyPair c = high \<and> (\<forall>k\<in>chain_keys c. above_low_pair low k))
     \<and> (snd low \<noteq> INVALID_NODE_ID \<longrightarrow> below_high (fst low) high)"

fun linked :: "(node_id \<Rightarrow> leaf_chain option) \<Rightarrow> key_node_id \<Rightarrow> node_id list \<Rightarrow> key_node_id \<Rightarrow> bool" where
  "linked T low [] high \<longleftrightarrow> False"
| "linked T low [i] high \<longleftrightarrow> node_at T i low high"
| "linked T low (i # j # ids) high \<longleftrightarrow> (\<exists>m. node_at T i low (m, j) \<and> linked T (m, NOT INVALID_NODE_ID) (j # ids) high)"

definition level_ids :: "leaf_level \<Rightarrow> node_id list \<Rightarrow> bool" where
  "level_ids t ids \<longleftrightarrow> (\<exists>m. linked (mapping_table t) ([], INVALID_NODE_ID) ids (m, INVALID_NODE_ID)) \<and> hd ids = FIRST_LEAF_NODE_ID \<and> distinct ids
     \<and> (\<forall>i c. mapping_table t i = Some c \<longrightarrow> i \<in> set ids \<or> is_removed c)
     \<and> (\<forall>i. mapping_table t i \<noteq> None \<longrightarrow> i < next_unused_node_id t) \<and> next_unused_node_id t \<le> MAPPING_TABLE_SIZE \<and> 0 < next_unused_node_id t"

definition level_items :: "leaf_level \<Rightarrow> key_value set" where
  "level_items t = {p. \<exists>i c. mapping_table t i = Some c \<and> \<not> is_removed c \<and> p \<in> chain_items c}"

lemma linked_append:
  assumes "xs \<noteq> []" "ys \<noteq> []"
  shows "linked T low (xs @ ys) high \<longleftrightarrow> (\<exists>m. linked T low xs (m, hd ys) \<and> linked T (m, NOT INVALID_NODE_ID) ys high)"
  using assms
proof (induction T low xs high rule: linked.induct)
  case (2 T low i high)
  then show ?case by (cases ys) auto
qed auto

lemma linked_cong: "\<forall>i\<in>set ids. T' i = T i \<Longrightarrow> linked T' low ids high \<longleftrightarrow> linked T low ids high"
  by (induction T low ids high rule: linked.induct) (auto simp: node_at_def)

lemma linked_replace:
  assumes "linked T low (xs @ ms @ ys) high" "ms \<noteq> []" "ms' \<noteq> []" "hd ms' = hd ms" "\<forall>i\<in>set xs \<union> set ys. T' i = T i"
    and "\<And>l h. linked T l ms h \<Longrightarrow> linked T' l ms' h"
  shows "linked T' low (xs @ ms' @ ys) high"
proof -
  have xs: "linked T' l xs h \<longleftrightarrow> linked T l xs h" and ys: "linked T' l ys h \<longleftrightarrow> linked T l ys h" for l h
    using assms(5) by (auto intro!: linked_cong)
  have tail: "linked T' l (ms' @ ys) high" if "linked T l (ms @ ys) high" for l
  proof (cases "ys = []")
    case False
    then show ?thesis using that assms(6) ys linked_append [OF assms(2) False] linked_append [OF assms(3) False] by blast
  qed (use that assms(6) in simp)
  show ?thesis
  proof (cases "xs = []")
    case False
    have "linked T low (xs @ (ms @ ys)) high" using assms(1) by simp
    then obtain m where "linked T low xs (m, hd ms)" "linked T (m, NOT INVALID_NODE_ID) (ms @ ys) high"
      using assms(2) by (auto simp: linked_append [OF False])
    then show ?thesis
      using tail xs assms(3,4) by (auto simp: linked_append [OF False])
  qed (use assms(1) tail in simp)
qed

text \<open>The node whose range has the key.\<close>

definition owns :: "(node_id \<Rightarrow> leaf_chain option) \<Rightarrow> node_id \<Rightarrow> bulk \<Rightarrow> bool" where
  "owns T i k \<longleftrightarrow> (\<exists>c. T i = Some c \<and> above_low_pair (GetLowKeyPair c) k \<and> below_high k (GetHighKeyPair c))"

lemma linked_node: "linked T low ids high \<Longrightarrow> i \<in> set ids \<Longrightarrow> \<exists>l h. node_at T i l h"
  by (induction T low ids high rule: linked.induct) auto

lemma linked_above:
  assumes "linked T low ids high" "i \<in> set ids" "node_at T i l h" "above_low_pair l k"
  shows "above_low_pair low k"
  using assms
proof (induction T low ids high rule: linked.induct)
  case (2 T low j high)
  then show ?case by (auto simp: node_at_def)
next
  case (3 T low a b ids high)
  obtain m where m: "node_at T a low (m, b)" "linked T (m, NOT INVALID_NODE_ID) (b # ids) high" using "3.prems"(1) by auto
  show ?case
  proof (cases "i = a")
    case True
    then show ?thesis using "3.prems"(3,4) m(1) by (auto simp: node_at_def)
  next
    case False
    then have "above_low_pair (m, NOT INVALID_NODE_ID) k" using "3.IH" [OF m(2)] "3.prems"(2-4) by simp
    then have "\<not> ds_bulk_less k m" by (simp add: above_low_pair_def INVALID_NODE_ID_def)
    moreover have "b \<noteq> INVALID_NODE_ID" using linked_node [OF m(2), of b] by (auto simp: node_at_def)
    ultimately show ?thesis
      using m(1) key_less_le_trans [of "fst low" m k] key_asym [of k "fst low"]
      by (auto simp: node_at_def above_low_pair_def below_high_def split: if_splits)
  qed
qed simp

lemma node_at_owns: "node_at T i l h \<Longrightarrow> owns T i k \<longleftrightarrow> above_low_pair l k \<and> below_high k h"
  by (auto simp: node_at_def owns_def)

lemma owner_unique:
  assumes "linked T low ids high" "i \<in> set ids" "j \<in> set ids" "owns T i k" "owns T j k"
  shows "i = j"
  using assms
proof (induction T low ids high rule: linked.induct)
  case (3 T low a b ids high)
  obtain m where m: "node_at T a low (m, b)" "linked T (m, NOT INVALID_NODE_ID) (b # ids) high" using "3.prems"(1) by auto
  have "b \<noteq> INVALID_NODE_ID" using linked_node [OF m(2), of b] by (auto simp: node_at_def)
  then have "ds_bulk_less k m" if "owns T a k" using that node_at_owns [OF m(1)] by (auto simp: below_high_def)
  moreover have "\<not> ds_bulk_less k m" if x: "x \<in> set (b # ids)" "owns T x k" for x
  proof -
    obtain l h where n: "node_at T x l h" using linked_node [OF m(2) x(1)] by blast
    then have "above_low_pair (m, NOT INVALID_NODE_ID) k" using linked_above [OF m(2) x(1) n] x(2) node_at_owns [OF n] by blast
    then show ?thesis by (simp add: above_low_pair_def INVALID_NODE_ID_def)
  qed
  ultimately show ?case using "3.prems" "3.IH" [OF m(2)] by (metis set_ConsD)
qed auto

lemma navigate:
  assumes "linked (mapping_table t) low ids high" "snd high = INVALID_NODE_ID" "i \<in> set ids" "starts_at t k i"
  shows "\<exists>j\<in>set ids. NavigateSiblingChain k t i = Some j \<and> owns (mapping_table t) j k"
  using assms
proof (induction "mapping_table t" low ids high arbitrary: i rule: linked.induct)
  case (2 low j high)
  then obtain c where "node_at (mapping_table t) j low high" "GetNode t j = Some c" "GetHighKeyPair c = high" "GetLowKeyPair c = low"
    by (auto simp: node_at_def GetNode_def)
  then show ?case
    using 2 by (subst NavigateSiblingChain.simps) (auto simp: node_at_owns below_high_def starts_at_def)
next
  case (3 low a b ids high)
  obtain m where m: "node_at (mapping_table t) a low (m, b)" "linked (mapping_table t) (m, NOT INVALID_NODE_ID) (b # ids) high"
    using "3.prems"(1) by auto
  show ?case
  proof (cases "i = a")
    case False
    then show ?thesis using "3.hyps" [OF m(2) "3.prems"(2) _ "3.prems"(4)] "3.prems"(3) by auto
  next
    case True
    obtain c where c: "GetNode t a = Some c" "GetHighKeyPair c = (m, b)" "GetLowKeyPair c = low" using m(1) by (auto simp: node_at_def GetNode_def)
    have "b \<noteq> INVALID_NODE_ID" using linked_node [OF m(2), of b] by (auto simp: node_at_def)
    show ?thesis
    proof (cases "ds_bulk_less k m")
      case less: True
      then have "NavigateSiblingChain k t i = Some a" using c True by (subst NavigateSiblingChain.simps) simp
      moreover have "owns (mapping_table t) a k"
        using m(1) less "3.prems"(4) c True by (auto simp: node_at_owns below_high_def starts_at_def)
      ultimately show ?thesis by auto
    next
      case False
      then have "NavigateSiblingChain k t i = NavigateSiblingChain k t b"
        using c True \<open>b \<noteq> INVALID_NODE_ID\<close> by (subst NavigateSiblingChain.simps) simp
      moreover have "starts_at t k b"
      proof -
        obtain c' where "GetNode t b = Some c'" "chain_ok c'" "GetLowKeyPair c' = (m, NOT INVALID_NODE_ID)"
          using m(2) by (cases ids) (auto simp: node_at_def GetNode_def)
        then show ?thesis using False by (cases c') (auto simp: starts_at_def above_low_pair_def)
      qed
      ultimately show ?thesis using "3.hyps" [OF m(2) "3.prems"(2), of b] by auto
    qed
  qed
qed simp


section \<open>Every operation keeps the list\<close>

lemma chain_ok_not_removed: "chain_ok c \<Longrightarrow> \<not> is_removed c"
  by (cases c) auto

lemma level_idsD:
  assumes "level_ids t ids"
  shows "i \<in> set ids \<Longrightarrow> \<exists>c. mapping_table t i = Some c \<and> GetNode t i = Some c \<and> i \<noteq> INVALID_NODE_ID \<and> i < MAPPING_TABLE_SIZE \<and> chain_ok c
      \<and> (\<forall>k\<in>chain_keys c. above_low_pair (GetLowKeyPair c) k)
      \<and> (snd (GetLowKeyPair c) \<noteq> INVALID_NODE_ID \<longrightarrow> below_high (fst (GetLowKeyPair c)) (GetHighKeyPair c))"
    and "mapping_table t i = Some c \<Longrightarrow> \<not> is_removed c \<Longrightarrow> i \<in> set ids"
    and "i \<in> set ids \<Longrightarrow> j \<in> set ids \<Longrightarrow> owns (mapping_table t) i k \<Longrightarrow> owns (mapping_table t) j k \<Longrightarrow> i = j"
    and "starts_at t k i \<Longrightarrow> \<exists>j\<in>set ids. NavigateSiblingChain k t i = Some j \<and> owns (mapping_table t) j k"
proof -
  obtain m where l: "linked (mapping_table t) ([], INVALID_NODE_ID) ids (m, INVALID_NODE_ID)" using assms by (auto simp: level_ids_def)
  show "i \<in> set ids \<Longrightarrow> \<exists>c. mapping_table t i = Some c \<and> GetNode t i = Some c \<and> i \<noteq> INVALID_NODE_ID \<and> i < MAPPING_TABLE_SIZE \<and> chain_ok c
      \<and> (\<forall>k\<in>chain_keys c. above_low_pair (GetLowKeyPair c) k)
      \<and> (snd (GetLowKeyPair c) \<noteq> INVALID_NODE_ID \<longrightarrow> below_high (fst (GetLowKeyPair c)) (GetHighKeyPair c))"
    using linked_node [OF l, of i] by (auto simp: node_at_def GetNode_def)
  show ids: "mapping_table t i = Some c \<Longrightarrow> \<not> is_removed c \<Longrightarrow> i \<in> set ids" for i c
    using assms by (auto simp: level_ids_def)
  show "i \<in> set ids \<Longrightarrow> j \<in> set ids \<Longrightarrow> owns (mapping_table t) i k \<Longrightarrow> owns (mapping_table t) j k \<Longrightarrow> i = j"
    by (rule owner_unique [OF l])
  show "starts_at t k i \<Longrightarrow> \<exists>j\<in>set ids. NavigateSiblingChain k t i = Some j \<and> owns (mapping_table t) j k"
    using navigate [OF l] ids [of i] by (auto simp: starts_at_def GetNode_def split: option.splits if_splits)
qed

text \<open>The pairs of a node are those of the leaves in its range.\<close>

lemma owned_items:
  assumes "level_ids t ids" "j \<in> set ids" "mapping_table t j = Some c"
  shows "chain_items c = {p \<in> level_items t. owns (mapping_table t) j (fst p)}"
proof -
  have own: "owns (mapping_table t) i (fst p)" if "mapping_table t i = Some d" "i \<in> set ids" "p \<in> chain_items d" for i d p
    using level_idsD(1) [OF assms(1) that(2)] that(1,3) chain_items_keys [OF that(3)] chain_items_below [of d p] by (auto simp: owns_def)
  have "\<not> is_removed c" using level_idsD(1) [OF assms(1,2)] assms(3) chain_ok_not_removed by auto
  show ?thesis
  proof (intro equalityI subsetI)
    fix p assume "p \<in> chain_items c"
    then show "p \<in> {p \<in> level_items t. owns (mapping_table t) j (fst p)}"
      using own [OF assms(3,2)] assms(3) \<open>\<not> is_removed c\<close> by (auto simp: level_items_def)
  next
    fix p assume "p \<in> {p \<in> level_items t. owns (mapping_table t) j (fst p)}"
    then obtain i d where i: "mapping_table t i = Some d" "\<not> is_removed d" "p \<in> chain_items d" "owns (mapping_table t) j (fst p)"
      by (auto simp: level_items_def)
    have "i \<in> set ids" using level_idsD(2) [OF assms(1) i(1,2)] .
    then have "i = j" using level_idsD(3) [OF assms(1) _ assms(2) own [OF i(1) _ i(3)] i(4)] by blast
    then show "p \<in> chain_items c" using i assms(3) by simp
  qed
qed

lemma level_ids_put:
  assumes "level_ids t ids" "j \<in> set ids" "mapping_table t j = Some c" "chain_ok c'"
    and "GetLowKeyPair c' = GetLowKeyPair c" "GetHighKeyPair c' = GetHighKeyPair c" "\<forall>k\<in>chain_keys c'. above_low_pair (GetLowKeyPair c) k"
  shows "\<exists>t'. InstallNodeToReplace j c' t = Some t' \<and> level_ids t' ids
    \<and> level_items t' = chain_items c' \<union> {p \<in> level_items t. \<not> owns (mapping_table t) j (fst p)}"
proof -
  let ?t = "t\<lparr>mapping_table := (mapping_table t)(j \<mapsto> c')\<rparr>"
  have j: "j \<noteq> INVALID_NODE_ID" "j < MAPPING_TABLE_SIZE" "\<not> is_removed c" using level_idsD(1) [OF assms(1,2)] assms(3) chain_ok_not_removed by auto
  obtain m where l: "linked (mapping_table t) ([], INVALID_NODE_ID) ids (m, INVALID_NODE_ID)" using assms(1) by (auto simp: level_ids_def)
  obtain xs ys where ids: "ids = xs @ [j] @ ys" "j \<notin> set xs \<union> set ys"
    using split_list [OF assms(2)] assms(1) by (auto simp: level_ids_def)
  have "linked (mapping_table ?t) ([], INVALID_NODE_ID) (xs @ [j] @ ys) (m, INVALID_NODE_ID)"
  proof (rule linked_replace [where ms = "[j]" and T = "mapping_table t"])
    show "linked (mapping_table ?t) lo [j] h" if "linked (mapping_table t) lo [j] h" for lo h
      using that assms(3-7) by (simp add: node_at_def)
  qed (use l ids in auto)
  then have "level_ids ?t ids" using assms(1-3) by (auto simp: level_ids_def ids(1))
  moreover have "level_items ?t = chain_items c' \<union> {p \<in> level_items t. \<not> owns (mapping_table t) j (fst p)}"
  proof -
    have "level_items ?t = chain_items c' \<union> {p. \<exists>i d. i \<noteq> j \<and> mapping_table t i = Some d \<and> \<not> is_removed d \<and> p \<in> chain_items d}"
      using chain_ok_not_removed [OF assms(4)] by (auto simp: level_items_def)
    also have "{p. \<exists>i d. i \<noteq> j \<and> mapping_table t i = Some d \<and> \<not> is_removed d \<and> p \<in> chain_items d}
        = {p \<in> level_items t. \<not> owns (mapping_table t) j (fst p)}"
    proof (intro equalityI subsetI)
      fix p assume "p \<in> {p. \<exists>i d. i \<noteq> j \<and> mapping_table t i = Some d \<and> \<not> is_removed d \<and> p \<in> chain_items d}"
      then obtain i d where i: "i \<noteq> j" "mapping_table t i = Some d" "\<not> is_removed d" "p \<in> chain_items d" by blast
      have "i \<in> set ids" using level_idsD(2) [OF assms(1) i(2,3)] .
      then have "owns (mapping_table t) i (fst p)" using owned_items [OF assms(1) _ i(2)] i(4) by blast
      then show "p \<in> {p \<in> level_items t. \<not> owns (mapping_table t) j (fst p)}"
        using i level_idsD(3) [OF assms(1) \<open>i \<in> set ids\<close> assms(2)] by (auto simp: level_items_def)
    next
      fix p assume p: "p \<in> {p \<in> level_items t. \<not> owns (mapping_table t) j (fst p)}"
      then obtain i d where i: "mapping_table t i = Some d" "\<not> is_removed d" "p \<in> chain_items d" by (auto simp: level_items_def)
      have "i \<noteq> j"
      proof
        assume "i = j"
        then have "p \<in> chain_items c" using i assms(3) by simp
        then show False using p unfolding owned_items [OF assms(1-3)] by simp
      qed
      then show "p \<in> {p. \<exists>i d. i \<noteq> j \<and> mapping_table t i = Some d \<and> \<not> is_removed d \<and> p \<in> chain_items d}"
        using i by blast
    qed
    finally show ?thesis .
  qed
  ultimately show ?thesis using j by (simp add: InstallNodeToReplace_def)
qed


lemma leaf_Insert_frame: "leaf_Insert k v c = Some (c', r) \<Longrightarrow> GetLowKeyPair c' = GetLowKeyPair c \<and> chain_keys c' \<subseteq> insert k (chain_keys c)"
  by (auto simp: leaf_Insert_def split: option.splits)

lemma leaf_Delete_frame: "leaf_Delete k v c = Some (c', r) \<Longrightarrow> GetLowKeyPair c' = GetLowKeyPair c \<and> chain_keys c' \<subseteq> insert k (chain_keys c)"
  by (auto simp: leaf_Delete_def split: option.splits)

lemma leaf_unchanged:
  "leaf_Insert k v c = Some (c', False) \<Longrightarrow> c' = c" "leaf_Delete k v c = Some (c', False) \<Longrightarrow> c' = c"
  by (auto simp: leaf_Insert_def leaf_Delete_def split: option.splits)

text \<open>The leaf that owns the key, at the end of the walk to the right.\<close>

lemma owner_obtain:
  assumes "level_ids t ids" "starts_at t k start"
  obtains j c where "NavigateSiblingChain k t start = Some j" "j \<in> set ids" "GetNode t j = Some c" "mapping_table t j = Some c"
    "chain_ok c" "below_high k (GetHighKeyPair c)" "above_low_pair (GetLowKeyPair c) k" "\<forall>k\<in>chain_keys c. above_low_pair (GetLowKeyPair c) k"
    "chain_items c = {p \<in> level_items t. owns (mapping_table t) j (fst p)}" "owns (mapping_table t) j k"
proof -
  obtain j where j: "j \<in> set ids" "NavigateSiblingChain k t start = Some j" "owns (mapping_table t) j k"
    using level_idsD(4) [OF assms] by blast
  obtain c where "mapping_table t j = Some c" "GetNode t j = Some c" "chain_ok c" "\<forall>k\<in>chain_keys c. above_low_pair (GetLowKeyPair c) k"
    using level_idsD(1) [OF assms(1) j(1)] by blast
  then show ?thesis using that [of j c] j owned_items [OF assms(1) j(1)] by (auto simp: owns_def)
qed

lemma level_Insert_law:
  assumes "level_ids t ids" "starts_at t k start"
  shows "\<exists>t'. level_Insert k v start t = Some (t', (k, v) \<notin> level_items t) \<and> level_ids t' ids \<and> level_items t' = insert (k, v) (level_items t)"
  using assms
proof (rule owner_obtain)
  fix j c
  assume nav: "NavigateSiblingChain k t start = Some j" and j: "j \<in> set ids" "GetNode t j = Some c" "mapping_table t j = Some c"
    and c: "chain_ok c" "below_high k (GetHighKeyPair c)" "above_low_pair (GetLowKeyPair c) k" "\<forall>k\<in>chain_keys c. above_low_pair (GetLowKeyPair c) k"
    and items: "chain_items c = {p \<in> level_items t. owns (mapping_table t) j (fst p)}" and own: "owns (mapping_table t) j k"
  have in_c: "(k, v) \<in> chain_items c \<longleftrightarrow> (k, v) \<in> level_items t" using items own by simp
  obtain c' where c': "leaf_Insert k v c = Some (c', (k, v) \<notin> chain_items c)" "chain_ok c'" "chain_items c' = insert (k, v) (chain_items c)"
    "GetHighKeyPair c' = GetHighKeyPair c"
    using leaf_Insert_law [OF c(1,2)] by blast
  have "\<forall>k\<in>chain_keys c'. above_low_pair (GetLowKeyPair c) k" using leaf_Insert_frame [OF c'(1)] c(3,4) by auto
  then obtain t' where t': "InstallNodeToReplace j c' t = Some t'" "level_ids t' ids"
    "level_items t' = chain_items c' \<union> {p \<in> level_items t. \<not> owns (mapping_table t) j (fst p)}"
    using level_ids_put [OF assms(1) j(1,3) c'(2) _ c'(4)] leaf_Insert_frame [OF c'(1)] by blast
  show ?thesis
  proof (cases "(k, v) \<in> level_items t")
    case True
    then show ?thesis using nav j(2) c'(1) in_c assms(1) by (auto simp: level_Insert_def insert_absorb)
  next
    case False
    moreover have "level_items t' = insert (k, v) (level_items t)" unfolding t'(3) c'(3) items by auto
    ultimately show ?thesis using nav j(2) c'(1) in_c t'(1,2) by (simp add: level_Insert_def)
  qed
qed

lemma level_Delete_law:
  assumes "level_ids t ids" "starts_at t k start"
  shows "\<exists>t'. level_Delete k v start t = Some (t', (k, v) \<in> level_items t) \<and> level_ids t' ids \<and> level_items t' = level_items t - {(k, v)}"
  using assms
proof (rule owner_obtain)
  fix j c
  assume nav: "NavigateSiblingChain k t start = Some j" and j: "j \<in> set ids" "GetNode t j = Some c" "mapping_table t j = Some c"
    and c: "chain_ok c" "below_high k (GetHighKeyPair c)" "above_low_pair (GetLowKeyPair c) k" "\<forall>k\<in>chain_keys c. above_low_pair (GetLowKeyPair c) k"
    and items: "chain_items c = {p \<in> level_items t. owns (mapping_table t) j (fst p)}" and own: "owns (mapping_table t) j k"
  have in_c: "(k, v) \<in> chain_items c \<longleftrightarrow> (k, v) \<in> level_items t" using items own by simp
  obtain c' where c': "leaf_Delete k v c = Some (c', (k, v) \<in> chain_items c)" "chain_ok c'" "chain_items c' = chain_items c - {(k, v)}"
    "GetHighKeyPair c' = GetHighKeyPair c"
    using leaf_Delete_law [OF c(1,2)] by blast
  have "\<forall>k\<in>chain_keys c'. above_low_pair (GetLowKeyPair c) k" using leaf_Delete_frame [OF c'(1)] c(3,4) by auto
  then obtain t' where t': "InstallNodeToReplace j c' t = Some t'" "level_ids t' ids"
    "level_items t' = chain_items c' \<union> {p \<in> level_items t. \<not> owns (mapping_table t) j (fst p)}"
    using level_ids_put [OF assms(1) j(1,3) c'(2) _ c'(4)] leaf_Delete_frame [OF c'(1)] by blast
  show ?thesis
  proof (cases "(k, v) \<in> level_items t")
    case False
    then show ?thesis using nav j(2) c'(1) in_c assms(1) by (auto simp: level_Delete_def)
  next
    case True
    moreover have "level_items t' = level_items t - {(k, v)}" unfolding t'(3) c'(3) items using own by auto
    ultimately show ?thesis using nav j(2) c'(1) in_c t'(1,2) by (simp add: level_Delete_def)
  qed
qed

lemma ConsolidateLeafNode_law:
  assumes "level_ids t ids" "i \<in> set ids"
  shows "\<exists>t'. ConsolidateLeafNode hash i t = Some t' \<and> level_ids t' ids \<and> level_items t' = level_items t"
proof -
  obtain c where c: "mapping_table t i = Some c" "GetNode t i = Some c" "chain_ok c" "\<forall>k\<in>chain_keys c. above_low_pair (GetLowKeyPair c) k"
    using level_idsD(1) [OF assms] by blast
  obtain d where d: "CollectAllValuesOnLeaf hash c = Some (LeafNode (GetLowKeyPair c) (GetHighKeyPair c) d)"
    "chain_ok (LeafNode (GetLowKeyPair c) (GetHighKeyPair c) d)" "set d = chain_items c"
    using consolidation_law [OF c(3), of hash] by blast
  have "\<forall>k\<in>chain_keys (LeafNode (GetLowKeyPair c) (GetHighKeyPair c) d). above_low_pair (GetLowKeyPair c) k"
    using c(4) chain_items_keys [of _ c] by (auto simp: d(3))
  then obtain t' where t': "InstallNodeToReplace i (LeafNode (GetLowKeyPair c) (GetHighKeyPair c) d) t = Some t'" "level_ids t' ids"
    "level_items t' = set d \<union> {p \<in> level_items t. \<not> owns (mapping_table t) i (fst p)}"
    using level_ids_put [OF assms c(1) d(2)] d(2) by auto
  have "level_items t' = level_items t" using t'(3) d(3) owned_items [OF assms c(1)] by blast
  then show ?thesis using c(2) d(1) t'(1,2) by (simp add: ConsolidateLeafNode_def)
qed


lemma next_id:
  assumes "(n :: node_id) < MAPPING_TABLE_SIZE"
  shows "n < n + 1" "n + 1 \<le> MAPPING_TABLE_SIZE"
proof -
  have "1 + n \<noteq> 0" using assms by (metis MAPPING_TABLE_SIZE_def add_eq_0_iff add.commute word_n1_ge not_less)
  then show "n < n + 1" using unatSuc [of n] by (simp add: word_less_nat_alt add.commute)
  show "n + 1 \<le> MAPPING_TABLE_SIZE" using assms by (rule inc_le)
qed

lemma AdjustLeafSize_some:
  "chain_ok c \<Longrightarrow> AdjustLeafSize leftmost i n c = Some AdjustKeep \<or> (\<exists>c' s. AdjustLeafSize leftmost i n c = Some (AdjustSplit c' s))
     \<or> AdjustLeafSize leftmost i n c = Some (AdjustRemove (LeafRemoveNode i c)) \<and> \<not> leftmost \<and> \<not> IsDeltaNode c"
proof (cases c)
  case (LeafNode low high d)
  show ?thesis
  proof (cases "length d \<ge> 128")
    case True
    obtain j where "FindSplitPoint d = Some j" "if j = - 1 then \<forall>c. key_cut d c \<longrightarrow> c \<le> 32 \<or> length d - c \<le> 32
        else key_cut d (nat j) \<and> 32 < nat j \<and> 32 < length d - nat j"
      using split_point_exact [OF True] by blast
    then show ?thesis
      using True LeafNode by (auto simp: AdjustLeafSize_def GetSplitSibling_def Let_def LEAF_NODE_SIZE_UPPER_THRESHOLD_def split: if_splits)
  qed (auto simp: LeafNode AdjustLeafSize_def LEAF_NODE_SIZE_UPPER_THRESHOLD_def IsDeltaNode_def)
qed (auto simp: AdjustLeafSize_def)

lemma split_linked:
  assumes "linked T l [i] h" "T i = Some c" "AdjustLeafSize leftmost i n c = Some (AdjustSplit c' s)"
    and "n \<noteq> INVALID_NODE_ID" "n < MAPPING_TABLE_SIZE" "n \<noteq> i"
  shows "linked (T(n \<mapsto> s, i \<mapsto> c')) l [i, n] h"
proof -
  have c: "chain_ok c" "GetLowKeyPair c = l" "GetHighKeyPair c = h" "\<forall>k\<in>chain_keys c. above_low_pair l k" "i \<noteq> INVALID_NODE_ID" "i < MAPPING_TABLE_SIZE"
    using assms(1,2) by (auto simp: node_at_def)
  define m where "m = fst (GetHighKeyPair c')"
  have k: "chain_ok c'" "chain_ok s" "chain_keys c' = chain_keys c" "GetLowKeyPair c' = l" "GetHighKeyPair s = h" "GetHighKeyPair c' = (m, n)"
      "GetLowKeyPair s = (m, NOT INVALID_NODE_ID)" "\<forall>k\<in>chain_keys s. \<not> ds_bulk_less k m" "below_high m h"
      "\<exists>p\<in>chain_items c. ds_bulk_less (fst p) m"
    using split_keeps [OF c(1) assms(3,4)] c(2,3) by (auto simp: m_def prod_eq_iff)
  have "below_high (fst l) (m, n)" if "snd l \<noteq> INVALID_NODE_ID"
  proof -
    obtain p where "p \<in> chain_items c" "ds_bulk_less (fst p) m" using k(10) by blast
    then show ?thesis using that c(4) chain_items_keys [of p c] key_le_less_trans [of "fst p" "fst l" m]
      by (auto simp: above_low_pair_def below_high_def)
  qed
  then show ?thesis
    using assms(4-6) c k by (auto simp: node_at_def above_low_pair_def)
qed

definition node_items :: "leaf_chain option \<Rightarrow> key_value set" where
  "node_items c = (case c of None \<Rightarrow> {} | Some c \<Rightarrow> if is_removed c then {} else chain_items c)"

lemma level_items_two:
  assumes "node_items (mapping_table t' i) \<union> node_items (mapping_table t' j) = node_items (mapping_table t i) \<union> node_items (mapping_table t j)"
    and "\<And>x. x \<noteq> i \<Longrightarrow> x \<noteq> j \<Longrightarrow> mapping_table t' x = mapping_table t x"
  shows "level_items t' = level_items t"
proof -
  have split: "level_items u = node_items (mapping_table u i) \<union> node_items (mapping_table u j) \<union> (\<Union>x\<in>- {i, j}. node_items (mapping_table u x))" for u
  proof -
    have "p \<in> node_items x \<longleftrightarrow> (\<exists>c. x = Some c \<and> \<not> is_removed c \<and> p \<in> chain_items c)" for p x
      by (cases x) (auto simp: node_items_def)
    then have "level_items u = (\<Union>x. node_items (mapping_table u x))" unfolding level_items_def by blast
    then show ?thesis by auto
  qed
  have "(\<Union>x\<in>- {i, j}. node_items (mapping_table t' x)) = (\<Union>x\<in>- {i, j}. node_items (mapping_table t x))"
    using assms(2) by simp
  then show ?thesis using assms(1) split [of t] split [of t'] by simp
qed

lemma split_leaf_law:
  assumes "level_ids t ids" "i \<in> set ids" "next_unused_node_id t < MAPPING_TABLE_SIZE"
  shows "\<exists>t' ids'. split_leaf i t = Some t' \<and> level_ids t' ids' \<and> level_items t' = level_items t"
proof -
  let ?n = "next_unused_node_id t"
  obtain c where c: "mapping_table t i = Some c" "GetNode t i = Some c" "chain_ok c" "i \<noteq> INVALID_NODE_ID" "i < MAPPING_TABLE_SIZE"
    using level_idsD(1) [OF assms(1,2)] by blast
  have n: "?n \<noteq> INVALID_NODE_ID" "mapping_table t ?n = None" "?n \<noteq> i"
    using assms(1) c(1) by (auto simp: level_ids_def INVALID_NODE_ID_def)
  then have "?n \<notin> set ids" using level_idsD(1) [OF assms(1), of ?n] by auto
  consider "AdjustLeafSize True i ?n c = Some AdjustKeep" | c' s where "AdjustLeafSize True i ?n c = Some (AdjustSplit c' s)"
    using AdjustLeafSize_some [OF c(3)] by blast
  then show ?thesis
  proof cases
    case 1
    then have "split_leaf i t = Some t" using c(2) by (simp add: split_leaf_def GetNextNodeID_def)
    then show ?thesis using assms(1) by blast
  next
    case 2
    let ?T = "(mapping_table t)(?n \<mapsto> s, i \<mapsto> c')"
    let ?t = "t\<lparr>mapping_table := ?T, next_unused_node_id := ?n + 1\<rparr>"
    have split: "split_leaf i t = Some ?t"
      using 2 c assms(3) by (simp add: split_leaf_def GetNextNodeID_def InstallNewNode_def InstallNodeToReplace_def)
    obtain xs ys where ids: "ids = xs @ [i] @ ys" "i \<notin> set xs \<union> set ys"
      using split_list [OF assms(2)] assms(1) by (auto simp: level_ids_def)
    obtain m where l: "linked (mapping_table t) ([], INVALID_NODE_ID) ids (m, INVALID_NODE_ID)" using assms(1) by (auto simp: level_ids_def)
    have "linked ?T ([], INVALID_NODE_ID) (xs @ [i, ?n] @ ys) (m, INVALID_NODE_ID)"
    proof (rule linked_replace [where ms = "[i]" and T = "mapping_table t"])
      show "linked ?T lo [i, ?n] h" if "linked (mapping_table t) lo [i] h" for lo h
        using split_linked [OF that c(1) 2 n(1) assms(3) n(3)] .
    qed (use l ids \<open>?n \<notin> set ids\<close> in auto)
    then have "level_ids ?t (xs @ [i, ?n] @ ys)"
      using assms(1) ids \<open>?n \<notin> set ids\<close> next_id [OF assms(3)] c(1)
      by (auto simp: level_ids_def hd_append intro: less_trans split: if_splits)
    moreover have "level_items ?t = level_items t"
      using split_keeps [OF c(3) 2 n(1)] chain_ok_not_removed n c
      by (intro level_items_two [where i = ?n and j = i]) (auto simp: node_items_def)
    ultimately show ?thesis using split by blast
  qed
qed


lemma merge_linked:
  assumes "linked T l [i, r] h" "T i = Some c" "T r = Some d" "i \<noteq> r"
  shows "linked (T(r \<mapsto> LeafRemoveNode r d, i \<mapsto> LeafMergeNode (fst (GetHighKeyPair c), r) d c)) l [i] h"
proof -
  obtain m where m: "node_at T i l (m, r)" "node_at T r (m, NOT INVALID_NODE_ID) h" using assms(1) by auto
  have c: "chain_ok c" "GetLowKeyPair c = l" "GetHighKeyPair c = (m, r)" "\<forall>k\<in>chain_keys c. above_low_pair l k" "i \<noteq> INVALID_NODE_ID" "i < MAPPING_TABLE_SIZE"
    "snd l \<noteq> INVALID_NODE_ID \<longrightarrow> below_high (fst l) (m, r)"
    using m(1) assms(2) by (auto simp: node_at_def)
  have d: "chain_ok d" "GetHighKeyPair d = h" "\<forall>k\<in>chain_keys d. \<not> ds_bulk_less k m" "r \<noteq> INVALID_NODE_ID" "below_high m h"
    using m(2) assms(3) by (auto simp: node_at_def above_low_pair_def INVALID_NODE_ID_def)
  have low: "above_low_pair l k" if "\<not> ds_bulk_less k m" for k
    using that c(7) d(4) key_less_le_trans [of "fst l" m k] key_asym [of k "fst l"] by (auto simp: above_low_pair_def below_high_def)
  have "snd l \<noteq> INVALID_NODE_ID \<longrightarrow> below_high (fst l) h"
    using c(7) d(4,5) below_high_less [of m h "fst l"] by (auto simp: below_high_def)
  then show ?thesis
    using c d low key_irrefl [of m] by (auto simp: node_at_def)
qed

lemma merge_right_law:
  assumes "level_ids t ids" "i \<in> set ids" "GetNode t i = Some c" "snd (GetHighKeyPair c) \<noteq> INVALID_NODE_ID"
  shows "\<exists>t' ids'. merge_right i t = Some t' \<and> level_ids t' ids' \<and> level_items t' = level_items t"
proof -
  let ?r = "snd (GetHighKeyPair c)"
  obtain xs ys where ids: "ids = xs @ i # ys" "i \<notin> set xs \<union> set ys" "distinct (xs @ i # ys)"
    using split_list [OF assms(2)] assms(1) by (auto simp: level_ids_def)
  obtain m where l: "linked (mapping_table t) ([], INVALID_NODE_ID) (xs @ i # ys) (m, INVALID_NODE_ID)"
    using assms(1) ids by (auto simp: level_ids_def)
  have c: "mapping_table t i = Some c" "chain_ok c" "i \<noteq> INVALID_NODE_ID" "i < MAPPING_TABLE_SIZE" using level_idsD(1) [OF assms(1,2)] assms(3) by auto
  have tail: "\<exists>lo. linked (mapping_table t) lo (i # ys) (m, INVALID_NODE_ID)"
    using l linked_append [of xs "i # ys"] by (cases "xs = []") auto
  then obtain zs where ys: "ys = ?r # zs"
    using assms(4) c(1) by (cases ys) (auto simp: node_at_def)
  have r: "?r \<in> set ids" "?r \<noteq> i" using ids ys by auto
  obtain d where d: "mapping_table t ?r = Some d" "GetNode t ?r = Some d" "chain_ok d" "?r < MAPPING_TABLE_SIZE"
    using level_idsD(1) [OF assms(1) r(1)] by blast
  have "AdjustLeafSize False ?r INVALID_NODE_ID d = Some (AdjustRemove (LeafRemoveNode ?r d))
      \<or> (\<exists>a. AdjustLeafSize False ?r INVALID_NODE_ID d = Some a \<and> (\<forall>x. a \<noteq> AdjustRemove x))"
    using AdjustLeafSize_some [OF d(3), of False ?r INVALID_NODE_ID] by auto
  then show ?thesis
  proof (elim disjE exE conjE)
    fix a assume "AdjustLeafSize False ?r INVALID_NODE_ID d = Some a" "\<forall>x. a \<noteq> AdjustRemove x"
    then have "merge_right i t = Some t" using assms(3) d(2) by (cases a) (auto simp: merge_right_def Let_def)
    then show ?thesis using assms(1) by blast
  next
    assume a: "AdjustLeafSize False ?r INVALID_NODE_ID d = Some (AdjustRemove (LeafRemoveNode ?r d))"
    let ?c = "LeafMergeNode (fst (GetHighKeyPair c), ?r) d c"
    let ?T = "(mapping_table t)(?r \<mapsto> LeafRemoveNode ?r d, i \<mapsto> ?c)"
    let ?t = "t\<lparr>mapping_table := ?T\<rparr>"
    have merge: "merge_right i t = Some ?t"
      using a assms(3,4) c d by (simp add: merge_right_def InstallNodeToReplace_def Let_def)
    have "linked ?T ([], INVALID_NODE_ID) (xs @ [i] @ zs) (m, INVALID_NODE_ID)"
    proof (rule linked_replace [where ms = "[i, ?r]" and T = "mapping_table t"])
      show "linked ?T lo [i] h" if "linked (mapping_table t) lo [i, ?r] h" for lo h
        using merge_linked [OF that c(1) d(1)] r(2) by simp
    qed (use l ids ys in auto)
    then have "level_ids ?t (xs @ [i] @ zs)"
      using assms(1) ids ys c(1) d(1) by (auto simp: level_ids_def hd_append split: if_splits)
    moreover have "level_items ?t = level_items t"
      using chain_ok_not_removed c(1,2) d(1,3) r(2)
      by (intro level_items_two [where i = ?r and j = i]) (auto simp: node_items_def)
    ultimately show ?thesis using merge by blast
  qed
qed

section \<open>The leaves refine a set of pairs\<close>

text \<open>What a client of the index asks and gets, and what the tree does on its own.\<close>

datatype leaf_event =
    EvInsert bulk bulk bool
  | EvDelete bulk bulk bool
  | EvGetValue bulk "bulk list"
  | EvInternal

inductive leaf_step :: "(bulk \<Rightarrow> 64 word) \<Rightarrow> leaf_level \<Rightarrow> leaf_event \<Rightarrow> leaf_level \<Rightarrow> bool" for hash where
  insert: "starts_at t k start \<Longrightarrow> level_Insert k v start t = Some (t', r) \<Longrightarrow> leaf_step hash t (EvInsert k v r) t'"
| delete: "starts_at t k start \<Longrightarrow> level_Delete k v start t = Some (t', r) \<Longrightarrow> leaf_step hash t (EvDelete k v r) t'"
| get_value: "starts_at t k start \<Longrightarrow> level_GetValue hash k start t = Some vs \<Longrightarrow> leaf_step hash t (EvGetValue k vs) t"
| consolidate: "GetNode t i = Some c \<Longrightarrow> \<not> is_removed c \<Longrightarrow> ConsolidateLeafNode hash i t = Some t' \<Longrightarrow> leaf_step hash t EvInternal t'"
| split: "GetNode t i = Some c \<Longrightarrow> \<not> is_removed c \<Longrightarrow> split_leaf i t = Some t' \<Longrightarrow> leaf_step hash t EvInternal t'"
| merge: "GetNode t i = Some c \<Longrightarrow> \<not> is_removed c \<Longrightarrow> snd (GetHighKeyPair c) \<noteq> INVALID_NODE_ID \<Longrightarrow> merge_right i t = Some t' \<Longrightarrow>
    leaf_step hash t EvInternal t'"

inductive_cases leaf_stepE: "leaf_step hash t e t'"

text \<open>The set of pairs after an event.\<close>

fun after_event :: "leaf_event \<Rightarrow> key_value set \<Rightarrow> key_value set" where
  "after_event (EvInsert k v r) S = insert (k, v) S"
| "after_event (EvDelete k v r) S = S - {(k, v)}"
| "after_event e S = S"

inductive leaf_reachable :: "(bulk \<Rightarrow> 64 word) \<Rightarrow> leaf_level \<Rightarrow> key_value set \<Rightarrow> bool" for hash where
  start: "InitNodeLayout = Some t \<Longrightarrow> leaf_reachable hash t {}"
| step: "leaf_reachable hash t S \<Longrightarrow> leaf_step hash t e t' \<Longrightarrow> leaf_reachable hash t' (after_event e S)"

lemma init_level_ids:
  assumes "InitNodeLayout = Some t"
  shows "level_ids t [FIRST_LEAF_NODE_ID]" "level_items t = {}"
proof -
  have t: "t = \<lparr>mapping_table = [2 \<mapsto> LeafNode ([], 0) ([], 0) []], next_unused_node_id = 3\<rparr>"
    using assms by (simp add: InitNodeLayout_def GetNextNodeID_def InstallNewNode_def MAPPING_TABLE_SIZE_def FIRST_LEAF_NODE_ID_def INVALID_NODE_ID_def)
  show "level_ids t [FIRST_LEAF_NODE_ID]"
    by (auto simp: t level_ids_def node_at_def MAPPING_TABLE_SIZE_def FIRST_LEAF_NODE_ID_def INVALID_NODE_ID_def)
  show "level_items t = {}" by (auto simp: t level_items_def)
qed

lemma GetNode_mapping: "GetNode t i = Some c \<Longrightarrow> mapping_table t i = Some c"
  by (simp add: GetNode_def split: if_splits)

lemma split_leaf_room: "split_leaf i t = Some t' \<Longrightarrow> t' = t \<or> next_unused_node_id t < MAPPING_TABLE_SIZE"
  by (auto simp: split_leaf_def GetNextNodeID_def InstallNewNode_def split: bind_splits adjusted.splits if_splits)

lemma leaf_step_keeps:
  assumes "leaf_step hash t e t'" "level_ids t ids"
  shows "\<exists>ids'. level_ids t' ids' \<and> level_items t' = after_event e (level_items t)"
  using assms(1)
proof cases
  case (insert k start v r)
  then show ?thesis using level_Insert_law [OF assms(2) insert(2), of v] assms(2) by auto
next
  case (delete k start v r)
  then show ?thesis using level_Delete_law [OF assms(2) delete(2), of v] assms(2) by auto
next
  case (consolidate i c)
  then show ?thesis using ConsolidateLeafNode_law [OF assms(2), of i hash] level_idsD(2) [OF assms(2) GetNode_mapping] by auto
next
  case (split i c)
  then have "i \<in> set ids" using level_idsD(2) [OF assms(2) GetNode_mapping] by blast
  then show ?thesis using split split_leaf_law [OF assms(2), of i] split_leaf_room [OF split(4)] assms(2) by auto
next
  case (merge i c)
  then have "i \<in> set ids" using level_idsD(2) [OF assms(2) GetNode_mapping] by blast
  then show ?thesis using merge merge_right_law [OF assms(2) _ merge(2,4)] by auto
qed (use assms(2) in auto)

lemma leaf_reachable_inv: "leaf_reachable hash t S \<Longrightarrow> (\<exists>ids. level_ids t ids) \<and> level_items t = S"
proof (induction rule: leaf_reachable.induct)
  case (start t)
  then show ?case using init_level_ids by blast
next
  case (step t S e t')
  then show ?case using leaf_step_keeps by fastforce
qed

lemma level_GetValue_law:
  assumes "level_ids t ids" "starts_at t k start" "\<forall>i c. GetNode t i = Some c \<longrightarrow> is_removed c \<or> merge_free c"
  shows "\<exists>vs. level_GetValue hash k start t = Some vs \<and> distinct vs \<and> set vs = {v. (k, v) \<in> level_items t}"
  using assms(1,2)
proof (rule owner_obtain)
  fix j c
  assume j: "NavigateSiblingChain k t start = Some j" "GetNode t j = Some c" "chain_ok c" "below_high k (GetHighKeyPair c)"
    "chain_items c = {p \<in> level_items t. owns (mapping_table t) j (fst p)}" "owns (mapping_table t) j k"
  have "merge_free c" using assms(3) j(2) chain_ok_not_removed [OF j(3)] by blast
  then obtain vs where "NavigateLeafNode_values hash k c = Some vs" "distinct vs" "set vs = {v. (k, v) \<in> chain_items c}"
    using leaf_values_law [OF j(3) _ j(4)] by blast
  then show ?thesis using j by (simp add: level_GetValue_def)
qed



end
