(* ===== verification/Bwtree_Inner.thy ===== *)
theory Bwtree_Inner
  imports Bwtree_Leaf_Laws
begin

text \<open>
  Delta chains of inner nodes of the BwTree, of BwTree/src/bwtree.h: the search for the child that a key belongs to, and for a
  separator. Locations are indices into the base node of the branch.
\<close>

section \<open>Inner nodes and their search\<close>

datatype inner_chain =
    InnerNode key_node_id key_node_id "key_node_id list"
  | InnerInsertNode key_node_id key_node_id nat inner_chain
  | InnerDeleteNode key_node_id key_node_id key_node_id nat inner_chain
  | InnerSplitNode key_node_id inner_chain nat
  | InnerMergeNode key_node_id inner_chain inner_chain
  | InnerRemoveNode node_id inner_chain
  | InnerAbortNode inner_chain

fun inner_low :: "inner_chain \<Rightarrow> key_node_id" where
  "inner_low (InnerNode low high d) = low"
| "inner_low (InnerInsertNode item next_item loc child) = inner_low child"
| "inner_low (InnerDeleteNode item prev_item next_item loc child) = inner_low child"
| "inner_low (InnerSplitNode insert_item child n) = inner_low child"
| "inner_low (InnerMergeNode delete_item right_merge child) = inner_low child"
| "inner_low (InnerRemoveNode i child) = inner_low child"
| "inner_low (InnerAbortNode child) = inner_low child"

fun inner_high :: "inner_chain \<Rightarrow> key_node_id" where
  "inner_high (InnerNode low high d) = high"
| "inner_high (InnerInsertNode item next_item loc child) = inner_high child"
| "inner_high (InnerDeleteNode item prev_item next_item loc child) = inner_high child"
| "inner_high (InnerSplitNode insert_item child n) = insert_item"
| "inner_high (InnerMergeNode delete_item right_merge child) = inner_high right_merge"
| "inner_high (InnerRemoveNode i child) = inner_high child"
| "inner_high (InnerAbortNode child) = inner_high child"

fun inner_depth :: "inner_chain \<Rightarrow> nat" where
  "inner_depth (InnerNode low high d) = 0"
| "inner_depth (InnerInsertNode item next_item loc child) = inner_depth child + 1"
| "inner_depth (InnerDeleteNode item prev_item next_item loc child) = inner_depth child + 1"
| "inner_depth (InnerSplitNode insert_item child n) = inner_depth child"
| "inner_depth (InnerMergeNode delete_item right_merge child) = inner_depth child + inner_depth right_merge"
| "inner_depth (InnerRemoveNode i child) = inner_depth child"
| "inner_depth (InnerAbortNode child) = inner_depth child"

fun inner_count :: "inner_chain \<Rightarrow> int" where
  "inner_count (InnerNode low high d) = int (length d)"
| "inner_count (InnerInsertNode item next_item loc child) = inner_count child + 1"
| "inner_count (InnerDeleteNode item prev_item next_item loc child) = inner_count child - 1"
| "inner_count (InnerSplitNode insert_item child n) = inner_count child - int n"
| "inner_count (InnerMergeNode delete_item right_merge child) = inner_count child + inner_count right_merge"
| "inner_count (InnerRemoveNode i child) = inner_count child"
| "inner_count (InnerAbortNode child) = inner_count child"

text \<open>\<open>GetNodeHeader\<close> of the low key: the base node of the leftmost branch.\<close>

fun inner_base :: "inner_chain \<Rightarrow> key_node_id list" where
  "inner_base (InnerNode low high d) = d"
| "inner_base (InnerInsertNode item next_item loc child) = inner_base child"
| "inner_base (InnerDeleteNode item prev_item next_item loc child) = inner_base child"
| "inner_base (InnerSplitNode insert_item child n) = inner_base child"
| "inner_base (InnerMergeNode delete_item right_merge child) = inner_base child"
| "inner_base (InnerRemoveNode i child) = inner_base child"
| "inner_base (InnerAbortNode child) = inner_base child"

text \<open>\<open>std::upper_bound\<close> between two locations, less one; before the first element there is none.\<close>

definition LocateSeparatorByKey :: "bulk \<Rightarrow> key_node_id list \<Rightarrow> nat \<Rightarrow> nat \<Rightarrow> node_id option" where
  "LocateSeparatorByKey k d start_ix end_ix =
     (if d \<noteq> [] \<and> start_ix \<le> end_ix \<and> end_ix \<le> length d then
        let it = start_ix + length (takeWhile (\<lambda>s. \<not> ds_bulk_less k (fst s)) (drop start_ix (take end_ix d)))
        in if 0 < it then Some (snd (d ! (it - 1))) else None
      else None)"

text \<open>The loop of \<open>NavigateInnerNode\<close> for a search key, on the node whose range has the key.\<close>

fun NavigateInnerNode_loop :: "bulk \<Rightarrow> nat \<Rightarrow> nat \<Rightarrow> inner_chain \<Rightarrow> node_id option" where
  "NavigateInnerNode_loop k start_ix end_ix (InnerNode low high d) = LocateSeparatorByKey k d start_ix end_ix"
| "NavigateInnerNode_loop k start_ix end_ix (InnerInsertNode item next_item loc child) =
     (if \<not> ds_bulk_less k (fst item) then
        if snd next_item = INVALID_NODE_ID \<or> ds_bulk_less k (fst next_item) then Some (snd item)
        else NavigateInnerNode_loop k (max start_ix loc) end_ix child
      else NavigateInnerNode_loop k start_ix (min end_ix loc) child)"
| "NavigateInnerNode_loop k start_ix end_ix (InnerDeleteNode item prev_item next_item loc child) =
     (if (snd (inner_low child) = snd prev_item \<or> \<not> ds_bulk_less k (fst prev_item))
         \<and> (snd next_item = INVALID_NODE_ID \<or> ds_bulk_less k (fst next_item)) then Some (snd prev_item)
      else if \<not> ds_bulk_less k (fst item) then NavigateInnerNode_loop k (max loc start_ix) end_ix child
      else NavigateInnerNode_loop k start_ix (min loc end_ix) child)"
| "NavigateInnerNode_loop k start_ix end_ix (InnerSplitNode insert_item child n) = NavigateInnerNode_loop k start_ix end_ix child"
| "NavigateInnerNode_loop k start_ix end_ix (InnerMergeNode delete_item right_merge child) =
     (if \<not> ds_bulk_less k (fst delete_item) then NavigateInnerNode_loop k 1 (length (inner_base right_merge)) right_merge
      else NavigateInnerNode_loop k 1 (length (inner_base child)) child)"
| "NavigateInnerNode_loop k start_ix end_ix (InnerRemoveNode i child) = None"
| "NavigateInnerNode_loop k start_ix end_ix (InnerAbortNode child) = None"

definition NavigateInnerNode :: "bulk \<Rightarrow> inner_chain \<Rightarrow> node_id option" where
  "NavigateInnerNode k node = NavigateInnerNode_loop k 1 (length (inner_base node)) node"

text \<open>
  The other \<open>NavigateInnerNode\<close>, which looks for a separator with the key: the separator, if there is one, and the location of the key in the
  base node. \<open>low_id\<close> is the node id of the low key of the whole node.
\<close>

fun FindSeparator :: "node_id \<Rightarrow> bulk \<Rightarrow> inner_chain \<Rightarrow> (key_node_id option \<times> nat) option" where
  "FindSeparator low_id k (InnerNode low high d) =
     (let start_it = (if low_id = snd (d ! 0) then 1 else 0);
          it = start_it + length (takeWhile (\<lambda>s. ds_bulk_less (fst s) k) (drop start_it d))
      in Some (if it < length d \<and> ds_bulk_equal (fst (d ! it)) k then Some (d ! it) else None, it))"
| "FindSeparator low_id k (InnerInsertNode item next_item loc child) =
     (if ds_bulk_equal (fst item) k then Some (Some item, loc) else FindSeparator low_id k child)"
| "FindSeparator low_id k (InnerDeleteNode item prev_item next_item loc child) =
     (if ds_bulk_equal (fst item) k then Some (None, loc) else FindSeparator low_id k child)"
| "FindSeparator low_id k (InnerSplitNode insert_item child n) = FindSeparator low_id k child"
| "FindSeparator low_id k (InnerMergeNode delete_item right_merge child) =
     (if \<not> ds_bulk_less k (fst delete_item) then FindSeparator low_id k right_merge else FindSeparator low_id k child)"
| "FindSeparator low_id k (InnerRemoveNode i child) = None"
| "FindSeparator low_id k (InnerAbortNode child) = None"

section \<open>What a chain stands for\<close>

abbreviation sep_sorted :: "key_node_id list \<Rightarrow> bool" where
  "sep_sorted d \<equiv> sorted_wrt (\<lambda>s u. ds_bulk_less (fst s) (fst u)) d"

text \<open>The separators of a chain.\<close>

fun seps :: "inner_chain \<Rightarrow> key_node_id set" where
  "seps (InnerNode low high d) = set d"
| "seps (InnerInsertNode item next_item loc child) = insert item (seps child)"
| "seps (InnerDeleteNode item prev_item next_item loc child) = {s \<in> seps child. fst s \<noteq> fst item}"
| "seps (InnerSplitNode insert_item child n) = {s \<in> seps child. ds_bulk_less (fst s) (fst insert_item)}"
| "seps (InnerMergeNode delete_item right_merge child) = seps child \<union> seps right_merge"
| "seps (InnerRemoveNode i child) = seps child"
| "seps (InnerAbortNode child) = seps child"

text \<open>The separator that a key belongs to: the greatest one that is not above the key.\<close>

definition sep_at :: "bulk \<Rightarrow> key_node_id set \<Rightarrow> key_node_id \<Rightarrow> bool" where
  "sep_at k S s \<longleftrightarrow> s \<in> S \<and> \<not> ds_bulk_less k (fst s) \<and> (\<forall>t\<in>S. ds_bulk_less (fst s) (fst t) \<longrightarrow> ds_bulk_less k (fst t))"

text \<open>
  The separator before a key, and the one after it. The latter is known by its key alone: at the end of the node it is the high key of
  the child, which goes with the node id of a sibling on the level of the children.
\<close>

definition prev_at :: "bulk \<Rightarrow> key_node_id set \<Rightarrow> key_node_id \<Rightarrow> bool" where
  "prev_at k S s \<longleftrightarrow> s \<in> S \<and> ds_bulk_less (fst s) k \<and> (\<forall>t\<in>S. ds_bulk_less (fst s) (fst t) \<longrightarrow> \<not> ds_bulk_less (fst t) k)"

definition next_at :: "bulk \<Rightarrow> key_node_id set \<Rightarrow> key_node_id \<Rightarrow> key_node_id \<Rightarrow> bool" where
  "next_at k S high s \<longleftrightarrow>
     (if \<exists>t\<in>S. ds_bulk_less k (fst t) then
        snd s \<noteq> INVALID_NODE_ID \<and> fst s \<in> fst ` S \<and> ds_bulk_less k (fst s)
        \<and> (\<forall>t\<in>S. ds_bulk_less k (fst t) \<longrightarrow> \<not> ds_bulk_less (fst t) (fst s))
      else snd s = INVALID_NODE_ID \<and> snd high = INVALID_NODE_ID
        \<or> snd s \<noteq> INVALID_NODE_ID \<and> snd high \<noteq> INVALID_NODE_ID \<and> fst s = fst high)"

text \<open>Every node id that the chain mentions as a child, deleted ones too: ids are not used again.\<close>

fun node_ids :: "inner_chain \<Rightarrow> node_id set" where
  "node_ids (InnerNode low high d) = snd ` set d"
| "node_ids (InnerInsertNode item next_item loc child) = insert (snd item) (node_ids child)"
| "node_ids (InnerDeleteNode item prev_item next_item loc child) = node_ids child"
| "node_ids (InnerSplitNode insert_item child n) = node_ids child"
| "node_ids (InnerMergeNode delete_item right_merge child) = node_ids child \<union> node_ids right_merge"
| "node_ids (InnerRemoveNode i child) = node_ids child"
| "node_ids (InnerAbortNode child) = node_ids child"

text \<open>How chains come about.\<close>

fun inner_ok :: "inner_chain \<Rightarrow> bool" where
  "inner_ok (InnerNode low high d) \<longleftrightarrow> d \<noteq> [] \<and> low = hd d \<and> sep_sorted d \<and> distinct (map snd d) \<and> INVALID_NODE_ID \<notin> snd ` set d
     \<and> (\<forall>s\<in>set d. below_high (fst s) high)"
| "inner_ok (InnerInsertNode item next_item loc child) \<longleftrightarrow> inner_ok child \<and> ds_bulk_less (fst (inner_low child)) (fst item)
     \<and> below_high (fst item) (inner_high child) \<and> snd item \<notin> node_ids child \<and> snd item \<noteq> INVALID_NODE_ID
     \<and> FindSeparator (snd (inner_low child)) (fst item) child = Some (None, loc) \<and> next_at (fst item) (seps child) (inner_high child) next_item"
| "inner_ok (InnerDeleteNode item prev_item next_item loc child) \<longleftrightarrow> inner_ok child \<and> ds_bulk_less (fst (inner_low child)) (fst item)
     \<and> below_high (fst item) (inner_high child) \<and> FindSeparator (snd (inner_low child)) (fst item) child = Some (Some item, loc)
     \<and> prev_at (fst item) (seps child) prev_item \<and> next_at (fst item) (seps child) (inner_high child) next_item"
| "inner_ok (InnerSplitNode insert_item child n) \<longleftrightarrow> (case child of InnerNode low high d \<Rightarrow> True | _ \<Rightarrow> False) \<and> inner_ok child
     \<and> snd insert_item \<noteq> INVALID_NODE_ID \<and> ds_bulk_less (fst (inner_low child)) (fst insert_item)
     \<and> below_high (fst insert_item) (inner_high child)
     \<and> n = length (filter (\<lambda>s. \<not> ds_bulk_less (fst s) (fst insert_item)) (inner_base child))"
| "inner_ok (InnerMergeNode delete_item right_merge child) \<longleftrightarrow> inner_ok child \<and> inner_ok right_merge
     \<and> snd (inner_high child) \<noteq> INVALID_NODE_ID \<and> fst (inner_high child) = fst delete_item \<and> fst (inner_low right_merge) = fst delete_item
     \<and> node_ids child \<inter> node_ids right_merge = {}"
| "inner_ok (InnerRemoveNode i child) \<longleftrightarrow> False"
| "inner_ok (InnerAbortNode child) \<longleftrightarrow> False"

fun inner_merge_free :: "inner_chain \<Rightarrow> bool" where
  "inner_merge_free (InnerNode low high d) \<longleftrightarrow> True"
| "inner_merge_free (InnerInsertNode item next_item loc child) \<longleftrightarrow> inner_merge_free child"
| "inner_merge_free (InnerDeleteNode item prev_item next_item loc child) \<longleftrightarrow> inner_merge_free child"
| "inner_merge_free (InnerSplitNode insert_item child n) \<longleftrightarrow> inner_merge_free child"
| "inner_merge_free (InnerMergeNode delete_item right_merge child) \<longleftrightarrow> False"
| "inner_merge_free (InnerRemoveNode i child) \<longleftrightarrow> inner_merge_free child"
| "inner_merge_free (InnerAbortNode child) \<longleftrightarrow> inner_merge_free child"

section \<open>Positions in a base node\<close>

abbreviation sep_lower_bound :: "bulk \<Rightarrow> key_node_id list \<Rightarrow> nat" where
  "sep_lower_bound k d \<equiv> length (takeWhile (\<lambda>s. ds_bulk_less (fst s) k) d)"

abbreviation sep_upper_bound :: "bulk \<Rightarrow> key_node_id list \<Rightarrow> nat" where
  "sep_upper_bound k d \<equiv> length (takeWhile (\<lambda>s. \<not> ds_bulk_less k (fst s)) d)"

lemma takeWhile_mono: "(\<And>x. P x \<Longrightarrow> Q x) \<Longrightarrow> length (takeWhile P d) \<le> length (takeWhile Q d)"
  by (induction d) auto

lemma takeWhile_window:
  "s \<le> length (takeWhile P d) \<Longrightarrow> length (takeWhile P d) \<le> e \<Longrightarrow> e \<le> length d
   \<Longrightarrow> s + length (takeWhile P (drop s (take e d))) = length (takeWhile P d)"
proof (induction d arbitrary: s e)
  case (Cons x d)
  show ?case
  proof (cases s)
    case 0
    with Cons.prems show ?thesis using Cons.IH [of 0 "e - 1"] by (cases e) (auto split: if_splits)
  next
    case (Suc s')
    with Cons.prems have e: "e = Suc (e - 1)" "P x" by (auto split: if_splits)
    then show ?thesis using Cons.IH [of s' "e - 1"] Cons.prems Suc by (metis (no_types, lifting) Suc_le_mono add_Suc drop_Suc_Cons length_Cons take_Suc_Cons takeWhile.simps(2))
  qed
qed simp

lemma sep_for_upper_bound:
  assumes "sep_sorted d" "d \<noteq> []" "\<not> ds_bulk_less k (fst (hd d))"
  shows "0 < sep_upper_bound k d" "sep_at k (set d) (d ! (sep_upper_bound k d - 1))"
proof -
  define P where "P = (\<lambda>s::key_node_id. \<not> ds_bulk_less k (fst s))"
  define u where "u = length (takeWhile P d)"
  show pos: "0 < sep_upper_bound k d" using assms(2,3) by (cases d) auto
  then have pos': "0 < u" by (simp add: u_def P_def)
  have u: "u \<le> length d" by (simp add: u_def length_takeWhile_le)
  have lt: "P (d ! i)" if "i < u" for i
    using that nth_mem [of i "takeWhile P d"] by (auto simp: u_def takeWhile_nth dest: set_takeWhileD)
  have ge: "ds_bulk_less k (fst (d ! i))" if "u \<le> i" "i < length d" for i
  proof -
    have *: "\<not> P (d ! u)" using nth_length_takeWhile [of P d] that by (simp add: u_def)
    show ?thesis
    proof (cases "u = i")
      case False
      then have "ds_bulk_less (fst (d ! u)) (fst (d ! i))" using assms(1) that by (auto simp: sorted_wrt_iff_nth_less)
      then show ?thesis using * key_trans unfolding P_def by blast
    qed (use * in \<open>simp add: P_def\<close>)
  qed
  have "sep_at k (set d) (d ! (u - 1))" unfolding sep_at_def
  proof (intro conjI ballI impI)
    show "d ! (u - 1) \<in> set d" using pos' u by auto
    show "\<not> ds_bulk_less k (fst (d ! (u - 1)))" using lt [of "u - 1"] pos' by (simp add: P_def)
    fix t assume t: "t \<in> set d" "ds_bulk_less (fst (d ! (u - 1))) (fst t)"
    then obtain i where i: "i < length d" "t = d ! i" by (auto simp: in_set_conv_nth)
    have "u \<le> i"
    proof (rule ccontr)
      assume "\<not> u \<le> i"
      then have "i = u - 1 \<or> ds_bulk_less (fst (d ! i)) (fst (d ! (u - 1)))"
        using assms(1) pos' u by (cases "i = u - 1") (auto simp: sorted_wrt_iff_nth_less)
      then show False using t(2) i(2) key_asym key_irrefl by auto
    qed
    then show "ds_bulk_less k (fst t)" using ge i by simp
  qed
  then show "sep_at k (set d) (d ! (sep_upper_bound k d - 1))" by (simp add: u_def P_def)
qed

lemma find_base:
  assumes "sep_sorted d" "it = sep_lower_bound k d"
  shows "it < length d \<and> fst (d ! it) = k \<longleftrightarrow> k \<in> fst ` set d"
proof
  assume "k \<in> fst ` set d"
  then obtain i where i: "i < length d" "fst (d ! i) = k" by (auto simp: in_set_conv_nth)
  have "takeWhile (\<lambda>s. ds_bulk_less (fst s) k) d = take i d"
    by (rule takeWhile_eq_take_P_nth) (use assms(1) i in \<open>auto simp: sorted_wrt_iff_nth_less key_irrefl\<close>)
  then show "it < length d \<and> fst (d ! it) = k" using i assms(2) by simp
qed (auto simp: in_set_conv_nth intro!: imageI)


lemma nth_takeWhile_base:
  assumes "d \<noteq> []" "b \<longrightarrow> P (hd d)"
  shows "(if b then 1 else 0) + length (takeWhile P (drop (if b then 1 else 0) d)) = length (takeWhile P d)"
  using assms by (cases d) auto

section \<open>Invariant\<close>

lemma below_high_mono: "below_high k h \<Longrightarrow> \<not> ds_bulk_less k k' \<Longrightarrow> below_high k' h"
  using key_le_less_trans unfolding below_high_def by blast

lemma seps_node_ids: "snd ` seps c \<subseteq> node_ids c"
  by (induction c) auto

lemma inner_bounds:
  "inner_ok c \<Longrightarrow> inner_low c \<in> seps c \<and> (\<forall>s\<in>seps c. \<not> ds_bulk_less (fst s) (fst (inner_low c)))
     \<and> (\<forall>s\<in>seps c. below_high (fst s) (inner_high c)) \<and> inj_on snd (seps c) \<and> INVALID_NODE_ID \<notin> snd ` seps c \<and> finite (seps c)"
proof (induction c)
  case (InnerNode low high d)
  then obtain x xs where d: "d = x # xs" by (cases d) auto
  have "\<forall>s\<in>set d. \<not> ds_bulk_less (fst s) (fst x)" using InnerNode d key_asym key_irrefl by auto
  then show ?case using InnerNode d by (auto simp: distinct_map)
next
  case (InnerInsertNode item next_item loc child)
  have *: "\<not> ds_bulk_less (fst item) (fst (inner_low child))" using InnerInsertNode.prems key_asym by simp
  have "snd item \<notin> snd ` seps child" using InnerInsertNode.prems seps_node_ids [of child] by auto
  then show ?case using InnerInsertNode * by (auto simp: inj_on_def image_iff)
next
  case (InnerDeleteNode item prev_item next_item loc child)
  have *: "fst (inner_low child) \<noteq> fst item" using InnerDeleteNode.prems key_irrefl by auto
  show ?case using InnerDeleteNode * by (auto simp: inj_on_def image_iff)
next
  case (InnerSplitNode insert_item child n)
  then show ?case by (auto simp: inj_on_def image_iff below_high_def)
next
  case (InnerMergeNode delete_item right_merge child)
  have ok: "inner_ok child" "inner_ok right_merge" "node_ids child \<inter> node_ids right_merge = {}"
    and eq: "snd (inner_high child) \<noteq> INVALID_NODE_ID" "fst (inner_high child) = fst delete_item" "fst (inner_low right_merge) = fst delete_item"
    using InnerMergeNode.prems by simp_all
  note L = InnerMergeNode.IH(2) [OF ok(1)] and R = InnerMergeNode.IH(1) [OF ok(2)]
  have left: "ds_bulk_less (fst s) (fst delete_item)" if "s \<in> seps child" for s
    using L that eq by (auto simp: below_high_def)
  have "below_high (fst delete_item) (inner_high right_merge)" using R eq(3) by metis
  then have bh: "below_high (fst s) (inner_high right_merge)" if "s \<in> seps child" for s
    using left [OF that] key_asym below_high_mono by blast
  have low: "\<not> ds_bulk_less (fst s) (fst (inner_low child))" if s: "s \<in> seps right_merge" for s
  proof -
    have "\<not> ds_bulk_less (fst s) (fst delete_item)" using R s eq(3) by auto
    then show ?thesis using left [of "inner_low child"] L key_trans by blast
  qed
  have "snd ` seps child \<inter> snd ` seps right_merge = {}"
    using ok(3) seps_node_ids [of child] seps_node_ids [of right_merge] by blast
  then have "inj_on snd (seps child \<union> seps right_merge)" using L R unfolding inj_on_Un by blast
  then show ?case using L R bh low by auto
qed simp_all

lemmas inner_low_sep = inner_bounds [THEN conjunct1]
  and inner_low_le = inner_bounds [THEN conjunct2, THEN conjunct1, rule_format]
  and inner_below = inner_bounds [THEN conjunct2, THEN conjunct2, THEN conjunct1, rule_format]
  and inner_ids = inner_bounds [THEN conjunct2, THEN conjunct2, THEN conjunct2, THEN conjunct1]
  and inner_finite = inner_bounds [THEN conjunct2, THEN conjunct2, THEN conjunct2, THEN conjunct2, THEN conjunct2]

lemma merge_left_right:
  assumes "inner_ok (InnerMergeNode delete_item right_merge child)"
  shows "s \<in> seps child \<Longrightarrow> ds_bulk_less (fst s) (fst delete_item)" "s \<in> seps right_merge \<Longrightarrow> \<not> ds_bulk_less (fst s) (fst delete_item)"
  using assms inner_below [of child s] inner_low_le [of right_merge s] by (auto simp: below_high_def)

section \<open>Search for a separator\<close>

text \<open>
  The search finds a separator exactly when the node has one with the key. In a right branch the low key takes part in it, and
  \<open>low_id\<close> is the id of another node.
\<close>

definition find_result :: "bulk \<Rightarrow> inner_chain \<Rightarrow> (key_node_id option \<times> nat) option \<Rightarrow> bool" where
  "find_result k c res \<longleftrightarrow> (\<exists>r loc. res = Some (r, loc) \<and> (r = None \<longleftrightarrow> k \<notin> fst ` seps c) \<and> (\<forall>s. r = Some s \<longrightarrow> s \<in> seps c \<and> fst s = k)
     \<and> (inner_merge_free c \<longrightarrow> loc = sep_lower_bound k (inner_base c)))"

lemma find_result_other:
  assumes "find_result k child res" "seps c \<inter> {s. fst s = k} = seps child \<inter> {s. fst s = k}"
    and "inner_merge_free c \<longrightarrow> inner_merge_free child \<and> inner_base c = inner_base child"
  shows "find_result k c res"
proof -
  have *: "s \<in> seps c \<longleftrightarrow> s \<in> seps child" if "fst s = k" for s using assms(2) that by auto
  then have "k \<in> fst ` seps c \<longleftrightarrow> k \<in> fst ` seps child" unfolding image_iff by blast
  then have keys: "(k \<notin> fst ` seps c) = (k \<notin> fst ` seps child)" by (rule arg_cong)
  obtain r loc where "res = Some (r, loc)" "r = None \<longleftrightarrow> k \<notin> fst ` seps child" "\<forall>s. r = Some s \<longrightarrow> s \<in> seps child \<and> fst s = k"
      "inner_merge_free child \<longrightarrow> loc = sep_lower_bound k (inner_base child)"
    using assms(1) unfolding find_result_def by blast
  then show ?thesis using assms(3) * unfolding find_result_def keys by (intro exI [of _ r] exI [of _ loc]) metis
qed

lemma FindSeparator_law:
  "inner_ok c \<Longrightarrow> below_high k (inner_high c)
   \<Longrightarrow> low_id = snd (inner_low c) \<and> ds_bulk_less (fst (inner_low c)) k \<or> low_id \<notin> node_ids c \<and> \<not> ds_bulk_less k (fst (inner_low c))
   \<Longrightarrow> find_result k c (FindSeparator low_id k c)"
proof (induction c arbitrary: k low_id)
  case (InnerNode low high d)
  have d: "d \<noteq> []" "hd d = low" "d ! 0 = low" "sep_sorted d" using InnerNode.prems by (auto simp: hd_conv_nth)
  have st: "(if low_id = snd (d ! 0) then 1 else 0) + length (takeWhile (\<lambda>s. ds_bulk_less (fst s) k) (drop (if low_id = snd (d ! 0) then 1 else 0) d))
      = sep_lower_bound k d"
    by (rule nth_takeWhile_base) (use InnerNode.prems(3) d inner_low_sep [OF InnerNode.prems(1)] in \<open>auto simp: image_iff\<close>)
  show ?case using find_base [OF d(4) refl, of k] unfolding find_result_def
    by (auto simp: st Let_def ds_bulk_equal_def simp del: One_nat_def) (auto simp: image_iff in_set_conv_nth)
next
  case (InnerInsertNode item next_item loc child)
  have ok: "inner_ok child" "find_result (fst item) child (Some (None, loc))"
    using InnerInsertNode.prems(1) InnerInsertNode.IH [of "fst item" "snd (inner_low child)"] by simp_all
  show ?case
  proof (cases "fst item = k")
    case True
    then show ?thesis using ok(2) by (auto simp: find_result_def ds_bulk_equal_def)
  next
    case False
    have "find_result k child (FindSeparator low_id k child)"
      by (rule InnerInsertNode.IH [OF ok(1)]) (use InnerInsertNode.prems in auto)
    then show ?thesis using False by (auto simp: ds_bulk_equal_def elim!: find_result_other)
  qed
next
  case (InnerDeleteNode item prev_item next_item loc child)
  have ok: "inner_ok child" "find_result (fst item) child (Some (Some item, loc))"
    using InnerDeleteNode.prems(1) InnerDeleteNode.IH [of "fst item" "snd (inner_low child)"] by simp_all
  show ?case
  proof (cases "fst item = k")
    case True
    then show ?thesis using ok(2) by (auto simp: find_result_def ds_bulk_equal_def)
  next
    case False
    have "find_result k child (FindSeparator low_id k child)"
      by (rule InnerDeleteNode.IH [OF ok(1)]) (use InnerDeleteNode.prems in auto)
    then show ?thesis using False by (auto simp: ds_bulk_equal_def elim!: find_result_other)
  qed
next
  case (InnerSplitNode insert_item child n)
  have ok: "inner_ok child" and k: "below_high k (inner_high child)" "ds_bulk_less k (fst insert_item)"
    using InnerSplitNode.prems(1,2) key_trans [of k "fst insert_item"] by (auto simp: below_high_def)
  have "find_result k child (FindSeparator low_id k child)"
    by (rule InnerSplitNode.IH [OF ok k(1)]) (use InnerSplitNode.prems in auto)
  then show ?case using k(2) by (auto elim!: find_result_other)
next
  case (InnerMergeNode delete_item right_merge child)
  have ok: "inner_ok child" "inner_ok right_merge" and ids: "node_ids child \<inter> node_ids right_merge = {}"
    and eq: "snd (inner_high child) \<noteq> INVALID_NODE_ID" "fst (inner_high child) = fst delete_item" "fst (inner_low right_merge) = fst delete_item"
    using InnerMergeNode.prems(1) by simp_all
  note sides = merge_left_right [OF InnerMergeNode.prems(1)]
  show ?case
  proof (cases "ds_bulk_less k (fst delete_item)")
    case True
    have "find_result k child (FindSeparator low_id k child)"
      by (rule InnerMergeNode.IH(2) [OF ok(1)]) (use InnerMergeNode.prems(3) eq True in \<open>auto simp: below_high_def\<close>)
    then show ?thesis using True sides(2) by (auto elim!: find_result_other)
  next
    case False
    have "snd (inner_low child) \<in> node_ids child" using inner_low_sep [OF ok(1)] seps_node_ids [of child] by auto
    then have "low_id \<notin> node_ids right_merge" using InnerMergeNode.prems(3) ids by auto
    then have "find_result k right_merge (FindSeparator low_id k right_merge)"
      by (intro InnerMergeNode.IH(1) [OF ok(2)]) (use InnerMergeNode.prems(2) eq False in auto)
    then show ?thesis using False sides(1) by (auto elim!: find_result_other)
  qed
qed simp_all

lemma inner_keys: "inner_ok c \<Longrightarrow> inj_on fst (seps c)"
proof (induction c)
  case (InnerNode low high d)
  then have "sorted_wrt (\<lambda>s u. ds_bulk_less (fst s) (fst u)) d" by simp
  then show ?case by (induction d) (auto simp: inj_on_def key_irrefl)
next
  case (InnerInsertNode item next_item loc child)
  then have "find_result (fst item) child (Some (None, loc))"
    using FindSeparator_law [of child "fst item" "snd (inner_low child)"] by simp
  then show ?case using InnerInsertNode by (auto simp: find_result_def)
next
  case (InnerMergeNode delete_item right_merge child)
  note sides = merge_left_right [OF InnerMergeNode.prems]
  show ?case using InnerMergeNode sides by (auto simp: inj_on_Un) metis+
qed (auto simp: inj_on_def)

section \<open>Search for a child\<close>

lemma next_at_below:
  assumes "next_at q S high nxt" "snd nxt = INVALID_NODE_ID \<or> ds_bulk_less k (fst nxt)" "t \<in> S" "ds_bulk_less q (fst t)"
  shows "ds_bulk_less k (fst t)"
proof -
  have "snd nxt \<noteq> INVALID_NODE_ID" "\<not> ds_bulk_less (fst t) (fst nxt)" using assms(1,3,4) by (auto simp: next_at_def split: if_splits)
  then show ?thesis using assms(2) key_less_le_trans by blast
qed

lemma next_at_above:
  assumes "next_at q S high nxt" "\<not> (snd nxt = INVALID_NODE_ID \<or> ds_bulk_less k (fst nxt))" "below_high k high"
  obtains t where "t \<in> S" "ds_bulk_less q (fst t)" "\<not> ds_bulk_less k (fst t)"
  using assms by (auto simp: next_at_def below_high_def split: if_splits)

lemma sep_at_insert:
  assumes "next_at (fst item) S high nxt" "below_high k high"
  shows "\<not> ds_bulk_less k (fst item) \<Longrightarrow> snd nxt = INVALID_NODE_ID \<or> ds_bulk_less k (fst nxt) \<Longrightarrow> sep_at k (insert item S) item"
    and "sep_at k S s \<Longrightarrow> ds_bulk_less k (fst item) \<or> \<not> (snd nxt = INVALID_NODE_ID \<or> ds_bulk_less k (fst nxt)) \<Longrightarrow> sep_at k (insert item S) s"
proof -
  assume "\<not> ds_bulk_less k (fst item)" "snd nxt = INVALID_NODE_ID \<or> ds_bulk_less k (fst nxt)"
  then show "sep_at k (insert item S) item"
    using next_at_below [OF assms(1)] key_irrefl by (auto simp: sep_at_def)
next
  assume s: "sep_at k S s" and k: "ds_bulk_less k (fst item) \<or> \<not> (snd nxt = INVALID_NODE_ID \<or> ds_bulk_less k (fst nxt))"
  have "ds_bulk_less k (fst item)" if lt: "ds_bulk_less (fst s) (fst item)"
  proof (rule ccontr)
    assume "\<not> ds_bulk_less k (fst item)"
    with k obtain t where t: "t \<in> S" "ds_bulk_less (fst item) (fst t)" "\<not> ds_bulk_less k (fst t)"
      using next_at_above [OF assms(1) _ assms(2)] by blast
    then have "ds_bulk_less (fst s) (fst t)" using lt key_trans by blast
    then show False using s t by (auto simp: sep_at_def)
  qed
  then show "sep_at k (insert item S) s" using s by (auto simp: sep_at_def)
qed

lemma sep_at_delete:
  assumes "next_at (fst item) S high nxt" "below_high k high" "prev_at (fst item) S prev"
  shows "\<not> ds_bulk_less k (fst prev) \<Longrightarrow> snd nxt = INVALID_NODE_ID \<or> ds_bulk_less k (fst nxt) \<Longrightarrow> sep_at k {s \<in> S. fst s \<noteq> fst item} prev"
    and "sep_at k S s \<Longrightarrow> ds_bulk_less k (fst prev) \<or> \<not> (snd nxt = INVALID_NODE_ID \<or> ds_bulk_less k (fst nxt))
         \<Longrightarrow> sep_at k {s \<in> S. fst s \<noteq> fst item} s"
proof -
  have p: "prev \<in> S" "ds_bulk_less (fst prev) (fst item)" using assms(3) by (auto simp: prev_at_def)
  assume k: "\<not> ds_bulk_less k (fst prev)" "snd nxt = INVALID_NODE_ID \<or> ds_bulk_less k (fst nxt)"
  have "ds_bulk_less k (fst t)" if t: "t \<in> S" "fst t \<noteq> fst item" "ds_bulk_less (fst prev) (fst t)" for t
  proof -
    have "\<not> ds_bulk_less (fst t) (fst item)" using assms(3) t by (auto simp: prev_at_def)
    then have "ds_bulk_less (fst item) (fst t)" using key_total t(2) by blast
    then show ?thesis using next_at_below [OF assms(1) k(2) t(1)] by blast
  qed
  then show "sep_at k {s \<in> S. fst s \<noteq> fst item} prev" using p k(1) by (auto simp: sep_at_def key_irrefl)
next
  assume s: "sep_at k S s" and k: "ds_bulk_less k (fst prev) \<or> \<not> (snd nxt = INVALID_NODE_ID \<or> ds_bulk_less k (fst nxt))"
  have "fst s \<noteq> fst item"
  proof
    assume eq: "fst s = fst item"
    then have "\<not> ds_bulk_less k (fst prev)" using s assms(3) key_trans [of k "fst prev" "fst item"] by (auto simp: sep_at_def prev_at_def)
    with k obtain t where t: "t \<in> S" "ds_bulk_less (fst item) (fst t)" "\<not> ds_bulk_less k (fst t)"
      using next_at_above [OF assms(1) _ assms(2)] by blast
    then show False using s eq by (auto simp: sep_at_def)
  qed
  then show "sep_at k {s \<in> S. fst s \<noteq> fst item} s" using s by (auto simp: sep_at_def)
qed

text \<open>The bounds of the search keep the child that the key belongs to between them, until a merge sets them anew.\<close>

definition nav_window :: "bulk \<Rightarrow> nat \<Rightarrow> nat \<Rightarrow> inner_chain \<Rightarrow> bool" where
  "nav_window k a b c \<longleftrightarrow> (inner_merge_free c \<longrightarrow>
     0 < a \<and> a \<le> sep_upper_bound k (inner_base c) \<and> sep_upper_bound k (inner_base c) \<le> b \<and> b \<le> length (inner_base c))"

lemma inner_base_facts:
  "inner_ok c \<Longrightarrow> inner_base c \<noteq> [] \<and> hd (inner_base c) = inner_low c \<and> sep_sorted (inner_base c)"
  by (induction c) auto

lemma nav_window_start:
  assumes "inner_ok c" "\<not> ds_bulk_less k (fst (inner_low c))"
  shows "nav_window k 1 (length (inner_base c)) c"
  using inner_base_facts [OF assms(1)] assms(2) sep_for_upper_bound(1) [of "inner_base c" k]
  by (auto simp: nav_window_def length_takeWhile_le Suc_le_eq)

lemma nav_window_delta:
  assumes "nav_window k a b c" "inner_merge_free c \<longrightarrow> loc = sep_lower_bound q (inner_base c)"
  shows "\<not> ds_bulk_less k q \<Longrightarrow> nav_window k (max a loc) b c" "ds_bulk_less k q \<Longrightarrow> nav_window k a (min b loc) c"
proof -
  assume "\<not> ds_bulk_less k q"
  then have "sep_lower_bound q (inner_base c) \<le> sep_upper_bound k (inner_base c)"
    by (intro takeWhile_mono) (use key_trans in blast)
  then show "nav_window k (max a loc) b c" using assms by (auto simp: nav_window_def)
next
  assume "ds_bulk_less k q"
  then have "sep_upper_bound k (inner_base c) \<le> sep_lower_bound q (inner_base c)"
    by (intro takeWhile_mono) (use key_le_less_trans in blast)
  then show "nav_window k a (min b loc) c" using assms by (auto simp: nav_window_def)
qed

lemma NavigateInnerNode_loop_law:
  "inner_ok c \<Longrightarrow> \<not> ds_bulk_less k (fst (inner_low c)) \<Longrightarrow> below_high k (inner_high c) \<Longrightarrow> nav_window k a b c
   \<Longrightarrow> \<exists>s. NavigateInnerNode_loop k a b c = Some (snd s) \<and> sep_at k (seps c) s"
proof (induction c arbitrary: a b)
  case (InnerNode low high d)
  note w = InnerNode.prems(4) [unfolded nav_window_def, simplified]
  have "a + length (takeWhile (\<lambda>s. \<not> ds_bulk_less k (fst s)) (drop a (take b d))) = sep_upper_bound k d"
    by (rule takeWhile_window) (use w in auto)
  then show ?case using w sep_for_upper_bound [of d k] InnerNode.prems
    by (intro exI [of _ "d ! (sep_upper_bound k d - 1)"]) (auto simp: LocateSeparatorByKey_def Let_def)
next
  case (InnerInsertNode item next_item loc child)
  have ok: "inner_ok child" and nxt: "next_at (fst item) (seps child) (inner_high child) next_item"
    and k: "\<not> ds_bulk_less k (fst (inner_low child))" "below_high k (inner_high child)" and w: "nav_window k a b child"
    using InnerInsertNode.prems by (auto simp: nav_window_def)
  have loc: "inner_merge_free child \<longrightarrow> loc = sep_lower_bound (fst item) (inner_base child)"
    using InnerInsertNode.prems(1) FindSeparator_law [of child "fst item" "snd (inner_low child)"] by (auto simp: find_result_def)
  note step = InnerInsertNode.IH [OF ok k nav_window_delta(1) [OF w loc]] InnerInsertNode.IH [OF ok k nav_window_delta(2) [OF w loc]]
  show ?case
  proof (cases "ds_bulk_less k (fst item)")
    case True
    with step(2) obtain s where "NavigateInnerNode_loop k a (min b loc) child = Some (snd s)" "sep_at k (seps child) s" by blast
    then show ?thesis using True sep_at_insert(2) [OF nxt k(2), of s] by (intro exI [of _ s]) simp
  next
    case False
    with step(1) obtain s where "NavigateInnerNode_loop k (max a loc) b child = Some (snd s)" "sep_at k (seps child) s" by blast
    then show ?thesis using False sep_at_insert(1) [OF nxt k(2)] sep_at_insert(2) [OF nxt k(2), of s]
      by (intro exI [of _ "if snd next_item = INVALID_NODE_ID \<or> ds_bulk_less k (fst next_item) then item else s"]) simp
  qed
next
  case (InnerDeleteNode item prev_item next_item loc child)
  have ok: "inner_ok child" and nxt: "next_at (fst item) (seps child) (inner_high child) next_item"
    and prev: "prev_at (fst item) (seps child) prev_item"
    and k: "\<not> ds_bulk_less k (fst (inner_low child))" "below_high k (inner_high child)" and w: "nav_window k a b child"
    using InnerDeleteNode.prems by (auto simp: nav_window_def)
  have loc: "inner_merge_free child \<longrightarrow> loc = sep_lower_bound (fst item) (inner_base child)"
    using InnerDeleteNode.prems(1) FindSeparator_law [of child "fst item" "snd (inner_low child)"] by (auto simp: find_result_def)
  note step = InnerDeleteNode.IH [OF ok k nav_window_delta(1) [OF w loc]] InnerDeleteNode.IH [OF ok k nav_window_delta(2) [OF w loc]]
  have low: "snd (inner_low child) = snd prev_item \<Longrightarrow> \<not> ds_bulk_less k (fst prev_item)"
    using inner_ids [OF ok] inner_low_sep [OF ok] prev k(1) by (auto simp: prev_at_def dest: inj_onD)
  show ?case
  proof (cases "ds_bulk_less k (fst prev_item) \<or> \<not> (snd next_item = INVALID_NODE_ID \<or> ds_bulk_less k (fst next_item))")
    case True
    then have eq: "NavigateInnerNode_loop k a b (InnerDeleteNode item prev_item next_item loc child)
        = (if ds_bulk_less k (fst item) then NavigateInnerNode_loop k a (min b loc) child else NavigateInnerNode_loop k (max a loc) b child)"
      using low by (auto simp: max.commute min.commute)
    obtain s where "(if ds_bulk_less k (fst item) then NavigateInnerNode_loop k a (min b loc) child else NavigateInnerNode_loop k (max a loc) b child)
        = Some (snd s)" "sep_at k (seps child) s"
      using step by (cases "ds_bulk_less k (fst item)") fastforce+
    with eq have "NavigateInnerNode_loop k a b (InnerDeleteNode item prev_item next_item loc child) = Some (snd s)" "sep_at k (seps child) s" by simp_all
    then show ?thesis using True sep_at_delete(2) [OF nxt k(2) prev, of s] by (intro exI [of _ s]) simp
  next
    case False
    then show ?thesis using sep_at_delete(1) [OF nxt k(2) prev] by (intro exI [of _ prev_item]) simp
  qed
next
  case (InnerSplitNode insert_item child n)
  have ok: "inner_ok child" and k: "below_high k (inner_high child)" "ds_bulk_less k (fst insert_item)"
    using InnerSplitNode.prems(1,3) key_trans [of k "fst insert_item"] by (auto simp: below_high_def)
  have "\<exists>s. NavigateInnerNode_loop k a b child = Some (snd s) \<and> sep_at k (seps child) s"
    by (rule InnerSplitNode.IH [OF ok]) (use InnerSplitNode.prems k in \<open>auto simp: nav_window_def\<close>)
  then obtain s where s: "NavigateInnerNode_loop k a b child = Some (snd s)" "sep_at k (seps child) s" by blast
  have "ds_bulk_less (fst s) (fst insert_item)" using s(2) k(2) key_le_less_trans by (auto simp: sep_at_def)
  then show ?case using s by (intro exI [of _ s]) (auto simp: sep_at_def)
next
  case (InnerMergeNode delete_item right_merge child)
  have ok: "inner_ok child" "inner_ok right_merge"
    and eq: "fst (inner_high child) = fst delete_item" "fst (inner_low right_merge) = fst delete_item"
    using InnerMergeNode.prems(1) by simp_all
  note sides = merge_left_right [OF InnerMergeNode.prems(1)]
  show ?case
  proof (cases "ds_bulk_less k (fst delete_item)")
    case True
    have "\<exists>s. NavigateInnerNode_loop k 1 (length (inner_base child)) child = Some (snd s) \<and> sep_at k (seps child) s"
      by (rule InnerMergeNode.IH(2) [OF ok(1)]) (use InnerMergeNode.prems eq True nav_window_start [OF ok(1)] in \<open>auto simp: below_high_def\<close>)
    then obtain s where s: "NavigateInnerNode_loop k 1 (length (inner_base child)) child = Some (snd s)" "sep_at k (seps child) s" by blast
    have "ds_bulk_less k (fst t)" if "t \<in> seps right_merge" for t using True sides(2) [OF that] key_less_le_trans by blast
    then show ?thesis using s True by (intro exI [of _ s]) (auto simp: sep_at_def)
  next
    case False
    have "\<exists>s. NavigateInnerNode_loop k 1 (length (inner_base right_merge)) right_merge = Some (snd s) \<and> sep_at k (seps right_merge) s"
      by (rule InnerMergeNode.IH(1) [OF ok(2)]) (use InnerMergeNode.prems eq False nav_window_start [OF ok(2)] in auto)
    then obtain s where s: "NavigateInnerNode_loop k 1 (length (inner_base right_merge)) right_merge = Some (snd s)" "sep_at k (seps right_merge) s"
      by blast
    have "\<not> ds_bulk_less (fst s) (fst t)" if "t \<in> seps child" for t
      using sides(1) [OF that] sides(2) [of s] s(2) key_trans by (auto simp: sep_at_def)
    then show ?thesis using s False by (intro exI [of _ s]) (auto simp: sep_at_def)
  qed
qed simp_all

lemma inner_search_law:
  assumes "inner_ok c" "\<not> ds_bulk_less k (fst (inner_low c))" "below_high k (inner_high c)"
  shows "\<exists>s. NavigateInnerNode k c = Some (snd s) \<and> sep_at k (seps c) s"
  unfolding NavigateInnerNode_def
  using NavigateInnerNode_loop_law [OF assms nav_window_start [OF assms(1,2)]] .

lemma inner_count_law: "inner_ok c \<Longrightarrow> inner_count c = int (card (seps c))"
proof (induction c)
  case (InnerNode low high d)
  then show ?case by (auto simp: distinct_map distinct_card)
next
  case (InnerInsertNode item next_item loc child)
  then have "item \<notin> seps child" using seps_node_ids [of child] by auto
  then show ?case using InnerInsertNode inner_finite [of child] by simp
next
  case (InnerDeleteNode item prev_item next_item loc child)
  then have ok: "inner_ok child" and "find_result (fst item) child (Some (Some item, loc))"
    using FindSeparator_law [of child "fst item" "snd (inner_low child)"] by simp_all
  then have item: "item \<in> seps child" unfolding find_result_def by blast
  then have "{s \<in> seps child. fst s \<noteq> fst item} = seps child - {item}" using inner_keys [OF ok] by (auto dest: inj_onD)
  moreover have "0 < card (seps child)" using item inner_finite [OF ok] by (auto simp: card_gt_0_iff)
  ultimately show ?case using InnerDeleteNode ok item inner_finite [OF ok] by (simp add: of_nat_diff Suc_leI)
next
  case (InnerSplitNode insert_item child n)
  then obtain low high d where c: "child = InnerNode low high d" by (cases child) auto
  let ?P = "\<lambda>s. ds_bulk_less (fst s) (fst insert_item)"
  have d: "distinct d" using InnerSplitNode.prems c by (auto simp: distinct_map)
  have "length (filter ?P d) = card {s \<in> set d. ?P s}" using d distinct_card [of "filter ?P d"] by simp
  then show ?case using InnerSplitNode.prems c sum_length_filter_compl [of ?P d] by auto
next
  case (InnerMergeNode delete_item right_merge child)
  then have "seps child \<inter> seps right_merge = {}" using seps_node_ids [of child] seps_node_ids [of right_merge] by fastforce
  then show ?case using InnerMergeNode inner_finite [of child] inner_finite [of right_merge] by (simp add: card_Un_disjoint)
qed simp_all


section \<open>Properties\<close>

text \<open>
  C11. In a chain of an inner node, with deltas for inserted and deleted separators, a split, and merges, \<open>NavigateInnerNode\<close> finds the child of a
  key in the range of the node: the one of the greatest separator that is not above the key. The search for a separator finds it
  exactly when the node has one with that key.
\<close>

theorem inner_search_exact:
  assumes "inner_ok c" "\<not> ds_bulk_less k (fst (inner_low c))" "below_high k (inner_high c)"
  shows "(\<exists>s. NavigateInnerNode k c = Some (snd s) \<and> sep_at k (seps c) s)
    \<and> (ds_bulk_less (fst (inner_low c)) k \<longrightarrow>
        (\<exists>r loc. FindSeparator (snd (inner_low c)) k c = Some (r, loc) \<and> (r = None \<longleftrightarrow> k \<notin> fst ` seps c) \<and> (\<forall>s. r = Some s \<longrightarrow> s \<in> seps c \<and> fst s = k)))"
proof (intro conjI impI)
  show "\<exists>s. NavigateInnerNode k c = Some (snd s) \<and> sep_at k (seps c) s" by (rule inner_search_law [OF assms])
  assume "ds_bulk_less (fst (inner_low c)) k"
  then have "find_result k c (FindSeparator (snd (inner_low c)) k c)" using FindSeparator_law [OF assms(1,3)] by blast
  then show "\<exists>r loc. FindSeparator (snd (inner_low c)) k c = Some (r, loc) \<and> (r = None \<longleftrightarrow> k \<notin> fst ` seps c) \<and> (\<forall>s. r = Some s \<longrightarrow> s \<in> seps c \<and> fst s = k)"
    unfolding find_result_def by blast
qed

text \<open>A node with an inserted separator that was merged with its right sibling, whose first separator was then deleted.\<close>

definition sample_inner :: inner_chain where
  "sample_inner =
     InnerDeleteNode ([9], 8) ([5], 4) ([12], 10) 0
       (InnerMergeNode ([9], 8) (InnerNode ([9], 8) ([], INVALID_NODE_ID) [([9], 8), ([12], 10)])
         (InnerInsertNode ([3], 6) ([5], 4) 1 (InnerNode ([], 2) ([9], 7) [([], 2), ([5], 4)])))"

lemma sample_inner_ok: "inner_ok sample_inner" "inner_low sample_inner = ([], 2)" "inner_high sample_inner = ([], INVALID_NODE_ID)"
  by code_simp+

theorem inner_search_exact_witness:
  "(\<exists>s. NavigateInnerNode [10] sample_inner = Some (snd s) \<and> sep_at [10] (seps sample_inner) s)
   \<and> NavigateInnerNode [10] sample_inner = Some 4 \<and> NavigateInnerNode [4] sample_inner = Some 6 \<and> NavigateInnerNode [1] sample_inner = Some 2
   \<and> FindSeparator 2 [9] sample_inner = Some (None, 0)"
proof -
  have "\<not> ds_bulk_less [10] (fst (inner_low sample_inner))" "below_high [10] (inner_high sample_inner)" by code_simp+
  from inner_search_exact [OF sample_inner_ok(1) this]
  have "\<exists>s. NavigateInnerNode [10] sample_inner = Some (snd s) \<and> sep_at [10] (seps sample_inner) s" by blast
  moreover have "NavigateInnerNode [10] sample_inner = Some 4" "NavigateInnerNode [4] sample_inner = Some 6" "NavigateInnerNode [1] sample_inner = Some 2"
     "FindSeparator 2 [9] sample_inner = Some (None, 0)" by code_simp+
  ultimately show ?thesis by blast
qed

end
