(* ===== verification/Bwtree_Inner_Consolidate.thy ===== *)
theory Bwtree_Inner_Consolidate
  imports Bwtree_Inner Bwtree_Consolidate
begin

text \<open>
  The consolidation of an inner chain of the BwTree into a base node (\<open>CollectAllSepsOnInner\<close> of BwTree/src/bwtree.h): the newest delta of every
  separator goes into a set sorted by key, which is merged with the separators of the base node.
\<close>

section \<open>Definitions\<close>

text \<open>An \<open>InnerDataNode\<close> without its child.\<close>

record inner_data =
  idn_insert :: bool
  idn_item :: key_node_id

abbreviation idn_key :: "inner_data \<Rightarrow> bulk" where
  "idn_key x \<equiv> fst (idn_item x)"

definition inner_data_less :: "inner_data \<Rightarrow> inner_data \<Rightarrow> bool" where
  "inner_data_less idn1 idn2 = ds_bulk_less (idn_key idn1) (idn_key idn2)"

definition inner_data_equal :: "inner_data \<Rightarrow> inner_data \<Rightarrow> bool" where
  "inner_data_equal idn1 idn2 = ds_bulk_equal (idn_key idn1) (idn_key idn2)"

type_synonym collect_seps = "inner_data sorted_small_set \<times> key_node_id list"

text \<open>
  The merge of what is left to copy of the array with the \<open>n\<close> deltas before \<open>sss_end_it\<close>. A delta decides for its key.
\<close>

fun merge_seps :: "key_node_id list \<Rightarrow> nat \<Rightarrow> inner_data sorted_small_set \<Rightarrow> key_node_id list \<Rightarrow> collect_seps option" where
  "merge_seps seps_left 0 s out = Some (s, out @ seps_left)"
| "merge_seps [] (Suc n) s out = do {
     (x, s) \<leftarrow> sss_PopFront s;
     merge_seps [] n s (if idn_insert x then out @ [idn_item x] else out)
   }"
| "merge_seps (e # seps_left) (Suc n) s out = do {
     x \<leftarrow> sss_GetFront s;
     if ds_bulk_less (fst e) (idn_key x) then merge_seps seps_left (Suc n) s (out @ [e])
     else do {
       (x, s) \<leftarrow> sss_PopFront s;
       if ds_bulk_less (idn_key x) (fst e) then merge_seps (e # seps_left) n s (if idn_insert x then out @ [idn_item x] else out)
       else merge_seps seps_left n s (if idn_insert x then out @ [idn_item x] else out)
     }
   }"

definition merge_inner :: "node_id \<Rightarrow> key_node_id \<Rightarrow> key_node_id list \<Rightarrow> collect_seps \<Rightarrow> collect_seps option" where
  "merge_inner low_key_node_id high d st =
     (let (sss, out) = st;
          copy_end = (if snd high = INVALID_NODE_ID then length d
                      else 1 + length (takeWhile (\<lambda>s. ds_bulk_less (fst s) (fst high)) (drop 1 d)));
          copy_start = (if snd (d ! 0) = low_key_node_id then 1 else 0);
          n = (if snd high = INVALID_NODE_ID then sss_GetSize sss
               else length (dropWhile (\<lambda>x. \<not> ds_bulk_less (idn_key x) (fst high)) (rev (sss_contents sss))))
      in if d = [] then None else merge_seps (drop copy_start (take copy_end d)) n sss out)"

fun CollectAllSepsOnInnerRecursive ::
  "node_id \<Rightarrow> key_node_id \<Rightarrow> inner_chain \<Rightarrow> collect_seps \<Rightarrow> collect_seps option" where
  "CollectAllSepsOnInnerRecursive low_key_node_id high_key_pair (InnerNode low high d) st = merge_inner low_key_node_id high_key_pair d st"
| "CollectAllSepsOnInnerRecursive low_key_node_id high_key_pair (InnerInsertNode item next_item loc child) (sss, out) = do {
     sss \<leftarrow> sss_Insert inner_data_less inner_data_equal \<lparr>idn_insert = True, idn_item = item\<rparr> sss;
     CollectAllSepsOnInnerRecursive low_key_node_id high_key_pair child (sss, out)
   }"
| "CollectAllSepsOnInnerRecursive low_key_node_id high_key_pair (InnerDeleteNode item prev_item next_item loc child) (sss, out) = do {
     sss \<leftarrow> sss_Insert inner_data_less inner_data_equal \<lparr>idn_insert = False, idn_item = item\<rparr> sss;
     CollectAllSepsOnInnerRecursive low_key_node_id high_key_pair child (sss, out)
   }"
| "CollectAllSepsOnInnerRecursive low_key_node_id high_key_pair (InnerSplitNode insert_item child n) st =
     CollectAllSepsOnInnerRecursive low_key_node_id high_key_pair child st"
| "CollectAllSepsOnInnerRecursive low_key_node_id high_key_pair (InnerMergeNode delete_item right_merge child) st = do {
     st \<leftarrow> CollectAllSepsOnInnerRecursive low_key_node_id (inner_high child) child st;
     CollectAllSepsOnInnerRecursive low_key_node_id (inner_high right_merge) right_merge st
   }"
| "CollectAllSepsOnInnerRecursive low_key_node_id high_key_pair (InnerRemoveNode i child) st = None"
| "CollectAllSepsOnInnerRecursive low_key_node_id high_key_pair (InnerAbortNode child) st = None"

text \<open>Called with the depth 0 of a base node; the assertion on the number of separators is the condition for a result.\<close>

definition CollectAllSepsOnInner :: "inner_chain \<Rightarrow> inner_chain option" where
  "CollectAllSepsOnInner node = do {
     (sss, out) \<leftarrow> CollectAllSepsOnInnerRecursive (snd (inner_low node)) (inner_high node) node
       (SortedSmallSet (inner_depth node), [inner_low node]);
     if int (length out) = inner_count node then Some (InnerNode (inner_low node) (inner_high node) out) else None
   }"

section \<open>The merge\<close>

lemma merge_seps_law:
  assumes "sss_inv s" "sss_contents s = q @ rest" "length q = n" "sep_sorted seps_left" "sorted_wrt inner_data_less q"
  shows "\<exists>s' L. merge_seps seps_left n s out = Some (s', out @ L) \<and> sss_inv s' \<and> sss_contents s' = rest \<and> sss_room s' = sss_room s \<and> sep_sorted L
    \<and> set L = {e \<in> set seps_left. fst e \<notin> idn_key ` set q} \<union> idn_item ` {x \<in> set q. idn_insert x}"
  using assms
proof (induction seps_left n s out arbitrary: q rule: merge_seps.induct)
  case (1 seps_left s out)
  then show ?case by auto
next
  case (2 n s out)
  obtain x q' where q: "q = x # q'" using 2 by (cases q) auto
  obtain s1 where s1: "sss_PopFront s = Some (x, s1)" "sss_inv s1" "sss_contents s1 = q' @ rest" "sss_room s1 = sss_room s"
    using sss_PopFront_law [of s x "q' @ rest"] 2 q by auto
  have "\<exists>s' L. merge_seps [] n s1 (if idn_insert x then out @ [idn_item x] else out) = Some (s', (if idn_insert x then out @ [idn_item x] else out) @ L)
      \<and> sss_inv s' \<and> sss_contents s' = rest \<and> sss_room s' = sss_room s1 \<and> sep_sorted L
      \<and> set L = {e \<in> set []. fst e \<notin> idn_key ` set q'} \<union> idn_item ` {x \<in> set q'. idn_insert x}"
    by (rule "2.IH" [OF s1(1) refl]) (use s1 2 q in auto)
  then show ?case using s1 2 q by (auto simp: inner_data_less_def)
next
  case (3 e seps_left n s out)
  obtain x q' where q: "q = x # q'" using 3 by (cases q) auto
  obtain s1 where s1: "sss_GetFront s = Some x" "sss_PopFront s = Some (x, s1)" "sss_inv s1" "sss_contents s1 = q' @ rest" "sss_room s1 = sss_room s"
    using sss_PopFront_law [of s x "q' @ rest"] 3 q by auto
  let ?out = "if idn_insert x then out @ [idn_item x] else out"
  have above: "ds_bulk_less (fst e) (fst t)" if "t \<in> set seps_left" for t using 3 that by auto
  have qabove: "ds_bulk_less (idn_key x) (idn_key y)" if "y \<in> set q'" for y using 3 q that by (auto simp: inner_data_less_def)
  consider "ds_bulk_less (fst e) (idn_key x)" | "ds_bulk_less (idn_key x) (fst e)" "\<not> ds_bulk_less (fst e) (idn_key x)" | "fst e = idn_key x"
    using key_total key_asym by blast
  then show ?case
  proof cases
    case 1
    obtain s' L where L: "merge_seps seps_left (Suc n) s (out @ [e]) = Some (s', (out @ [e]) @ L)" "sss_inv s'" "sss_contents s' = rest"
        "sss_room s' = sss_room s" "sep_sorted L"
        "set L = {e \<in> set seps_left. fst e \<notin> idn_key ` set q} \<union> idn_item ` {x \<in> set q. idn_insert x}"
      using "3.IH"(1) [OF s1(1) 1 "3.prems"(1-3)] "3.prems"(4,5) by auto
    have below: "ds_bulk_less (fst e) (idn_key y)" if "y \<in> set q" for y using 1 q qabove that key_trans by auto
    then have "fst e \<notin> idn_key ` set q" using key_irrefl by (metis (no_types, lifting) imageE)
    moreover have "sep_sorted (e # L)" using L(5,6) above below by auto
    ultimately show ?thesis using s1 1 L by (intro exI [of _ s'] exI [of _ "e # L"]) auto
  next
    case 2
    obtain s' L where L: "merge_seps (e # seps_left) n s1 ?out = Some (s', ?out @ L)" "sss_inv s'" "sss_contents s' = rest"
        "sss_room s' = sss_room s1" "sep_sorted L"
        "set L = {t \<in> set (e # seps_left). fst t \<notin> idn_key ` set q'} \<union> idn_item ` {x \<in> set q'. idn_insert x}"
      using "3.IH"(2) [OF s1(1) 2(2) s1(2) refl 2(1) s1(3,4)] "3.prems"(3,4,5) q by auto
    have below: "ds_bulk_less (idn_key x) (fst t)" if "t \<in> set (e # seps_left)" for t
      using 2 that key_trans [OF 2(1) above [of t]] by auto
    then have ne: "fst t \<noteq> idn_key x" if "t \<in> set (e # seps_left)" for t using that key_irrefl by metis
    have sorted: "sep_sorted (idn_item x # L)" using L(5,6) below qabove by auto
    have "{t \<in> set (e # seps_left). fst t \<notin> idn_key ` set q'} = {t \<in> set (e # seps_left). fst t \<notin> idn_key ` set q}"
      using q ne by auto
    then have "set L \<union> (if idn_insert x then {idn_item x} else {}) = {t \<in> set (e # seps_left). fst t \<notin> idn_key ` set q} \<union> idn_item ` {x \<in> set q. idn_insert x}"
      using L(6) q by auto
    then show ?thesis using s1 2 L sorted
      by (intro exI [of _ s'] exI [of _ "if idn_insert x then idn_item x # L else L"]) (auto split: if_splits)
  next
    case 3
    then have ne: "\<not> ds_bulk_less (fst e) (idn_key x)" "\<not> ds_bulk_less (idn_key x) (fst e)" using key_irrefl by auto
    obtain s' L where L: "merge_seps seps_left n s1 ?out = Some (s', ?out @ L)" "sss_inv s'" "sss_contents s' = rest"
        "sss_room s' = sss_room s1" "sep_sorted L"
        "set L = {t \<in> set seps_left. fst t \<notin> idn_key ` set q'} \<union> idn_item ` {x \<in> set q'. idn_insert x}"
      using "3.IH"(3) [OF s1(1) ne(1) s1(2) refl ne(2) s1(3,4)] "3.prems"(3,4,5) q by auto
    have below: "ds_bulk_less (idn_key x) (fst t)" if "t \<in> set seps_left" for t using 3 above [OF that] by simp
    then have ne': "fst t \<noteq> idn_key x" if "t \<in> set seps_left" for t using that key_irrefl by metis
    have sorted: "sep_sorted (idn_item x # L)" using L(5,6) below qabove by auto
    have "{t \<in> set seps_left. fst t \<notin> idn_key ` set q'} = {t \<in> set (e # seps_left). fst t \<notin> idn_key ` set q}"
      using q ne' 3 by auto
    then have "set L \<union> (if idn_insert x then {idn_item x} else {}) = {t \<in> set (e # seps_left). fst t \<notin> idn_key ` set q} \<union> idn_item ` {x \<in> set q. idn_insert x}"
      using L(6) q by auto
    then show ?thesis using s1 ne L sorted
      by (intro exI [of _ s'] exI [of _ "if idn_insert x then idn_item x # L else L"]) (auto split: if_splits)
  qed
qed


lemma collect_insert:
  assumes "sss_inv s" "0 < sss_room s" "sorted_wrt inner_data_less (sss_contents s)"
  shows "\<exists>s'. sss_Insert inner_data_less inner_data_equal x s = Some s' \<and> sss_inv s' \<and> sss_room s - 1 \<le> sss_room s'
    \<and> sorted_wrt inner_data_less (sss_contents s')
    \<and> set (sss_contents s') = (if idn_key x \<in> idn_key ` set (sss_contents s) then set (sss_contents s) else insert x (set (sss_contents s)))
    \<and> (\<forall>P. \<not> P x \<longrightarrow> filter P (sss_contents s') = filter P (sss_contents s))"
proof -
  define q tw dw where "q = sss_contents s" and "tw = takeWhile (\<lambda>y. inner_data_less y x) q" and "dw = dropWhile (\<lambda>y. inner_data_less y x) q"
  obtain s' where s': "sss_Insert inner_data_less inner_data_equal x s = Some s'" "sss_inv s'" "sss_room s' \<ge> sss_room s - 1"
    "sss_contents s' = tw @ (case dw of [] \<Rightarrow> [x] | y # zs \<Rightarrow> if inner_data_equal y x then y # zs else x # y # zs)"
    using sss_Insert_law [OF assms(1,2), of inner_data_less inner_data_equal x] unfolding tw_def dw_def q_def by blast
  have q: "tw @ dw = q" "sorted_wrt inner_data_less (tw @ dw)" using assms(3) by (simp_all add: tw_def dw_def q_def)
  have low: "ds_bulk_less (idn_key y) (idn_key x)" if "y \<in> set tw" for y
    using set_takeWhileD [OF that [unfolded tw_def]] by (simp add: inner_data_less_def)
  then have low': "idn_key x \<notin> idn_key ` set tw" using key_irrefl by (metis (no_types, lifting) imageE)
  show ?thesis
  proof (cases dw)
    case Nil
    then show ?thesis using s' q low low' by (auto simp: sorted_wrt_append inner_data_less_def q_def [symmetric])
  next
    case (Cons y zs)
    have y: "\<not> ds_bulk_less (idn_key y) (idn_key x)"
      using dropWhile_eq_Cons_conv [of "\<lambda>y. inner_data_less y x" q y zs] Cons by (simp add: dw_def inner_data_less_def)
    show ?thesis
    proof (cases "idn_key y = idn_key x")
      case True
      have "set (sss_contents s) = set (tw @ y # zs)" using q(1) Cons by (simp add: q_def)
      then have "y \<in> set (sss_contents s)" by simp
      then have "idn_key x \<in> idn_key ` set (sss_contents s)" using True by (metis imageI)
      moreover have "sss_contents s' = sss_contents s" using s'(4) q(1) Cons True by (simp add: inner_data_equal_def ds_bulk_equal_def q_def)
      ultimately show ?thesis using s'(1-3) assms(3) by simp
    next
      case False
      then have xy: "ds_bulk_less (idn_key x) (idn_key y)" using y key_total by blast
      have high: "ds_bulk_less (idn_key x) (idn_key z)" if "z \<in> set dw" for z
        using that q(2) Cons xy key_trans [OF xy, of "idn_key z"] by (auto simp: sorted_wrt_append inner_data_less_def)
      then have "idn_key x \<notin> idn_key ` set dw" using key_irrefl by (metis (no_types, lifting) imageE)
      moreover have "sorted_wrt inner_data_less (tw @ x # dw)" using q(2) low high by (auto simp: sorted_wrt_append inner_data_less_def)
      ultimately show ?thesis using s' q low' Cons False
        by (auto simp: inner_data_equal_def ds_bulk_equal_def q_def [symmetric])
    qed
  qed
qed

lemma takeWhile_sorted_filter:
  "sep_sorted zs \<Longrightarrow> takeWhile (\<lambda>s. ds_bulk_less (fst s) k) zs = filter (\<lambda>s. ds_bulk_less (fst s) k) zs"
proof (induction zs)
  case (Cons z zs)
  have "\<not> ds_bulk_less (fst t) k" if "\<not> ds_bulk_less (fst z) k" "t \<in> set zs" for t
    using that Cons.prems key_trans [of "fst z" "fst t" k] by auto
  then show ?case using Cons by (auto simp: filter_empty_conv)
qed simp

lemma copied_seps:
  assumes "sep_sorted d" "d \<noteq> []" "distinct (map snd d)" "snd high \<noteq> INVALID_NODE_ID \<longrightarrow> below_high (fst (hd d)) high"
    and "low_id = snd (hd d) \<or> low_id \<notin> snd ` set d"
  defines "copy_end \<equiv> (if snd high = INVALID_NODE_ID then length d else 1 + length (takeWhile (\<lambda>s. ds_bulk_less (fst s) (fst high)) (drop 1 d)))"
    and "copy_start \<equiv> (if snd (d ! 0) = low_id then 1 else (0::nat))"
  shows "set (drop copy_start (take copy_end d)) = {s \<in> set d. below_high (fst s) high \<and> snd s \<noteq> low_id}" "sep_sorted (drop copy_start (take copy_end d))"
proof -
  obtain x xs where d: "d = x # xs" using assms(2) by (cases d) auto
  have fe: "take copy_end d = filter (\<lambda>s. below_high (fst s) high) d"
  proof (cases "snd high = INVALID_NODE_ID")
    case False
    have *: "takeWhile (\<lambda>s. ds_bulk_less (fst s) (fst high)) xs = filter (\<lambda>s. ds_bulk_less (fst s) (fst high)) xs"
      by (rule takeWhile_sorted_filter) (use assms(1) d in simp)
    then have "take (length (filter (\<lambda>s. ds_bulk_less (fst s) (fst high)) xs)) xs = filter (\<lambda>s. ds_bulk_less (fst s) (fst high)) xs"
      by (metis takeWhile_eq_take)
    with * show ?thesis using False assms(4) d by (simp add: copy_end_def below_high_def)
  qed (simp add: copy_end_def below_high_def)
  have "drop copy_start (filter (\<lambda>s. below_high (fst s) high) d) = filter (\<lambda>s. below_high (fst s) high \<and> snd s \<noteq> low_id) d"
  proof (cases "snd x = low_id")
    case True
    have "below_high (fst x) high" using assms(4) d by (cases "snd high = INVALID_NODE_ID") (auto simp: below_high_def)
    moreover have "snd x \<notin> snd ` set xs" using assms(3) d by simp
    then have "\<forall>s\<in>set xs. snd s \<noteq> low_id" using True by (metis imageI)
    then have "filter (\<lambda>s. below_high (fst s) high) xs = filter (\<lambda>s. below_high (fst s) high \<and> snd s \<noteq> low_id) xs"
      by (auto intro!: filter_cong)
    ultimately show ?thesis using True d by (simp add: copy_start_def)
  next
    case False
    then have "\<forall>s\<in>set d. snd s \<noteq> low_id" using assms(5) d by auto
    then show ?thesis using False d by (auto simp: copy_start_def intro!: filter_cong)
  qed
  with fe have *: "drop copy_start (take copy_end d) = filter (\<lambda>s. below_high (fst s) high \<and> snd s \<noteq> low_id) d" by simp
  show "set (drop copy_start (take copy_end d)) = {s \<in> set d. below_high (fst s) high \<and> snd s \<noteq> low_id}" unfolding * by auto
  show "sep_sorted (drop copy_start (take copy_end d))" unfolding * using assms(1) by (simp add: sorted_wrt_filter)
qed


lemma merge_inner_law:
  assumes "sss_inv s" "sorted_wrt inner_data_less (sss_contents s)" "inner_ok (InnerNode low h d)" "below_high (fst low) high"
    and "low_id = snd low \<or> low_id \<notin> snd ` set d"
  shows "\<exists>s' L. merge_inner low_id high d (s, out) = Some (s', out @ L) \<and> sss_inv s' \<and> sss_room s' = sss_room s \<and> sep_sorted L
    \<and> sss_contents s' = filter (\<lambda>x. \<not> below_high (idn_key x) high) (sss_contents s)
    \<and> set L = {e \<in> set d. below_high (fst e) high \<and> snd e \<noteq> low_id \<and> fst e \<notin> idn_key ` set (sss_contents s)}
        \<union> idn_item ` {x \<in> set (sss_contents s). idn_insert x \<and> below_high (idn_key x) high}"
proof -
  let ?q = "sss_contents s" and ?B = "\<lambda>x. below_high (idn_key x) high"
  define ce where "ce = (if snd high = INVALID_NODE_ID then length d else 1 + length (takeWhile (\<lambda>s. ds_bulk_less (fst s) (fst high)) (drop 1 d)))"
  define cs where "cs = (if snd (d ! 0) = low_id then 1 else (0::nat))"
  define n where "n = (if snd high = INVALID_NODE_ID then sss_GetSize s
      else length (dropWhile (\<lambda>x. \<not> ds_bulk_less (idn_key x) (fst high)) (rev ?q)))"
  have d: "d \<noteq> []" "low = hd d" "sep_sorted d" "distinct (map snd d)" using assms(3) by simp_all
  have copied: "set (drop cs (take ce d)) = {s \<in> set d. below_high (fst s) high \<and> snd s \<noteq> low_id}" "sep_sorted (drop cs (take ce d))"
    using copied_seps [OF d(3,1,4), of high low_id] assms(4,5) d(2) unfolding ce_def cs_def by auto
  have size: "sss_GetSize s = length ?q" using assms(1) by (simp add: sss_GetSize_def sss_contents_def sss_inv_def)
  have q: "take n ?q = filter ?B ?q" "drop n ?q = filter (\<lambda>x. \<not> ?B x) ?q" "n \<le> length ?q"
  proof -
    have "?B x = ds_bulk_less (idn_key x) (fst high)" if "snd high \<noteq> INVALID_NODE_ID" for x using that by (simp add: below_high_def)
    moreover have "ds_bulk_less (idn_key a) (fst high)" if "inner_data_less a b" "ds_bulk_less (idn_key b) (fst high)" for a b
      using that key_trans unfolding inner_data_less_def by blast
    ultimately show "take n ?q = filter ?B ?q" "drop n ?q = filter (\<lambda>x. \<not> ?B x) ?q" "n \<le> length ?q"
      using sorted_prefix [OF assms(2), of "\<lambda>x. ds_bulk_less (idn_key x) (fst high)" n] size
      by (auto simp: n_def below_high_def)
  qed
  have "sorted_wrt inner_data_less (take n ?q)" using assms(2) by (rule sorted_wrt_take)
  then obtain s' L where L: "merge_seps (drop cs (take ce d)) n s out = Some (s', out @ L)" "sss_inv s'" "sss_contents s' = drop n ?q"
      "sss_room s' = sss_room s" "sep_sorted L"
      "set L = {e \<in> set (drop cs (take ce d)). fst e \<notin> idn_key ` set (take n ?q)} \<union> idn_item ` {x \<in> set (take n ?q). idn_insert x}"
    using merge_seps_law [OF assms(1) _ _ copied(2), of "take n ?q" "drop n ?q" n out] q(3) by auto
  have "{e \<in> set (drop cs (take ce d)). fst e \<notin> idn_key ` set (take n ?q)}
      = {e \<in> set d. below_high (fst e) high \<and> snd e \<noteq> low_id \<and> fst e \<notin> idn_key ` set ?q}"
    unfolding copied(1) q(1) by auto
  moreover have "{x \<in> set (take n ?q). idn_insert x} = {x \<in> set ?q. idn_insert x \<and> ?B x}" unfolding q(1) by auto
  moreover have "merge_inner low_id high d (s, out) = Some (s', out @ L)"
    using L(1) d(1) by (simp add: merge_inner_def ce_def cs_def n_def)
  ultimately show ?thesis using L(2-6) q(2) by auto
qed


section \<open>The chain\<close>

text \<open>What the collection of a chain adds to the new node, with the deltas of newer nodes in the queue.\<close>

definition collected ::
  "node_id \<Rightarrow> key_node_id \<Rightarrow> inner_chain \<Rightarrow> inner_data list \<Rightarrow> key_node_id list \<Rightarrow> bool" where
  "collected low_id high c q L \<longleftrightarrow> sep_sorted L
     \<and> set L = {e \<in> seps c. below_high (fst e) high \<and> snd e \<noteq> low_id \<and> fst e \<notin> idn_key ` set q}
         \<union> idn_item ` {x \<in> set q. idn_insert x \<and> below_high (idn_key x) high}"

definition collect_result ::
  "node_id \<Rightarrow> key_node_id \<Rightarrow> inner_chain \<Rightarrow> inner_data sorted_small_set \<Rightarrow> key_node_id list \<Rightarrow> collect_seps option \<Rightarrow> bool" where
  "collect_result low_id high c s out res \<longleftrightarrow> (\<exists>s' L. res = Some (s', out @ L) \<and> sss_inv s' \<and> sss_room s - inner_depth c \<le> sss_room s'
     \<and> sss_contents s' = filter (\<lambda>x. \<not> below_high (idn_key x) high) (sss_contents s) \<and> collected low_id high c (sss_contents s) L)"

lemma collect_delta_step:
  assumes s: "sss_inv s" "inner_depth child < sss_room s" "sorted_wrt inner_data_less (sss_contents s)"
    and x: "below_high (idn_key x) high"
    and seps: "\<And>e. fst e \<noteq> idn_key x \<Longrightarrow> e \<in> seps c \<longleftrightarrow> e \<in> seps child"
      "\<And>e. fst e = idn_key x \<Longrightarrow> e \<in> seps c \<and> snd e \<noteq> low_id \<longleftrightarrow> idn_insert x \<and> e = idn_item x"
    and depth: "inner_depth c = inner_depth child + 1"
    and step: "\<And>s1. sss_inv s1 \<Longrightarrow> inner_depth child \<le> sss_room s1 \<Longrightarrow> sorted_wrt inner_data_less (sss_contents s1)
      \<Longrightarrow> collect_result low_id high child s1 out (f s1)"
  shows "collect_result low_id high c s out (sss_Insert inner_data_less inner_data_equal x s \<bind> f)"
proof -
  obtain s1 where s1: "sss_Insert inner_data_less inner_data_equal x s = Some s1" "sss_inv s1" "sss_room s - 1 \<le> sss_room s1"
      "sorted_wrt inner_data_less (sss_contents s1)"
      "set (sss_contents s1) = (if idn_key x \<in> idn_key ` set (sss_contents s) then set (sss_contents s) else insert x (set (sss_contents s)))"
      "\<forall>P. \<not> P x \<longrightarrow> filter P (sss_contents s1) = filter P (sss_contents s)"
    using collect_insert [OF s(1) _ s(3), of x] s(2) by force
  obtain s' L where L: "f s1 = Some (s', out @ L)" "sss_inv s'" "sss_room s1 - inner_depth child \<le> sss_room s'"
      "sss_contents s' = filter (\<lambda>x. \<not> below_high (idn_key x) high) (sss_contents s1)" "sep_sorted L"
      "set L = {e \<in> seps child. below_high (fst e) high \<and> snd e \<noteq> low_id \<and> fst e \<notin> idn_key ` set (sss_contents s1)}
         \<union> idn_item ` {x \<in> set (sss_contents s1). idn_insert x \<and> below_high (idn_key x) high}"
    using step [OF s1(2) _ s1(4)] s1(3) s(2) unfolding collect_result_def collected_def by force
  have "set L = {e \<in> seps c. below_high (fst e) high \<and> snd e \<noteq> low_id \<and> fst e \<notin> idn_key ` set (sss_contents s)}
         \<union> idn_item ` {x \<in> set (sss_contents s). idn_insert x \<and> below_high (idn_key x) high}"
  proof (cases "idn_key x \<in> idn_key ` set (sss_contents s)")
    case True
    then have "{e \<in> seps child. below_high (fst e) high \<and> snd e \<noteq> low_id \<and> fst e \<notin> idn_key ` set (sss_contents s)}
        = {e \<in> seps c. below_high (fst e) high \<and> snd e \<noteq> low_id \<and> fst e \<notin> idn_key ` set (sss_contents s)}"
      using seps(1) by (intro Collect_cong) metis
    then show ?thesis unfolding L(6) using True s1(5) by simp
  next
    case False
    have "{e \<in> seps c. below_high (fst e) high \<and> snd e \<noteq> low_id \<and> fst e \<notin> idn_key ` set (sss_contents s)}
        = {e \<in> seps child. below_high (fst e) high \<and> snd e \<noteq> low_id \<and> fst e \<notin> idn_key ` set (sss_contents s1)} \<union> {e. e = idn_item x \<and> idn_insert x}"
      (is "?A = ?B")
    proof (rule set_eqI)
      fix e
      show "e \<in> ?A \<longleftrightarrow> e \<in> ?B"
        using seps(1) [of e] seps(2) [of e] False x s1(5) by (cases "fst e = idn_key x") auto
    qed
    moreover have "{y \<in> set (sss_contents s1). idn_insert y \<and> below_high (idn_key y) high}
        = {y \<in> set (sss_contents s). idn_insert y \<and> below_high (idn_key y) high} \<union> {y. y = x \<and> idn_insert x}"
      using False s1(5) x by auto
    ultimately show ?thesis unfolding L(6) by auto
  qed
  moreover have "filter (\<lambda>x. \<not> below_high (idn_key x) high) (sss_contents s1) = filter (\<lambda>x. \<not> below_high (idn_key x) high) (sss_contents s)"
    using s1(6) x by simp
  ultimately show ?thesis using s1(1,3) L(1-5) depth unfolding collect_result_def collected_def by (auto intro!: exI [of _ s'] exI [of _ L])
qed


lemma collected_merge_inner:
  assumes ok: "inner_ok (InnerMergeNode delete_item right_merge child)"
    and L1: "collected low_id (inner_high child) child q L1"
    and L2: "collected low_id high right_merge (filter (\<lambda>x. \<not> below_high (idn_key x) (inner_high child)) q) L2"
    and high: "high = inner_high right_merge"
  shows "collected low_id high (InnerMergeNode delete_item right_merge child) q (L1 @ L2)"
proof -
  note sides = merge_left_right [OF ok]
  have eq: "below_high k (inner_high child) \<longleftrightarrow> ds_bulk_less k (fst delete_item)" for k using ok by (auto simp: below_high_def)
  have "below_high (fst (inner_low right_merge)) high" using ok high inner_below [OF _ inner_low_sep, of right_merge] by simp
  then have del: "below_high (fst delete_item) high" using ok by simp
  have up: "below_high k high" if "ds_bulk_less k (fst delete_item)" for k using del that key_asym below_high_mono by blast
  have l1: "ds_bulk_less (fst e) (fst delete_item)" if "e \<in> set L1" for e using L1 that by (auto simp: collected_def eq)
  have l2: "\<not> ds_bulk_less (fst e) (fst delete_item)" if "e \<in> set L2" for e
    using L2 that sides(2) [of e] by (auto simp: collected_def eq)
  have "sep_sorted L1" "sep_sorted L2" using L1 L2 by (simp_all add: collected_def)
  moreover have "\<forall>a\<in>set L1. \<forall>b\<in>set L2. ds_bulk_less (fst a) (fst b)" using l1 l2 key_less_le_trans by blast
  ultimately have "sep_sorted (L1 @ L2)" unfolding sorted_wrt_append by blast
  moreover have "set L1 \<union> set L2 = {e \<in> seps (InnerMergeNode delete_item right_merge child). below_high (fst e) high \<and> snd e \<noteq> low_id \<and> fst e \<notin> idn_key ` set q}
         \<union> idn_item ` {x \<in> set q. idn_insert x \<and> below_high (idn_key x) high}"
  proof -
    have "{e \<in> seps right_merge. below_high (fst e) high \<and> snd e \<noteq> low_id \<and> fst e \<notin> idn_key ` {x \<in> set q. \<not> ds_bulk_less (idn_key x) (fst delete_item)}}
        = {e \<in> seps right_merge. below_high (fst e) high \<and> snd e \<noteq> low_id \<and> fst e \<notin> idn_key ` set q}"
      using sides(2) by (auto simp: image_iff)
    moreover have "{e \<in> seps child. ds_bulk_less (fst e) (fst delete_item) \<and> snd e \<noteq> low_id \<and> fst e \<notin> idn_key ` set q}
        = {e \<in> seps child. below_high (fst e) high \<and> snd e \<noteq> low_id \<and> fst e \<notin> idn_key ` set q}"
      using sides(1) up by auto
    moreover have "{x \<in> set q. idn_insert x \<and> ds_bulk_less (idn_key x) (fst delete_item)}
        \<union> {x \<in> {x \<in> set q. \<not> ds_bulk_less (idn_key x) (fst delete_item)}. idn_insert x \<and> below_high (idn_key x) high}
        = {x \<in> set q. idn_insert x \<and> below_high (idn_key x) high}"
      using up by auto
    moreover have "set L1 \<union> set L2 =
        {e \<in> seps child. ds_bulk_less (fst e) (fst delete_item) \<and> snd e \<noteq> low_id \<and> fst e \<notin> idn_key ` set q}
        \<union> {e \<in> seps right_merge. below_high (fst e) high \<and> snd e \<noteq> low_id \<and> fst e \<notin> idn_key ` {x \<in> set q. \<not> ds_bulk_less (idn_key x) (fst delete_item)}}
        \<union> idn_item ` ({x \<in> set q. idn_insert x \<and> ds_bulk_less (idn_key x) (fst delete_item)}
           \<union> {x \<in> {x \<in> set q. \<not> ds_bulk_less (idn_key x) (fst delete_item)}. idn_insert x \<and> below_high (idn_key x) high})"
      using L1 L2 unfolding collected_def eq set_filter image_Un by (simp add: Un_ac)
    ultimately show ?thesis by (simp only: seps.simps) auto
  qed
  ultimately show ?thesis by (simp add: collected_def)
qed

lemma collect_law:
  "inner_ok c \<Longrightarrow> high = inner_high c \<or> (\<exists>l h d. c = InnerNode l h d) \<and> below_high (fst (inner_low c)) high
   \<Longrightarrow> low_id = snd (inner_low c) \<or> low_id \<notin> node_ids c
   \<Longrightarrow> sss_inv s \<Longrightarrow> inner_depth c \<le> sss_room s \<Longrightarrow> sorted_wrt inner_data_less (sss_contents s)
   \<Longrightarrow> collect_result low_id high c s out (CollectAllSepsOnInnerRecursive low_id high c (s, out))"
proof (induction c arbitrary: high s out)
  case (InnerNode low h d)
  have "below_high (fst low) high" using InnerNode.prems(1,2) by auto
  then show ?case using merge_inner_law [OF InnerNode.prems(4,6,1), of high low_id out] InnerNode.prems(3)
    by (force simp: collect_result_def collected_def)
next
  case (InnerInsertNode item next_item loc child)
  have ok: "inner_ok child" and high: "high = inner_high child" and item: "below_high (fst item) (inner_high child)" "snd item \<notin> node_ids child"
    and "ds_bulk_less (fst (inner_low child)) (fst item)" "FindSeparator (snd (inner_low child)) (fst item) child = Some (None, loc)"
    using InnerInsertNode.prems(1,2) by auto
  then have new: "fst item \<notin> fst ` seps child" using FindSeparator_law [of child "fst item" "snd (inner_low child)"] by (auto simp: find_result_def)
  have "snd (inner_low child) \<in> node_ids child" using inner_low_sep [OF ok] seps_node_ids [of child] by auto
  then have id: "snd item \<noteq> low_id" using InnerInsertNode.prems(3) item(2) by auto
  have "collect_result low_id high (InnerInsertNode item next_item loc child) s out
      (sss_Insert inner_data_less inner_data_equal \<lparr>idn_insert = True, idn_item = item\<rparr> s
       \<bind> (\<lambda>s. CollectAllSepsOnInnerRecursive low_id high child (s, out)))"
  proof (rule collect_delta_step [where child = child])
    fix s1 :: "inner_data sorted_small_set" assume "sss_inv s1" "inner_depth child \<le> sss_room s1" "sorted_wrt inner_data_less (sss_contents s1)"
    then show "collect_result low_id high child s1 out (CollectAllSepsOnInnerRecursive low_id high child (s1, out))"
      by (intro InnerInsertNode.IH [OF ok]) (use high InnerInsertNode.prems(3) in auto)
  qed (use InnerInsertNode.prems high item id new in \<open>auto simp: image_iff\<close>)
  then show ?case by simp
next
  case (InnerDeleteNode item prev_item next_item loc child)
  have ok: "inner_ok child" and high: "high = inner_high child" and item: "below_high (fst item) (inner_high child)"
    using InnerDeleteNode.prems(1,2) by auto
  have "collect_result low_id high (InnerDeleteNode item prev_item next_item loc child) s out
      (sss_Insert inner_data_less inner_data_equal \<lparr>idn_insert = False, idn_item = item\<rparr> s
       \<bind> (\<lambda>s. CollectAllSepsOnInnerRecursive low_id high child (s, out)))"
  proof (rule collect_delta_step [where child = child])
    fix s1 :: "inner_data sorted_small_set" assume "sss_inv s1" "inner_depth child \<le> sss_room s1" "sorted_wrt inner_data_less (sss_contents s1)"
    then show "collect_result low_id high child s1 out (CollectAllSepsOnInnerRecursive low_id high child (s1, out))"
      by (intro InnerDeleteNode.IH [OF ok]) (use high InnerDeleteNode.prems(3) in auto)
  qed (use InnerDeleteNode.prems high item in auto)
  then show ?case by simp
next
  case (InnerSplitNode insert_item child n)
  then obtain low h d where c: "child = InnerNode low h d" by (cases child) auto
  have high: "high = insert_item" using InnerSplitNode.prems(2) by simp
  have "collect_result low_id high child s out (CollectAllSepsOnInnerRecursive low_id high child (s, out))"
    by (rule InnerSplitNode.IH) (use InnerSplitNode.prems c high in \<open>auto simp: below_high_def\<close>)
  moreover have "{e \<in> seps child. below_high (fst e) high \<and> snd e \<noteq> low_id \<and> fst e \<notin> idn_key ` set (sss_contents s)}
      = {e \<in> seps (InnerSplitNode insert_item child n). below_high (fst e) high \<and> snd e \<noteq> low_id \<and> fst e \<notin> idn_key ` set (sss_contents s)}"
    using InnerSplitNode.prems(1) high by (auto simp: below_high_def)
  ultimately show ?case by (simp add: collect_result_def collected_def)
next
  case (InnerMergeNode delete_item right_merge child)
  have ok: "inner_ok child" "inner_ok right_merge" and high: "high = inner_high right_merge" and ids: "node_ids child \<inter> node_ids right_merge = {}"
    and eq: "snd (inner_high child) \<noteq> INVALID_NODE_ID" "fst (inner_high child) = fst delete_item"
    using InnerMergeNode.prems(1,2) by auto
  have "snd (inner_low child) \<in> node_ids child" using inner_low_sep [OF ok(1)] seps_node_ids [of child] by auto
  then have right_id: "low_id \<notin> node_ids right_merge" using InnerMergeNode.prems(3) ids by auto
  have "collect_result low_id (inner_high child) child s out (CollectAllSepsOnInnerRecursive low_id (inner_high child) child (s, out))"
    by (rule InnerMergeNode.IH(2) [OF ok(1)]) (use InnerMergeNode.prems in auto)
  then obtain s1 L1 where L1: "CollectAllSepsOnInnerRecursive low_id (inner_high child) child (s, out) = Some (s1, out @ L1)" "sss_inv s1"
      "sss_room s - inner_depth child \<le> sss_room s1" "sss_contents s1 = filter (\<lambda>x. \<not> below_high (idn_key x) (inner_high child)) (sss_contents s)"
      "collected low_id (inner_high child) child (sss_contents s) L1"
    unfolding collect_result_def by blast
  have "collect_result low_id high right_merge s1 (out @ L1) (CollectAllSepsOnInnerRecursive low_id high right_merge (s1, out @ L1))"
    by (rule InnerMergeNode.IH(1) [OF ok(2)]) (use InnerMergeNode.prems(5,6) high right_id L1(2-4) in \<open>auto simp: sorted_wrt_filter\<close>)
  then obtain s2 L2 where L2: "CollectAllSepsOnInnerRecursive low_id high right_merge (s1, out @ L1) = Some (s2, (out @ L1) @ L2)" "sss_inv s2"
      "sss_room s1 - inner_depth right_merge \<le> sss_room s2" "sss_contents s2 = filter (\<lambda>x. \<not> below_high (idn_key x) high) (sss_contents s1)"
      "collected low_id high right_merge (sss_contents s1) L2"
    unfolding collect_result_def by blast
  have "below_high (fst (inner_low right_merge)) high" using inner_below [OF ok(2) inner_low_sep [OF ok(2)]] high by simp
  then have del: "below_high (fst delete_item) high" using InnerMergeNode.prems(1) by simp
  have "\<not> below_high k high \<Longrightarrow> \<not> below_high k (inner_high child)" for k
    using del eq key_asym below_high_mono unfolding below_high_def by metis
  then have "sss_contents s2 = filter (\<lambda>x. \<not> below_high (idn_key x) high) (sss_contents s)"
    unfolding L2(4) L1(4) by (auto intro!: filter_cong)
  moreover have "collected low_id high (InnerMergeNode delete_item right_merge child) (sss_contents s) (L1 @ L2)"
    by (rule collected_merge_inner [OF InnerMergeNode.prems(1) L1(5) _ high]) (use L1(4) L2(5) in simp)
  moreover have "sss_room s - inner_depth (InnerMergeNode delete_item right_merge child) \<le> sss_room s2" using L1(3) L2(3) by simp
  ultimately show ?case using L1(1) L2(1,2) high unfolding collect_result_def by (intro exI [of _ s2] exI [of _ "L1 @ L2"]) simp
qed simp_all


lemma SortedSmallSet_empty: "sss_inv (SortedSmallSet n)" "sss_contents (SortedSmallSet n) = []" "sss_room (SortedSmallSet n) = n"
  by (simp_all add: SortedSmallSet_def sss_inv_def sss_contents_def)

lemma sep_sorted_distinct: "sep_sorted d \<Longrightarrow> distinct d"
  by (induction d) (auto simp: key_irrefl)

lemma CollectAllSepsOnInner_law:
  assumes ok: "inner_ok c"
  shows "\<exists>d. CollectAllSepsOnInner c = Some (InnerNode (inner_low c) (inner_high c) d) \<and> inner_ok (InnerNode (inner_low c) (inner_high c) d) \<and> set d = seps c"
proof -
  let ?s = "SortedSmallSet (inner_depth c) :: inner_data sorted_small_set" and ?low = "inner_low c"
  have "collect_result (snd ?low) (inner_high c) c ?s [?low] (CollectAllSepsOnInnerRecursive (snd ?low) (inner_high c) c (?s, [?low]))"
    by (rule collect_law [OF ok]) (simp_all add: SortedSmallSet_empty)
  then obtain s' L where L: "CollectAllSepsOnInnerRecursive (snd ?low) (inner_high c) c (?s, [?low]) = Some (s', [?low] @ L)" "sep_sorted L"
      "set L = {e \<in> seps c. below_high (fst e) (inner_high c) \<and> snd e \<noteq> snd ?low}"
    by (auto simp: collect_result_def collected_def SortedSmallSet_empty)
  note low = inner_low_sep [OF ok]
  have "snd e = snd ?low \<longleftrightarrow> e = ?low" if "e \<in> seps c" for e using inner_ids [OF ok] low that by (auto dest: inj_onD)
  then have rest: "set L = seps c - {?low}" unfolding L(3) using inner_below [OF ok] by blast
  have all: "set (?low # L) = seps c" unfolding list.set(2) rest using low by blast
  have "ds_bulk_less (fst ?low) (fst e)" if "e \<in> set L" for e
  proof -
    have "e \<in> seps c" "e \<noteq> ?low" using that unfolding rest by blast+
    then have "fst e \<noteq> fst ?low" "\<not> ds_bulk_less (fst e) (fst ?low)"
      using inner_keys [OF ok] low inner_low_le [OF ok] by (auto dest: inj_onD)
    then show ?thesis using key_total by blast
  qed
  then have sorted: "sep_sorted (?low # L)" using L(2) by simp
  then have "distinct (?low # L)" by (rule sep_sorted_distinct)
  then have dist: "length (?low # L) = card (seps c)" "distinct (map snd (?low # L))"
    using inner_ids [OF ok] all distinct_card [of "?low # L"] by (simp_all only: distinct_map simp_thms)
  have new: "inner_ok (InnerNode ?low (inner_high c) (?low # L))"
    using sorted dist(2) inner_bounds [OF ok] unfolding inner_ok.simps all by simp
  have "CollectAllSepsOnInner c = Some (InnerNode ?low (inner_high c) (?low # L))"
    using L(1) dist(1) inner_count_law [OF ok] by (simp add: CollectAllSepsOnInner_def)
  then show ?thesis using new all by blast
qed

lemma sep_at_unique: "inj_on fst S \<Longrightarrow> sep_at k S s \<Longrightarrow> sep_at k S t \<Longrightarrow> s = t"
  using key_total unfolding sep_at_def by (metis inj_onD)

lemma same_seps_search:
  assumes "inner_ok c" "inner_ok c'" "\<not> ds_bulk_less k (fst (inner_low c))" "below_high k (inner_high c)"
    and "\<not> ds_bulk_less k (fst (inner_low c'))" "below_high k (inner_high c')"
    and "\<And>s. s \<in> seps c' \<Longrightarrow> s \<in> seps c" "\<And>s. sep_at k (seps c) s \<Longrightarrow> s \<in> seps c'"
  shows "NavigateInnerNode k c' = NavigateInnerNode k c"
proof -
  obtain s where s: "NavigateInnerNode k c = Some (snd s)" "sep_at k (seps c) s" using inner_search_law [OF assms(1,3,4)] by blast
  obtain s' where s': "NavigateInnerNode k c' = Some (snd s')" "sep_at k (seps c') s'" using inner_search_law [OF assms(2,5,6)] by blast
  have "sep_at k (seps c') s" using s(2) assms(7,8) unfolding sep_at_def by blast
  then have "s = s'" using sep_at_unique [OF inner_keys [OF assms(2)]] s'(2) by blast
  then show ?thesis using s(1) s'(1) by simp
qed

section \<open>Splitting a node\<close>

definition INNER_NODE_SIZE_UPPER_THRESHOLD :: nat where
  "INNER_NODE_SIZE_UPPER_THRESHOLD = 128"

definition inner_GetSplitSibling :: "key_node_id \<Rightarrow> key_node_id list \<Rightarrow> inner_chain option" where
  "inner_GetSplitSibling high d =
     (if 2 \<le> length d then Some (InnerNode (d ! (length d div 2)) high (drop (length d div 2) d)) else None)"

text \<open>
  \<open>AdjustNodeSize\<close> on an inner node that has become too large: the node with the split delta, and the sibling with the new id; nothing when the first
  child of the sibling is being removed.
\<close>

definition split_inner :: "bool \<Rightarrow> node_id \<Rightarrow> inner_chain \<Rightarrow> (inner_chain \<times> inner_chain) option option" where
  "split_inner child_removed new_node_id node =
     (case node of
        InnerNode low high d \<Rightarrow>
          if INNER_NODE_SIZE_UPPER_THRESHOLD \<le> length d then do {
            sibling \<leftarrow> inner_GetSplitSibling high d;
            Some (if child_removed then None
                  else Some (InnerSplitNode (fst (inner_low sibling), new_node_id) node (nat (inner_count sibling)), sibling))
          }
          else Some None
      | _ \<Rightarrow> Some None)"

lemma split_inner_law:
  assumes ok: "inner_ok (InnerNode low high d)" and size: "INNER_NODE_SIZE_UPPER_THRESHOLD \<le> length d" and id: "new_node_id \<noteq> INVALID_NODE_ID"
  defines "m \<equiv> length d div 2"
  shows "split_inner False new_node_id (InnerNode low high d)
     = Some (Some (InnerSplitNode (fst (d ! m), new_node_id) (InnerNode low high d) (length d - m), InnerNode (d ! m) high (drop m d)))"
    and "inner_ok (InnerSplitNode (fst (d ! m), new_node_id) (InnerNode low high d) (length d - m))"
    and "inner_ok (InnerNode (d ! m) high (drop m d))"
    and "seps (InnerSplitNode (fst (d ! m), new_node_id) (InnerNode low high d) (length d - m)) = set (take m d)"
proof -
  have m: "0 < m" "m < length d" "2 \<le> length d" using size by (simp_all add: m_def INNER_NODE_SIZE_UPPER_THRESHOLD_def)
  have d: "sep_sorted d" "distinct (map snd d)" "low = d ! 0" using ok by (auto simp: hd_conv_nth)
  show "split_inner False new_node_id (InnerNode low high d)
     = Some (Some (InnerSplitNode (fst (d ! m), new_node_id) (InnerNode low high d) (length d - m), InnerNode (d ! m) high (drop m d)))"
    using size m(3) by (simp add: split_inner_def inner_GetSplitSibling_def m_def)
  show "inner_ok (InnerNode (d ! m) high (drop m d))"
    using ok m by (auto simp: hd_drop_conv_nth sorted_wrt_drop drop_map [symmetric] simp del: drop_map dest: in_set_dropD)
  have nth: "ds_bulk_less (fst (d ! i)) (fst (d ! j))" if "i < j" "j < length d" for i j
    using sorted_wrt_nth_less [OF d(1) that] .
  have less: "ds_bulk_less (fst (d ! i)) (fst (d ! m)) \<longleftrightarrow> i < m" if "i < length d" for i
    using nth [of i m] nth [of m i] that m key_asym key_irrefl by (metis linorder_neqE_nat)
  have filters: "filter (\<lambda>s. ds_bulk_less (fst s) (fst (d ! m))) d = take m d" "filter (\<lambda>s. \<not> ds_bulk_less (fst s) (fst (d ! m))) d = drop m d"
  proof -
    have "\<forall>s\<in>set (take m d). ds_bulk_less (fst s) (fst (d ! m))" using less m unfolding all_set_conv_all_nth by simp
    moreover have "\<forall>s\<in>set (drop m d). \<not> ds_bulk_less (fst s) (fst (d ! m))" using less unfolding all_set_conv_all_nth by simp
    ultimately have "filter (\<lambda>s. ds_bulk_less (fst s) (fst (d ! m))) (take m d @ drop m d) = take m d"
        "filter (\<lambda>s. \<not> ds_bulk_less (fst s) (fst (d ! m))) (take m d @ drop m d) = drop m d"
      unfolding filter_append by (simp_all add: filter_id_conv filter_empty_conv)
    then show "filter (\<lambda>s. ds_bulk_less (fst s) (fst (d ! m))) d = take m d" "filter (\<lambda>s. \<not> ds_bulk_less (fst s) (fst (d ! m))) d = drop m d"
      unfolding append_take_drop_id by simp_all
  qed
  show "inner_ok (InnerSplitNode (fst (d ! m), new_node_id) (InnerNode low high d) (length d - m))"
    using ok id m nth [of 0 m] d(3) filters(2) by simp
  show "seps (InnerSplitNode (fst (d ! m), new_node_id) (InnerNode low high d) (length d - m)) = set (take m d)"
    using arg_cong [OF filters(1), of set] by simp
qed


section \<open>Properties\<close>

text \<open>
  C12. Consolidation of an inner chain gives a base node with the same range whose separators are those of the chain, sorted; a search for a key of
  the range finds the same child in it. The array for the deltas has room for all of them, and the assertion on the number of separators
  holds.
\<close>

theorem inner_consolidation_exact:
  assumes "inner_ok c"
  shows "\<exists>d. CollectAllSepsOnInner c = Some (InnerNode (inner_low c) (inner_high c) d) \<and> sep_sorted d \<and> set d = seps c
    \<and> inner_ok (InnerNode (inner_low c) (inner_high c) d)
    \<and> (\<forall>k. \<not> ds_bulk_less k (fst (inner_low c)) \<and> below_high k (inner_high c)
         \<longrightarrow> NavigateInnerNode k (InnerNode (inner_low c) (inner_high c) d) = NavigateInnerNode k c)"
proof -
  obtain d where d: "CollectAllSepsOnInner c = Some (InnerNode (inner_low c) (inner_high c) d)" "inner_ok (InnerNode (inner_low c) (inner_high c) d)" "set d = seps c"
    using CollectAllSepsOnInner_law [OF assms] by blast
  have "NavigateInnerNode k (InnerNode (inner_low c) (inner_high c) d) = NavigateInnerNode k c"
    if "\<not> ds_bulk_less k (fst (inner_low c))" "below_high k (inner_high c)" for k
    by (rule same_seps_search [OF assms d(2) that]) (use that d(3) in \<open>auto simp: sep_at_def\<close>)
  then show ?thesis using d by auto
qed

theorem inner_consolidation_exact_witness:
  "\<exists>d. CollectAllSepsOnInner sample_inner = Some (InnerNode ([], 2) ([], INVALID_NODE_ID) d) \<and> set d = seps sample_inner
     \<and> d = [([], 2), ([3], 6), ([5], 4), ([12], 10)]"
proof -
  have "CollectAllSepsOnInner sample_inner = Some (InnerNode ([], 2) ([], INVALID_NODE_ID) [([], 2), ([3], 6), ([5], 4), ([12], 10)])" by code_simp
  then show ?thesis using inner_consolidation_exact [OF sample_inner_ok(1)] unfolding sample_inner_ok(2,3) by auto
qed

text \<open>
  A split of an inner node that has become too large leaves two nodes, with the separators below the split key and those from it on, and every key
  of the range has the same child as before, in the half that the high key of the left one sends it to.
\<close>

theorem inner_split_keeps:
  assumes "inner_ok (InnerNode low high d)" "INNER_NODE_SIZE_UPPER_THRESHOLD \<le> length d" "new_node_id \<noteq> INVALID_NODE_ID"
    and "\<not> ds_bulk_less k (fst low)" "below_high k high"
  shows "\<exists>left right. split_inner False new_node_id (InnerNode low high d) = Some (Some (left, right)) \<and> inner_ok left \<and> inner_ok right
    \<and> inner_low left = low \<and> inner_high left = (fst (inner_low right), new_node_id) \<and> inner_high right = high
    \<and> seps left \<union> seps right = set d \<and> inner_count left + inner_count right = int (length d)
    \<and> NavigateInnerNode k (if below_high k (inner_high left) then left else right) = NavigateInnerNode k (InnerNode low high d)"
proof -
  define m where "m = length d div 2"
  let ?left = "InnerSplitNode (fst (d ! m), new_node_id) (InnerNode low high d) (length d - m)" and ?right = "InnerNode (d ! m) high (drop m d)"
  note law = split_inner_law [OF assms(1,2,3), folded m_def]
  have m: "m \<le> length d" by (simp add: m_def)
  have halves: "set (take m d) \<union> set (drop m d) = set d" by (metis append_take_drop_id set_append)
  have "NavigateInnerNode k (if below_high k (inner_high ?left) then ?left else ?right) = NavigateInnerNode k (InnerNode low high d)"
  proof (cases "ds_bulk_less k (fst (d ! m))")
    case True
    have "s \<in> seps ?left" if "sep_at k (set d) s" for s
      using that key_le_less_trans [OF _ True, of "fst s"] by (simp add: sep_at_def)
    then have "NavigateInnerNode k ?left = NavigateInnerNode k (InnerNode low high d)"
      by (intro same_seps_search [OF assms(1) law(2)]) (use assms(4,5) True in \<open>simp_all add: below_high_def\<close>)
    then show ?thesis using True by (simp add: below_high_def)
  next
    case False
    have mid: "d ! m \<in> set d" using assms(2) by (auto simp: m_def INNER_NODE_SIZE_UPPER_THRESHOLD_def intro!: nth_mem)
    have "s \<in> set (drop m d)" if "sep_at k (set d) s" for s
    proof (rule ccontr)
      assume "s \<notin> set (drop m d)"
      then have "s \<in> seps ?left" using that halves law(4) by (auto simp: sep_at_def)
      then have "ds_bulk_less (fst s) (fst (d ! m))" by simp
      then show False using that mid False by (auto simp: sep_at_def)
    qed
    then have "NavigateInnerNode k ?right = NavigateInnerNode k (InnerNode low high d)"
      by (intro same_seps_search [OF assms(1) law(3)]) (use assms(4,5) False in \<open>auto dest: in_set_dropD\<close>)
    then show ?thesis using False assms(3) by (simp add: below_high_def)
  qed
  moreover have "seps ?left \<union> seps ?right = set d" unfolding law(4) using halves by simp
  moreover have "inner_count ?left + inner_count ?right = int (length d)" using m by (simp add: of_nat_diff)
  moreover have "inner_low ?left = low" "inner_high ?left = (fst (inner_low ?right), new_node_id)" "inner_high ?right = high" by simp_all
  ultimately show ?thesis using law(1-3) by blast
qed

end
