(* ===== verification/Bwtree_Tree.thy ===== *)
theory Bwtree_Tree
  imports Bwtree_Leaf_Level Bwtree_Inner_Consolidate
begin

text \<open>
  The whole BwTree of BwTree/src/bwtree.h: the inner nodes above the leaves, the traversal from the root to a leaf, and what inserting, deleting, looking
  up, consolidating and splitting do, each as one step. Nodes are not removed here; \<open>Bwtree_Leaf_Level\<close> has the merges of leaves.
\<close>

section \<open>The tree\<close>

text \<open>The mapping table, in two parts for the two kinds of nodes; ids are taken from the one counter of the leaves.\<close>

record bw_tree =
  leaves :: leaf_level
  inner_nodes :: "node_id \<Rightarrow> inner_chain option"
  root_id :: node_id

definition GetInnerNode :: "bw_tree \<Rightarrow> node_id \<Rightarrow> inner_chain option" where
  "GetInnerNode t i = (if i \<noteq> INVALID_NODE_ID \<and> i < MAPPING_TABLE_SIZE then inner_nodes t i else None)"

text \<open>A reader looks below an abort delta and gives up on a remove delta.\<close>

fun FinishPartialSMOReadOptimized :: "inner_chain \<Rightarrow> inner_chain option" where
  "FinishPartialSMOReadOptimized (InnerAbortNode child) = FinishPartialSMOReadOptimized child"
| "FinishPartialSMOReadOptimized (InnerRemoveNode i child) = None"
| "FinishPartialSMOReadOptimized c = Some c"

definition LoadNodeIDReadOptimized :: "bw_tree \<Rightarrow> node_id \<Rightarrow> inner_chain option" where
  "LoadNodeIDReadOptimized t i = do { c \<leftarrow> GetInnerNode t i; FinishPartialSMOReadOptimized c }"

partial_function (option) NavigateInnerSiblings :: "bulk \<Rightarrow> bw_tree \<Rightarrow> node_id \<Rightarrow> inner_chain option" where
  "NavigateInnerSiblings k t i = do {
     c \<leftarrow> LoadNodeIDReadOptimized t i;
     if snd (inner_high c) \<noteq> INVALID_NODE_ID \<and> \<not> ds_bulk_less k (fst (inner_high c))
     then NavigateInnerSiblings k t (snd (inner_high c))
     else Some c
   }"

text \<open>The loop of the traversal, up to the leaf at which it arrives.\<close>

partial_function (option) TraverseReadOptimized_loop :: "bulk \<Rightarrow> bw_tree \<Rightarrow> node_id \<Rightarrow> node_id option" where
  "TraverseReadOptimized_loop k t i = do {
     c \<leftarrow> NavigateInnerSiblings k t i;
     child \<leftarrow> NavigateInnerNode k c;
     if inner_nodes t child \<noteq> None then TraverseReadOptimized_loop k t child else Some child
   }"

definition TraverseReadOptimized :: "bulk \<Rightarrow> bw_tree \<Rightarrow> node_id option" where
  "TraverseReadOptimized k t = TraverseReadOptimized_loop k t (root_id t)"

text \<open>
  The traversal of \<open>Insert\<close> and \<open>Delete\<close> has the same loop. What it does besides when it loads a node, which is to finish a split, to consolidate
  the node and to adjust its size, are steps of their own below.
\<close>

definition Traverse :: "bulk \<Rightarrow> bw_tree \<Rightarrow> node_id option" where
  "Traverse k t = TraverseReadOptimized_loop k t (root_id t)"

definition tree_Insert :: "bulk \<Rightarrow> bulk \<Rightarrow> bw_tree \<Rightarrow> (bw_tree \<times> bool) option" where
  "tree_Insert k v t = do {
     i \<leftarrow> Traverse k t;
     (l, r) \<leftarrow> level_Insert k v i (leaves t);
     Some (t\<lparr>leaves := l\<rparr>, r)
   }"

definition tree_Delete :: "bulk \<Rightarrow> bulk \<Rightarrow> bw_tree \<Rightarrow> (bw_tree \<times> bool) option" where
  "tree_Delete k v t = do {
     i \<leftarrow> Traverse k t;
     (l, r) \<leftarrow> level_Delete k v i (leaves t);
     Some (t\<lparr>leaves := l\<rparr>, r)
   }"

definition tree_GetValue :: "(bulk \<Rightarrow> 64 word) \<Rightarrow> bulk \<Rightarrow> bw_tree \<Rightarrow> bulk list option" where
  "tree_GetValue hash k t = do {
     i \<leftarrow> TraverseReadOptimized k t;
     level_GetValue hash k i (leaves t)
   }"

text \<open>The constructor: a root with one child, the empty leaf.\<close>

definition InitTree :: "bw_tree option" where
  "InitTree = do {
     l \<leftarrow> InitNodeLayout;
     Some \<lparr>leaves = l, inner_nodes = [1 \<mapsto> InnerNode ([], FIRST_LEAF_NODE_ID) ([], INVALID_NODE_ID) [([], FIRST_LEAF_NODE_ID)]], root_id = 1\<rparr>
   }"

section \<open>Structure modifications\<close>

definition install_inner :: "node_id \<Rightarrow> inner_chain \<Rightarrow> bw_tree \<Rightarrow> bw_tree option" where
  "install_inner i c t =
     (if i \<noteq> INVALID_NODE_ID \<and> i < MAPPING_TABLE_SIZE then Some (t\<lparr>inner_nodes := (inner_nodes t)(i \<mapsto> c)\<rparr>) else None)"

definition ConsolidateInnerNode :: "node_id \<Rightarrow> bw_tree \<Rightarrow> bw_tree option" where
  "ConsolidateInnerNode i t = do {
     c \<leftarrow> GetInnerNode t i;
     new \<leftarrow> CollectAllSepsOnInner c;
     install_inner i new t
   }"

text \<open>A new inner node is written to the table before the split delta.\<close>

definition split_inner_node :: "node_id \<Rightarrow> bw_tree \<Rightarrow> bw_tree option" where
  "split_inner_node i t = do {
     c \<leftarrow> GetInnerNode t i;
     let (new_id, l) = GetNextNodeID (leaves t);
     adjusted \<leftarrow> split_inner False new_id c;
     case adjusted of
       None \<Rightarrow> Some t
     | Some (node, sibling) \<Rightarrow> do {
         t \<leftarrow> install_inner new_id sibling (t\<lparr>leaves := l\<rparr>);
         install_inner i node t
       }
   }"

text \<open>\<open>FinishPartialSMO\<close> on a root with a split delta: a new root above the two halves.\<close>

definition split_root :: "bw_tree \<Rightarrow> bw_tree option" where
  "split_root t = do {
     c \<leftarrow> GetInnerNode t (root_id t);
     case c of
       InnerSplitNode insert_item child n \<Rightarrow> do {
         let (new_root_id, l) = GetNextNodeID (leaves t);
         t \<leftarrow> install_inner new_root_id
           (InnerNode ([], root_id t) ([], INVALID_NODE_ID) [([], root_id t), insert_item]) (t\<lparr>leaves := l\<rparr>);
         Some (t\<lparr>root_id := new_root_id\<rparr>)
       }
     | _ \<Rightarrow> Some t
   }"

text \<open>
  \<open>FinishPartialSMO\<close> on another node with a split delta: the split item goes to the parent \<open>p\<close>, unless it is out of its range or the parent has
  it already.
\<close>

definition finish_split :: "node_id \<Rightarrow> key_node_id \<Rightarrow> key_node_id \<Rightarrow> bw_tree \<Rightarrow> bw_tree option" where
  "finish_split p insert_item next_item t = do {
     c \<leftarrow> GetInnerNode t p;
     if snd (inner_high c) \<noteq> INVALID_NODE_ID \<and> \<not> ds_bulk_less (fst insert_item) (fst (inner_high c)) then Some t
     else do {
       (found, loc) \<leftarrow> FindSeparator (snd (inner_low c)) (fst insert_item) c;
       case found of
         Some _ \<Rightarrow> Some t
       | None \<Rightarrow> install_inner p (InnerInsertNode insert_item next_item loc c) t
     }
   }"

section \<open>Invariant\<close>

text \<open>
  Inner nodes have levels. The child of a separator is a node of the level below, a leaf below level 1, that does not begin to the right
  of the separator; the high key of a node leads to the node of the same level that begins there.
\<close>

definition child_ok :: "bw_tree \<Rightarrow> (node_id \<Rightarrow> nat) \<Rightarrow> nat \<Rightarrow> key_node_id \<Rightarrow> bool" where
  "child_ok t lvl n s \<longleftrightarrow>
     (if n = 1 then inner_nodes t (snd s) = None \<and> (\<forall>k. \<not> ds_bulk_less k (fst s) \<longrightarrow> starts_at (leaves t) k (snd s))
      else \<exists>c. inner_nodes t (snd s) = Some c \<and> lvl (snd s) + 1 = n \<and> \<not> ds_bulk_less (fst s) (fst (inner_low c)))"

definition inner_at :: "bw_tree \<Rightarrow> (node_id \<Rightarrow> nat) \<Rightarrow> node_id \<Rightarrow> inner_chain \<Rightarrow> bool" where
  "inner_at t lvl i c \<longleftrightarrow> inner_ok c \<and> i \<noteq> INVALID_NODE_ID \<and> i < next_unused_node_id (leaves t) \<and> mapping_table (leaves t) i = None \<and> 0 < lvl i
     \<and> (\<forall>s\<in>seps c. child_ok t lvl (lvl i) s)
     \<and> (snd (inner_high c) \<noteq> INVALID_NODE_ID \<longrightarrow>
          (\<exists>c'. inner_nodes t (snd (inner_high c)) = Some c' \<and> lvl (snd (inner_high c)) = lvl i \<and> fst (inner_low c') = fst (inner_high c)))"

definition leaves_ok :: "leaf_level \<Rightarrow> bool" where
  "leaves_ok l \<longleftrightarrow> (\<exists>ids. level_ids l ids) \<and> (\<forall>i c. mapping_table l i = Some c \<longrightarrow> merge_free c \<and> \<not> is_removed c)"

definition tree_ok :: "bw_tree \<Rightarrow> (node_id \<Rightarrow> nat) \<Rightarrow> bool" where
  "tree_ok t lvl \<longleftrightarrow> leaves_ok (leaves t) \<and> finite (dom (inner_nodes t))
     \<and> (\<exists>c. inner_nodes t (root_id t) = Some c \<and> fst (inner_low c) = [])
     \<and> (\<forall>i c. inner_nodes t i = Some c \<longrightarrow> inner_at t lvl i c)"

lemma empty_key_least: "\<not> ds_bulk_less k []"
  by (cases k) (simp_all add: ds_bulk_less_def)

lemma leaves_ok_bound: "leaves_ok l \<Longrightarrow> i < next_unused_node_id l \<Longrightarrow> i < MAPPING_TABLE_SIZE"
  by (auto simp: leaves_ok_def level_ids_def)

lemma load_inner:
  assumes "tree_ok t lvl" "inner_nodes t i = Some c"
  shows "LoadNodeIDReadOptimized t i = Some c" "GetInnerNode t i = Some c" "inner_at t lvl i c" "inner_ok c"
proof -
  show at: "inner_at t lvl i c" using assms by (auto simp: tree_ok_def)
  then show ok: "inner_ok c" by (simp add: inner_at_def)
  show g: "GetInnerNode t i = Some c" using assms at leaves_ok_bound by (auto simp: GetInnerNode_def inner_at_def tree_ok_def)
  show "LoadNodeIDReadOptimized t i = Some c" using g ok by (cases c) (auto simp: LoadNodeIDReadOptimized_def)
qed

section \<open>Traversal\<close>

text \<open>The walk to the right ends: every step goes to a node that begins further to the right.\<close>

definition nodes_right :: "bw_tree \<Rightarrow> bulk \<Rightarrow> node_id set" where
  "nodes_right t k = {i. \<exists>c. inner_nodes t i = Some c \<and> ds_bulk_less k (fst (inner_low c))}"

lemma NavigateInnerSiblings_law:
  assumes ok: "tree_ok t lvl"
  shows "inner_nodes t i = Some c \<Longrightarrow> \<not> ds_bulk_less k (fst (inner_low c))
    \<Longrightarrow> \<exists>j d. NavigateInnerSiblings k t i = Some d \<and> inner_nodes t j = Some d \<and> lvl j = lvl i \<and> \<not> ds_bulk_less k (fst (inner_low d)) \<and> below_high k (inner_high d)"
proof (induction "card (nodes_right t (fst (inner_low c)))" arbitrary: i c rule: less_induct)
  case less
  note load = load_inner [OF ok less.prems(1)]
  show ?case
  proof (cases "below_high k (inner_high c)")
    case True
    then have "NavigateInnerSiblings k t i = Some c" using load(1) by (subst NavigateInnerSiblings.simps) (auto simp: below_high_def)
    then show ?thesis using less.prems True by blast
  next
    case False
    let ?n = "snd (inner_high c)"
    have h: "?n \<noteq> INVALID_NODE_ID" "\<not> ds_bulk_less k (fst (inner_high c))" using False by (auto simp: below_high_def)
    obtain c' where c': "inner_nodes t ?n = Some c'" "lvl ?n = lvl i" "fst (inner_low c') = fst (inner_high c)"
      using load(3) h(1) by (auto simp: inner_at_def)
    have lt: "ds_bulk_less (fst (inner_low c)) (fst (inner_low c'))"
      using inner_below [OF load(4) inner_low_sep [OF load(4)]] h(1) c'(3) by (auto simp: below_high_def)
    have "nodes_right t (fst (inner_low c')) \<subseteq> nodes_right t (fst (inner_low c))"
      using key_trans [OF lt] by (auto simp: nodes_right_def)
    moreover have "?n \<in> nodes_right t (fst (inner_low c))" "?n \<notin> nodes_right t (fst (inner_low c'))"
      using c'(1) lt key_irrefl by (auto simp: nodes_right_def)
    ultimately have "nodes_right t (fst (inner_low c')) \<subset> nodes_right t (fst (inner_low c))" by blast
    moreover have "finite (nodes_right t (fst (inner_low c)))"
      using ok by (auto simp: tree_ok_def nodes_right_def dom_def elim!: rev_finite_subset)
    ultimately have "card (nodes_right t (fst (inner_low c'))) < card (nodes_right t (fst (inner_low c)))" by (rule psubset_card_mono [rotated])
    then have "\<exists>j d. NavigateInnerSiblings k t ?n = Some d \<and> inner_nodes t j = Some d \<and> lvl j = lvl ?n \<and> \<not> ds_bulk_less k (fst (inner_low d)) \<and> below_high k (inner_high d)"
      using less.hyps [OF _ c'(1)] c'(3) h(2) by simp
    moreover have "NavigateInnerSiblings k t i = NavigateInnerSiblings k t ?n"
      using load(1) h by (subst NavigateInnerSiblings.simps) simp
    ultimately show ?thesis using c'(2) by auto
  qed
qed

lemma TraverseReadOptimized_loop_law:
  assumes ok: "tree_ok t lvl"
  shows "inner_nodes t i = Some c \<Longrightarrow> \<not> ds_bulk_less k (fst (inner_low c)) \<Longrightarrow> \<exists>j. TraverseReadOptimized_loop k t i = Some j \<and> starts_at (leaves t) k j"
proof (induction "lvl i" arbitrary: i c rule: less_induct)
  case less
  obtain j d where d: "NavigateInnerSiblings k t i = Some d" "inner_nodes t j = Some d" "lvl j = lvl i"
      "\<not> ds_bulk_less k (fst (inner_low d))" "below_high k (inner_high d)"
    using NavigateInnerSiblings_law [OF ok less.prems] by blast
  note load = load_inner [OF ok d(2)]
  obtain s where s: "NavigateInnerNode k d = Some (snd s)" "s \<in> seps d" "\<not> ds_bulk_less k (fst s)"
    using inner_search_law [OF load(4) d(4,5)] by (auto simp: sep_at_def)
  have child: "child_ok t lvl (lvl i) s" "0 < lvl i" using load(3) s(2) d(3) by (auto simp: inner_at_def)
  have loop: "TraverseReadOptimized_loop k t i = (if inner_nodes t (snd s) \<noteq> None then TraverseReadOptimized_loop k t (snd s) else Some (snd s))"
    using d(1) s(1) by (subst TraverseReadOptimized_loop.simps) simp
  show ?case
  proof (cases "lvl i = 1")
    case True
    then show ?thesis using child s(3) loop by (auto simp: child_ok_def)
  next
    case False
    then obtain c' where c': "inner_nodes t (snd s) = Some c'" "lvl (snd s) + 1 = lvl i" "\<not> ds_bulk_less (fst s) (fst (inner_low c'))"
      using child by (auto simp: child_ok_def)
    have "\<not> ds_bulk_less k (fst (inner_low c'))" using s(3) c'(3) key_le_less_trans by blast
    then show ?thesis using less.hyps [OF _ c'(1)] c'(1,2) loop by auto
  qed
qed

lemma Traverse_law:
  assumes "tree_ok t lvl"
  shows "\<exists>j. TraverseReadOptimized k t = Some j \<and> starts_at (leaves t) k j"
  using assms TraverseReadOptimized_loop_law [OF assms, of "root_id t" _ k] empty_key_least
  by (auto simp: tree_ok_def TraverseReadOptimized_def)


section \<open>The operations on the leaves keep the tree\<close>

text \<open>What the inner nodes rely on in the leaves.\<close>

definition leaf_frame :: "leaf_level \<Rightarrow> leaf_level \<Rightarrow> bool" where
  "leaf_frame l l' \<longleftrightarrow> (\<forall>k i. starts_at l k i \<longrightarrow> starts_at l' k i)
     \<and> (\<forall>i. i < next_unused_node_id l \<longrightarrow> mapping_table l i = None \<longrightarrow> mapping_table l' i = None)
     \<and> next_unused_node_id l \<le> next_unused_node_id l'"

lemma tree_leaf_frame:
  assumes "tree_ok t lvl" "leaves_ok l'" "leaf_frame (leaves t) l'"
  shows "tree_ok (t\<lparr>leaves := l'\<rparr>) lvl"
proof -
  have "child_ok (t\<lparr>leaves := l'\<rparr>) lvl n s" if "child_ok t lvl n s" for n s
    using that assms(3) by (auto simp: child_ok_def leaf_frame_def split: if_splits)
  then have "inner_at (t\<lparr>leaves := l'\<rparr>) lvl i c" if "inner_at t lvl i c" for i c
    using that assms(3) by (auto simp: inner_at_def leaf_frame_def)
  then show ?thesis using assms(1,2) by (auto simp: tree_ok_def)
qed

lemma put_frame:
  assumes "InstallNodeToReplace j c' l = Some l'" "mapping_table l j = Some c" "GetLowKeyPair c' = GetLowKeyPair c" "\<not> is_removed c'" "merge_free c'"
    and "leaves_ok l" "level_ids l' ids"
  shows "leaf_frame l l'" "leaves_ok l'"
proof -
  have l': "l' = l\<lparr>mapping_table := (mapping_table l)(j \<mapsto> c')\<rparr>" using assms(1) by (simp add: InstallNodeToReplace_def split: if_splits)
  show "leaf_frame l l'" using assms(2-4) by (auto simp: leaf_frame_def l' starts_at_def GetNode_def split: option.splits if_splits)
  show "leaves_ok l'" using assms(4-7) by (auto simp: leaves_ok_def l')
qed

lemma leaf_frame_refl [simp]: "leaf_frame l l" by (simp add: leaf_frame_def)

lemma level_Insert_frame:
  assumes "leaves_ok l" "starts_at l k start"
  shows "\<exists>l'. level_Insert k v start l = Some (l', (k, v) \<notin> level_items l) \<and> leaves_ok l' \<and> leaf_frame l l' \<and> level_items l' = insert (k, v) (level_items l)"
proof -
  obtain ids where ids: "level_ids l ids" using assms(1) by (auto simp: leaves_ok_def)
  obtain l' where l': "level_Insert k v start l = Some (l', (k, v) \<notin> level_items l)" "level_ids l' ids" "level_items l' = insert (k, v) (level_items l)"
    using level_Insert_law [OF ids assms(2), of v] by blast
  obtain j c c' where c: "GetNode l j = Some c" "leaf_Insert k v c = Some (c', (k, v) \<notin> level_items l)"
      "if (k, v) \<notin> level_items l then InstallNodeToReplace j c' l = Some l' else l' = l"
    using l'(1) by (auto simp: level_Insert_def split: bind_splits if_splits)
  have "merge_free c" "\<not> is_removed c" using GetNode_mapping [OF c(1)] assms(1) by (auto simp: leaves_ok_def)
  then have "merge_free c'" "\<not> is_removed c'" using c(2) by (auto simp: leaf_Insert_def split: option.splits)
  then have "leaf_frame l l' \<and> leaves_ok l'"
    using put_frame [OF _ GetNode_mapping [OF c(1)] _ _ _ assms(1) l'(2)] leaf_Insert_frame [OF c(2)] c(3) assms(1) by (auto split: if_splits)
  then show ?thesis using l' by blast
qed

lemma level_Delete_frame:
  assumes "leaves_ok l" "starts_at l k start"
  shows "\<exists>l'. level_Delete k v start l = Some (l', (k, v) \<in> level_items l) \<and> leaves_ok l' \<and> leaf_frame l l' \<and> level_items l' = level_items l - {(k, v)}"
proof -
  obtain ids where ids: "level_ids l ids" using assms(1) by (auto simp: leaves_ok_def)
  obtain l' where l': "level_Delete k v start l = Some (l', (k, v) \<in> level_items l)" "level_ids l' ids" "level_items l' = level_items l - {(k, v)}"
    using level_Delete_law [OF ids assms(2), of v] by blast
  obtain j c c' where c: "GetNode l j = Some c" "leaf_Delete k v c = Some (c', (k, v) \<in> level_items l)"
      "if (k, v) \<in> level_items l then InstallNodeToReplace j c' l = Some l' else l' = l"
    using l'(1) by (auto simp: level_Delete_def split: bind_splits if_splits)
  have "merge_free c" "\<not> is_removed c" using GetNode_mapping [OF c(1)] assms(1) by (auto simp: leaves_ok_def)
  then have "merge_free c'" "\<not> is_removed c'" using c(2) by (auto simp: leaf_Delete_def split: option.splits)
  then have "leaf_frame l l' \<and> leaves_ok l'"
    using put_frame [OF _ GetNode_mapping [OF c(1)] _ _ _ assms(1) l'(2)] leaf_Delete_frame [OF c(2)] c(3) assms(1) by (auto split: if_splits)
  then show ?thesis using l' by blast
qed

lemma ConsolidateLeafNode_frame:
  assumes "leaves_ok l" "ConsolidateLeafNode hash i l = Some l'"
  shows "leaves_ok l' \<and> leaf_frame l l' \<and> level_items l' = level_items l"
proof -
  obtain ids where ids: "level_ids l ids" using assms(1) by (auto simp: leaves_ok_def)
  obtain c c' where c: "GetNode l i = Some c" "CollectAllValuesOnLeaf hash c = Some c'" "InstallNodeToReplace i c' l = Some l'"
    using assms(2) by (auto simp: ConsolidateLeafNode_def split: bind_splits)
  have i: "i \<in> set ids" using level_idsD(2) [OF ids GetNode_mapping [OF c(1)]] assms(1) GetNode_mapping [OF c(1)] by (auto simp: leaves_ok_def)
  then have ok: "chain_ok c" using level_idsD(1) [OF ids i] GetNode_mapping [OF c(1)] by auto
  obtain d where d: "c' = LeafNode (GetLowKeyPair c) (GetHighKeyPair c) d" using consolidation_law [OF ok, of hash] c(2) by auto
  have l': "level_ids l' ids" "level_items l' = level_items l" using ConsolidateLeafNode_law [OF ids i, of hash] assms(2) by auto
  then show ?thesis using put_frame [OF c(3) GetNode_mapping [OF c(1)] _ _ _ assms(1) l'(1)] d by auto
qed

lemma split_leaf_frame:
  assumes "leaves_ok l" "split_leaf i l = Some l'"
  shows "leaves_ok l' \<and> leaf_frame l l' \<and> level_items l' = level_items l"
proof (cases "l' = l")
  case False
  let ?n = "next_unused_node_id l"
  obtain ids where ids: "level_ids l ids" using assms(1) by (auto simp: leaves_ok_def)
  have room: "?n < MAPPING_TABLE_SIZE" using split_leaf_room [OF assms(2)] False by blast
  obtain c where c: "GetNode l i = Some c" using assms(2) by (auto simp: split_leaf_def split: bind_splits)
  note T = GetNode_mapping [OF c]
  have i: "i \<in> set ids" "merge_free c" using level_idsD(2) [OF ids T] assms(1) T by (auto simp: leaves_ok_def)
  have ok: "chain_ok c" using level_idsD(1) [OF ids i(1)] T by auto
  obtain ids' where l': "level_ids l' ids'" "level_items l' = level_items l" using split_leaf_law [OF ids i(1) room] assms(2) by auto
  have n: "?n \<noteq> INVALID_NODE_ID" "mapping_table l ?n = None" using ids by (auto simp: level_ids_def INVALID_NODE_ID_def)
  obtain c' s where a: "AdjustLeafSize True i ?n c = Some (AdjustSplit c' s)" "l' = l\<lparr>mapping_table := (mapping_table l)(?n \<mapsto> s, i \<mapsto> c'), next_unused_node_id := ?n + 1\<rparr>"
    using assms(2) c False AdjustLeafSize_some [OF ok, of True i ?n]
    by (auto simp: split_leaf_def GetNextNodeID_def InstallNewNode_def InstallNodeToReplace_def split: bind_splits adjusted.splits if_splits)
  have k: "GetLowKeyPair c' = GetLowKeyPair c" "chain_ok c'" "chain_ok s" using split_keeps [OF ok a(1) n(1)] by auto
  have mf: "merge_free c'" "merge_free s"
    using a(1) i(2) by (auto simp: AdjustLeafSize_def GetSplitSibling_def Let_def split: leaf_chain.splits if_splits bind_splits option.splits)
  have "leaf_frame l l'"
    using k(1) chain_ok_not_removed [OF k(2)] T n next_id(1) [OF room] by (auto simp: leaf_frame_def a(2) starts_at_def GetNode_def split: option.splits if_splits)
  moreover have "leaves_ok l'"
    using l'(1) mf chain_ok_not_removed [OF k(2)] chain_ok_not_removed [OF k(3)] assms(1) by (auto simp: leaves_ok_def a(2))
  ultimately show ?thesis using l'(2) by blast
qed (use assms(1) in simp)


section \<open>The modifications of inner nodes keep the tree\<close>

definition high_link :: "bw_tree \<Rightarrow> (node_id \<Rightarrow> nat) \<Rightarrow> nat \<Rightarrow> key_node_id \<Rightarrow> bool" where
  "high_link t lvl n high \<longleftrightarrow> (snd high \<noteq> INVALID_NODE_ID \<longrightarrow>
     (\<exists>c. inner_nodes t (snd high) = Some c \<and> lvl (snd high) = n \<and> fst (inner_low c) = fst high))"

lemma inner_at_alt:
  "inner_at t lvl i c \<longleftrightarrow> inner_ok c \<and> i \<noteq> INVALID_NODE_ID \<and> i < next_unused_node_id (leaves t) \<and> mapping_table (leaves t) i = None \<and> 0 < lvl i
     \<and> (\<forall>s\<in>seps c. child_ok t lvl (lvl i) s) \<and> high_link t lvl (lvl i) (inner_high c)"
  by (simp add: inner_at_def high_link_def)

lemma inner_at_root [simp]: "inner_at (t\<lparr>root_id := r\<rparr>) lvl i c = inner_at t lvl i c"
  by (simp add: inner_at_def child_ok_def)

lemma tree_put:
  assumes "tree_ok t lvl" "inner_nodes t i = Some c" "inner_ok c'" "fst (inner_low c') = fst (inner_low c)"
    and "\<forall>s\<in>seps c'. child_ok t lvl (lvl i) s" "high_link t lvl (lvl i) (inner_high c')"
  shows "\<exists>t'. install_inner i c' t = Some t' \<and> tree_ok t' lvl \<and> leaves t' = leaves t \<and> inner_nodes t' = (inner_nodes t)(i \<mapsto> c')"
proof -
  let ?t = "t\<lparr>inner_nodes := (inner_nodes t)(i \<mapsto> c')\<rparr>"
  note at = load_inner(3) [OF assms(1,2)]
  have child: "child_ok ?t lvl n s" if "child_ok t lvl n s" for n s
    using that assms(2,4) by (cases "snd s = i") (auto simp: child_ok_def split: if_splits)
  have link: "high_link ?t lvl n h" if "high_link t lvl n h" for n h
    using that assms(2,4) by (cases "snd h = i") (auto simp: high_link_def)
  have "inner_at ?t lvl j d" if "inner_nodes ?t j = Some d" for j d
  proof (cases "j = i")
    case True
    then show ?thesis using that at assms(3,5,6) child link by (auto simp: inner_at_alt)
  next
    case False
    then have "inner_at t lvl j d" using that assms(1) by (auto simp: tree_ok_def)
    then show ?thesis using child link by (auto simp: inner_at_alt)
  qed
  then have "tree_ok ?t lvl" using assms(1,2,4) unfolding tree_ok_def by auto
  moreover have "i \<noteq> INVALID_NODE_ID" "i < MAPPING_TABLE_SIZE"
    using at assms(1) leaves_ok_bound by (auto simp: inner_at_def tree_ok_def)
  ultimately show ?thesis by (auto simp: install_inner_def)
qed

lemma tree_add:
  assumes "tree_ok t lvl" "inner_nodes t n = None" "mapping_table (leaves t) n = None" "n < next_unused_node_id (leaves t)" "n \<noteq> INVALID_NODE_ID"
    and "inner_ok c" "0 < m" "\<forall>s\<in>seps c. child_ok t lvl m s" "high_link t lvl m (inner_high c)"
  shows "\<exists>t'. install_inner n c t = Some t' \<and> tree_ok t' (lvl(n := m)) \<and> leaves t' = leaves t \<and> inner_nodes t' = (inner_nodes t)(n \<mapsto> c) \<and> root_id t' = root_id t"
proof -
  let ?t = "t\<lparr>inner_nodes := (inner_nodes t)(n \<mapsto> c)\<rparr>" and ?l = "lvl(n := m)"
  have child: "child_ok ?t ?l q s" if "child_ok t lvl q s" for q s
  proof -
    have "snd s \<noteq> n"
    proof
      assume eq: "snd s = n"
      show False
      proof (cases "q = 1")
        case True
        then have "starts_at (leaves t) (fst s) n" using that eq key_irrefl by (auto simp: child_ok_def)
        then show False using assms(3) by (auto simp: starts_at_def GetNode_def split: if_splits)
      qed (use that eq assms(2) in \<open>auto simp: child_ok_def\<close>)
    qed
    then show ?thesis using that by (auto simp: child_ok_def split: if_splits)
  qed
  have link: "high_link ?t ?l q h" if "high_link t lvl q h" for q h
    using that assms(2) by (cases "snd h = n") (auto simp: high_link_def)
  have "inner_at ?t ?l j d" if "inner_nodes ?t j = Some d" for j d
  proof (cases "j = n")
    case True
    then show ?thesis using that assms(3-9) child link by (auto simp: inner_at_alt)
  next
    case False
    then have "inner_at t lvl j d" using that assms(1) by (auto simp: tree_ok_def)
    then show ?thesis using child link False by (auto simp: inner_at_alt)
  qed
  moreover have "root_id t \<noteq> n" using assms(1,2) by (auto simp: tree_ok_def)
  ultimately have "tree_ok ?t ?l" using assms(1) unfolding tree_ok_def by auto
  moreover have "n < MAPPING_TABLE_SIZE" using assms(1,4) leaves_ok_bound by (auto simp: tree_ok_def)
  ultimately show ?thesis using assms(5) by (auto simp: install_inner_def)
qed

lemma fresh_id:
  assumes "tree_ok t lvl" "next_unused_node_id (leaves t) < MAPPING_TABLE_SIZE" "GetNextNodeID (leaves t) = (n, l)"
  shows "tree_ok (t\<lparr>leaves := l\<rparr>) lvl" "inner_nodes t n = None" "mapping_table l n = None" "n < next_unused_node_id l" "n \<noteq> INVALID_NODE_ID"
    and "level_items l = level_items (leaves t)"
proof -
  have n: "n = next_unused_node_id (leaves t)" and l: "l = (leaves t)\<lparr>next_unused_node_id := n + 1\<rparr>"
    using assms(3) by (auto simp: GetNextNodeID_def)
  note nid = next_id [OF assms(2), folded n]
  obtain ids where ids: "level_ids (leaves t) ids" and mf: "leaves_ok (leaves t)" using assms(1) by (auto simp: tree_ok_def leaves_ok_def)
  have "level_ids l ids" using ids nid by (auto simp: level_ids_def l n intro: less_trans)
  then have "leaves_ok l" using mf by (auto simp: leaves_ok_def l)
  moreover have "leaf_frame (leaves t) l" using nid by (auto simp: leaf_frame_def l n starts_at_def GetNode_def)
  ultimately show "tree_ok (t\<lparr>leaves := l\<rparr>) lvl" by (rule tree_leaf_frame [OF assms(1)])
  show "inner_nodes t n = None"
  proof (rule ccontr)
    assume "inner_nodes t n \<noteq> None"
    then obtain c where "inner_nodes t n = Some c" by auto
    then show False using load_inner(3) [OF assms(1)] by (auto simp: inner_at_def n)
  qed
  show "mapping_table l n = None" "n \<noteq> INVALID_NODE_ID" using ids by (auto simp: level_ids_def l n INVALID_NODE_ID_def)
  show "n < next_unused_node_id l" using nid(1) by (simp add: l)
  show "level_items l = level_items (leaves t)" by (simp add: l level_items_def)
qed

lemma ConsolidateInnerNode_keeps:
  assumes "tree_ok t lvl" "ConsolidateInnerNode i t = Some t'"
  shows "tree_ok t' lvl" "leaves t' = leaves t"
proof -
  obtain c new where c: "inner_nodes t i = Some c" "CollectAllSepsOnInner c = Some new" "install_inner i new t = Some t'"
    using assms(2) by (auto simp: ConsolidateInnerNode_def GetInnerNode_def split: bind_splits if_splits)
  note load = load_inner [OF assms(1) c(1)]
  obtain d where d: "new = InnerNode (inner_low c) (inner_high c) d" "inner_ok new" "set d = seps c"
    using CollectAllSepsOnInner_law [OF load(4)] c(2) by auto
  show "tree_ok t' lvl" "leaves t' = leaves t"
    using tree_put [OF assms(1) c(1) d(2)] d load(3) c(3) by (auto simp: inner_at_alt)
qed

lemma split_inner_node_keeps:
  assumes ok: "tree_ok t lvl" and room: "next_unused_node_id (leaves t) < MAPPING_TABLE_SIZE" and step: "split_inner_node i t = Some t'"
  shows "(\<exists>lvl'. tree_ok t' lvl') \<and> level_items (leaves t') = level_items (leaves t)"
proof -
  obtain n l where nl: "GetNextNodeID (leaves t) = (n, l)" by (cases "GetNextNodeID (leaves t)")
  note fresh = fresh_id [OF ok room nl]
  obtain c where c: "inner_nodes t i = Some c" using step by (auto simp: split_inner_node_def GetInnerNode_def split: bind_splits if_splits)
  note load = load_inner [OF ok c]
  show ?thesis
  proof (cases "\<exists>low high d. c = InnerNode low high d \<and> INNER_NODE_SIZE_UPPER_THRESHOLD \<le> length d")
    case False
    then have "split_inner False n c = Some None" by (cases c) (auto simp: split_inner_def)
    then have "t' = t" using step load(2) nl by (simp add: split_inner_node_def)
    then show ?thesis using ok by blast
  next
    case True
    then obtain low high d where d: "c = InnerNode low high d" "INNER_NODE_SIZE_UPPER_THRESHOLD \<le> length d" by blast
    define m where "m = length d div 2"
    note law = split_inner_law [OF load(4) [unfolded d(1)] d(2) fresh(5), folded m_def]
    let ?left = "InnerSplitNode (fst (d ! m), n) (InnerNode low high d) (length d - m)" and ?right = "InnerNode (d ! m) high (drop m d)"
    let ?t = "t\<lparr>leaves := l\<rparr>"
    have at: "inner_at ?t lvl i c" using load_inner(3) [OF fresh(1)] c by simp
    then have kids: "\<forall>s\<in>set d. child_ok ?t lvl (lvl i) s" "high_link ?t lvl (lvl i) high" "0 < lvl i" by (auto simp: inner_at_alt d(1))
    have "\<exists>t1. install_inner n ?right ?t = Some t1 \<and> tree_ok t1 (lvl(n := lvl i)) \<and> leaves t1 = leaves ?t \<and> inner_nodes t1 = (inner_nodes ?t)(n \<mapsto> ?right) \<and> root_id t1 = root_id ?t"
      by (rule tree_add [OF fresh(1)]) (use fresh kids law(3) in \<open>auto dest: in_set_dropD\<close>)
    then obtain t1 where t1: "install_inner n ?right ?t = Some t1" "tree_ok t1 (lvl(n := lvl i))" "leaves t1 = l" "inner_nodes t1 = (inner_nodes t)(n \<mapsto> ?right)"
      by auto
    have ne: "i \<noteq> n" using c fresh(2) by auto
    have c1: "inner_nodes t1 i = Some c" using t1(4) c ne by simp
    have kids1: "\<forall>s\<in>set d. child_ok t1 (lvl(n := lvl i)) (lvl i) s"
      using load_inner(3) [OF t1(2) c1] ne by (simp add: inner_at_alt d(1))
    have "\<exists>t2. install_inner i ?left t1 = Some t2 \<and> tree_ok t2 (lvl(n := lvl i)) \<and> leaves t2 = leaves t1 \<and> inner_nodes t2 = (inner_nodes t1)(i \<mapsto> ?left)"
      by (rule tree_put [OF t1(2) c1 law(2)]) (use kids1 ne t1(4) in \<open>auto simp: d(1) high_link_def\<close>)
    then obtain t2 where t2: "install_inner i ?left t1 = Some t2" "tree_ok t2 (lvl(n := lvl i))" "leaves t2 = l" using t1(3) by auto
    have "t' = t2" using step load(2) nl law(1) t1(1) t2(1) by (simp add: split_inner_node_def d(1))
    then show ?thesis using t2(2,3) fresh(6) by auto
  qed
qed

lemma split_root_keeps:
  assumes ok: "tree_ok t lvl" and room: "next_unused_node_id (leaves t) < MAPPING_TABLE_SIZE" and step: "split_root t = Some t'"
  shows "(\<exists>lvl'. tree_ok t' lvl') \<and> level_items (leaves t') = level_items (leaves t)"
proof -
  obtain n l where nl: "GetNextNodeID (leaves t) = (n, l)" by (cases "GetNextNodeID (leaves t)")
  note fresh = fresh_id [OF ok room nl]
  obtain c where c: "inner_nodes t (root_id t) = Some c" "fst (inner_low c) = []" using ok by (auto simp: tree_ok_def)
  note load = load_inner [OF ok c(1)]
  show ?thesis
  proof (cases "\<exists>item child m. c = InnerSplitNode item child m")
    case False
    then have "t' = t" using step load(2) by (cases c) (auto simp: split_root_def)
    then show ?thesis using ok by blast
  next
    case True
    then obtain item child m where split: "c = InnerSplitNode item child m" by blast
    let ?t = "t\<lparr>leaves := l\<rparr>" and ?new = "InnerNode ([], root_id t) ([], INVALID_NODE_ID) [([], root_id t), item]"
    have item: "snd item \<noteq> INVALID_NODE_ID" "ds_bulk_less [] (fst item)" using load(4) c(2) split by auto
    obtain c' where c': "inner_nodes t (snd item) = Some c'" "lvl (snd item) = lvl (root_id t)" "fst (inner_low c') = fst item"
      using load(3) item(1) by (auto simp: inner_at_def split)
    have "snd item \<noteq> root_id t" using c c'(1,3) item(2) key_irrefl by auto
    then have new: "inner_ok ?new" using item load(3) by (auto simp: inner_at_def below_high_def)
    have lv: "0 < lvl (root_id t)" using load(3) by (simp add: inner_at_def)
    have "\<exists>t1. install_inner n ?new ?t = Some t1 \<and> tree_ok t1 (lvl(n := lvl (root_id t) + 1)) \<and> leaves t1 = leaves ?t
        \<and> inner_nodes t1 = (inner_nodes ?t)(n \<mapsto> ?new) \<and> root_id t1 = root_id ?t"
      by (rule tree_add [OF fresh(1)]) (use fresh new c c' lv key_irrefl in \<open>auto simp: child_ok_def high_link_def\<close>)
    then obtain t1 where t1: "install_inner n ?new ?t = Some t1" "tree_ok t1 (lvl(n := lvl (root_id t) + 1))" "leaves t1 = l" "inner_nodes t1 n = Some ?new"
      by auto
    have "t' = t1\<lparr>root_id := n\<rparr>" using step load(2) nl t1(1) by (simp add: split_root_def split)
    moreover have "tree_ok (t1\<lparr>root_id := n\<rparr>) (lvl(n := lvl (root_id t) + 1))"
      using t1(2,4) by (simp add: tree_ok_def)
    ultimately show ?thesis using t1(3) fresh(6) by auto
  qed
qed


lemma linked_next:
  assumes "linked T low ids high" "snd high = INVALID_NODE_ID" "i \<in> set ids" "T i = Some c" "snd (GetHighKeyPair c) \<noteq> INVALID_NODE_ID"
  shows "\<exists>c'. snd (GetHighKeyPair c) \<in> set ids \<and> T (snd (GetHighKeyPair c)) = Some c' \<and> GetLowKeyPair c' = (fst (GetHighKeyPair c), NOT INVALID_NODE_ID)"
  using assms
proof (induction T low ids high rule: linked.induct)
  case (2 T low j high)
  then show ?case by (auto simp: node_at_def)
next
  case (3 T low a b ids high)
  obtain m where m: "node_at T a low (m, b)" "linked T (m, NOT INVALID_NODE_ID) (b # ids) high" using "3.prems"(1) by auto
  show ?case
  proof (cases "i = a")
    case True
    have "\<exists>c'. T b = Some c' \<and> GetLowKeyPair c' = (m, NOT INVALID_NODE_ID)" using m(2) by (cases ids) (auto simp: node_at_def)
    then show ?thesis using True m(1) "3.prems"(4) by (auto simp: node_at_def)
  next
    case False
    then show ?thesis using "3.IH" [OF m(2) "3.prems"(2)] "3.prems"(3-5) by auto
  qed
qed simp

text \<open>The split delta on top of a node: the split item, and the high key of the node before the split.\<close>

definition split_delta :: "bw_tree \<Rightarrow> node_id \<Rightarrow> (key_node_id \<times> key_node_id) option" where
  "split_delta t i =
     (case inner_nodes t i of
        Some (InnerSplitNode item child n) \<Rightarrow> Some (item, inner_high child)
      | Some _ \<Rightarrow> None
      | None \<Rightarrow> (case mapping_table (leaves t) i of
                  Some (LeafSplitNode item child n) \<Rightarrow> Some (item, GetHighKeyPair child)
                | _ \<Rightarrow> None))"

lemma split_delta_child:
  assumes ok: "tree_ok t lvl" and s: "child_ok t lvl n s" "split_delta t (snd s) = Some (item, nxt)"
  shows "child_ok t lvl n item" "snd item \<noteq> INVALID_NODE_ID"
proof -
  have "child_ok t lvl n item \<and> snd item \<noteq> INVALID_NODE_ID"
  proof (cases "n = 1")
    case True
    then have start: "inner_nodes t (snd s) = None" "starts_at (leaves t) (fst s) (snd s)" using s(1) key_irrefl by (auto simp: child_ok_def)
    obtain child m where T: "mapping_table (leaves t) (snd s) = Some (LeafSplitNode item child m)"
      using s(2) start(1) by (auto simp: split_delta_def split: option.splits leaf_chain.splits)
    obtain ids where ids: "level_ids (leaves t) ids" using ok by (auto simp: tree_ok_def leaves_ok_def)
    obtain mk where l: "linked (mapping_table (leaves t)) ([], INVALID_NODE_ID) ids (mk, INVALID_NODE_ID)" using ids by (auto simp: level_ids_def)
    have i: "snd s \<in> set ids" using level_idsD(2) [OF ids T] by simp
    have id: "snd item \<noteq> INVALID_NODE_ID" using level_idsD(1) [OF ids i] T by auto
    obtain c' where c': "snd item \<in> set ids" "mapping_table (leaves t) (snd item) = Some c'" "GetLowKeyPair c' = (fst item, NOT INVALID_NODE_ID)"
      using linked_next [OF l _ i T] id by auto
    have "GetNode (leaves t) (snd item) = Some c'" "\<not> is_removed c'"
      using level_idsD(1) [OF ids c'(1)] c'(2) chain_ok_not_removed by auto
    then have "starts_at (leaves t) k (snd item)" if "\<not> ds_bulk_less k (fst item)" for k
      using that c'(3) by (simp add: starts_at_def above_low_pair_def)
    moreover have "inner_nodes t (snd item) = None"
      using load_inner(3) [OF ok, of "snd item"] c'(2) by (cases "inner_nodes t (snd item)") (auto simp: inner_at_def)
    ultimately show ?thesis using True id by (simp add: child_ok_def)
  next
    case False
    then obtain c where c: "inner_nodes t (snd s) = Some c" "lvl (snd s) + 1 = n" using s(1) by (auto simp: child_ok_def)
    then obtain child m where split: "c = InnerSplitNode item child m"
      using s(2) by (auto simp: split_delta_def split: inner_chain.splits)
    note load = load_inner(3,4) [OF ok c(1)]
    have id: "snd item \<noteq> INVALID_NODE_ID" using load(2) split by simp
    then obtain c' where "inner_nodes t (snd item) = Some c'" "lvl (snd item) = lvl (snd s)" "fst (inner_low c') = fst item"
      using load(1) split by (auto simp: inner_at_def)
    then show ?thesis using False c(2) id key_irrefl by (auto simp: child_ok_def)
  qed
  then show "child_ok t lvl n item" "snd item \<noteq> INVALID_NODE_ID" by blast+
qed

text \<open>
  The place of the split item in the parent: within its range, with a new id, and the high key before the split is where the
  parent's next separator is.
\<close>

definition splits_below :: "bw_tree \<Rightarrow> inner_chain \<Rightarrow> node_id \<Rightarrow> key_node_id \<Rightarrow> key_node_id \<Rightarrow> bool" where
  "splits_below t c i item nxt \<longleftrightarrow> i \<in> snd ` seps c \<and> split_delta t i = Some (item, nxt) \<and> ds_bulk_less (fst (inner_low c)) (fst item)
     \<and> snd item \<notin> node_ids c \<and> next_at (fst item) (seps c) (inner_high c) nxt"

lemma finish_split_keeps:
  assumes ok: "tree_ok t lvl" and c: "inner_nodes t p = Some c" and below: "splits_below t c i item nxt" and step: "finish_split p item nxt t = Some t'"
  shows "tree_ok t' lvl" "leaves t' = leaves t"
proof -
  note load = load_inner [OF ok c]
  obtain s where s: "s \<in> seps c" "split_delta t (snd s) = Some (item, nxt)" using below by (auto simp: splits_below_def)
  have child: "child_ok t lvl (lvl p) item" "snd item \<noteq> INVALID_NODE_ID"
    using split_delta_child [OF ok _ s(2), of "lvl p"] load(3) s(1) by (auto simp: inner_at_def)
  have "tree_ok t' lvl \<and> leaves t' = leaves t"
  proof (cases "below_high (fst item) (inner_high c)")
    case False
    then have "t' = t" using step load(2) by (auto simp: finish_split_def below_high_def)
    then show ?thesis using ok by simp
  next
    case True
    have "ds_bulk_less (fst (inner_low c)) (fst item)" using below by (simp add: splits_below_def)
    then obtain r loc where r: "FindSeparator (snd (inner_low c)) (fst item) c = Some (r, loc)"
      using FindSeparator_law [OF load(4) True, of "snd (inner_low c)"] unfolding find_result_def by blast
    show ?thesis
    proof (cases r)
      case (Some x)
      then have "t' = t" using step load(2) r True by (auto simp: finish_split_def below_high_def)
      then show ?thesis using ok by simp
    next
      case None
      let ?new = "InnerInsertNode item nxt loc c"
      have new: "inner_ok ?new" using below r None True child(2) load(4) by (simp add: splits_below_def)
      have "install_inner p ?new t = Some t'" using step load(2) r None True by (auto simp: finish_split_def below_high_def)
      then show ?thesis using tree_put [OF ok c new] child(1) load(3) by (auto simp: inner_at_alt)
    qed
  qed
  then show "tree_ok t' lvl" "leaves t' = leaves t" by blast+
qed

section \<open>The tree refines a set of pairs\<close>

inductive tree_step :: "(bulk \<Rightarrow> 64 word) \<Rightarrow> bw_tree \<Rightarrow> leaf_event \<Rightarrow> bw_tree \<Rightarrow> bool" for hash where
  insert: "tree_Insert k v t = Some (t', r) \<Longrightarrow> tree_step hash t (EvInsert k v r) t'"
| delete: "tree_Delete k v t = Some (t', r) \<Longrightarrow> tree_step hash t (EvDelete k v r) t'"
| get_value: "tree_GetValue hash k t = Some vs \<Longrightarrow> tree_step hash t (EvGetValue k vs) t"
| consolidate_leaf: "ConsolidateLeafNode hash i (leaves t) = Some l \<Longrightarrow> tree_step hash t EvInternal (t\<lparr>leaves := l\<rparr>)"
| split_leaf: "split_leaf i (leaves t) = Some l \<Longrightarrow> tree_step hash t EvInternal (t\<lparr>leaves := l\<rparr>)"
| consolidate_inner: "ConsolidateInnerNode i t = Some t' \<Longrightarrow> tree_step hash t EvInternal t'"
| split_inner: "next_unused_node_id (leaves t) < MAPPING_TABLE_SIZE \<Longrightarrow> split_inner_node i t = Some t' \<Longrightarrow> tree_step hash t EvInternal t'"
| split_root: "next_unused_node_id (leaves t) < MAPPING_TABLE_SIZE \<Longrightarrow> split_root t = Some t' \<Longrightarrow> tree_step hash t EvInternal t'"
| finish_split: "GetInnerNode t p = Some c \<Longrightarrow> splits_below t c i item nxt \<Longrightarrow> finish_split p item nxt t = Some t' \<Longrightarrow> tree_step hash t EvInternal t'"

inductive_cases tree_stepE: "tree_step hash t e t'"

inductive tree_reachable :: "(bulk \<Rightarrow> 64 word) \<Rightarrow> bw_tree \<Rightarrow> key_value set \<Rightarrow> bool" for hash where
  start: "InitTree = Some t \<Longrightarrow> tree_reachable hash t {}"
| step: "tree_reachable hash t S \<Longrightarrow> tree_step hash t e t' \<Longrightarrow> tree_reachable hash t' (after_event e S)"

lemma tree_Insert_law:
  assumes "tree_ok t lvl"
  shows "\<exists>t'. tree_Insert k v t = Some (t', (k, v) \<notin> level_items (leaves t)) \<and> tree_ok t' lvl \<and> level_items (leaves t') = insert (k, v) (level_items (leaves t))"
proof -
  obtain i where i: "TraverseReadOptimized k t = Some i" "starts_at (leaves t) k i" using Traverse_law [OF assms] by blast
  have "leaves_ok (leaves t)" using assms by (simp add: tree_ok_def)
  from level_Insert_frame [OF this i(2), of v] obtain l where l: "level_Insert k v i (leaves t) = Some (l, (k, v) \<notin> level_items (leaves t))"
      "leaves_ok l" "leaf_frame (leaves t) l" "level_items l = insert (k, v) (level_items (leaves t))" by blast
  then show ?thesis using i(1) tree_leaf_frame [OF assms l(2,3)] by (simp add: tree_Insert_def Traverse_def TraverseReadOptimized_def)
qed

lemma tree_Delete_law:
  assumes "tree_ok t lvl"
  shows "\<exists>t'. tree_Delete k v t = Some (t', (k, v) \<in> level_items (leaves t)) \<and> tree_ok t' lvl \<and> level_items (leaves t') = level_items (leaves t) - {(k, v)}"
proof -
  obtain i where i: "TraverseReadOptimized k t = Some i" "starts_at (leaves t) k i" using Traverse_law [OF assms] by blast
  have "leaves_ok (leaves t)" using assms by (simp add: tree_ok_def)
  from level_Delete_frame [OF this i(2), of v] obtain l where l: "level_Delete k v i (leaves t) = Some (l, (k, v) \<in> level_items (leaves t))"
      "leaves_ok l" "leaf_frame (leaves t) l" "level_items l = level_items (leaves t) - {(k, v)}" by blast
  then show ?thesis using i(1) tree_leaf_frame [OF assms l(2,3)] by (simp add: tree_Delete_def Traverse_def TraverseReadOptimized_def)
qed

lemma tree_GetValue_law:
  assumes "tree_ok t lvl"
  shows "\<exists>vs. tree_GetValue hash k t = Some vs \<and> distinct vs \<and> set vs = {v. (k, v) \<in> level_items (leaves t)}"
proof -
  obtain i where i: "TraverseReadOptimized k t = Some i" "starts_at (leaves t) k i" using Traverse_law [OF assms] by blast
  obtain ids where ids: "level_ids (leaves t) ids" "\<forall>i c. GetNode (leaves t) i = Some c \<longrightarrow> is_removed c \<or> merge_free c"
    using assms GetNode_mapping [of "leaves t"] unfolding tree_ok_def leaves_ok_def by blast
  then show ?thesis using level_GetValue_law [OF ids(1) i(2) ids(2), of hash] i(1) by (simp add: tree_GetValue_def)
qed

lemma tree_step_keeps:
  assumes "tree_step hash t e t'" "tree_ok t lvl"
  shows "(\<exists>lvl'. tree_ok t' lvl') \<and> level_items (leaves t') = after_event e (level_items (leaves t))"
  using assms(1)
proof cases
  case (insert k v r)
  then show ?thesis using tree_Insert_law [OF assms(2), of k v] by auto
next
  case (delete k v r)
  then show ?thesis using tree_Delete_law [OF assms(2), of k v] by auto
next
  case (consolidate_leaf i l)
  then show ?thesis using ConsolidateLeafNode_frame [of "leaves t" hash i l] tree_leaf_frame [OF assms(2)] assms(2) by (auto simp: tree_ok_def)
next
  case (split_leaf i l)
  then show ?thesis using split_leaf_frame [of "leaves t" i l] tree_leaf_frame [OF assms(2)] assms(2) by (auto simp: tree_ok_def)
next
  case (consolidate_inner i)
  then show ?thesis using ConsolidateInnerNode_keeps [OF assms(2)] by auto
next
  case (split_inner i)
  then show ?thesis using split_inner_node_keeps [OF assms(2)] by auto
next
  case split_root
  then show ?thesis using split_root_keeps [OF assms(2)] by auto
next
  case (finish_split p c i item nxt)
  then have "inner_nodes t p = Some c" by (simp add: GetInnerNode_def split: if_splits)
  then show ?thesis using finish_split_keeps [OF assms(2) _ finish_split(3,4)] finish_split(1) by auto
qed (use assms(2) in auto)

lemma tree_reachable_inv: "tree_reachable hash t S \<Longrightarrow> (\<exists>lvl. tree_ok t lvl) \<and> level_items (leaves t) = S"
proof (induction rule: tree_reachable.induct)
  case (start t)
  then obtain l where l: "InitNodeLayout = Some l" and t: "t = \<lparr>leaves = l, inner_nodes = [1 \<mapsto> InnerNode ([], FIRST_LEAF_NODE_ID) ([], INVALID_NODE_ID) [([], FIRST_LEAF_NODE_ID)]], root_id = 1\<rparr>"
    by (auto simp: InitTree_def split: bind_splits)
  have leaf: "l = \<lparr>mapping_table = [2 \<mapsto> LeafNode ([], 0) ([], 0) []], next_unused_node_id = 3\<rparr>"
    using l by (simp add: InitNodeLayout_def GetNextNodeID_def InstallNewNode_def MAPPING_TABLE_SIZE_def FIRST_LEAF_NODE_ID_def INVALID_NODE_ID_def)
  have "tree_ok t (\<lambda>_. 1)" using init_level_ids(1) [OF l]
    by (auto simp: tree_ok_def leaves_ok_def t leaf inner_at_def child_ok_def below_high_def starts_at_def GetNode_def above_low_pair_def
        FIRST_LEAF_NODE_ID_def INVALID_NODE_ID_def MAPPING_TABLE_SIZE_def)
  then show ?case using init_level_ids(2) [OF l] t by auto
next
  case (step t S e t')
  then show ?case using tree_step_keeps by fastforce
qed


section \<open>Properties\<close>


lemma InitTree_some: "\<exists>t. InitTree = Some t"
  by (simp add: InitTree_def InitNodeLayout_def GetNextNodeID_def InstallNewNode_def MAPPING_TABLE_SIZE_def FIRST_LEAF_NODE_ID_def)


end
