(* ===== verification/Bwtree_Datastore.thy ===== *)
theory Bwtree_Datastore
  imports Bwtree_Tree Sdskv_Common
begin

text \<open>
  The BwTree backend (datastore/bwtree_datastore.cc and .h) over the tree of \<open>Bwtree_Tree\<close>. A call through the null pointer that
  \<open>_tree\<close> is before \<open>openDatabase\<close> has no result.
\<close>

section \<open>The backend\<close>

text \<open>
  The enumeration \<open>Duplicates\<close> is not part of the sources; the state has the outcome of its two comparisons.
\<close>

record bwtree_datastore =
  bt_tree :: "bw_tree option"
  dup_ALLOW :: bool
  dup_IGNORE :: bool
  bt_eraseOnGet :: bool
  bt_no_overwrite :: bool

definition BwTreeDataStore :: bwtree_datastore where
  "BwTreeDataStore = \<lparr>bt_tree = None, dup_ALLOW = False, dup_IGNORE = True, bt_eraseOnGet = False, bt_no_overwrite = False\<rparr>"

definition BwTreeDataStore_with :: "bool \<Rightarrow> bool \<Rightarrow> bool \<Rightarrow> bwtree_datastore" where
  "BwTreeDataStore_with is_allow is_ignore eraseOnGet =
     \<lparr>bt_tree = None, dup_ALLOW = is_allow, dup_IGNORE = is_ignore, bt_eraseOnGet = eraseOnGet, bt_no_overwrite = False\<rparr>"

definition bwtree_openDatabase :: "bwtree_datastore \<Rightarrow> (bool \<times> bwtree_datastore) option" where
  "bwtree_openDatabase s = do { t \<leftarrow> InitTree; Some (True, s\<lparr>bt_tree := Some t\<rparr>) }"

definition bwtree_set_no_overwrite :: "bwtree_datastore \<Rightarrow> bwtree_datastore" where
  "bwtree_set_no_overwrite s = s\<lparr>bt_no_overwrite := True\<rparr>"

text \<open>\<open>get\<close> of one value, which deletes it when the backend erases on get.\<close>

definition bwtree_get :: "(bulk \<Rightarrow> 64 word) \<Rightarrow> bulk \<Rightarrow> bwtree_datastore \<Rightarrow> (bulk option \<times> bwtree_datastore) option" where
  "bwtree_get hash key s = do {
     t \<leftarrow> bt_tree s;
     values \<leftarrow> tree_GetValue hash key t;
     let found = (if length values = 1 then Some (hd values)
                  else if 1 < length values then (if dup_ALLOW s then Some (hd values) else None)
                  else None);
     case found of
       None \<Rightarrow> Some (None, s)
     | Some data \<Rightarrow>
         if bt_eraseOnGet s then do {
           (t, status) \<leftarrow> tree_Delete key data t;
           Some (if status then Some data else None, s\<lparr>bt_tree := Some t\<rparr>)
         } else Some (Some data, s)
   }"

definition bwtree_get_all :: "(bulk \<Rightarrow> 64 word) \<Rightarrow> bulk \<Rightarrow> bwtree_datastore \<Rightarrow> bulk list option option" where
  "bwtree_get_all hash key s = do {
     t \<leftarrow> bt_tree s;
     values \<leftarrow> tree_GetValue hash key t;
     Some (if 1 < length values then (if dup_ALLOW s then Some values else None) else Some values)
   }"

definition bwtree_exists :: "(bulk \<Rightarrow> 64 word) \<Rightarrow> bulk \<Rightarrow> bwtree_datastore \<Rightarrow> (bool \<times> bwtree_datastore) option" where
  "bwtree_exists hash key s = map_option (\<lambda>(r, s). (r \<noteq> None, s)) (bwtree_get hash key s)"

definition bwtree_put :: "(bulk \<Rightarrow> 64 word) \<Rightarrow> bulk \<Rightarrow> bulk \<Rightarrow> bwtree_datastore \<Rightarrow> (bool \<times> bwtree_datastore) option" where
  "bwtree_put hash key data s = do {
     (present, s) \<leftarrow> (if bt_no_overwrite s then bwtree_exists hash key s else Some (False, s));
     if present then Some (False, s)
     else case bt_tree s of
       None \<Rightarrow> Some (False, s)
     | Some t \<Rightarrow>
         if dup_ALLOW s then do { (t, success) \<leftarrow> tree_Insert key data t; Some (success, s\<lparr>bt_tree := Some t\<rparr>) }
         else if dup_IGNORE s then do {
           values \<leftarrow> tree_GetValue hash key t;
           if length values \<noteq> 0 then Some (True, s)
           else do { (t, success) \<leftarrow> tree_Insert key data t; Some (success, s\<lparr>bt_tree := Some t\<rparr>) }
         }
         else Some (False, s)
   }"

definition bwtree_erase :: "(bulk \<Rightarrow> 64 word) \<Rightarrow> bulk \<Rightarrow> bwtree_datastore \<Rightarrow> (bool \<times> bwtree_datastore) option" where
  "bwtree_erase hash key s = do {
     (r, s) \<leftarrow> bwtree_get hash key s;
     case r of
       None \<Rightarrow> Some (False, s)
     | Some data \<Rightarrow> do {
         t \<leftarrow> bt_tree s;
         (t, status) \<leftarrow> tree_Delete key data t;
         Some (status, s\<lparr>bt_tree := Some t\<rparr>)
       }
   }"

section \<open>Refinement\<close>

text \<open>
  The map that a backend which ignores duplicates stands for, whatever the tree has done on its own since it was opened.
\<close>

definition bwtree_abs :: "(bulk \<Rightarrow> 64 word) \<Rightarrow> bwtree_datastore \<Rightarrow> (bulk \<rightharpoonup> bulk) \<Rightarrow> bool" where
  "bwtree_abs hash s m \<longleftrightarrow> \<not> dup_ALLOW s \<and> dup_IGNORE s \<and> (\<exists>t. bt_tree s = Some t \<and> tree_reachable hash t (Map.graph m))"

lemma graph_put: "m k = None \<Longrightarrow> insert (k, v) (Map.graph m) = Map.graph (m(k \<mapsto> v))"
  by (auto simp: graph_def split: if_splits)

lemma graph_erase: "m k = Some v \<Longrightarrow> Map.graph m - {(k, v)} = Map.graph (m(k := None))"
  by (auto simp: graph_def split: if_splits)

lemma tree_operations:
  assumes "tree_reachable hash t S"
  shows "\<exists>t'. tree_Insert k v t = Some (t', (k, v) \<notin> S) \<and> tree_reachable hash t' (insert (k, v) S)"
    and "\<exists>t'. tree_Delete k v t = Some (t', (k, v) \<in> S) \<and> tree_reachable hash t' (S - {(k, v)})"
    and "\<exists>vs. tree_GetValue hash k t = Some vs \<and> distinct vs \<and> set vs = {v. (k, v) \<in> S}"
proof -
  obtain lvl where ok: "tree_ok t lvl" and S: "level_items (leaves t) = S" using tree_reachable_inv [OF assms] by blast
  show "\<exists>t'. tree_Insert k v t = Some (t', (k, v) \<notin> S) \<and> tree_reachable hash t' (insert (k, v) S)"
    using tree_Insert_law [OF ok, of k v] tree_reachable.step [OF assms tree_step.insert] S by fastforce
  show "\<exists>t'. tree_Delete k v t = Some (t', (k, v) \<in> S) \<and> tree_reachable hash t' (S - {(k, v)})"
    using tree_Delete_law [OF ok, of k v] tree_reachable.step [OF assms tree_step.delete] S by fastforce
  show "\<exists>vs. tree_GetValue hash k t = Some vs \<and> distinct vs \<and> set vs = {v. (k, v) \<in> S}"
    using tree_GetValue_law [OF ok, of hash k] S by auto
qed

lemma one_value:
  assumes "tree_reachable hash t (Map.graph m)"
  shows "tree_GetValue hash k t = Some (case m k of None \<Rightarrow> [] | Some v \<Rightarrow> [v])"
proof -
  obtain vs where vs: "tree_GetValue hash k t = Some vs" "distinct vs" "set vs = {v. m k = Some v}"
    using tree_operations(3) [OF assms, of k] by (auto simp: graph_def)
  show ?thesis
  proof (cases "m k")
    case (Some v)
    then have "set vs = {v}" using vs(3) by auto
    moreover from this have "length vs = 1" using distinct_card [OF vs(2)] by simp
    ultimately show ?thesis using vs(1) Some by (cases vs) auto
  qed (use vs in auto)
qed

lemma bwtree_get_law:
  assumes "bwtree_abs hash s m" "\<not> bt_eraseOnGet s"
  shows "bwtree_get hash k s = Some (m k, s)"
  using assms by (auto simp: bwtree_abs_def bwtree_get_def one_value split: option.splits)

lemma bwtree_put_law:
  assumes "bwtree_abs hash s m" "\<not> bt_eraseOnGet s"
  shows "\<exists>s'. bwtree_put hash k v s = Some (m k = None \<or> \<not> bt_no_overwrite s, s') \<and> bwtree_abs hash s' (if m k = None then m(k \<mapsto> v) else m)
    \<and> bt_eraseOnGet s' = bt_eraseOnGet s \<and> bt_no_overwrite s' = bt_no_overwrite s"
proof -
  obtain t where t: "bt_tree s = Some t" "tree_reachable hash t (Map.graph m)" using assms(1) by (auto simp: bwtree_abs_def)
  note get = bwtree_get_law [OF assms, of k] and found = one_value [OF t(2), of k]
  show ?thesis
  proof (cases "m k")
    case None
    have "(k, v) \<notin> Map.graph m" using None by (simp add: graph_def)
    then obtain t' where "tree_Insert k v t = Some (t', True)" "tree_reachable hash t' (Map.graph (m(k \<mapsto> v)))"
      using tree_operations(1) [OF t(2), of k v] graph_put [of m k v, OF None] by auto
    then show ?thesis using assms(1) None get found t by (auto simp: bwtree_put_def bwtree_exists_def bwtree_abs_def)
  next
    case (Some w)
    then show ?thesis using assms(1) get found t by (auto simp: bwtree_put_def bwtree_exists_def bwtree_abs_def)
  qed
qed

lemma bwtree_erase_law:
  assumes "bwtree_abs hash s m" "\<not> bt_eraseOnGet s"
  shows "\<exists>s'. bwtree_erase hash k s = Some (m k \<noteq> None, s') \<and> bwtree_abs hash s' (m(k := None)) \<and> bt_eraseOnGet s' = bt_eraseOnGet s"
proof -
  obtain t where t: "bt_tree s = Some t" "tree_reachable hash t (Map.graph m)" using assms(1) by (auto simp: bwtree_abs_def)
  note get = bwtree_get_law [OF assms, of k]
  show ?thesis
  proof (cases "m k")
    case None
    then have "m(k := None) = m" by auto
    then show ?thesis using None get assms(1) by (simp add: bwtree_erase_def)
  next
    case (Some v)
    then have "(k, v) \<in> Map.graph m" by (simp add: graph_def)
    then obtain t' where "tree_Delete k v t = Some (t', True)" "tree_reachable hash t' (Map.graph (m(k := None)))"
      using tree_operations(2) [OF t(2), of k v] graph_erase [of m k v] Some by auto
    then show ?thesis using get Some t(1) assms(1) by (auto simp: bwtree_erase_def bwtree_abs_def)
  qed
qed

section \<open>Properties\<close>


lemma bwtree_open: "\<exists>s. bwtree_openDatabase BwTreeDataStore = Some (True, s) \<and> bwtree_abs hash s Map.empty \<and> \<not> bt_eraseOnGet s \<and> \<not> bt_no_overwrite s"
proof -
  obtain t where t: "InitTree = Some t" using InitTree_some by blast
  have "bwtree_openDatabase BwTreeDataStore = Some (True, BwTreeDataStore\<lparr>bt_tree := Some t\<rparr>)" by (simp add: bwtree_openDatabase_def t)
  moreover have "tree_reachable hash t (Map.graph Map.empty)" using tree_reachable.start [OF t] by simp
  ultimately show ?thesis
    by (intro exI [of _ "BwTreeDataStore\<lparr>bt_tree := Some t\<rparr>"]) (simp add: BwTreeDataStore_def bwtree_abs_def)
qed


text \<open>
  A backend that erases on get reports that \<open>erase\<close> has failed although the key is gone: the \<open>get\<close> in \<open>erase\<close> has deleted it already. So does
  \<open>exists\<close>, which \<open>put\<close> asks when overwriting is forbidden.
\<close>

theorem erase_on_get_fails:
  assumes "bwtree_abs hash s m" "bt_eraseOnGet s" "m k = Some v"
  shows "\<exists>s'. bwtree_erase hash k s = Some (False, s') \<and> bwtree_abs hash s' (m(k := None))"
    and "\<exists>s'. bwtree_exists hash k s = Some (True, s') \<and> bwtree_abs hash s' (m(k := None))"
proof -
  obtain t where t: "bt_tree s = Some t" "tree_reachable hash t (Map.graph m)" using assms(1) by (auto simp: bwtree_abs_def)
  have "(k, v) \<in> Map.graph m" using assms(3) by (simp add: graph_def)
  then obtain t1 where t1: "tree_Delete k v t = Some (t1, True)" "tree_reachable hash t1 (Map.graph (m(k := None)))"
    using tree_operations(2) [OF t(2), of k v] graph_erase [of m k v] assms(3) by auto
  have get: "bwtree_get hash k s = Some (Some v, s\<lparr>bt_tree := Some t1\<rparr>)" using t t1(1) assms(2,3) one_value [OF t(2), of k] by (simp add: bwtree_get_def)
  obtain t2 where t2: "tree_Delete k v t1 = Some (t2, False)" "tree_reachable hash t2 (Map.graph (m(k := None)))"
    using tree_operations(2) [OF t1(2), of k v] by (auto simp: graph_def)
  show "\<exists>s'. bwtree_erase hash k s = Some (False, s') \<and> bwtree_abs hash s' (m(k := None))"
    using get t2 assms(1) by (auto simp: bwtree_erase_def bwtree_abs_def)
  show "\<exists>s'. bwtree_exists hash k s = Some (True, s') \<and> bwtree_abs hash s' (m(k := None))"
    using get t1(2) assms(1) by (auto simp: bwtree_exists_def bwtree_abs_def)
qed

end
