(* ===== verification/Spec2Isabelle.thy ===== *)
theory Spec2Isabelle
  imports Service_Cpp_Multi Client_Handles Provider_Config_Laws Service_Leveldb Service_Berkeleydb Remi_Migration
    Rpc_Registration Server_Daemon Bwtree_Epoch Bwtree_Atomic_Stack Bwtree_Datastore
begin

text \<open>
  SDSKV is a key-value microservice: a provider holds databases and serves requests on them over RPCs
  (Margo/Mercury), a client library in C calls the RPCs, a C++ client wraps the C one. This development models
  the client, the messages, the request handlers, the registry of databases and the in-memory backends, and
  proves the composition correct from the C++ member functions down to the ordered map that stores the pairs.

  \<^bold>\<open>Theories, from the bottom up\<close> (file names are those of the repository).

  \<^item> \<open>Sdskv_Prelude\<close>: bytes, bounded reads and writes of buffers, arrays of \<open>hg_size_t\<close> in memory, loops with
    machine counters. \<open>Sdskv_Common\<close>: include/sdskv-common.h and sdskv-common.hpp (return codes, packing of Mercury
    and Argobots errors, the exception). \<open>Ordered_Map\<close>: \<open>std::map\<close> with a comparator; locale \<open>key_order\<close>.
    \<open>Bulk_Keys\<close>: src/bulk.h and the order on keys.
  \<^item> \<open>Datastore\<close>: src/datastore/datastore.h and datastore.cc, the class every backend derives from, as a record
    \<open>vtable\<close> of its virtual functions; the abstract database \<open>kv\<close> and the locale \<open>datastore\<close> with the laws a
    backend promises. \<open>Map_Datastore\<close>, \<open>Null_Datastore\<close>: src/datastore/map_datastore.h and null_datastore.h.
    \<open>Datastore_Factory\<close>: src/datastore/datastore_factory.h and the union of the backends that are compiled in.
  \<^item> \<open>Provider\<close>: the registry of sdskv-server.cc (\<open>databases\<close>, \<open>name2id\<close>, \<open>id2name\<close>, \<open>compfunctions\<close>) and the
    functions of include/sdskv-server.h. \<open>Provider_Steps\<close>: the life of a provider as a step relation.
  \<^item> \<open>Margo\<close>: the runtime as a parameter, and the macros of the handlers. \<open>Rpc_Types\<close>: src/sdskv-rpc-types.h.
  \<^item> \<open>Server_Basic\<close>, \<open>Server_Multi\<close>, \<open>Server_List\<close>, \<open>Server_Migrate\<close>: the handlers \<open>sdskv_*_ult\<close> of
    sdskv-server.cc, each with all its early returns.
  \<^item> \<open>Client_Rpc\<close>, \<open>Client_Basic\<close>, \<open>Client_Multi\<close>, \<open>Client_List\<close>, \<open>Client_Migrate\<close>: sdskv-client.c.
    \<open>Client_Cpp\<close>: include/sdskv-client.hpp.
  \<^item> \<open>Service\<close>, \<open>Service_Cpp\<close>, \<open>Service_Multi\<close>, \<open>Service_List\<close>, \<open>Service_Attach\<close>, \<open>Service_Migrate\<close>,
    \<open>Service_Errors\<close>: client and server put together, one theory per group of operations. \<open>Sample_Service\<close>: a
    concrete provider the theorems are evaluated on.

  \<^bold>\<open>State and effects.\<close> The state of a service is its provider, a record whose \<open>databases\<close> map ids to objects of a
  backend; a handler takes a message and returns the new provider and the response, a client function takes the
  service as a record of RPCs, so that it is independent of the server, and returns the new state of the service
  with its own results. Undefined behaviour (an access outside a buffer) and non-termination are \<open>None\<close>; error codes are
  words of 32 bits as in the sources; sizes are natural numbers, reduced modulo \<open>2 ^ 64\<close> where the code adds
  them. What an uninitialised variable contains is a parameter (\<open>uninit_out\<close>, the fields \<open>cl_*\<close> of the client's runtime).

  \<^bold>\<open>Bounds and loops.\<close> Loops with an \<open>int\<close> or \<open>unsigned\<close> counter that is compared with an \<open>hg_size_t\<close> are defined
  only for counts the counter can reach (\<open>int_loop\<close>, \<open>unsigned_loop\<close>), hence the bounds \<open>2 ^ 31\<close> and \<open>2 ^ 32\<close> in
  the theorems. The listing loop of the map backend and the migration loop are \<open>partial_function\<close>s; that they
  return is proved (\<open>map_list_after_start\<close>, \<open>map_list_prefix\<close>, \<open>migrate_all_keys_complete\<close>), and so is the case
  where the first does not (\<open>map_list_short_key_hangs\<close>). Every other loop is a structural recursion.

  \<^bold>\<open>Hypotheses.\<close> \<open>margo_faithful\<close> and \<open>margo_reliable\<close> state what Mercury documents of bulk transfers,
  \<open>client_reliable\<close> that the calls of one RPC succeed; \<open>ideal_margo\<close> and \<open>ideal_client\<close> satisfy them. The theorems
  on failures (\<open>put_under_failures\<close>) need only \<open>margo_faithful\<close>.

  \<^bold>\<open>What is shown.\<close> Single keys: refinement of the abstract database \<open>kv\<close> on every sequence of calls, at the level
  of the backend and at the level of the C++ client; round trips; every branch of \<open>get\<close>; behaviour under failures.
  Several keys and listings: results and contents, with the conditions on buffers under which they hold.
  Migration: termination, completeness, what the source keeps. Providers: invariants of all reachable states,
  handles freed exactly once. The last section of this theory states the errors of the code that modelling
  showed.

  \<^bold>\<open>Not modelled.\<close> The locks of the provider and of the backends, beyond whether a method returns with its lock
  held (each handler is one atomic step); the REMI branches, compiled out by default; the BwTree backend
  with its bundled index, and the tools, which only call the client and the server; log output.
\<close>

section \<open>One key at a time\<close>

text \<open>
  C1. Refinement of the whole service: any sequence of put, get, length, exists and erase calls of the C++
  client, executed through the C client, the RPCs and the handlers of the server on a database of the map
  backend, returns exactly the results of the abstract key-value store, and leaves every other database and
  the names untouched.
\<close>

theorem client_trace_refines:
  assumes "serves store_inv store_abs st i a" "margo_reliable M" "\<forall>n. client_reliable (C n)"
  shows "\<exists>st'. client_run C (sdskv_service M store_vtable U) i st ops = Some (st', snd (kv_run a ops))
    \<and> serves store_inv store_abs st' i (fst (kv_run a ops)) \<and> only_db_changed i st st'"
  using store_exact.client_run_refines [OF assms(2,3,1)] .

theorem client_trace_refines_witness:
  "\<exists>st'. client_run (\<lambda>_. ideal_client) sample_service 4096 (Some (sample_provider [] True))
      [Op_put [1] [10, 11], Op_put [1] [12], Op_get [1], Op_length [2], Op_erase [1], Op_exists [1], Op_erase [1]]
    = Some (st', [Res_code 0, Res_code (rc SDSKV_ERR_KEYEXISTS), Res_value (Some [10, 11]), Res_size None,
        Res_bool True, Res_bool False, Res_bool False])"
  using client_trace_refines [OF sample_serves [of "[]" True] margo_reliable_ideal sample_clients, of sample_uninit
      "[Op_put [1] [10, 11], Op_put [1] [12], Op_get [1], Op_length [2], Op_erase [1], Op_exists [1], Op_erase [1]]"]
  by (auto simp: kv_put_def kv_erase_def om_sorted_def)

text \<open>
  C2. Put followed by get: on a database that accepts overwriting, a put of any key and value succeeds, and a
  get into a buffer at least as large as the value returns the value and its size, whichever of the two
  protocols (inside the RPC or by bulk transfer) the sizes select for either call.
\<close>

theorem put_get_roundtrip:
  assumes "serves store_inv store_abs st i a" "margo_reliable M" "client_reliable C" "client_reliable C'"
    and "\<not> kv_no_overwrite a" "length v \<le> n" "n \<le> length buf"
  shows "\<exists>st'. sdskv_put C (sdskv_service M store_vtable U) st i k v = Some (st', rc SDSKV_SUCCESS)
    \<and> sdskv_get C' (sdskv_service M store_vtable U) st' i k (Some buf) n
      = Some (st', rc SDSKV_SUCCESS, Some (v @ drop (length v) buf), length v)"
proof -
  have kv: "kv_put a k v = (a\<lparr>kv_map := (kv_map a)(k \<mapsto> v)\<rparr>, rc SDSKV_SUCCESS)"
    using assms(5) by (simp add: kv_put_def)
  obtain st' where st': "sdskv_put C (sdskv_service M store_vtable U) st i k v = Some (st', rc SDSKV_SUCCESS)"
      "serves store_inv store_abs st' i (a\<lparr>kv_map := (kv_map a)(k \<mapsto> v)\<rparr>)"
    using store_ds.client_put [OF assms(1-3), of U k v] kv by auto
  then show ?thesis
    using store_ds.client_get [OF st'(2) assms(2,4,7), of U k] assms(6) by auto
qed

theorem put_get_roundtrip_witness:
  "\<exists>st'. sdskv_put ideal_client sample_service (Some (sample_provider [([5], [6])] False)) 4096 [5] [7, 8]
      = Some (st', rc SDSKV_SUCCESS)
    \<and> sdskv_get ideal_client sample_service st' 4096 [5] (Some [0, 0, 0]) 3
      = Some (st', rc SDSKV_SUCCESS, Some [7, 8, 0], 2)"
  using put_get_roundtrip [OF sample_serves [of "[([5], [6])]" False] sample_reliable client_reliable_ideal,
      of "[7, 8]" 3 "[0, 0, 0]" sample_uninit "[5]"]
  by (simp add: om_sorted_def flip: numeral_2_eq_2)

text \<open>
  C27. Get on every branch: an unknown key is reported with \<open>SDSKV_ERR_UNKNOWN_KEY\<close> and the buffer is not
  touched; a value larger than the caller's size is reported with \<open>SDSKV_ERR_SIZE\<close> and its true size, again
  without touching the buffer; otherwise the value is stored at the start of the buffer.
\<close>

theorem get_branches:
  assumes "serves store_inv store_abs st i a" "margo_reliable M" "client_reliable C" "n \<le> length buf"
  shows "\<exists>n'. sdskv_get C (sdskv_service M store_vtable U) st i k (Some buf) n =
      Some (st, case kv_map a k of
          None \<Rightarrow> (rc SDSKV_ERR_UNKNOWN_KEY, Some buf, n')
        | Some v \<Rightarrow>
            if length v \<le> n then (rc SDSKV_SUCCESS, Some (v @ drop (length v) buf), length v)
            else (rc SDSKV_ERR_SIZE, Some buf, length v))"
  by (rule store_ds.client_get [OF assms])

theorem get_branches_witness:
  "sdskv_get ideal_client sample_service (Some (sample_provider [([5], [6, 7, 8])] False)) 4096 [5] (Some [1, 2]) 2
   = Some (Some (sample_provider [([5], [6, 7, 8])] False), rc SDSKV_ERR_SIZE, Some [1, 2], 3)"
  using get_branches [OF sample_serves [of "[([5], [6, 7, 8])]" False] sample_reliable, of 2 "[1, 2]" sample_uninit "[5]"]
  by (simp add: om_sorted_def)

text \<open>
  The \<open>get\<close> template of the C++ client returns the stored value whatever buffer it is given: it asks for
  the length when the buffer is empty and repeats the call once when the buffer is too small. For a key
  that is not there it throws \<open>SDSKV_ERR_UNKNOWN_KEY\<close>.
\<close>

theorem cpp_get_any_buffer:
  assumes "serves store_inv store_abs st i a" "margo_reliable M" "\<forall>n. client_reliable (C n)"
  shows "cpp_get C (sdskv_service M store_vtable U) st i k buf n0
    = Some (st, case kv_map a k of None \<Rightarrow> Inl (rc SDSKV_ERR_UNKNOWN_KEY) | Some v \<Rightarrow> Inr v)"
  by (rule store_ds.client_cpp_get [OF assms])

theorem cpp_get_any_buffer_witness:
  "cpp_get (\<lambda>_. ideal_client) sample_service (Some (sample_provider [([5], [6, 7, 8])] False)) 4096 [5] [9] 0
   = Some (Some (sample_provider [([5], [6, 7, 8])] False), Inr [6, 7, 8])"
  using cpp_get_any_buffer [OF sample_serves [of "[([5], [6, 7, 8])]" False] margo_reliable_ideal sample_clients,
      of sample_uninit "[5]" "[9]" 0]
  by (simp add: om_sorted_def)

text \<open>
  C3. Safety of a put under failures: whichever steps of the client or of the server fail, and whether or not
  a request whose answer was lost had been executed, the database afterwards holds its old contents or its
  contents with the put applied; when the call reports \<open>SDSKV_SUCCESS\<close> the put was applied.
\<close>

theorem put_under_failures:
  assumes "serves store_inv store_abs st i a" "margo_faithful M" "hg_codes_small M C"
  shows "\<exists>st' r. sdskv_put C (sdskv_service M store_vtable U) st i k v = Some (st', r)
    \<and> (serves store_inv store_abs st' i a \<or> serves store_inv store_abs st' i (fst (kv_put a k v)))
    \<and> (r = rc SDSKV_SUCCESS \<longrightarrow>
        serves store_inv store_abs st' i (fst (kv_put a k v)) \<and> snd (kv_put a k v) = rc SDSKV_SUCCESS)"
  using store_ds.client_put_outcome [OF assms, of U k v] by auto

theorem put_under_failures_witness:
  "\<exists>st' r. sdskv_put (ideal_client\<lparr>cl_output := 14\<rparr>) sample_service (Some (sample_provider [] False)) 4096 [1] [2]
      = Some (st', r) \<and> r = SDSKV_MAKE_HG_ERROR 14
    \<and> serves store_inv store_abs st' 4096 \<lparr>kv_map = [[1] \<mapsto> [2]], kv_no_overwrite = False\<rparr>"
proof -
  have codes: "hg_codes_small ideal_margo (ideal_client\<lparr>cl_output := 14\<rparr>)"
    by (auto simp: hg_codes_small_def ideal_margo_def ideal_client_def split: option.splits if_splits)
  have put: "\<exists>st'. sdskv_put ideal_client sample_service (Some (sample_provider [] False)) 4096 [1] [2] = Some (st', 0)
      \<and> serves store_inv store_abs st' 4096 \<lparr>kv_map = [[1] \<mapsto> [2]], kv_no_overwrite = False\<rparr>"
    using store_ds.client_put [OF sample_serves [of "[]" False] sample_reliable, of sample_uninit "[1]" "[2]"]
    by (auto simp: kv_put_def om_sorted_def)
  have lost: "sdskv_put (ideal_client\<lparr>cl_output := 14\<rparr>) S st i [1] [2]
      = map_option (\<lambda>(st', r). (st', SDSKV_MAKE_HG_ERROR 14)) (sdskv_put ideal_client S st i [1] [2])"
    for S :: "store provider option service" and st i
    by (auto simp: sdskv_put_def rpc_def ideal_client_def MAX_RPC_MESSAGE_SIZE_def Let_def case_prod_beta
        split: option.splits bind_splits)
  show ?thesis
    using put_under_failures [OF sample_serves [of "[]" False] margo_faithful_ideal codes, of sample_uninit "[1]" "[2]"]
      put by (auto simp: lost om_sorted_def)
qed

section \<open>Several keys at a time\<close>

text \<open>
  C18. \<open>put_multi\<close> on a database that accepts overwriting stores every pair, a later pair replacing an earlier
  one with the same key, and reports success: the sizes and items the client lays out in its exposed
  memory are cut apart by the server into exactly the pairs the caller gave.
\<close>

theorem put_multi_stores:
  assumes "serves store_inv store_abs st i a" "margo_reliable M" "client_reliable C"
    and "length vals = length keys" "length keys + 1 < 2 ^ 31" "fits64 keys" "fits64 vals" "[] \<notin> set keys"
    and "\<not> kv_no_overwrite a"
  shows "\<exists>st'. sdskv_put_multi C (sdskv_service M store_vtable U) ret0 st i keys vals = Some (st', rc SDSKV_SUCCESS)
    \<and> serves store_inv store_abs st' i (a\<lparr>kv_map := kv_map a ++ map_of (rev (zip keys vals))\<rparr>)
    \<and> only_db_changed i st st'"
  using store_ds.client_put_multi [OF assms(1-8), of U ret0] kv_puts_overwrite [OF assms(9)] by simp

theorem put_multi_stores_witness:
  "\<exists>st'. sdskv_put_multi ideal_client sample_service 77 (Some (sample_provider [] False)) 4096
        [[1], [2, 3], [1]] [[10], [], [11, 12]] = Some (st', rc SDSKV_SUCCESS)
    \<and> serves store_inv store_abs st' 4096 \<lparr>kv_map = [[1] \<mapsto> [11, 12], [2, 3] \<mapsto> []], kv_no_overwrite = False\<rparr>"
proof -
  have "(Map.empty ++ map_of (rev (zip [[1], [2, 3], [1]] [[10], [], [11, 12]])) :: bulk \<Rightarrow> bulk option)
      = [[1] \<mapsto> [11, 12], [2, 3] \<mapsto> []]"
    by (simp add: fun_upd_twist)
  then show ?thesis
    using put_multi_stores [OF sample_serves [of "[]" False] sample_reliable, of "[[10], [], [11, 12]]"
        "[[1], [2, 3], [1]]" sample_uninit 77]
    by (auto simp: om_sorted_def fits64_def)
qed

text \<open>
  C22. \<open>put_packed\<close> stores the same pairs from packed buffers, with one bulk region for sizes, keys and values.
\<close>

theorem put_packed_stores:
  assumes "serves store_inv store_abs st i a" "margo_reliable M" "client_reliable C"
    and "length vals = length keys" "length keys < 2 ^ 32"
    and "16 * length keys + sum_list (map length keys) + sum_list (map length vals) < 2 ^ 64"
    and "\<not> kv_no_overwrite a"
  shows "\<exists>st'. sdskv_put_packed C (sdskv_service M store_vtable U) st i (length keys)
        (concat keys) (map length keys) (concat vals) (map length vals) = Some (st', rc SDSKV_SUCCESS)
    \<and> serves store_inv store_abs st' i (a\<lparr>kv_map := kv_map a ++ map_of (rev (zip keys vals))\<rparr>)
    \<and> only_db_changed i st st'"
  using store_ds.client_put_packed [OF assms(1-6), of U] kv_puts_overwrite [OF assms(7)] by simp

theorem put_packed_stores_witness:
  "\<exists>st'. sdskv_put_packed ideal_client sample_service (Some (sample_provider [] False)) 4096 2
        [1, 2, 3] [1, 2] [10, 11] [0, 2] = Some (st', rc SDSKV_SUCCESS)
    \<and> serves store_inv store_abs st' 4096 \<lparr>kv_map = [[1] \<mapsto> [], [2, 3] \<mapsto> [10, 11]], kv_no_overwrite = False\<rparr>"
proof -
  have "(Map.empty ++ map_of (rev (zip [[1], [2, 3]] [[], [10, 11]])) :: bulk \<Rightarrow> bulk option)
      = [[1] \<mapsto> [], [2, 3] \<mapsto> [10, 11]]"
    by (simp add: fun_upd_twist)
  then show ?thesis
    using put_packed_stores [OF sample_serves [of "[]" False] sample_reliable, of "[[], [10, 11]]" "[[1], [2, 3]]"
        sample_uninit]
    by (auto simp: om_sorted_def simp flip: numeral_2_eq_2)
qed

text \<open>
  C19. \<open>get_multi\<close> returns for every key its value when it fits the size the caller allocated for it, and
  size 0 when it does not or when the key is not there; what a value does not cover of its buffer is kept.
\<close>

theorem get_multi_returns:
  assumes "serves store_inv store_abs st i a" "margo_reliable M" "client_reliable C"
    and "length caps = length keys" "length keys + 1 < 2 ^ 31" "fits64 keys"
    and "sum_list caps + 8 * length keys < 2 ^ 64" "list_all2 (\<lambda>c b. c \<le> length b) caps bufs"
    and "vs = map (\<lambda>(k, c). fetch a k c) (zip keys caps)"
  shows "sdskv_get_multi C (sdskv_service M store_vtable U) ret0 un st i keys (Some bufs) caps
    = Some (st, rc SDSKV_SUCCESS, Some (map (\<lambda>(v, b). v @ drop (length v) b) (zip vs bufs)), map length vs)"
  by (rule store_ds.client_get_multi [OF assms])

theorem get_multi_returns_witness:
  "sdskv_get_multi ideal_client sample_service 0 (\<lambda>_. 255) (Some (sample_provider [([1], [7, 8]), ([2], [9, 9, 9])] False)) 4096
     [[1], [2], [3]] (Some [[0, 0, 0], [0, 0], [0]]) [3, 2, 1]
   = Some (Some (sample_provider [([1], [7, 8]), ([2], [9, 9, 9])] False), rc SDSKV_SUCCESS,
       Some [[7, 8, 0], [0, 0], [0]], [2, 0, 0])"
  using get_multi_returns [OF sample_serves [of "[([1], [7, 8]), ([2], [9, 9, 9])]" False] sample_reliable,
      of "[3, 2, 1]" "[[1], [2], [3]]" "[[0, 0, 0], [0, 0], [0]]" "[[7, 8], [], []]" sample_uninit 0 "\<lambda>_. 255"]
  by (simp add: om_sorted_def ds_bulk_less_def fits64_def fetch_def flip: numeral_2_eq_2)

text \<open>
  C23. \<open>get_packed\<close> into a buffer that can hold all the values returns them one after the other with their
  sizes, marks the keys that are not there with size \<open>2\<^sup>6\<^sup>4 - 1\<close> and counts the ones that are.
\<close>

theorem get_packed_returns:
  assumes "serves store_inv store_abs st i a" "margo_reliable M" "client_reliable C"
    and "length vsizes = length keys" "length keys < 2 ^ 32" "fits64 keys"
    and "0 < n" "length buf = n" "8 * length keys + n < 2 ^ 64"
    and "length (concat (map (packed_value a) keys)) \<le> n"
  shows "sdskv_get_packed C (sdskv_service M store_vtable U) st i (length keys) (concat keys) (map length keys) n buf vsizes
    = Some (st, rc SDSKV_SUCCESS, length (filter (\<lambda>k. kv_map a k \<noteq> None) keys),
        concat (map (packed_value a) keys) @ replicate (n - length (concat (map (packed_value a) keys))) 0,
        map (packed_size a) keys)"
  by (rule store_ds.client_get_packed [OF assms])

theorem get_packed_returns_witness:
  "sdskv_get_packed ideal_client sample_service (Some (sample_provider [([1], [7, 8]), ([2], [9])] False)) 4096
     3 [1, 3, 2] [1, 1, 1] 4 [5, 5, 5, 5] [0, 0, 0]
   = Some (Some (sample_provider [([1], [7, 8]), ([2], [9])] False), rc SDSKV_SUCCESS, 2, [7, 8, 9, 0],
       [2, 2 ^ 64 - 1, 1])"
  using get_packed_returns [OF sample_serves [of "[([1], [7, 8]), ([2], [9])]" False] sample_reliable,
      of "[0, 0, 0]" "[[1], [3], [2]]" 4 "[5, 5, 5, 5]" sample_uninit]
  by (simp add: om_sorted_def ds_bulk_less_def fits64_def packed_value_def packed_size_def flip: numeral_2_eq_2)

text \<open>
  C29. \<open>length_multi\<close> and \<open>length_packed\<close> agree: both return the size of every stored value and 0 for the keys
  that are not there, for any initial contents of the caller's array.
\<close>

theorem length_multi_packed_agree:
  assumes "serves store_inv store_abs st i a" "margo_reliable M" "client_reliable C" "client_reliable C'"
    and "length vsizes = length keys" "length keys + 1 < 2 ^ 31" "fits64 keys"
    and "\<forall>k\<in>set keys. stored_size a k < 2 ^ 64"
  shows "sdskv_length_multi C (sdskv_service M store_vtable U) ret0 st i keys vsizes
      = Some (st, rc SDSKV_SUCCESS, map (stored_size a) keys)
    \<and> sdskv_length_packed C' (sdskv_service M store_vtable U) st i (length keys) (concat keys) (map length keys) vsizes
      = Some (st, rc SDSKV_SUCCESS, map (stored_size a) keys)"
  using store_ds.client_length_multi [OF assms(1-3,5-8), of U ret0]
    store_ds.client_length_packed [OF assms(1,2,4,5) _ assms(7,8), of U] assms(6) by simp

theorem length_multi_packed_agree_witness:
  "sdskv_length_multi ideal_client sample_service 0 (Some (sample_provider [([1], [7, 8])] False)) 4096 [[1], [4]] [9, 9]
   = Some (Some (sample_provider [([1], [7, 8])] False), rc SDSKV_SUCCESS, [2, 0])"
  using length_multi_packed_agree [OF sample_serves [of "[([1], [7, 8])]" False] sample_reliable client_reliable_ideal,
      of "[9, 9]" "[[1], [4]]" sample_uninit 0]
  by (simp add: om_sorted_def fits64_def stored_size_def flip: numeral_2_eq_2)

text \<open>
  C28. \<open>exists_multi\<close>: the bit field the server fills and the client unpacks says for every key whether it is in
  the database.
\<close>

theorem exists_multi_flags:
  assumes "serves store_inv store_abs st i a" "margo_reliable M" "client_reliable C"
    and "length flags = length keys" "length keys + 1 < 2 ^ 31" "fits64 keys"
  shows "sdskv_exists_multi C (sdskv_service M store_vtable U) ret0 st i keys flags
    = Some (st, rc SDSKV_SUCCESS, map (\<lambda>k. if kv_map a k \<noteq> None then 1 else 0) keys)"
  by (rule store_ds.client_exists_multi [OF assms])

theorem exists_multi_flags_witness:
  "sdskv_exists_multi ideal_client sample_service 0 (Some (sample_provider [([1], []), ([9], [])] False)) 4096
     [[1], [2], [3], [4], [5], [6], [7], [8], [9], [10]] [5, 5, 5, 5, 5, 5, 5, 5, 5, 5]
   = Some (Some (sample_provider [([1], []), ([9], [])] False), rc SDSKV_SUCCESS, [1, 0, 0, 0, 0, 0, 0, 0, 1, 0])"
  using exists_multi_flags [OF sample_serves [of "[([1], []), ([9], [])]" False] sample_reliable,
      of "[5, 5, 5, 5, 5, 5, 5, 5, 5, 5]" "[[1], [2], [3], [4], [5], [6], [7], [8], [9], [10]]" sample_uninit 0]
  by (simp add: om_sorted_def ds_bulk_less_def fits64_def)

text \<open>\<open>erase_multi\<close> removes exactly the given keys; keys that are not there are not an error.\<close>

theorem erase_multi_removes:
  assumes "serves store_inv store_abs st i a" "margo_reliable M" "client_reliable C"
    and "length keys + 1 < 2 ^ 31" "fits64 keys"
  shows "\<exists>st'. sdskv_erase_multi C (sdskv_service M store_vtable U) ret0 st i keys = Some (st', rc SDSKV_SUCCESS)
    \<and> serves store_inv store_abs st' i (a\<lparr>kv_map := kv_map a |` (- set keys)\<rparr>) \<and> only_db_changed i st st'"
proof -
  have "foldl kv_erase b ks = b\<lparr>kv_map := kv_map b |` (- set ks)\<rparr>" for b :: kv and ks
    by (induction ks arbitrary: b) (auto simp: kv_erase_def restrict_map_def fun_eq_iff)
  then show ?thesis using store_ds.client_erase_multi [OF assms, of U ret0] by simp
qed

theorem erase_multi_removes_witness:
  "\<exists>st'. sdskv_erase_multi ideal_client sample_service 0 (Some (sample_provider [([1], [7]), ([2], [8])] False)) 4096
      [[2], [3]] = Some (st', rc SDSKV_SUCCESS)
    \<and> serves store_inv store_abs st' 4096 \<lparr>kv_map = [[1] \<mapsto> [7]], kv_no_overwrite = False\<rparr>"
proof -
  have "(map_of [([1], [7]), ([2], [8])] |` (- set [[2], [3]]) :: bulk \<Rightarrow> bulk option) = [[1] \<mapsto> [7]]"
    by (auto simp: restrict_map_def fun_eq_iff)
  then show ?thesis
    using erase_multi_removes [OF sample_serves [of "[([1], [7]), ([2], [8])]" False] sample_reliable, of "[[2], [3]]"
        sample_uninit 0]
    by (auto simp: om_sorted_def ds_bulk_less_def fits64_def)
qed

text \<open>
  C37. The \<open>get_multi\<close> template of the C++ client that returns a vector asks for the sizes, allocates the objects and
  fetches the values: it returns for every key its value, and an empty object for a key that is not there.
\<close>

theorem cpp_get_multi_returns:
  assumes "serves store_inv store_abs st i a" "margo_reliable M" "client_reliable C1" "client_reliable C2"
    and "length keys + 1 < 2 ^ 31" "fits64 keys"
    and "sum_list (map (stored_size a) keys) + 8 * length keys < 2 ^ 64"
  shows "cpp_get_multi_values C1 C2 (sdskv_service M store_vtable U) ret0 un st i keys
    = Some (st, Inr (map (packed_value a) keys))"
  by (rule store_ds.cpp_get_multi_values_law [OF assms])

theorem cpp_get_multi_returns_witness:
  "cpp_get_multi_values ideal_client ideal_client sample_service 77 (\<lambda>_. 255)
     (Some (sample_provider [([1], [7, 8]), ([2], [9])] False)) 4096 [[2], [3], [1]]
   = Some (Some (sample_provider [([1], [7, 8]), ([2], [9])] False), Inr [[9], [], [7, 8]])"
  using cpp_get_multi_returns [OF sample_serves [of "[([1], [7, 8]), ([2], [9])]" False] sample_reliable
      client_reliable_ideal, of "[[2], [3], [1]]" sample_uninit 77 "\<lambda>_. 255"]
  by (simp add: om_sorted_def ds_bulk_less_def fits64_def stored_size_def packed_value_def)

text \<open>
  The \<open>get_packed\<close> overload on strings cuts the array of sizes to the number of keys found, although a key
  that is not there has its entry too: after a missing key the sizes of the last values are lost.
\<close>

theorem cpp_get_packed_cuts_sizes:
  assumes "serves store_inv store_abs st i a" "margo_reliable M" "client_reliable C"
    and "length keys < 2 ^ 32" "fits64 keys" "0 < length buf" "8 * length keys + length buf < 2 ^ 64"
    and "length (concat (map (packed_value a) keys)) \<le> length buf"
  shows "cpp_get_packed_str C (sdskv_service M store_vtable U) st i (concat keys) (map length keys) buf vsizes
    = Some (st, concat (map (packed_value a) keys)
          @ replicate (length buf - length (concat (map (packed_value a) keys))) 0,
        take (length (filter (\<lambda>k. kv_map a k \<noteq> None) keys)) (map (packed_size a) keys), Inr True)"
  by (rule store_ds.cpp_get_packed_str_law [OF assms])

theorem cpp_get_packed_cuts_sizes_witness:
  "cpp_get_packed_str ideal_client sample_service (Some (sample_provider [([1], [7, 8])] False)) 4096
     [3, 1] [1, 1] [0, 0, 0] []
   = Some (Some (sample_provider [([1], [7, 8])] False), [7, 8, 0], [2 ^ 64 - 1], Inr True)"
  using cpp_get_packed_cuts_sizes [OF sample_serves [of "[([1], [7, 8])]" False] sample_reliable,
      of "[[3], [1]]" "[0, 0, 0]" sample_uninit "[]"]
  by (simp add: om_sorted_def ds_bulk_less_def fits64_def packed_value_def packed_size_def)

section \<open>Listing\<close>

text \<open>
  C20. Listing keys end to end, on a database in the default order: the client gets the first \<open>max_keys\<close> keys
  that follow the start key, their number and their sizes; when one of them is larger than its buffer the
  call reports \<open>SDSKV_ERR_SIZE\<close> with the true sizes and leaves the buffers as they were.
\<close>

theorem list_keys_returns:
  assumes "st = Some p" "find_db p i = Some db" "listed_inv db" "margo_reliable M" "client_reliable C"
    and keys: "keys = map fst (take (length bufs)
        (filter (\<lambda>e. start = [] \<or> ds_bulk_less start (fst e)) (store_entries db)))"
    and "keys \<noteq> []" "length bufs < 2 ^ 31" "fits64 bufs" "[] \<notin> set bufs" "\<forall>k\<in>set keys. length k < 2 ^ 64"
  shows "sdskv_list_keys C (sdskv_service M store_vtable U) st i start (Some (map Some bufs)) (map length bufs) (length bufs)
    = Some (st, if items_fit keys bufs then rc SDSKV_SUCCESS else rc SDSKV_ERR_SIZE,
        Some (map Some (if items_fit keys bufs then fill keys bufs else bufs)),
        true_sizes keys (length bufs), length keys)"
proof -
  have "vt_vlist_keys store_vtable db start (length bufs) [] = Some keys"
    using store_list_no_prefix(2) [OF assms(3)] keys by simp
  moreover have "length keys \<le> length bufs" by (simp add: keys)
  ultimately show ?thesis
    unfolding sdskv_list_keys_def using client_list_keys [OF assms(1,4,5,2)] assms(7-11) by simp
qed

theorem list_keys_returns_witness:
  "sdskv_list_keys ideal_client sample_service (Some (sample_provider [([1], []), ([2, 2], []), ([3], [])] False)) 4096
     [1] (Some [Some [9, 9, 9], Some [9], Some [9]]) [3, 1, 1] 3
   = Some (Some (sample_provider [([1], []), ([2, 2], []), ([3], [])] False), rc SDSKV_SUCCESS,
       Some [Some [2, 2, 9], Some [3], Some [9]], [2, 1, 0], 2)"
proof -
  have srt: "om_sorted ds_bulk_less [([1], []), ([2, 2], []), ([3], [])]"
    by (simp add: om_sorted_def ds_bulk_less_def)
  have fit: "items_fit [[2, 2], [3]] [[9, 9, 9], [9], [9]]"
    by (simp add: items_fit_def nth_Cons split: nat.splits)
  show ?thesis
    using list_keys_returns [OF refl _ sample_listed_inv [OF srt, of False] sample_reliable, of
        "sample_provider [([1], []), ([2, 2], []), ([3], [])] False" 4096 "[[2, 2], [3]]"
        "[[9, 9, 9], [9], [9]]" "[1]" sample_uninit] fit
    by (simp add: sample_find store_entries_def sample_store_def ds_bulk_less_def fits64_def true_sizes_def
        flip: numeral_2_eq_2)
qed

text \<open>
  C21. Listing pairs end to end: with a buffer large enough for every key and every value, the client gets the
  first \<open>max_keys\<close> pairs that follow the start key, with their sizes and their number.
\<close>

theorem list_keyvals_returns:
  assumes "st = Some p" "find_db p i = Some db" "listed_inv db" "margo_reliable M" "client_reliable C"
    and kvs: "kvs = take (length kbufs)
        (filter (\<lambda>e. start = [] \<or> ds_bulk_less start (fst e)) (store_entries db))"
    and "kvs \<noteq> []" "length kbufs < 2 ^ 31" "length vbufs = length kbufs" "fits64 kbufs" "fits64 vbufs"
    and "items_fit (map fst kvs) kbufs" "items_fit (map snd kvs) vbufs"
    and "\<forall>kv\<in>set kvs. length (fst kv) < 2 ^ 64 \<and> length (snd kv) < 2 ^ 64"
  shows "sdskv_list_keyvals C (sdskv_service M store_vtable U) st i start
      (Some (map Some kbufs)) (map length kbufs) (Some (map Some vbufs)) (map length vbufs) (length kbufs)
    = Some (st, rc SDSKV_SUCCESS,
        Some (map Some (fill (map fst kvs) kbufs)), true_sizes (map fst kvs) (length kbufs),
        Some (map Some (fill (map snd kvs) vbufs)), true_sizes (map snd kvs) (length kbufs), length kvs)"
proof -
  have "vt_vlist_keyvals store_vtable db start (length kbufs) [] = Some kvs"
    using store_list_no_prefix(1) [OF assms(3)] kvs by simp
  moreover have "length kvs \<le> length kbufs" by (simp add: kvs)
  ultimately show ?thesis
    unfolding sdskv_list_keyvals_def using client_list_keyvals [OF assms(1,4,5,2)] assms(7-14) by blast
qed

theorem list_keyvals_returns_witness:
  "sdskv_list_keyvals ideal_client sample_service (Some (sample_provider [([1], [5, 5]), ([2, 2], [6])] False)) 4096
     [] (Some [Some [9], Some [9, 9]]) [1, 2] (Some [Some [8, 8, 8], Some [8]]) [3, 1] 2
   = Some (Some (sample_provider [([1], [5, 5]), ([2, 2], [6])] False), rc SDSKV_SUCCESS,
       Some [Some [1], Some [2, 2]], [1, 2], Some [Some [5, 5, 8], Some [6]], [2, 1], 2)"
proof -
  have srt: "om_sorted ds_bulk_less [([1], [5, 5]), ([2, 2], [6])]"
    by (simp add: om_sorted_def ds_bulk_less_def)
  have fit: "items_fit [[1], [2, 2]] [[9], [9, 9]]" "items_fit [[5, 5], [6]] [[8, 8, 8], [8]]"
    by (simp_all add: items_fit_def nth_Cons split: nat.splits)
  show ?thesis
    using list_keyvals_returns [OF refl _ sample_listed_inv [OF srt, of False] sample_reliable, of
        "sample_provider [([1], [5, 5]), ([2, 2], [6])] False" 4096 "[([1], [5, 5]), ([2, 2], [6])]"
        "[[9], [9, 9]]" "[]" "[[8, 8, 8], [8]]" sample_uninit] fit
    by (simp add: sample_find store_entries_def sample_store_def fits64_def true_sizes_def flip: numeral_2_eq_2)
qed

text \<open>
  The \<open>list_keys\<close> template of the C++ client, given a vector of \<open>n\<close> empty objects, returns the first \<open>n\<close> keys that
  follow the start key: the first call is refused for the sizes and reports them, the objects are resized
  and the second call fills them.
\<close>

theorem cpp_list_keys_into_empty:
  assumes "st = Some p" "find_db p i = Some db" "listed_inv db" "margo_reliable M" "\<forall>c. client_reliable (C c)"
    and keys: "keys = map fst (take n (filter (\<lambda>e. start = [] \<or> ds_bulk_less start (fst e)) (store_entries db)))"
    and "n < 2 ^ 31" "[] \<notin> set keys" "fits64 keys"
  shows "cpp_list_keys C (sdskv_service M store_vtable U) st i start (replicate n []) = Some (st, keys, Inr ())"
proof (cases "n = 0")
  case True
  then show ?thesis by (simp add: cpp_list_keys_def keys)
next
  case False
  let ?after = "filter (\<lambda>e. start = [] \<or> ds_bulk_less start (fst e)) (store_entries db)"
  have len: "take (length keys) ?after = take n ?after" by (simp add: keys min_def)
  have "vt_vlist_keys store_vtable db start n [] = Some keys"
    "vt_vlist_keys store_vtable db start (length keys) [] = Some keys"
    unfolding store_list_no_prefix(2) [OF assms(3)] len by (simp_all add: keys)
  moreover have "length keys \<le> n" by (simp add: keys)
  ultimately show ?thesis
    using cpp_list_keys_law [OF assms(1,4,5,2)] False assms(7-9) by (simp add: cpp_list_keys_def)
qed

theorem cpp_list_keys_into_empty_witness:
  "cpp_list_keys (\<lambda>_. ideal_client) sample_service (Some (sample_provider [([1], []), ([2, 2], []), ([3], [])] False)) 4096
     [1] [[], [], []]
   = Some (Some (sample_provider [([1], []), ([2, 2], []), ([3], [])] False), [[2, 2], [3]], Inr ())"
proof -
  have srt: "om_sorted ds_bulk_less [([1], []), ([2, 2], []), ([3], [])]"
    by (simp add: om_sorted_def ds_bulk_less_def)
  show ?thesis
    using cpp_list_keys_into_empty [OF refl _ sample_listed_inv [OF srt, of False] margo_reliable_ideal sample_clients, of
        "sample_provider [([1], []), ([2, 2], []), ([3], [])] False" 4096 "[[2, 2], [3]]" 3 "[1]" sample_uninit]
    by (simp add: sample_find store_entries_def sample_store_def ds_bulk_less_def fits64_def numeral_3_eq_3)
qed

text \<open>
  The \<open>list_keyvals\<close> template never repeats its call, whatever the runtime, the backend, the state and the
  buffers: the handler never answers \<open>SDSKV_ERR_SIZE\<close>, the only code the template repeats the call for.
\<close>

theorem cpp_list_keyvals_never_retries:
  "cpp_list_keyvals_prefix C (sdskv_service M V U) st i start prefix keys vals
   = cpp_list_keyvals_prefix (C(1 := C')) (sdskv_service M V U) st i start prefix keys vals"
  by (rule cpp_list_keyvals_one_call)

section \<open>Migration\<close>

text \<open>
  C4. \<open>sdskv_migrate_all_keys\<close> terminates and moves the database: the batches of 64 pairs reach every pair, the
  target ends with its contents overridden by those of the source, and the source ends empty when the
  originals are to be removed and unchanged otherwise. Source and target are databases of the map backend, the
  source in its default order, the target accepting overwriting.
\<close>

theorem migrate_all_keys_complete:
  assumes "serves listed_inv store_abs st i a" "serves store_inv store_abs t j b" "\<not> kv_no_overwrite b"
    and "margo_reliable M" "margo_reliable M'" "client_reliable C"
  shows "\<exists>st' t'. sdskv_migrate_all_keys C (sdskv_migrate_service M store_vtable (provider_target M') ret0)
        (st, t) i j flag = Some ((st', t'), rc SDSKV_SUCCESS)
    \<and> (\<exists>a'. serves listed_inv store_abs st' i a'
        \<and> kv_map a' = (if flag = SDSKV_REMOVE_ORIGINAL then Map.empty else kv_map a))
    \<and> only_db_changed i st st'
    \<and> serves store_inv store_abs t' j (b\<lparr>kv_map := kv_map b ++ kv_map a\<rparr>)"
  by (rule client_migrate_all_keys [OF assms(1,2,4-6,3)])

theorem migrate_all_keys_complete_witness:
  "\<exists>st' t'. sdskv_migrate_all_keys ideal_client
        (sdskv_migrate_service ideal_margo store_vtable (provider_target ideal_margo) 0)
        (Some (sample_provider [([1], [7]), ([2], [8])] False), Some (sample_provider [([1], [5]), ([3], [6])] False))
        4096 4096 SDSKV_REMOVE_ORIGINAL = Some ((st', t'), rc SDSKV_SUCCESS)
    \<and> (\<exists>a'. serves listed_inv store_abs st' 4096 a' \<and> kv_map a' = Map.empty)
    \<and> serves store_inv store_abs t' 4096
        \<lparr>kv_map = map_of [([1], [5]), ([3], [6])] ++ map_of [([1], [7]), ([2], [8])], kv_no_overwrite = False\<rparr>"
proof -
  have "om_sorted ds_bulk_less [([1], [7]), ([2], [8])]" "om_sorted ds_bulk_less [([1], [5]), ([3], [6])]"
    by (simp_all add: om_sorted_def ds_bulk_less_def)
  from migrate_all_keys_complete [OF sample_serves_listed [OF this(1), of False] sample_serves [OF this(2), of False]
      _ margo_reliable_ideal sample_reliable, of 0 SDSKV_REMOVE_ORIGINAL]
  show ?thesis by simp blast
qed

text \<open>
  C30. The handler of \<open>migrate_keys\<close> copies exactly those of the given keys that are in the source database, and
  removes them from it when asked to; repeated and unknown keys do no harm.
\<close>

theorem migrate_keys_handler_complete:
  assumes "serves store_inv store_abs st i a" "serves store_inv store_abs t j b" "\<not> kv_no_overwrite b"
    and "margo_reliable M" "margo_reliable M'" "length keys < 2 ^ 31" "fits64 keys"
  shows "\<exists>st' t'. sdskv_migrate_keys_ult M store_vtable (provider_target M') st t
        \<lparr>mk_source_db_id = i, mk_target_db_id = j, mk_num_keys = length keys,
         mk_bulk_size = exposed_size keys, mk_keys_bulk = expose_sized keys, mk_flag = flag\<rparr>
      = Some (st', t', rc SDSKV_SUCCESS)
    \<and> serves store_inv store_abs st' i
        (if flag = SDSKV_REMOVE_ORIGINAL then a\<lparr>kv_map := kv_map a |` (- set keys)\<rparr> else a)
    \<and> only_db_changed i st st'
    \<and> serves store_inv store_abs t' j (b\<lparr>kv_map := kv_map b ++ (kv_map a |` set keys)\<rparr>)"
proof -
  have t: "served j t" "served_kv j t = b" using assms(2) by (simp_all add: serves_served)
  then show ?thesis
    using key_migration.migrate_keys_ult_law [OF store_key_migration_reliable [OF assms(5)] assms(1,4) t(1) _ assms(6,7),
        of flag] assms(3) by (simp add: serves_served)
qed

theorem migrate_keys_handler_complete_witness:
  "\<exists>st' t'. sdskv_migrate_keys_ult ideal_margo store_vtable (provider_target ideal_margo)
        (Some (sample_provider [([1], [7])] False)) (Some (sample_provider [] False))
        \<lparr>mk_source_db_id = 4096, mk_target_db_id = 4096, mk_num_keys = 2, mk_bulk_size = exposed_size [[1], [2]],
         mk_keys_bulk = expose_sized [[1], [2]], mk_flag = SDSKV_KEEP_ORIGINAL\<rparr>
      = Some (st', t', rc SDSKV_SUCCESS)
    \<and> serves store_inv store_abs t' 4096 \<lparr>kv_map = [[1] \<mapsto> [7]], kv_no_overwrite = False\<rparr>"
proof -
  have m: "(map_of [([1], [7])] |` set [[1], [2]] :: bulk \<Rightarrow> bulk option) = [[1] \<mapsto> [7]]"
    by (auto simp: restrict_map_def fun_eq_iff)
  show ?thesis
    using migrate_keys_handler_complete [OF sample_serves [of "[([1], [7])]" False] sample_serves [of "[]" False] _
        margo_reliable_ideal margo_reliable_ideal, of "[[1], [2]]" SDSKV_KEEP_ORIGINAL] m
    by (auto simp: om_sorted_def fits64_def simp flip: numeral_2_eq_2)
qed



section \<open>Providers\<close>

text \<open>
  C5. Registry invariant: in every state a provider can reach by attaching, removing and using databases and
  registering comparison functions, the three maps of the registry are consistent: an id has a database
  exactly when it has a name, and a name leads to a live database that carries it.
\<close>

theorem provider_registry_consistent:
  assumes "provider_reachable V open_ds p"
  shows "provider_inv p"
  by (rule provider_reachable_inv [OF assms])

theorem provider_registry_consistent_witness:
  "provider_inv (fst (sdskv_provider_remove_database
      (fst (sdskv_provider_attach_database store_vtable open_datastore provider_new sample_config 4096)) 4096))"
proof -
  have "find_db provider_new 4096 = (None :: store option)" by (simp add: provider_new_def)
  then have "provider_step store_vtable open_datastore provider_new
      (fst (sdskv_provider_attach_database store_vtable open_datastore provider_new sample_config 4096))"
    by (rule provider_step.attach)
  from provider_reachable.step [OF provider_reachable.step [OF provider_reachable.registered this] provider_step.remove]
  show ?thesis by (rule provider_registry_consistent)
qed

text \<open>
  C26. As long as no name is attached while it is in use, \<open>sdskv_provider_list_databases\<close> reports exactly the
  live databases, each once, and their number is what \<open>sdskv_provider_count_databases\<close> returns: an array of
  that size is filled exactly.
\<close>

theorem list_databases_exact:
  assumes "named_reachable V open_ds p" "length targets = fst (sdskv_provider_count_databases p)"
  shows "\<exists>ids. sdskv_provider_list_databases p targets = Some (ids, rc SDSKV_SUCCESS)
    \<and> set ids = {i. find_db p i \<noteq> None} \<and> distinct ids"
proof -
  have "length (name2id p) = length targets" "set (map snd (name2id p)) = {i. find_db p i \<noteq> None}"
    "distinct (map snd (name2id p))"
    using live_ids [OF provider_reachable_inv [OF named_reachable_provider [OF assms(1)]]
        named_reachable_unique [OF assms(1)]] assms(2)
    by (simp_all add: sdskv_provider_count_databases_def)
  then show ?thesis
    by (simp add: sdskv_provider_list_databases_def overwrite_all)
qed

theorem list_databases_exact_witness:
  "\<exists>ids. sdskv_provider_list_databases
      (fst (sdskv_provider_attach_database store_vtable open_datastore provider_new sample_config 4096)) [0]
    = Some (ids, rc SDSKV_SUCCESS) \<and> distinct ids"
proof -
  have "find_db provider_new 4096 = (None :: store option)"
    "find_name provider_new (cfg_db_name sample_config) = None"
    by (simp_all add: provider_new_def)
  then have "named_reachable store_vtable open_datastore
      (fst (sdskv_provider_attach_database store_vtable open_datastore provider_new sample_config 4096))"
    by (intro named_reachable.step_named [OF named_reachable.registered_named] named_step.attach_new)
  moreover have "fst (sdskv_provider_count_databases
      (fst (sdskv_provider_attach_database store_vtable open_datastore provider_new sample_config 4096))) = 1"
    by (simp add: sdskv_provider_count_databases_def sdskv_provider_attach_database_def attach_comp_fn_def
        sample_config_def open_datastore_def open_map_datastore_def map_openDatabase_def provider_new_def)
  ultimately show ?thesis
    using list_databases_exact [of store_vtable open_datastore
        "fst (sdskv_provider_attach_database store_vtable open_datastore provider_new sample_config 4096)" "[0]"]
    by auto
qed

text \<open>
  Attaching a database of the map backend under a configuration whose comparison function, if any, is
  registered and a total order makes it available: the client's \<open>open\<close> finds it by name, it is empty, it
  has the requested overwrite policy, and the other databases are as before.
\<close>

theorem attach_then_open:
  assumes "provider_inv p" "find_db p addr = None" "cfg_db_type config = KVDB_MAP"
    and "attach_comp_fn p config = Inr cf" "comp_fn_ok cf" "margo_reliable M" "client_reliable C"
  shows "\<exists>p'. sdskv_provider_attach_database store_vtable open_datastore p config addr
        = (p', rc SDSKV_SUCCESS, Some addr)
    \<and> sdskv_open C (sdskv_service M store_vtable U) (Some p') (cfg_db_name config) i0
        = Some (Some p', rc SDSKV_SUCCESS, addr)
    \<and> serves store_inv store_abs (Some p') addr \<lparr>kv_map = Map.empty, kv_no_overwrite = cfg_db_no_overwrite config\<rparr>
    \<and> (\<forall>j. j \<noteq> addr \<longrightarrow> find_db p' j = find_db p j)"
proof -
  obtain p' where p': "sdskv_provider_attach_database store_vtable open_datastore p config addr
        = (p', rc SDSKV_SUCCESS, Some addr)"
      "serves store_inv store_abs (Some p') addr
        \<lparr>kv_map = Map.empty, kv_no_overwrite = cfg_db_no_overwrite config\<rparr>"
      "find_name p' (cfg_db_name config) = Some addr" "\<forall>j. j \<noteq> addr \<longrightarrow> find_db p' j = find_db p j"
    using attach_map_serves [OF assms(1-5)] by blast
  then show ?thesis
    using client_open [OF refl assms(6,7), of store_vtable U p' "cfg_db_name config" i0] by simp
qed

theorem attach_then_open_witness:
  "\<exists>p'. sdskv_provider_attach_database store_vtable open_datastore provider_new sample_config 4096
        = (p', rc SDSKV_SUCCESS, Some 4096)
    \<and> sdskv_open ideal_client sample_service (Some p') ''db'' 0 = Some (Some p', rc SDSKV_SUCCESS, 4096)"
  using attach_then_open [OF provider_inv_new, of 4096 sample_config None, OF _ _ _ _ sample_reliable, of sample_uninit 0]
  by (auto simp: provider_new_def sample_config_def attach_comp_fn_def comp_fn_ok_def)

text \<open>
  Reference counts: a provider handle that was created and then referenced \<open>n\<close> more times survives \<open>n\<close>
  releases, and the next release frees it and takes it off the client's count of handles.
\<close>

theorem handle_freed_by_last_release:
  assumes "ph_heap c l = None" "n + 1 < 2 ^ 64"
  shows "\<exists>c1 c2 c3 c4. sdskv_provider_handle_create (Some c) (Some l) hg_success addr pid
        = (Some c1, rc SDSKV_SUCCESS, Some l)
    \<and> times_call n (\<lambda>c. sdskv_provider_handle_ref_incr c (Some l)) c1 = Some c2
    \<and> times_call n (\<lambda>c. sdskv_provider_handle_release c (Some l)) c2 = Some c3 \<and> ph_heap c3 l \<noteq> None
    \<and> sdskv_provider_handle_release c3 (Some l) = Some (c4, rc SDSKV_SUCCESS)
    \<and> ph_heap c4 = ph_heap c \<and> num_provider_handles c4 = num_provider_handles c"
proof -
  define h where "h = \<lparr>ph_addr = addr, ph_provider_id = pid, ph_refcount = 1\<rparr>"
  define c1 where "c1 = c\<lparr>num_provider_handles := num_provider_handles c + 1, ph_heap := (ph_heap c)(l \<mapsto> h)\<rparr>"
  have create: "sdskv_provider_handle_create (Some c) (Some l) hg_success addr pid = (Some c1, rc SDSKV_SUCCESS, Some l)"
    by (simp add: sdskv_provider_handle_create_def c1_def h_def)
  have h1: "ph_heap c1 l = Some h" by (simp add: c1_def)
  obtain c2 where c2: "times_call n (\<lambda>c. sdskv_provider_handle_ref_incr c (Some l)) c1 = Some c2"
      "ph_heap c2 = (ph_heap c1)(l \<mapsto> h\<lparr>ph_refcount := 1 + of_nat n\<rparr>)"
      "num_provider_handles c2 = num_provider_handles c1"
    using ref_incr_times [OF h1, of n] by (auto simp: h_def)
  have h2: "ph_heap c2 l = Some (h\<lparr>ph_refcount := 1 + of_nat n\<rparr>)" using c2(2) by simp
  have "unat (of_nat (n + 1) :: 64 word) = n + 1" using assms(2) by (simp add: unat_of_nat take_bit_nat_eq_self del: of_nat_add of_nat_Suc)
  then have u: "n < unat (ph_refcount (h\<lparr>ph_refcount := 1 + of_nat n\<rparr>))" by (simp add: add.commute)
  obtain c3 where c3: "times_call n (\<lambda>c. sdskv_provider_handle_release c (Some l)) c2 = Some c3"
      "ph_heap c3 = (ph_heap c2)(l \<mapsto> h\<lparr>ph_refcount := 1\<rparr>)" "num_provider_handles c3 = num_provider_handles c2"
    using release_times [OF h2 u] by auto
  have h3: "ph_heap c3 l = Some (h\<lparr>ph_refcount := 1\<rparr>)" using c3(2) by simp
  note release_last [OF h3]
  then show ?thesis
    using create c2 c3 h3 assms(1) by (simp add: c1_def fun_upd_idem)
qed

theorem handle_freed_by_last_release_witness:
  "\<exists>c1 c2 c3 c4. sdskv_provider_handle_create (Some (fst sdskv_client_init)) (Some 64) hg_success 7 3
        = (Some c1, rc SDSKV_SUCCESS, Some 64)
    \<and> times_call 2 (\<lambda>c. sdskv_provider_handle_ref_incr c (Some 64)) c1 = Some c2
    \<and> times_call 2 (\<lambda>c. sdskv_provider_handle_release c (Some 64)) c2 = Some c3 \<and> ph_heap c3 64 \<noteq> None
    \<and> sdskv_provider_handle_release c3 (Some 64) = Some (c4, rc SDSKV_SUCCESS)
    \<and> ph_heap c4 = Map.empty \<and> num_provider_handles c4 = 0"
  using handle_freed_by_last_release [of "fst sdskv_client_init" 64 2 7 3] by (simp add: sdskv_client_init_def)

section \<open>Errors\<close>

text \<open>
  A request on an id with no database changes nothing and reports \<open>SDSKV_ERR_UNKNOWN_DB\<close>, for every
  single-key operation and whichever protocol the sizes select.
\<close>

theorem unknown_database:
  assumes "find_db p i = None" "margo_reliable M" "client_reliable C" "m \<le> length buf"
  shows "sdskv_put C (sdskv_service M store_vtable U) (Some p) i k v = Some (Some p, rc SDSKV_ERR_UNKNOWN_DB)
    \<and> sdskv_erase C (sdskv_service M store_vtable U) (Some p) i k = Some (Some p, rc SDSKV_ERR_UNKNOWN_DB)
    \<and> sdskv_length C (sdskv_service M store_vtable U) (Some p) i k n = Some (Some p, rc SDSKV_ERR_UNKNOWN_DB, n)
    \<and> (\<exists>f'. sdskv_exists C (sdskv_service M store_vtable U) (Some p) i k f = Some (Some p, rc SDSKV_ERR_UNKNOWN_DB, f'))
    \<and> (\<exists>m'. sdskv_get C (sdskv_service M store_vtable U) (Some p) i k (Some buf) m
        = Some (Some p, rc SDSKV_ERR_UNKNOWN_DB, Some buf, m'))"
  using client_unknown_db [OF refl assms(1-3)] assms(4) by simp

theorem unknown_database_witness:
  "sdskv_put ideal_client sample_service (Some (sample_provider [] False)) 5 [1] [2]
   = Some (Some (sample_provider [] False), rc SDSKV_ERR_UNKNOWN_DB)"
  using unknown_database [OF _ sample_reliable, of "sample_provider [] False" 5 0 "[]" sample_uninit "[1]" "[2]"]
  by (simp add: sample_find)

text \<open>
  \<open>put_multi\<close> can report success although a pair was refused: on a database that refuses overwriting, a key
  that exists followed by one that does not gives \<open>SDSKV_SUCCESS\<close>, because the loop resets the error of the
  first put at the second one.
\<close>

theorem put_multi_hides_refusal:
  assumes "serves store_inv store_abs st i a" "margo_reliable M" "client_reliable C"
    and "fits64 [k1, k2]" "fits64 [v1, v2]" "k1 \<noteq> []" "k2 \<noteq> []"
    and "kv_no_overwrite a" "kv_map a k1 = Some w" "kv_map a k2 = None"
  shows "\<exists>st'. sdskv_put_multi C (sdskv_service M store_vtable U) ret0 st i [k1, k2] [v1, v2] = Some (st', rc SDSKV_SUCCESS)
    \<and> serves store_inv store_abs st' i (a\<lparr>kv_map := (kv_map a)(k2 \<mapsto> v2)\<rparr>)"
  using store_ds.client_put_multi [OF assms(1-3), of "[v1, v2]" "[k1, k2]" U ret0] assms(4-10)
  by (auto simp: kv_put_def)

theorem put_multi_hides_refusal_witness:
  "\<exists>st'. sdskv_put_multi ideal_client sample_service 0 (Some (sample_provider [([1], [9])] True)) 4096 [[1], [2]] [[5], [6]]
      = Some (st', rc SDSKV_SUCCESS)
    \<and> serves store_inv store_abs st' 4096 \<lparr>kv_map = [[1] \<mapsto> [9], [2] \<mapsto> [6]], kv_no_overwrite = True\<rparr>"
  using put_multi_hides_refusal [OF sample_serves [of "[([1], [9])]" True] sample_reliable, of "[1]" "[2]" "[5]" "[6]" "[9]"
      sample_uninit 0]
  by (simp add: om_sorted_def fits64_def)

text \<open>
  C34. \<open>get_packed\<close> overruns the server's buffer: the memory it counts as available is not reduced by what it has
  packed, so two values that fit one by one but not together are written past the end.
\<close>

theorem get_packed_overruns:
  assumes "serves store_inv store_abs st i a" "margo_reliable M" "client_reliable C"
    and "kv_map a k1 = Some v1" "kv_map a k2 = Some v2"
    and "length v1 \<le> n" "length v2 \<le> n" "n < length v1 + length v2" "n + 16 < 2 ^ 64"
    and "fits64 [k1, k2]" "length buf = n" "length vsizes = 2"
  shows "sdskv_get_packed C (sdskv_service M store_vtable U) st i 2 (k1 @ k2) [length k1, length k2] n buf vsizes = None"
  by (rule store_ds.client_get_packed_overflow [OF assms])

theorem get_packed_overruns_witness:
  "sdskv_get_packed ideal_client sample_service (Some (sample_provider [([1], [7, 7]), ([2], [8, 8])] False)) 4096
     2 [1, 2] [1, 1] 3 [0, 0, 0] [0, 0] = None"
  using get_packed_overruns [OF sample_serves [of "[([1], [7, 7]), ([2], [8, 8])]" False] sample_reliable,
      of "[1]" "[7, 7]" "[2]" "[8, 8]" 3 "[0, 0, 0]" "[0, 0]" sample_uninit]
  by (simp add: om_sorted_def ds_bulk_less_def fits64_def)

text \<open>
  \<open>list_keyvals\<close> reports success for a value larger than its buffer: the value runs over into the buffer
  that follows and the \<open>SDSKV_ERR_SIZE\<close> the handler had set is replaced by \<open>SDSKV_SUCCESS\<close>.
\<close>

theorem list_keyvals_overruns:
  assumes "st = Some p" "find_db p i = Some db" "listed_inv db" "margo_reliable M" "client_reliable C"
    and "store_entries db = [(k, v1 @ v2)]"
    and "length k \<le> length k1" "fits64 [k1, k2]"
    and "length v1 = length b1" "v2 \<noteq> []" "length v2 \<le> length b2" "fits64 [b1, b2]"
  shows "sdskv_list_keyvals C (sdskv_service M store_vtable U) st i [] (Some [Some k1, Some k2]) [length k1, length k2]
      (Some [Some b1, Some b2]) [length b1, length b2] 2
    = Some (st, rc SDSKV_SUCCESS, Some [Some (k @ drop (length k) k1), Some k2], [length k, 0],
        Some [Some v1, Some (v2 @ drop (length v2) b2)], [length v1 + length v2, 0], 1)"
proof -
  have found: "vt_vlist_keyvals store_vtable db [] 2 [] = Some [(k, v1 @ v2)]"
    using store_list_no_prefix(1) [OF assms(3), of "[]"] assms(6) by simp
  have "length k < 2 ^ 64" using assms(7,8) by (simp add: fits64_def)
  then show ?thesis
    unfolding sdskv_list_keyvals_def
    by (rule client_list_keyvals_overrun [OF assms(1,4,5,2) found assms(7,8) _ assms(9-12)])
qed

theorem list_keyvals_overruns_witness:
  "sdskv_list_keyvals ideal_client sample_service (Some (sample_provider [([1], [5, 6])] False)) 4096 []
     (Some [Some [0], Some [0]]) [1, 1] (Some [Some [0], Some [0]]) [1, 1] 2
   = Some (Some (sample_provider [([1], [5, 6])] False), rc SDSKV_SUCCESS, Some [Some [1], Some [0]], [1, 0],
       Some [Some [5], Some [6]], [2, 0], 1)"
proof -
  have srt: "om_sorted ds_bulk_less [([1], [5, 6])]" by (simp add: om_sorted_def)
  show ?thesis
    using list_keyvals_overruns [OF refl _ sample_listed_inv [OF srt, of False] sample_reliable, of
        "sample_provider [([1], [5, 6])] False" 4096 "[1]" "[5]" "[6]" "[0]" "[0]" "[0]" "[0]" sample_uninit]
    by (simp add: sample_find store_entries_def sample_store_def fits64_def flip: numeral_2_eq_2)
qed

text \<open>
  When the handle of a \<open>put_multi\<close> cannot be created, nothing is sent and the function returns the
  variable it never initialised, which may be \<open>SDSKV_SUCCESS\<close>; \<open>put_packed\<close> in the same situation frees its
  bulk handle twice.
\<close>

theorem transport_failure_misreported:
  assumes "\<forall>i. cl_bulk_create C i = hg_success" "cl_create C \<noteq> hg_success"
    and "length keys + 1 < 2 ^ 31" "[] \<notin> set keys" "length vals = length keys"
    and "sum_list (map length keys) < 2 ^ 64" "sum_list (map length vals) < 2 ^ 64"
  shows "sdskv_put_multi C S ret0 st i keys vals = Some (st, ret0)
    \<and> sdskv_put_packed C S st i (length keys) (concat keys) (map length keys) (concat vals) (map length vals) = None"
proof -
  have "\<not> list_ex (\<lambda>k. length k = 0) keys" using assms(4) by (auto simp: list_ex_iff)
  then have "sdskv_put_multi C S ret0 st i keys vals = Some (st, ret0)"
    using assms(1-3) by (simp add: sdskv_put_multi_def int_loop_def rpc_def Let_def)
  moreover have "wrap64 (sum_list (map length keys)) = length (concat keys)"
    "wrap64 (sum_list (map length vals)) = length (concat vals)"
    using assms(6,7) by (simp_all add: length_concat)
  ultimately show ?thesis
    using assms(1,2,3,5)
    by (simp add: sdskv_put_packed_def sdskv_proxy_put_packed_def rpc_def buffer_simps Let_def)
qed

theorem transport_failure_misreported_witness:
  "sdskv_put_multi (ideal_client\<lparr>cl_create := 12\<rparr>) sample_service 0 (Some (sample_provider [] False)) 4096 [[1]] [[2]]
   = Some (Some (sample_provider [] False), rc SDSKV_SUCCESS)"
  using transport_failure_misreported [of "ideal_client\<lparr>cl_create := 12\<rparr>" "[[1]]" "[[2]]" sample_service 0
      "Some (sample_provider [] False)" 4096]
  by (simp add: ideal_client_def)

text \<open>
  Two databases attached under one name: the name leads to the second; once the first is removed the second
  is still open but no name leads to it any more.
\<close>

theorem duplicate_name_unreachable:
  assumes "provider_inv p" "i \<noteq> j" "cfg_db_name c2 = cfg_db_name c1" "cfg_db_type c1 = KVDB_MAP" "cfg_db_type c2 = KVDB_MAP"
    and "attach_comp_fn p c1 = Inr f1" "attach_comp_fn p c2 = Inr f2"
    and "p1 = fst (sdskv_provider_attach_database store_vtable open_datastore p c1 i)"
    and "p2 = fst (sdskv_provider_attach_database store_vtable open_datastore p1 c2 j)"
    and "p3 = fst (sdskv_provider_remove_database p2 i)"
  shows "find_name p2 (cfg_db_name c1) = Some j \<and> find_db p3 j \<noteq> None \<and> find_name p3 (cfg_db_name c1) = None"
proof -
  obtain db1 db2 where "open_datastore (cfg_db_type c1) (cfg_db_name c1) (cfg_db_path c1) = Some db1"
      "open_datastore (cfg_db_type c2) (cfg_db_name c1) (cfg_db_path c2) = Some db2"
    using assms(4,5) by (simp add: open_datastore_def open_map_datastore_def map_openDatabase_def)
  from duplicate_name_lost [OF assms(1-3,6,7) this assms(8-10)] show ?thesis by simp
qed

theorem duplicate_name_unreachable_witness:
  "find_name (fst (sdskv_provider_remove_database
      (fst (sdskv_provider_attach_database store_vtable open_datastore
        (fst (sdskv_provider_attach_database store_vtable open_datastore provider_new sample_config 4096))
        sample_config 8192)) 4096)) ''db'' = None"
  using duplicate_name_unreachable [OF provider_inv_new, of 4096 8192 sample_config sample_config None None, OF _ _ _ _ _ _ refl refl refl]
  by (simp add: sample_config_def attach_comp_fn_def)

end
